(* ===== verification/Prelude.thy ===== *)
theory Prelude
  imports Main "HOL-Library.Char_ord" "HOL-Library.List_Lexorder" "HOL-Library.Option_ord"
    "HOL-Library.Product_Lexorder"
begin

text \<open>
  What the components share: the parts of Rust's standard library the modelled code uses
  (three-way comparison, string functions, stable sorting, ordered and hashed maps) and the
  generic facts about them.

  A Rust \<^verbatim>\<open>String\<close> is the list of its UTF-8 bytes, one \<^typ>\<open>char\<close> each; the order of
  \<^verbatim>\<open>str\<close> is the lexicographic order of its bytes, which is the order
  \<^theory_text>\<open>HOL-Library.List_Lexorder\<close> gives lists of characters.
\<close>

named_theorems str_simps \<open>unfolding the string functions on closed strings\<close>
named_theorems store_simps \<open>lookups after updates of the modelled maps\<close>

type_synonym str = string

section \<open>Three-way comparison\<close>

text \<open>\<^verbatim>\<open>std::cmp::Ordering\<close> and its \<^verbatim>\<open>then_with\<close> and \<^verbatim>\<open>reverse\<close>.\<close>

datatype ordering = Less | Equal | Greater

fun then_with :: "ordering \<Rightarrow> ordering \<Rightarrow> ordering" where
  "then_with Equal o2 = o2"
| "then_with o1 _ = o1"

fun flip :: "ordering \<Rightarrow> ordering" where
  "flip Less = Greater"
| "flip Equal = Equal"
| "flip Greater = Less"

definition cmp :: "'a::linorder \<Rightarrow> 'a \<Rightarrow> ordering" where
  "cmp a b = (if a < b then Less else if b < a then Greater else Equal)"

lemma cmp_eq_simps [simp]:
  "cmp a b = Equal \<longleftrightarrow> a = b"
  "cmp a b = Less \<longleftrightarrow> a < b"
  "cmp a b = Greater \<longleftrightarrow> b < a"
  "Equal = cmp a b \<longleftrightarrow> a = b"
  by (auto simp: cmp_def)

lemma cmp_flip: "cmp b a = flip (cmp a b)"
  by (auto simp: cmp_def)

lemma flip_flip [simp]: "flip (flip x) = x"
  by (cases x) auto

lemma flip_eq_simps [simp]:
  "flip x = Equal \<longleftrightarrow> x = Equal"
  "flip x = Less \<longleftrightarrow> x = Greater"
  "flip x = Greater \<longleftrightarrow> x = Less"
  by (cases x; simp)+

lemma flip_then_with: "flip (then_with x y) = then_with (flip x) (flip y)"
  by (cases x) auto

lemma then_with_eq_simps [simp]:
  "then_with x y = Equal \<longleftrightarrow> x = Equal \<and> y = Equal"
  "then_with x y = Less \<longleftrightarrow> x = Less \<or> (x = Equal \<and> y = Less)"
  "then_with x y = Greater \<longleftrightarrow> x = Greater \<or> (x = Equal \<and> y = Greater)"
  by (cases x; auto)+

section \<open>Strings\<close>

definition starts_with :: "str \<Rightarrow> str \<Rightarrow> bool" where
  "starts_with p s \<longleftrightarrow> take (length p) s = p"

definition ends_with :: "str \<Rightarrow> str \<Rightarrow> bool" where
  "ends_with p s \<longleftrightarrow> starts_with (rev p) (rev s)"

definition strip_prefix :: "str \<Rightarrow> str \<Rightarrow> str option" where
  "strip_prefix p s = (if starts_with p s then Some (drop (length p) s) else None)"

definition strip_suffix :: "str \<Rightarrow> str \<Rightarrow> str option" where
  "strip_suffix p s = (if ends_with p s then Some (take (length s - length p) s) else None)"

lemma starts_with_append [simp]: "starts_with p (p @ s)"
  by (simp add: starts_with_def)

lemma starts_with_iff: "starts_with p s \<longleftrightarrow> (\<exists>r. s = p @ r)"
  by (metis append_take_drop_id starts_with_append starts_with_def)

lemma starts_with_code [code]:
  "starts_with [] s = True"
  "starts_with (c # p) [] = False"
  "starts_with (c # p) (d # s) = (c = d \<and> starts_with p s)"
  by (auto simp: starts_with_def)

lemma starts_with_simps [simp]:
  "starts_with [] s"
  "\<not> starts_with (c # p) []"
  "starts_with (c # p) (d # s) \<longleftrightarrow> c = d \<and> starts_with p s"
  by (auto simp: starts_with_def)

lemma strip_prefix_Some: "strip_prefix p s = Some r \<longleftrightarrow> s = p @ r"
  by (auto simp: strip_prefix_def starts_with_iff)

lemma ends_with_iff: "ends_with p s \<longleftrightarrow> (\<exists>r. s = r @ p)"
  unfolding ends_with_def starts_with_iff
  by (metis rev_append rev_rev_ident)

lemma strip_suffix_Some: "strip_suffix p s = Some r \<longleftrightarrow> s = r @ p"
  by (auto simp: strip_suffix_def ends_with_iff)

text \<open>
  \<^verbatim>\<open>str::split_once\<close> with a string pattern: the text before the first occurrence and the
  text after it. \<^verbatim>\<open>str::find\<close>, \<^verbatim>\<open>str::contains\<close> and \<^verbatim>\<open>str::replace\<close> are read off it.
\<close>

fun split_once :: "str \<Rightarrow> str \<Rightarrow> (str \<times> str) option" where
  "split_once p [] = (if p = [] then Some ([], []) else None)"
| "split_once p (c # s) =
     (if starts_with p (c # s) then Some ([], drop (length p) (c # s))
      else map_option (\<lambda>(a, b). (c # a, b)) (split_once p s))"

definition contains :: "str \<Rightarrow> str \<Rightarrow> bool" where
  "contains p s \<longleftrightarrow> split_once p s \<noteq> None"

lemma split_once_Some: "split_once p s = Some (a, b) \<Longrightarrow> s = a @ p @ b"
proof (induction p s arbitrary: a b rule: split_once.induct)
  case (1 p)
  then show ?case by (auto split: if_splits)
next
  case (2 p c s)
  then show ?case by (auto simp: starts_with_iff split: if_splits)
qed

lemma split_once_length: "split_once p s = Some (a, b) \<Longrightarrow> p \<noteq> [] \<Longrightarrow> length b < length s"
  by (drule split_once_Some) auto

lemma split_once_None: "split_once p s = None \<longleftrightarrow> (\<nexists>a b. s = a @ p @ b)"
proof (induction p s rule: split_once.induct)
  case (1 p)
  then show ?case by auto
next
  case (2 p c s)
  show ?case
  proof (cases "starts_with p (c # s)")
    case True
    then have "\<exists>a b. c # s = a @ p @ b" by (metis append_Nil starts_with_iff)
    with True show ?thesis by simp
  next
    case False
    then have "(\<exists>a b. c # s = a @ p @ b) \<longleftrightarrow> (\<exists>a b. s = a @ p @ b)"
      by (auto simp: starts_with_iff Cons_eq_append_conv)
    with 2 False show ?thesis by simp
  qed
qed

lemma contains_iff: "contains p s \<longleftrightarrow> (\<exists>a b. s = a @ p @ b)"
  by (simp add: contains_def split_once_None)

text \<open>\<^verbatim>\<open>str::split\<close> and \<^verbatim>\<open>splitn(3, c)\<close> on one character, and joining.\<close>

fun split_on :: "char \<Rightarrow> str \<Rightarrow> str list" where
  "split_on c [] = [[]]"
| "split_on c (x # s) =
     (if x = c then [] # split_on c s
      else (case split_on c s of [] \<Rightarrow> [[x]] | w # ws \<Rightarrow> (x # w) # ws))"

lemma split_on_nonempty [simp]: "split_on c s \<noteq> []"
  by (induction s) (auto split: list.splits)

fun join_with :: "str \<Rightarrow> str list \<Rightarrow> str" where
  "join_with sep [] = []"
| "join_with sep [w] = w"
| "join_with sep (w # v # ws) = w @ sep @ join_with sep (v # ws)"

lemma join_with_Cons: "ws \<noteq> [] \<Longrightarrow> join_with sep (w # ws) = w @ sep @ join_with sep ws"
  by (cases ws) auto

lemma join_split_on: "join_with [c] (split_on c s) = s"
proof (induction s)
  case (Cons x s)
  then show ?case
    by (cases "split_on c s") (auto simp: join_with_Cons, (cases "tl (split_on c s)"; auto)+)
qed simp

lemma split_on_no_sep: "c \<notin> set s \<Longrightarrow> split_on c s = [s]"
  by (induction s) auto

lemma split_on_append: "c \<notin> set w \<Longrightarrow> split_on c (w @ c # s) = w # split_on c s"
  by (induction w) auto

lemma split_on_parts: "w \<in> set (split_on c s) \<Longrightarrow> c \<notin> set w"
proof (induction s arbitrary: w)
  case (Cons x s)
  then show ?case by (auto split: if_splits list.splits)
qed simp

lemma split_on_join:
  "ws \<noteq> [] \<Longrightarrow> (\<And>w. w \<in> set ws \<Longrightarrow> c \<notin> set w) \<Longrightarrow> split_on c (join_with [c] ws) = ws"
proof (induction "[c]" ws rule: join_with.induct)
  case (3 w v ws)
  then show ?case by (simp add: split_on_append)
qed (auto simp: split_on_no_sep)

lemma split_on_append2: "split_on c (a @ c # b) = split_on c a @ split_on c b"
proof (induction a)
  case (Cons x a)
  then show ?case by (cases "split_on c a") auto
qed simp

definition splitn :: "nat \<Rightarrow> char \<Rightarrow> str \<Rightarrow> str list" where
  "splitn n c s = (let ws = split_on c s in
     if length ws \<le> n then ws else take (n - 1) ws @ [join_with [c] (drop (n - 1) ws)])"

lemma splitn_no_sep: "c \<notin> set s \<Longrightarrow> 0 < n \<Longrightarrow> splitn n c s = [s]"
  by (simp add: splitn_def split_on_no_sep)

lemma splitn_append:
  assumes "c \<notin> set w" and "1 < n"
  shows "splitn n c (w @ c # s) = w # splitn (n - 1) c s"
proof -
  obtain m where n: "n = Suc (Suc m)" using assms(2) by (metis Suc_lessE less_natE add_Suc_right plus_1_eq_Suc)
  show ?thesis using assms(1) by (simp add: n splitn_def split_on_append Let_def)
qed

lemma splitn_one: "splitn 1 c s = [s]"
proof (cases "length (split_on c s) \<le> 1")
  case True
  then obtain w where "split_on c s = [w]"
    by (metis One_nat_def le_Suc_eq le_zero_eq length_0_conv length_Suc_conv split_on_nonempty)
  with join_split_on [of c s] show ?thesis by (simp add: splitn_def)
next
  case False
  then show ?thesis by (simp add: splitn_def join_split_on)
qed

text \<open>\<^verbatim>\<open>str::replace\<close> of a non-empty pattern, from left to right.\<close>

function replace_all :: "str \<Rightarrow> str \<Rightarrow> str \<Rightarrow> str" where
  "replace_all p r s =
     (if p = [] then s else
      case split_once p s of None \<Rightarrow> s | Some (a, b) \<Rightarrow> a @ r @ replace_all p r b)"
  by pat_completeness auto
termination
  by (relation "measure (\<lambda>(p, r, s). length s)") (auto dest: split_once_length)

declare replace_all.simps [simp del]

lemma replace_all_absent: "\<not> contains p s \<Longrightarrow> replace_all p r s = s"
  unfolding contains_def by (subst replace_all.simps) (simp del: not_None_eq)

text \<open>ASCII classes and case.\<close>

definition digits_ascii :: str where "digits_ascii = ''0123456789''"
definition upper_ascii :: str where "upper_ascii = ''ABCDEFGHIJKLMNOPQRSTUVWXYZ''"
definition lower_ascii :: str where "lower_ascii = ''abcdefghijklmnopqrstuvwxyz''"

definition is_ascii_digit :: "char \<Rightarrow> bool" where
  "is_ascii_digit c \<longleftrightarrow> c \<in> set digits_ascii"

definition is_ascii_alphanumeric :: "char \<Rightarrow> bool" where
  "is_ascii_alphanumeric c \<longleftrightarrow>
     c \<in> set digits_ascii \<or> c \<in> set upper_ascii \<or> c \<in> set lower_ascii"

definition to_lower :: "char \<Rightarrow> char" where
  "to_lower c = (case map_of (zip upper_ascii lower_ascii) c of None \<Rightarrow> c | Some l \<Rightarrow> l)"

definition to_ascii_lowercase :: "str \<Rightarrow> str" where
  "to_ascii_lowercase s = map to_lower s"

lemmas ascii_defs [str_simps] =
  is_ascii_digit_def is_ascii_alphanumeric_def to_ascii_lowercase_def to_lower_def
  digits_ascii_def upper_ascii_def lower_ascii_def

text \<open>
  \<^verbatim>\<open>str::trim\<close> removes the characters with the Unicode property White\_Space, given here by
  their UTF-8 encodings.
\<close>

definition white_space :: "str list" where
  "white_space =
     [[CHR 0x09], [CHR 0x0A], [CHR 0x0B], [CHR 0x0C], [CHR 0x0D], [CHR 0x20],
      [CHR 0xC2, CHR 0x85], [CHR 0xC2, CHR 0xA0], [CHR 0xE1, CHR 0x9A, CHR 0x80],
      [CHR 0xE2, CHR 0x80, CHR 0x80], [CHR 0xE2, CHR 0x80, CHR 0x81],
      [CHR 0xE2, CHR 0x80, CHR 0x82], [CHR 0xE2, CHR 0x80, CHR 0x83],
      [CHR 0xE2, CHR 0x80, CHR 0x84], [CHR 0xE2, CHR 0x80, CHR 0x85],
      [CHR 0xE2, CHR 0x80, CHR 0x86], [CHR 0xE2, CHR 0x80, CHR 0x87],
      [CHR 0xE2, CHR 0x80, CHR 0x88], [CHR 0xE2, CHR 0x80, CHR 0x89],
      [CHR 0xE2, CHR 0x80, CHR 0x8A], [CHR 0xE2, CHR 0x80, CHR 0xA8],
      [CHR 0xE2, CHR 0x80, CHR 0xA9], [CHR 0xE2, CHR 0x80, CHR 0xAF],
      [CHR 0xE2, CHR 0x81, CHR 0x9F], [CHR 0xE3, CHR 0x80, CHR 0x80]]"

lemma white_space_nonempty: "w \<in> set white_space \<Longrightarrow> w \<noteq> []"
  by (auto simp: white_space_def)

function trim_by :: "str list \<Rightarrow> str \<Rightarrow> str" where
  "trim_by ws s =
     (case find (\<lambda>w. w \<noteq> [] \<and> starts_with w s) ws of
        None \<Rightarrow> s
      | Some w \<Rightarrow> trim_by ws (drop (length w) s))"
  by pat_completeness auto
termination
  by (relation "measure (\<lambda>(ws, s). length s)") (auto simp: find_Some_iff starts_with_iff)

declare trim_by.simps [simp del]

definition trim_start :: "str \<Rightarrow> str" where
  "trim_start s = trim_by white_space s"

definition trim_end :: "str \<Rightarrow> str" where
  "trim_end s = rev (trim_by (map rev white_space) (rev s))"

definition trim :: "str \<Rightarrow> str" where
  "trim s = trim_end (trim_start s)"

lemma trim_by_Nil [simp]: "trim_by ws [] = []"
proof -
  have "find (\<lambda>w. w \<noteq> [] \<and> starts_with w []) ws = None"
    by (auto simp: find_None_iff starts_with_iff)
  then show ?thesis by (subst trim_by.simps) simp
qed

lemma trim_by_length: "length (trim_by ws s) \<le> length s"
proof (induction ws s rule: trim_by.induct)
  case (1 ws s)
  then show ?case
    by (subst trim_by.simps) (fastforce split: option.splits)
qed

lemma trim_by_fixed: "(\<And>w. w \<in> set ws \<Longrightarrow> w \<noteq> [] \<Longrightarrow> \<not> starts_with w s) \<Longrightarrow> trim_by ws s = s"
  by (subst trim_by.simps) (auto split: option.splits simp: find_Some_iff)

text \<open>Decimal notation of natural numbers, as \<^verbatim>\<open>Display\<close> and \<^verbatim>\<open>parse\<close> have it.\<close>

definition digit_of :: "nat \<Rightarrow> char" where
  "digit_of d = digits_ascii ! d"

definition digit_value :: "char \<Rightarrow> nat option" where
  "digit_value c = map_of (zip digits_ascii [0, 1, 2, 3, 4, 5, 6, 7, 8, 9]) c"

fun dec :: "nat \<Rightarrow> str" where
  "dec n = (if n < 10 then [digit_of n] else dec (n div 10) @ [digit_of (n mod 10)])"

declare dec.simps [simp del]

definition undec :: "str \<Rightarrow> nat" where
  "undec s = foldl (\<lambda>n c. 10 * n + (case digit_value c of None \<Rightarrow> 0 | Some d \<Rightarrow> d)) 0 s"

lemma less_10_cases:
  "(d :: nat) < 10 \<Longrightarrow> d = 0 \<or> d = 1 \<or> d = 2 \<or> d = 3 \<or> d = 4 \<or> d = 5 \<or> d = 6 \<or> d = 7 \<or> d = 8 \<or> d = 9"
  by auto

lemma digit_value_digit_of: "d < 10 \<Longrightarrow> digit_value (digit_of d) = Some d"
  by (drule less_10_cases) (elim disjE; simp add: digit_value_def digit_of_def digits_ascii_def)

lemma is_ascii_digit_digit_of: "d < 10 \<Longrightarrow> is_ascii_digit (digit_of d)"
  by (drule less_10_cases)
    (elim disjE; simp add: is_ascii_digit_def digit_of_def digits_ascii_def)

lemma dec_digits: "\<forall>c \<in> set (dec n). is_ascii_digit c"
proof (induction n rule: dec.induct)
  case (1 n)
  then show ?case
    by (subst dec.simps) (auto simp: is_ascii_digit_digit_of)
qed

lemma dec_nonempty [simp]: "dec n \<noteq> []"
  by (subst dec.simps) simp

lemma undec_dec: "undec (dec n) = n"
proof (induction n rule: dec.induct)
  case (1 n)
  then show ?case
    by (subst dec.simps) (auto simp: undec_def digit_value_digit_of)
qed

lemma dec_inject [simp]: "dec m = dec n \<longleftrightarrow> m = n"
  by (metis undec_dec)

lemma digit_value_le: "digit_value c = Some d \<Longrightarrow> d \<le> 9"
  by (auto simp: digit_value_def digits_ascii_def split: if_splits)

lemma undec_bound: "undec s < 10 ^ length s"
proof (induction s rule: rev_induct)
  case (snoc c s)
  then have "10 * undec s + 9 < 10 ^ length (s @ [c])" by simp
  then show ?case
    using digit_value_le [of c] by (fastforce simp: undec_def split: option.splits)
qed (simp add: undec_def)

section \<open>Sorting and deduplication\<close>

text \<open>
  \<^verbatim>\<open>slice::sort_by\<close>: a stable sort by a three-way comparison. On a comparison that is no
  total order Rust leaves the resulting order open; the properties below ask for one.
\<close>

fun insert_by :: "('a \<Rightarrow> 'a \<Rightarrow> ordering) \<Rightarrow> 'a \<Rightarrow> 'a list \<Rightarrow> 'a list" where
  "insert_by c x [] = [x]"
| "insert_by c x (y # ys) = (if c x y = Greater then y # insert_by c x ys else x # y # ys)"

fun sort_by :: "('a \<Rightarrow> 'a \<Rightarrow> ordering) \<Rightarrow> 'a list \<Rightarrow> 'a list" where
  "sort_by c [] = []"
| "sort_by c (x # xs) = insert_by c x (sort_by c xs)"

lemma set_insert_by [simp]: "set (insert_by c x xs) = insert x (set xs)"
  by (induction xs) auto

lemma set_sort_by [simp]: "set (sort_by c xs) = set xs"
  by (induction xs) auto

lemma distinct_insert_by: "distinct (insert_by c x xs) \<longleftrightarrow> x \<notin> set xs \<and> distinct xs"
  by (induction xs) auto

lemma distinct_sort_by [simp]: "distinct (sort_by c xs) \<longleftrightarrow> distinct xs"
  by (induction xs) (auto simp: distinct_insert_by)

lemma length_insert_by [simp]: "length (insert_by c x xs) = Suc (length xs)"
  by (induction xs) auto

lemma length_sort_by [simp]: "length (sort_by c xs) = length xs"
  by (induction xs) auto

lemma sorted_insert_by:
  assumes "\<And>a b. c b a = flip (c a b)"
    and "\<And>a b d. c a b \<noteq> Greater \<Longrightarrow> c b d \<noteq> Greater \<Longrightarrow> c a d \<noteq> Greater"
    and "sorted_wrt (\<lambda>a b. c a b \<noteq> Greater) xs"
  shows "sorted_wrt (\<lambda>a b. c a b \<noteq> Greater) (insert_by c x xs)"
  using assms(3)
proof (induction xs)
  case (Cons y ys)
  have "c x y = Greater \<Longrightarrow> c y x \<noteq> Greater"
    using assms(1) [of y x] by (cases "c x y") auto
  with Cons show ?case by (auto dest: assms(2) [rotated])
qed simp

text \<open>\<^verbatim>\<open>Vec::dedup\<close> drops an element equal to the one before it.\<close>

fun dedup :: "'a list \<Rightarrow> 'a list" where
  "dedup [] = []"
| "dedup [x] = [x]"
| "dedup (x # y # ys) = (if x = y then dedup (y # ys) else x # dedup (y # ys))"

lemma set_dedup [simp]: "set (dedup xs) = set xs"
  by (induction xs rule: dedup.induct) auto

lemma hd_dedup: "xs \<noteq> [] \<Longrightarrow> dedup xs \<noteq> [] \<and> hd (dedup xs) = hd xs"
  by (induction xs rule: dedup.induct) auto

lemma distinct_dedup: "sorted (xs :: 'a::linorder list) \<Longrightarrow> distinct (dedup xs)"
  by (induction xs rule: dedup.induct) (auto simp: order.antisym)

section \<open>Maps\<close>

text \<open>
  The interface of a keyed store: what an entry holds after another was written. The maps of
  the program are read and written through it.
\<close>

locale keyed_store =
  fixes put :: "'k \<Rightarrow> 'v \<Rightarrow> 'm \<Rightarrow> 'm"
    and get :: "'m \<Rightarrow> 'k \<Rightarrow> 'v option"
    and inv :: "'m \<Rightarrow> bool"
  assumes get_put: "inv m \<Longrightarrow> get (put k v m) k' = (if k' = k then Some v else get m k')"
    and inv_put: "inv m \<Longrightarrow> inv (put k v m)"
begin

definition or_insert :: "'k \<Rightarrow> 'v \<Rightarrow> 'm \<Rightarrow> 'm" where
  "or_insert k v m = (case get m k of None \<Rightarrow> put k v m | Some _ \<Rightarrow> m)"

lemma get_or_insert:
  "inv m \<Longrightarrow> get (or_insert k v m) k' =
     (case get m k' of Some w \<Rightarrow> Some w | None \<Rightarrow> if k' = k then Some v else None)"
  by (auto simp: or_insert_def get_put split: option.splits)

lemma inv_or_insert: "inv m \<Longrightarrow> inv (or_insert k v m)"
  by (auto simp: or_insert_def inv_put split: option.splits)

lemma inv_fold_put: "inv m \<Longrightarrow> inv (fold (\<lambda>(k, v). put k v) kvs m)"
  by (induction kvs arbitrary: m) (auto simp: inv_put)

lemma get_fold_put:
  "inv m \<Longrightarrow> get (fold (\<lambda>(k, v). put k v) kvs m) k =
     (case map_of (rev kvs) k of Some v \<Rightarrow> Some v | None \<Rightarrow> get m k)"
proof (induction kvs arbitrary: m)
  case (Cons kv kvs)
  then show ?case
    by (cases kv) (auto simp: get_put inv_put map_add_def split: option.splits)
qed simp

lemma inv_fold_or_insert: "inv m \<Longrightarrow> inv (fold (\<lambda>(k, v). or_insert k v) kvs m)"
  by (induction kvs arbitrary: m) (auto simp: inv_or_insert)

lemma get_fold_or_insert:
  "inv m \<Longrightarrow> get (fold (\<lambda>(k, v). or_insert k v) kvs m) k =
     (case get m k of Some v \<Rightarrow> Some v | None \<Rightarrow> map_of kvs k)"
proof (induction kvs arbitrary: m)
  case (Cons kv kvs)
  then show ?case
    by (cases kv) (auto simp: get_or_insert inv_or_insert split: option.splits)
qed (simp split: option.splits)

end

text \<open>
  \<^verbatim>\<open>HashMap\<close>: an association list with distinct keys, in insertion order. Iteration order
  is not specified by Rust; definitions that iterate over one say so, and their properties do
  not depend on it.
\<close>

fun hm_put :: "'k \<Rightarrow> 'v \<Rightarrow> ('k \<times> 'v) list \<Rightarrow> ('k \<times> 'v) list" where
  "hm_put k v [] = [(k, v)]"
| "hm_put k v ((k', v') # m) = (if k' = k then (k, v) # m else (k', v') # hm_put k v m)"

abbreviation hm_inv :: "('k \<times> 'v) list \<Rightarrow> bool" where
  "hm_inv m \<equiv> distinct (map fst m)"

lemma map_of_hm_put: "map_of (hm_put k v m) k' = (if k' = k then Some v else map_of m k')"
  by (induction k v m rule: hm_put.induct) auto

lemma keys_hm_put: "fst ` set (hm_put k v m) = insert k (fst ` set m)"
  by (induction k v m rule: hm_put.induct) auto

lemma hm_inv_hm_put: "hm_inv m \<Longrightarrow> hm_inv (hm_put k v m)"
proof (induction k v m rule: hm_put.induct)
  case (2 k v k' v' m)
  then show ?case using keys_hm_put [of k v m] by auto
qed simp

interpretation hm: keyed_store hm_put map_of hm_inv
  by unfold_locales (simp_all add: map_of_hm_put hm_inv_hm_put)

text \<open>\<^verbatim>\<open>BTreeMap\<close>: an association list sorted by key, which is the order it iterates in.\<close>

fun bt_put :: "'k::linorder \<Rightarrow> 'v \<Rightarrow> ('k \<times> 'v) list \<Rightarrow> ('k \<times> 'v) list" where
  "bt_put k v [] = [(k, v)]"
| "bt_put k v ((k', v') # m) =
     (if k < k' then (k, v) # (k', v') # m
      else if k = k' then (k, v) # m
      else (k', v') # bt_put k v m)"

abbreviation bt_inv :: "('k::linorder \<times> 'v) list \<Rightarrow> bool" where
  "bt_inv m \<equiv> sorted_wrt (<) (map fst m)"

lemma keys_bt_put: "fst ` set (bt_put k v m) = insert k (fst ` set m)"
  by (induction k v m rule: bt_put.induct) auto

lemma map_of_bt_put:
  "bt_inv m \<Longrightarrow> map_of (bt_put k v m) k' = (if k' = k then Some v else map_of m k')"
proof (induction k v m rule: bt_put.induct)
  case (2 k v k1 v1 m)
  then show ?case
    by (auto simp: map_of_eq_None_iff)
qed simp

lemma bt_inv_bt_put: "bt_inv m \<Longrightarrow> bt_inv (bt_put k v m)"
proof (induction k v m rule: bt_put.induct)
  case (2 k v k1 v1 m)
  have "set (map fst (bt_put k v m)) = insert k (set (map fst m))"
    using keys_bt_put [of k v m] by simp
  with 2 show ?case by (auto simp del: set_map)
qed simp

interpretation bt: keyed_store bt_put map_of bt_inv
  by unfold_locales (simp_all add: map_of_bt_put bt_inv_bt_put)

lemmas store_lookups [store_simps] =
  hm.get_put bt.get_put hm.get_or_insert bt.get_or_insert
  hm.get_fold_put bt.get_fold_put hm.get_fold_or_insert bt.get_fold_or_insert

lemma map_of_rev_distinct: "distinct (map fst kvs) \<Longrightarrow> map_of (rev kvs) = map_of kvs"
  by (rule ext) (simp add: map_of_eq_Some_iff distinct_map flip: not_None_eq, metis
      (no_types, lifting) distinct_map distinct_rev map_of_eq_Some_iff not_None_eq rev_map set_rev)

lemma bt_inv_distinct: "bt_inv m \<Longrightarrow> distinct (map fst m)"
  by (simp add: strict_sorted_iff)

text \<open>Iterating over a map while filling gaps of another is the store's \<open>or_insert\<close>.\<close>

lemma bt_or_insert_eq:
  "(\<lambda>(k, v) acc. if map_of acc k = None then bt_put k v acc else acc) = (\<lambda>(k, v). bt.or_insert k v)"
  by (auto simp: fun_eq_iff bt.or_insert_def split: option.splits)

section \<open>Results\<close>

text \<open>
  \<^verbatim>\<open>src/src/error.rs\<close>: the error type of every fallible operation. A message is the name of
  its fixed text with the values the text interpolates, in order; two messages of one kind are
  the same text exactly when the values are. An I/O error keeps its path.
\<close>

datatype message = Msg str "str list"

datatype jrs_error =
    UsageErr message
  | ManifestErr message
  | ToolchainErr message
  | ResolveErr message
  | BuildErr message
  | TestErr message
  | IoErr str message

text \<open>\<^verbatim>\<open>JrsError::exit_code\<close>.\<close>

fun exit_code :: "jrs_error \<Rightarrow> int" where
  "exit_code (UsageErr _) = 2"
| "exit_code (ManifestErr _) = 2"
| "exit_code _ = 1"

type_synonym 'a result = "jrs_error + 'a"

text \<open>The \<^verbatim>\<open>?\<close> operator.\<close>

fun and_then :: "'e + 'a \<Rightarrow> ('a \<Rightarrow> 'e + 'b) \<Rightarrow> 'e + 'b" where
  "and_then (Inl e) f = Inl e"
| "and_then (Inr x) f = f x"

lemma and_then_Inr: "and_then r f = Inr y \<longleftrightarrow> (\<exists>x. r = Inr x \<and> f x = Inr y)"
  by (cases r) auto

lemma and_then_Inl: "and_then r f = Inl e \<longleftrightarrow> r = Inl e \<or> (\<exists>x. r = Inr x \<and> f x = Inl e)"
  by (cases r) auto

lemma and_then_cong [fundef_cong]:
  "r = r' \<Longrightarrow> (\<And>x. r' = Inr x \<Longrightarrow> f x = g x) \<Longrightarrow> and_then r f = and_then r' g"
  by (cases r') auto

definition ok_or :: "'e \<Rightarrow> 'a option \<Rightarrow> 'e + 'a" where
  "ok_or e o' = (case o' of None \<Rightarrow> Inl e | Some x \<Rightarrow> Inr x)"

lemma ok_or_eq_simps [simp]:
  "ok_or e o' = Inr x \<longleftrightarrow> o' = Some x"
  "ok_or e o' = Inl e' \<longleftrightarrow> o' = None \<and> e' = e"
  by (auto simp: ok_or_def split: option.splits)

text \<open>\<^verbatim>\<open>iter().map(f).collect::<Result<Vec<_>>>()\<close>: the first error, or every value.\<close>

fun collect :: "('e + 'a) list \<Rightarrow> 'e + 'a list" where
  "collect [] = Inr []"
| "collect (Inl e # _) = Inl e"
| "collect (Inr x # xs) = (case collect xs of Inl e \<Rightarrow> Inl e | Inr ys \<Rightarrow> Inr (x # ys))"

lemma collect_Inr: "collect xs = Inr ys \<longleftrightarrow> xs = map Inr ys"
proof (induction xs arbitrary: ys rule: collect.induct)
  case (3 x xs)
  then show ?case
    by (cases ys; cases "collect xs") auto
qed auto

fun position :: "('a \<Rightarrow> bool) \<Rightarrow> 'a list \<Rightarrow> nat option" where
  "position p [] = None"
| "position p (x # xs) = (if p x then Some 0 else map_option Suc (position p xs))"

lemma position_Some:
  "position p xs = Some i \<longleftrightarrow> i < length xs \<and> p (xs ! i) \<and> (\<forall>j < i. \<not> p (xs ! j))"
proof (induction xs arbitrary: i)
  case (Cons x xs)
  show ?case
  proof (cases i)
    case 0
    then show ?thesis by auto
  next
    case (Suc k)
    have "(\<forall>j < Suc k. \<not> p ((x # xs) ! j)) \<longleftrightarrow> \<not> p x \<and> (\<forall>j < k. \<not> p (xs ! j))"
      by (auto simp: less_Suc_eq_0_disj)
    with Suc Cons show ?thesis by auto
  qed
qed simp

lemma position_None: "position p xs = None \<longleftrightarrow> (\<forall>x \<in> set xs. \<not> p x)"
  by (induction xs) auto

text \<open>\<^verbatim>\<open>Iterator::find_map\<close>: the first that there is.\<close>

fun find_map :: "('a \<Rightarrow> 'b option) \<Rightarrow> 'a list \<Rightarrow> 'b option" where
  "find_map f [] = None"
| "find_map f (x # xs) = (case f x of Some y \<Rightarrow> Some y | None \<Rightarrow> find_map f xs)"

lemma find_map_append:
  "find_map g (xs @ ys) = (case find_map g xs of Some y \<Rightarrow> Some y | None \<Rightarrow> find_map g ys)"
  by (induction xs) (auto split: option.splits)

lemma find_map_map: "find_map g (map h xs) = find_map (\<lambda>x. g (h x)) xs"
  by (induction xs) (auto split: option.splits)

lemma find_map_Some: "find_map f xs = Some y \<Longrightarrow> \<exists>x \<in> set xs. f x = Some y"
  by (induction xs) (auto split: option.splits)

definition push_new :: "'a \<Rightarrow> 'a list \<Rightarrow> 'a list" where
  "push_new x xs = (if x \<in> set xs then xs else xs @ [x])"

lemma set_push_new [simp]: "set (push_new x xs) = insert x (set xs)"
  by (auto simp: push_new_def)

lemma distinct_push_new: "distinct xs \<Longrightarrow> distinct (push_new x xs)"
  by (auto simp: push_new_def)

end
