(* ===== verification/Template.thy ===== *)
theory Template
  imports Prelude
begin

text \<open>
  \<^verbatim>\<open>src/src/manifest/template.rs\<close>: the texts of the manifest with placeholders in braces,
  parsed when the manifest loads and expanded before a process starts. The lemmas show that a
  parsed template prints as what it was parsed from, that literal text is never read as a
  placeholder, and that a free port has one name.
\<close>

section \<open>Placeholders\<close>

datatype placeholder =
    PhRoot
  | PhTarget
  | PhProjectName
  | PhProjectVersion
  | PhClasses
  | PhTestClasses
  | PhClasspath
  | PhRuntimeClasspath
  | PhTestClasspath
  | PhClasspathArgfile
  | PhSourcesArgfile
  | PhJar

definition all_placeholders :: "placeholder list" where
  "all_placeholders = [PhRoot, PhTarget, PhProjectName, PhProjectVersion, PhClasses, PhTestClasses,
     PhClasspath, PhRuntimeClasspath, PhTestClasspath, PhClasspathArgfile, PhSourcesArgfile, PhJar]"

fun placeholder_name :: "placeholder \<Rightarrow> str" where
  "placeholder_name PhRoot = ''root''"
| "placeholder_name PhTarget = ''target''"
| "placeholder_name PhProjectName = ''project.name''"
| "placeholder_name PhProjectVersion = ''project.version''"
| "placeholder_name PhClasses = ''classes''"
| "placeholder_name PhTestClasses = ''test-classes''"
| "placeholder_name PhClasspath = ''classpath''"
| "placeholder_name PhRuntimeClasspath = ''runtime-classpath''"
| "placeholder_name PhTestClasspath = ''test-classpath''"
| "placeholder_name PhClasspathArgfile = ''classpath-argfile''"
| "placeholder_name PhSourcesArgfile = ''sources-argfile''"
| "placeholder_name PhJar = ''jar''"

definition is_classpath :: "placeholder \<Rightarrow> bool" where
  "is_classpath p \<longleftrightarrow> p \<in> {PhClasspath, PhRuntimeClasspath, PhTestClasspath, PhClasspathArgfile}"

datatype segment =
    SegText str
  | SegPlaceholder placeholder
  | SegFreePort str

definition free_port_prefix :: str where
  "free_port_prefix = ''free-port.''"

record template =
  tpl_raw :: str
  tpl_segments :: "segment list"

section \<open>Free ports\<close>

text \<open>
  The ports handed out so far, and what the operating system gives when port 0 is bound: a
  list of answers, each a port or the error of binding. A claim on one is a step of the loop.
\<close>

type_synonym ports = "(str \<times> nat) list"

fun claim_port :: "nat \<Rightarrow> str \<Rightarrow> ports \<Rightarrow> (str + nat) list \<Rightarrow> nat result \<times> ports" where
  "claim_port 0 name ports os = (Inl (BuildErr (Msg ''the OS kept handing out ports already taken'' [name])), ports)"
| "claim_port (Suc n) name ports [] = (Inl (BuildErr (Msg ''no free port'' [name])), ports)"
| "claim_port (Suc n) name ports (Inl e # os) = (Inl (BuildErr (Msg ''no free port'' [name, e])), ports)"
| "claim_port (Suc n) name ports (Inr port # os) =
     (if \<not> list_ex (\<lambda>(_, p). p = port) ports then (Inr port, ports @ [(name, port)])
      else claim_port n name ports os)"

definition free_port :: "str \<Rightarrow> ports \<Rightarrow> (str + nat) list \<Rightarrow> nat result \<times> ports" where
  "free_port name ports os =
     (case find (\<lambda>(n, _). n = name) ports of
        Some (_, port) \<Rightarrow> (Inr port, ports)
      | None \<Rightarrow> claim_port 32 name ports os)"

section \<open>Parsing\<close>

definition is_port_name :: "str \<Rightarrow> bool" where
  "is_port_name port \<longleftrightarrow> port \<noteq> [] \<and>
     list_all (\<lambda>c. is_ascii_alphanumeric c \<or> c = CHR ''-'' \<or> c = CHR ''_'') port"

definition flush_text :: "str \<Rightarrow> segment list \<Rightarrow> segment list" where
  "flush_text buf segments = (if buf \<noteq> [] then segments @ [SegText buf] else segments)"

text \<open>What the name between two braces stands for.\<close>

definition parse_name :: "str \<Rightarrow> message + segment" where
  "parse_name name =
     (case strip_prefix free_port_prefix name of
        Some port \<Rightarrow>
          if is_port_name port then Inr (SegFreePort port)
          else Inl (Msg ''needs a name of letters, digits, - and _ after free-port.'' [name])
      | None \<Rightarrow>
          (case find (\<lambda>p. placeholder_name p = name) all_placeholders of
             Some p \<Rightarrow> Inr (SegPlaceholder p)
           | None \<Rightarrow> Inl (Msg ''unknown placeholder'' (name # map placeholder_name all_placeholders))))"

function parse_template :: "str \<Rightarrow> str \<Rightarrow> str \<Rightarrow> segment list \<Rightarrow> message + segment list" where
  "parse_template raw [] buf segments = Inr (flush_text buf segments)"
| "parse_template raw (c # cs) buf segments =
     (if c = CHR ''{'' \<and> starts_with ''{'' cs then parse_template raw (drop 1 cs) (buf @ ''{'') segments
      else if c = CHR ''}'' \<and> starts_with ''}'' cs then parse_template raw (drop 1 cs) (buf @ ''}'') segments
      else if c = CHR ''{'' then
        (case split_once ''}'' cs of
           None \<Rightarrow> Inl (Msg ''has an unclosed {'' [raw])
         | Some (name, rest) \<Rightarrow>
             (case parse_name name of
                Inl e \<Rightarrow> Inl e
              | Inr seg \<Rightarrow> parse_template raw rest [] (flush_text buf segments @ [seg])))
      else if c = CHR ''}'' then Inl (Msg ''has a stray }'' [raw])
      else parse_template raw cs (buf @ [c]) segments)"
  by pat_completeness auto
termination
  by (relation "measure (\<lambda>(raw, cs, buf, segments). length cs)") (auto dest: split_once_length)

definition template_parse :: "str \<Rightarrow> message + template" where
  "template_parse raw = and_then (parse_template raw raw [] []) (\<lambda>segments.
     Inr \<lparr>tpl_raw = raw, tpl_segments = segments\<rparr>)"

definition template_literal :: "str \<Rightarrow> template" where
  "template_literal buf =
     \<lparr>tpl_raw = replace_all ''}'' ''}}'' (replace_all ''{'' ''{{'' buf),
      tpl_segments = (if buf = [] then [] else [SegText buf])\<rparr>"

definition placeholders :: "template \<Rightarrow> placeholder list" where
  "placeholders t = List.map_filter
     (\<lambda>s. case s of SegPlaceholder p \<Rightarrow> Some p | SegText _ \<Rightarrow> None | SegFreePort _ \<Rightarrow> None) (tpl_segments t)"

definition has_free_port :: "template \<Rightarrow> bool" where
  "has_free_port t \<longleftrightarrow> list_ex (\<lambda>s. case s of SegFreePort _ \<Rightarrow> True | _ \<Rightarrow> False) (tpl_segments t)"

text \<open>
  Expansion, with what each placeholder is and what the free port of a name is; the first
  error ends it.
\<close>

fun expand_segments ::
    "(placeholder \<Rightarrow> str result) \<Rightarrow> (str \<Rightarrow> nat result) \<Rightarrow> segment list \<Rightarrow> str \<Rightarrow> str result" where
  "expand_segments val port [] out = Inr out"
| "expand_segments val port (SegText t # ss) out = expand_segments val port ss (out @ t)"
| "expand_segments val port (SegPlaceholder p # ss) out =
     and_then (val p) (\<lambda>v. expand_segments val port ss (out @ v))"
| "expand_segments val port (SegFreePort n # ss) out =
     and_then (port n) (\<lambda>v. expand_segments val port ss (out @ dec v))"

definition template_expand ::
    "(placeholder \<Rightarrow> str result) \<Rightarrow> (str \<Rightarrow> nat result) \<Rightarrow> template \<Rightarrow> str result" where
  "template_expand val port t = expand_segments val port (tpl_segments t) []"

section \<open>Printing and parsing\<close>

definition escape_char :: "char \<Rightarrow> str" where
  "escape_char c = (if c = CHR ''{'' then ''{{'' else if c = CHR ''}'' then ''}}'' else [c])"

definition escape_braces :: "str \<Rightarrow> str" where
  "escape_braces s = concat (map escape_char s)"

fun segment_text :: "segment \<Rightarrow> str" where
  "segment_text (SegText t) = escape_braces t"
| "segment_text (SegPlaceholder p) = ''{'' @ placeholder_name p @ ''}''"
| "segment_text (SegFreePort n) = ''{'' @ free_port_prefix @ n @ ''}''"

definition segments_text :: "segment list \<Rightarrow> str" where
  "segments_text ss = concat (map segment_text ss)"

text \<open>Segments as the parser leaves them: no empty text, no two texts in a row.\<close>

fun segments_wf :: "segment list \<Rightarrow> bool" where
  "segments_wf [] \<longleftrightarrow> True"
| "segments_wf [SegText t] \<longleftrightarrow> t \<noteq> []"
| "segments_wf (SegText t # s # ss) \<longleftrightarrow> t \<noteq> [] \<and> (\<forall>u. s \<noteq> SegText u) \<and> segments_wf (s # ss)"
| "segments_wf (SegFreePort n # ss) \<longleftrightarrow> is_port_name n \<and> segments_wf ss"
| "segments_wf (SegPlaceholder p # ss) \<longleftrightarrow> segments_wf ss"

lemma replace_single: "replace_all [c] r s = concat (map (\<lambda>x. if x = c then r else [x]) s)"
proof (induction s)
  case Nil
  then show ?case by (subst replace_all.simps) simp
next
  case (Cons x s)
  show ?case
  proof (cases "x = c")
    case True
    then show ?thesis using Cons by (subst replace_all.simps) simp
  next
    case False
    have eq: "replace_all [c] r s = (case split_once [c] s of None \<Rightarrow> s | Some (a, b) \<Rightarrow> a @ r @ replace_all [c] r b)"
      by (subst replace_all.simps) simp
    have "replace_all [c] r (x # s) = x # replace_all [c] r s"
      using False by (subst replace_all.simps) (auto simp: eq split: option.splits)
    with Cons False show ?thesis by simp
  qed
qed

lemma literal_raw: "tpl_raw (template_literal buf) = escape_braces buf"
proof -
  have "replace_all ''}'' ''}}'' (replace_all ''{'' ''{{'' s) = escape_braces s" for s
    unfolding replace_single escape_braces_def by (induction s) (auto simp: escape_char_def)
  then show ?thesis by (simp add: template_literal_def)
qed

lemma parse_escaped:
  "(\<And>c. rest = c # tl rest \<Longrightarrow> True) \<Longrightarrow>
   parse_template raw (escape_braces t @ rest) buf segments = parse_template raw rest (buf @ t) segments"
  by (induction t arbitrary: buf) (auto simp: escape_braces_def escape_char_def)

lemma placeholder_found: "find (\<lambda>p. placeholder_name p = placeholder_name q) all_placeholders = Some q"
  by (cases q) (simp_all add: all_placeholders_def)

lemma parse_name_placeholder: "parse_name (placeholder_name p) = Inr (SegPlaceholder p)"
proof -
  have "strip_prefix free_port_prefix (placeholder_name p) = None"
    by (cases p) (simp_all add: strip_prefix_def free_port_prefix_def)
  then show ?thesis by (simp add: parse_name_def placeholder_found)
qed

lemma parse_name_port: "is_port_name n \<Longrightarrow> parse_name (free_port_prefix @ n) = Inr (SegFreePort n)"
  by (simp add: parse_name_def strip_prefix_def)

lemma placeholder_no_brace: "CHR ''}'' \<notin> set (placeholder_name p) \<and> CHR ''{'' \<notin> set (placeholder_name p) \<and> placeholder_name p \<noteq> []"
  by (cases p) simp_all

lemma not_port_char: "\<not> (is_ascii_alphanumeric CHR ''}'' \<or> CHR ''}'' = CHR ''-'' \<or> CHR ''}'' = CHR ''_'')"
  by (simp add: is_ascii_alphanumeric_def digits_ascii_def upper_ascii_def lower_ascii_def)

lemma port_no_brace:
  assumes "is_port_name n"
  shows "CHR ''}'' \<notin> set (free_port_prefix @ n)"
proof -
  have "CHR ''}'' \<notin> set n"
    using assms not_port_char unfolding is_port_name_def list_all_iff by blast
  then show ?thesis by (simp add: free_port_prefix_def)
qed

lemma split_once_brace: "CHR ''}'' \<notin> set a \<Longrightarrow> split_once ''}'' (a @ ''}'' @ b) = Some (a, b)"
  by (induction a) auto

lemma parse_braced:
  assumes "CHR ''}'' \<notin> set name" and "\<not> starts_with ''{'' name" and "name \<noteq> []" and "parse_name name = Inr seg"
  shows "parse_template raw (''{'' @ name @ ''}'' @ rest) buf segments =
    parse_template raw rest [] (flush_text buf segments @ [seg])"
proof -
  have "\<not> starts_with ''{'' (name @ ''}'' @ rest)"
    using assms(2,3) by (cases name) auto
  then show ?thesis
    using split_once_brace [OF assms(1), of rest] assms(4) by simp
qed

lemma segments_wf_Cons:
  "segments_wf (s # ss) \<longleftrightarrow>
     (case s of SegText t \<Rightarrow> t \<noteq> [] \<and> (\<forall>u us. ss \<noteq> SegText u # us) | SegFreePort n \<Rightarrow> is_port_name n
      | SegPlaceholder p \<Rightarrow> True) \<and> segments_wf ss"
  by (cases s; cases ss) auto

lemma parse_segments_text:
  "segments_wf ss \<Longrightarrow> (buf \<noteq> [] \<longrightarrow> (\<forall>u us. ss \<noteq> SegText u # us)) \<Longrightarrow>
   parse_template raw (segments_text ss) buf acc = Inr (flush_text buf acc @ ss)"
proof (induction ss arbitrary: buf acc)
  case Nil
  then show ?case by (simp add: segments_text_def)
next
  case (Cons s ss)
  have wf: "segments_wf ss" using Cons.prems(1) by (simp add: segments_wf_Cons)
  show ?case
  proof (cases s)
    case (SegText t)
    then have "buf = []" "t \<noteq> []" "\<forall>u us. ss \<noteq> SegText u # us"
      using Cons.prems by (auto simp: segments_wf_Cons)
    then show ?thesis
      using Cons.IH [OF wf, of t acc] SegText
      by (simp add: segments_text_def parse_escaped flush_text_def)
  next
    case (SegPlaceholder p)
    have "\<not> starts_with ''{'' (placeholder_name p)"
      using placeholder_no_brace [of p] by (cases "placeholder_name p") auto
    then have "parse_template raw (''{'' @ placeholder_name p @ ''}'' @ segments_text ss) buf acc =
        parse_template raw (segments_text ss) [] (flush_text buf acc @ [s])"
      using parse_braced [of "placeholder_name p" s raw "segments_text ss" buf acc]
        placeholder_no_brace [of p] parse_name_placeholder SegPlaceholder by simp
    then show ?thesis
      using Cons.IH [OF wf, of "[]" "flush_text buf acc @ [s]"] SegPlaceholder
      by (simp add: segments_text_def flush_text_def)
  next
    case (SegFreePort n)
    have n: "is_port_name n" using Cons.prems SegFreePort by (simp add: segments_wf_Cons)
    have "parse_template raw (''{'' @ (free_port_prefix @ n) @ ''}'' @ segments_text ss) buf acc =
        parse_template raw (segments_text ss) [] (flush_text buf acc @ [s])"
      using parse_name_port [OF n] port_no_brace [OF n] SegFreePort
      by (intro parse_braced) (auto simp: free_port_prefix_def)
    then show ?thesis
      using Cons.IH [OF wf, of "[]" "flush_text buf acc @ [s]"] SegFreePort
      by (simp add: segments_text_def flush_text_def)
  qed
qed

lemma parse_name_text:
  "parse_name name = Inr seg \<Longrightarrow>
   segment_text seg = ''{'' @ name @ ''}'' \<and> segments_wf [seg] \<and> (\<forall>u. seg \<noteq> SegText u)"
  by (auto simp: parse_name_def strip_prefix_Some find_Some_iff split: option.splits if_splits)

lemma escape_braces_snoc: "escape_braces (buf @ [c]) = escape_braces buf @ escape_char c"
  by (simp add: escape_braces_def)

lemma parse_template_text:
  "parse_template raw cs buf acc = Inr out \<Longrightarrow>
   \<exists>ss. out = acc @ ss \<and> segments_wf ss \<and> segments_text ss = escape_braces buf @ cs"
proof (induction raw cs buf acc rule: parse_template.induct)
  case (1 raw buf acc)
  then show ?case
    by (intro exI [of _ "flush_text buf []"])
      (auto simp: flush_text_def segments_text_def escape_braces_def)
next
  case (2 raw c cs buf acc)
  consider "c = CHR ''{''" "starts_with ''{'' cs" | "c = CHR ''}''" "starts_with ''}'' cs"
    | "c = CHR ''{''" "\<not> starts_with ''{'' cs" | "c \<noteq> CHR ''{''" "c \<noteq> CHR ''}''"
    using "2.prems" by (auto split: if_splits)
  then show ?case
  proof cases
    case 1
    then obtain cs' where "cs = CHR ''{'' # cs'" by (auto simp: starts_with_iff)
    with 1 "2.IH"(1) "2.prems" show ?thesis by (auto simp: escape_braces_snoc escape_char_def)
  next
    case c: 2
    then obtain cs' where "cs = CHR ''}'' # cs'" by (auto simp: starts_with_iff)
    with c "2.IH"(2) "2.prems" show ?thesis by (auto simp: escape_braces_snoc escape_char_def)
  next
    case 3
    obtain name rest seg where split: "split_once ''}'' cs = Some (name, rest)" and seg: "parse_name name = Inr seg"
      and rec: "parse_template raw rest [] (flush_text buf acc @ [seg]) = Inr out"
      using "2.prems" 3 by (auto split: option.splits sum.splits)
    obtain ss where ss: "out = (flush_text buf acc @ [seg]) @ ss" "segments_wf ss" "segments_text ss = rest"
      using "2.IH"(3) [OF _ _ _ split refl seg rec] 3 by (auto simp: escape_braces_def)
    note name = parse_name_text [OF seg]
    have cs: "cs = name @ ''}'' @ rest" using split_once_Some [OF split] .
    let ?ss = "flush_text buf [] @ seg # ss"
    have "out = acc @ ?ss" using ss(1) by (simp add: flush_text_def)
    moreover have "segments_wf ?ss"
      using name ss(2) by (auto simp: flush_text_def segments_wf_Cons split: segment.splits)
    moreover have "segments_text ?ss = escape_braces buf @ c # cs"
      using name ss(3) 3 cs by (auto simp: flush_text_def segments_text_def escape_braces_def)
    ultimately show ?thesis by blast
  next
    case 4
    then have "parse_template raw cs (buf @ [c]) acc = Inr out" using "2.prems" by simp
    with 4 "2.IH"(4) show ?thesis by (auto simp: escape_braces_snoc escape_char_def)
  qed
qed

text \<open>
  Property C33. A text is accepted as a template exactly when it is one written out: the
  segments it parses to are the only ones, well formed, that print as it, with the braces of
  their texts doubled. Literal text, braces and all, parses to itself.
\<close>

theorem template_parse_exact:
  "(template_parse raw = Inr t \<longleftrightarrow>
     tpl_raw t = raw \<and> segments_wf (tpl_segments t) \<and> segments_text (tpl_segments t) = raw) \<and>
   template_parse (tpl_raw (template_literal buf)) = Inr (template_literal buf)"
proof -
  have *: "template_parse r = Inr u \<longleftrightarrow>
     tpl_raw u = r \<and> segments_wf (tpl_segments u) \<and> segments_text (tpl_segments u) = r" for r u
    using parse_template_text [of r r "[]" "[]" "tpl_segments u"] parse_segments_text [of "tpl_segments u" "[]" r "[]"]
    by (cases u) (auto simp: template_parse_def and_then_Inr flush_text_def escape_braces_def)
  show ?thesis
    unfolding * literal_raw by (simp add: template_literal_def segments_text_def escape_braces_def)
qed

section \<open>Ports\<close>

lemma claim_port_spec:
  "claim_port n name ports os = (r, ports') \<Longrightarrow>
   (\<exists>e. r = Inl e \<and> ports' = ports) \<or>
   (\<exists>p. r = Inr p \<and> p \<notin> snd ` set ports \<and> ports' = ports @ [(name, p)])"
proof (induction n name ports os rule: claim_port.induct)
  case (4 n name ports port os)
  have taken: "list_ex (\<lambda>(_, p). p = port) ports \<longleftrightarrow> port \<in> snd ` set ports"
    by (force simp: list_ex_iff)
  from 4 show ?case
    by (cases "port \<in> snd ` set ports") (auto simp: taken)
qed auto

definition ports_inv :: "ports \<Rightarrow> bool" where
  "ports_inv ports \<longleftrightarrow> distinct (map fst ports) \<and> distinct (map snd ports)"

text \<open>
  A name keeps the port it was given: asked again, whatever the system would hand
  out then, it gets the same one. No two names share a port, and asking for one never changes
  what another has.
\<close>

lemma free_port_stable:
  assumes "ports_inv ports" and "free_port name ports os = (r, ports')"
  shows "ports_inv ports' \<and> (\<exists>more. ports' = ports @ more) \<and>
    (\<forall>p. r = Inr p \<longrightarrow> (name, p) \<in> set ports' \<and> free_port name ports' os' = (Inr p, ports'))"
proof (cases "find (\<lambda>(n, _). n = name) ports")
  case None
  then have fresh: "name \<notin> fst ` set ports" by (force simp: find_None_iff)
  have claim: "claim_port 32 name ports os = (r, ports')"
    using assms(2) None by (simp add: free_port_def)
  have "find (\<lambda>(n, _). n = name) (ports @ [(name, p)]) = Some (name, p)" for p
    using None by (induction ports) (auto split: if_splits)
  then show ?thesis
    using claim_port_spec [OF claim] assms(1) fresh by (auto simp: ports_inv_def free_port_def)
next
  case (Some np)
  then obtain p where np: "np = (name, p)" "(name, p) \<in> set ports"
    by (cases np) (metis (mono_tags, lifting) case_prod_conv find_Some_iff nth_mem)
  with Some assms show ?thesis by (auto simp: free_port_def)
qed

lemma free_port_stable_witness:
  "fst (free_port ''b'' [(''a'', 1024)] [Inr 1024, Inr 2048]) = Inr 2048 \<and>
   fst (free_port ''b'' [(''a'', 1024), (''b'', 2048)] [Inr 4096]) = Inr 2048"
proof -
  have first: "free_port ''b'' [(''a'', 1024)] [Inr 1024, Inr 2048] = (Inr 2048, [(''a'', 1024), (''b'', 2048)])"
    by (simp add: free_port_def eval_nat_numeral)
  have "ports_inv [(''a'', 1024)]" by (simp add: ports_inv_def)
  from free_port_stable [OF this first, of "[Inr 4096]"] first show ?thesis by simp
qed

end
