(* ===== verification/Versions.thy ===== *)
theory Versions
  imports Prelude
begin

text \<open>
  The version ordering of \<^verbatim>\<open>src/src/resolve/coord.rs\<close>: how a version is cut into items and how
  two versions compare. The lemmas show what kind of order that is (opposite answers the other
  way round, a total preorder on versions of one shape) and where pre-releases stand.
\<close>

section \<open>The order of versions\<close>

text \<open>Numbers are \<^verbatim>\<open>u64\<close>: a segment that does not fit is read as the largest one.\<close>

datatype item = Num nat | Qualifier str

definition u64_max :: nat where
  "u64_max = 18446744073709551615"

definition parse_u64_or_max :: "str \<Rightarrow> nat" where
  "parse_u64_or_max buf = min (undec buf) u64_max"

lemma parse_u64_or_max_code [code]:
  "parse_u64_or_max buf = (if length buf \<le> 19 then undec buf else min (undec buf) u64_max)"
proof (cases "length buf \<le> 19")
  case True
  then have "(10 :: nat) ^ length buf \<le> 10 ^ 19" by (intro power_increasing) auto
  with undec_bound [of buf] have "undec buf < u64_max" by (simp add: u64_max_def)
  with True show ?thesis by (simp add: parse_u64_or_max_def)
qed (simp add: parse_u64_or_max_def)

definition qualifiers :: "str list" where
  "qualifiers = [''alpha'', ''beta'', ''milestone'', ''rc'', ''snapshot'', '''', ''sp'']"

definition canonical_qualifier :: "str \<Rightarrow> str" where
  "canonical_qualifier s =
     (if s = ''a'' then ''alpha''
      else if s = ''b'' then ''beta''
      else if s = ''m'' then ''milestone''
      else if s = ''cr'' then ''rc''
      else if s \<in> set [''ga'', ''final'', ''release''] then []
      else s)"

definition qualifier_rank :: "str \<Rightarrow> nat option" where
  "qualifier_rank s = position (\<lambda>q. q = s) qualifiers"

text \<open>The inner \<^verbatim>\<open>flush\<close>: the items with the buffer's one appended.\<close>

definition flush :: "str \<Rightarrow> bool \<Rightarrow> item list \<Rightarrow> item list" where
  "flush buf is_digit items =
     (if buf = [] then items
      else if is_digit then items @ [Num (parse_u64_or_max buf)]
      else items @ [Qualifier (canonical_qualifier buf)])"

definition is_separator :: "char \<Rightarrow> bool" where
  "is_separator ch \<longleftrightarrow> ch \<in> set ''.-_+''"

fun tokenize_from :: "str \<Rightarrow> str \<Rightarrow> bool \<Rightarrow> item list \<Rightarrow> item list" where
  "tokenize_from [] buf buf_is_digit items = flush buf buf_is_digit items"
| "tokenize_from (ch # s) buf buf_is_digit items =
     (if is_separator ch then tokenize_from s [] buf_is_digit (flush buf buf_is_digit items)
      else if buf \<noteq> [] \<and> is_ascii_digit ch \<noteq> buf_is_digit
      then tokenize_from s [ch] (is_ascii_digit ch) (flush buf buf_is_digit items)
      else tokenize_from s (buf @ [ch]) (is_ascii_digit ch) items)"

definition tokenize :: "str \<Rightarrow> item list" where
  "tokenize version = tokenize_from (to_ascii_lowercase (trim version)) [] False []"

definition compare_qualifiers :: "str \<Rightarrow> str \<Rightarrow> ordering" where
  "compare_qualifiers a b =
     (case (qualifier_rank a, qualifier_rank b) of
        (Some x, Some y) \<Rightarrow> cmp x y
      | (Some _, None) \<Rightarrow> Less
      | (None, Some _) \<Rightarrow> Greater
      | (None, None) \<Rightarrow> cmp a b)"

fun compare_items :: "item option \<Rightarrow> item option \<Rightarrow> ordering" where
  "compare_items None None = Equal"
| "compare_items (Some (Num n)) None = cmp n 0"
| "compare_items None (Some (Num n)) = cmp 0 n"
| "compare_items (Some (Qualifier q)) None = compare_qualifiers q []"
| "compare_items None (Some (Qualifier q)) = compare_qualifiers [] q"
| "compare_items (Some (Num x)) (Some (Num y)) = cmp x y"
| "compare_items (Some (Qualifier x)) (Some (Qualifier y)) = compare_qualifiers x y"
| "compare_items (Some (Num _)) (Some (Qualifier _)) = Greater"
| "compare_items (Some (Qualifier _)) (Some (Num _)) = Less"

text \<open>The loop of \<^verbatim>\<open>compare_versions\<close> over the positions of both token lists.\<close>

fun compare_tokens :: "item list \<Rightarrow> item list \<Rightarrow> ordering" where
  "compare_tokens [] [] = Equal"
| "compare_tokens (a # x) [] = then_with (compare_items (Some a) None) (compare_tokens x [])"
| "compare_tokens [] (b # y) = then_with (compare_items None (Some b)) (compare_tokens [] y)"
| "compare_tokens (a # x) (b # y) =
     then_with (compare_items (Some a) (Some b)) (compare_tokens x y)"

definition compare_versions :: "str \<Rightarrow> str \<Rightarrow> ordering" where
  "compare_versions a b =
     (if a = b then Equal else compare_tokens (tokenize a) (tokenize b))"

section \<open>What kind of order this is\<close>

text \<open>
  Items, where both are present, are compared by a key: a known qualifier by its rank, an
  unknown one after all of them by its text, and any number after any qualifier.
\<close>

definition qualifier_key :: "str \<Rightarrow> nat \<times> str" where
  "qualifier_key q = (case qualifier_rank q of Some r \<Rightarrow> (r, []) | None \<Rightarrow> (7, q))"

fun item_key :: "item \<Rightarrow> nat \<times> nat \<times> nat \<times> str" where
  "item_key (Num n) = (1, n, 0, [])"
| "item_key (Qualifier q) = (0, 0, qualifier_key q)"

lemma qualifier_rank_less: "qualifier_rank q = Some r \<Longrightarrow> r < 7"
  using position_Some [of "\<lambda>p. p = q" qualifiers r]
  by (simp add: qualifier_rank_def) (simp add: qualifiers_def)

lemma compare_qualifiers_key: "compare_qualifiers a b = cmp (qualifier_key a) (qualifier_key b)"
  by (auto simp: compare_qualifiers_def qualifier_key_def cmp_def
      dest: qualifier_rank_less split: option.splits)

lemma compare_items_key: "compare_items (Some a) (Some b) = cmp (item_key a) (item_key b)"
  by (cases a; cases b) (auto simp: compare_qualifiers_key cmp_def)

lemma compare_tokens_key:
  "length x = length y \<Longrightarrow> compare_tokens x y = cmp (map item_key x) (map item_key y)"
proof (induction x y rule: compare_tokens.induct)
  case (4 a x b y)
  then show ?case
    by (auto simp: compare_items_key cmp_def simp del: compare_items.simps)
qed (simp_all add: cmp_def)

lemma compare_items_flip: "compare_items b a = flip (compare_items a b)"
  by (induction a b rule: compare_items.induct)
    (simp_all add: compare_qualifiers_key cmp_flip flip: cmp_flip)

lemma compare_tokens_flip: "compare_tokens y x = flip (compare_tokens x y)"
  by (induction x y rule: compare_tokens.induct)
    (simp_all add: flip_then_with flip: compare_items_flip)

lemma compare_tokens_refl [simp]: "compare_tokens x x = Equal"
  by (simp add: compare_tokens_key)

lemma compare_versions_tokens: "compare_versions a b = compare_tokens (tokenize a) (tokenize b)"
  by (simp add: compare_versions_def)

lemma compare_versions_refl [simp]: "compare_versions a a = Equal"
  by (simp add: compare_versions_def)

lemma compare_versions_flip: "compare_versions b a = flip (compare_versions a b)"
  by (simp add: compare_versions_tokens flip: compare_tokens_flip)

text \<open>Trailing zeros do not matter to a version that is all numbers.\<close>

definition all_numeric :: "item list \<Rightarrow> bool" where
  "all_numeric x \<longleftrightarrow> list_all (\<lambda>i. case i of Num _ \<Rightarrow> True | Qualifier _ \<Rightarrow> False) x"

lemma all_numeric_simps [simp]:
  "all_numeric []"
  "all_numeric (Num n # x) = all_numeric x"
  "\<not> all_numeric (Qualifier q # x)"
  "all_numeric (x @ y) \<longleftrightarrow> all_numeric x \<and> all_numeric y"
  "all_numeric (replicate k (Num n))"
  by (auto simp: all_numeric_def list_all_iff)

lemma compare_zero_tail: "compare_tokens (replicate k (Num 0)) [] = Equal"
  by (induction k) auto

lemma compare_zeros_left: "all_numeric y \<Longrightarrow> compare_tokens (replicate k (Num 0)) y = compare_tokens [] y"
proof (induction y arbitrary: k)
  case Nil
  then show ?case by (simp add: compare_zero_tail)
next
  case (Cons b y)
  then show ?case by (cases b; cases k) auto
qed

lemma compare_tokens_pad:
  "all_numeric x \<Longrightarrow> all_numeric y \<Longrightarrow>
   compare_tokens (x @ replicate k (Num 0)) y = compare_tokens x y"
proof (induction x y rule: compare_tokens.induct)
  case 1
  then show ?case by (simp add: compare_zero_tail)
next
  case (2 a x)
  then show ?case by (cases a) auto
next
  case (3 b y)
  then show ?case by (simp add: compare_zeros_left del: compare_tokens.simps(3))
next
  case (4 a x b y)
  then show ?case by (cases a; cases b) auto
qed

lemma compare_numeric_key:
  assumes "all_numeric x" and "all_numeric y" and "length x \<le> n" and "length y \<le> n"
  shows "compare_tokens x y =
    cmp (map item_key (x @ replicate (n - length x) (Num 0)))
        (map item_key (y @ replicate (n - length y) (Num 0)))"
proof -
  let ?x = "x @ replicate (n - length x) (Num 0)" and ?y = "y @ replicate (n - length y) (Num 0)"
  have "compare_tokens x y = compare_tokens ?x y"
    using assms(1,2) by (simp add: compare_tokens_pad)
  also have "\<dots> = flip (compare_tokens ?y ?x)"
    using assms(1,2) compare_tokens_flip [of y ?x] by (simp add: compare_tokens_pad)
  also have "\<dots> = compare_tokens ?x ?y"
    by (simp flip: compare_tokens_flip)
  also have "\<dots> = cmp (map item_key ?x) (map item_key ?y)"
    by (rule compare_tokens_key) (use assms in simp)
  finally show ?thesis .
qed

text \<open>Versions among which the comparison is a total preorder.\<close>

definition comparable_versions :: "str list \<Rightarrow> bool" where
  "comparable_versions vs \<longleftrightarrow>
     list_all (\<lambda>v. all_numeric (tokenize v)) vs \<or>
     list_all (\<lambda>v. length (tokenize v) = length (tokenize (hd vs))) vs"

lemma cmp_trans: "cmp a b \<noteq> Greater \<Longrightarrow> cmp b c \<noteq> Greater \<Longrightarrow> cmp a c \<noteq> Greater"
  by auto

text \<open>
  Comparing two versions the other way round gives the opposite answer, for all
  versions; and among versions of equally many segments, or all of numbers only, the
  comparison is transitive, so it is a total preorder there.
\<close>

theorem compare_versions_preorder:
  "compare_versions b a = flip (compare_versions a b) \<and>
   (comparable_versions [a, b, c] \<longrightarrow> compare_versions a b \<noteq> Greater \<longrightarrow>
    compare_versions b c \<noteq> Greater \<longrightarrow> compare_versions a c \<noteq> Greater)"
proof -
  have "compare_tokens (tokenize a) (tokenize c) \<noteq> Greater"
    if h: "comparable_versions [a, b, c]" "compare_tokens (tokenize a) (tokenize b) \<noteq> Greater"
      "compare_tokens (tokenize b) (tokenize c) \<noteq> Greater"
  proof (cases "list_all (\<lambda>v. all_numeric (tokenize v)) [a, b, c]")
    case True
    define n where "n = max (length (tokenize a)) (max (length (tokenize b)) (length (tokenize c)))"
    have "length (tokenize a) \<le> n" "length (tokenize b) \<le> n" "length (tokenize c) \<le> n"
      by (auto simp: n_def)
    with True h show ?thesis by (auto simp: compare_numeric_key [of _ _ n])
  next
    case False
    with h show ?thesis by (auto simp: comparable_versions_def compare_tokens_key)
  qed
  then show ?thesis
    using compare_versions_flip [of b a] by (simp add: compare_versions_tokens)
qed

theorem compare_versions_preorder_witness:
  "comparable_versions [''1.9'', ''1.10'', ''1.10.0''] \<and>
   compare_versions ''1.9'' ''1.10'' = Less \<and> compare_versions ''1.9'' ''1.10.0'' \<noteq> Greater"
proof -
  have h: "comparable_versions [''1.9'', ''1.10'', ''1.10.0'']"
    "compare_versions ''1.9'' ''1.10'' = Less" "compare_versions ''1.10'' ''1.10.0'' = Equal"
    by code_simp+
  then show ?thesis
    using compare_versions_preorder [of "''1.10''" "''1.9''" "''1.10.0''"] by auto
qed

section \<open>Pre-releases\<close>

lemma flush_append: "flush buf d (xs @ ys) = xs @ flush buf d ys"
  by (simp add: flush_def)

lemma tokenize_from_items: "tokenize_from s buf d (xs @ ys) = xs @ tokenize_from s buf d ys"
  by (induction s buf d ys rule: tokenize_from.induct) (simp_all add: flush_append)

lemma tokenize_from_flag: "tokenize_from s [] d items = tokenize_from s [] d' items"
  by (induction s) (auto simp: flush_def)

lemma tokenize_from_append:
  "is_separator c \<Longrightarrow>
   tokenize_from (s @ c # t) buf d items = tokenize_from s buf d items @ tokenize_from t [] False []"
proof (induction s buf d items rule: tokenize_from.induct)
  case (1 buf d items)
  have "tokenize_from t [] d (flush buf d items @ []) = flush buf d items @ tokenize_from t [] d []"
    by (rule tokenize_from_items)
  with 1 show ?case by (simp add: tokenize_from_flag [of t d "[]" False])
qed simp

text \<open>A version written in letters, digits and separators.\<close>

definition plain_version :: "str \<Rightarrow> bool" where
  "plain_version v \<longleftrightarrow> list_all (\<lambda>c. is_ascii_alphanumeric c \<or> is_separator c) v"

definition plain_char :: "char \<Rightarrow> bool" where
  "plain_char c \<longleftrightarrow> is_ascii_alphanumeric c \<or> is_separator c"

lemma plain_version_iff: "plain_version v \<longleftrightarrow> (\<forall>c \<in> set v. plain_char c)"
  by (simp add: plain_version_def plain_char_def list_all_iff)

lemma space_not_plain: "list_all (\<lambda>w. \<not> plain_char (hd w) \<and> \<not> plain_char (last w)) white_space"
  by code_simp

lemma not_starts_with_hd: "w \<noteq> [] \<Longrightarrow> hd w \<notin> set v \<Longrightarrow> \<not> starts_with w v"
  by (cases w; cases v) auto

lemma trim_plain:
  assumes "plain_version v"
  shows "trim v = v"
proof -
  have ends: "hd w \<notin> set v" "last w \<notin> set v" "w \<noteq> []" if "w \<in> set white_space" for w
    using that assms space_not_plain white_space_nonempty [OF that]
    by (auto simp: list_all_iff plain_version_iff)
  have "trim_by white_space v = v"
    by (intro trim_by_fixed not_starts_with_hd) (auto dest: ends)
  moreover have "trim_by (map rev white_space) (rev v) = rev v"
    by (intro trim_by_fixed not_starts_with_hd) (auto dest: ends simp: hd_rev)
  ultimately show ?thesis
    by (simp add: trim_def trim_start_def trim_end_def)
qed

lemma separators_lower: "list_all (\<lambda>c. to_lower c = c) ''.-_+''"
  by code_simp

lemma is_separator_lower: "is_separator c \<Longrightarrow> to_lower c = c"
  using separators_lower by (simp only: is_separator_def list_all_iff)

lemma tokenize_append:
  assumes "plain_version v" and "plain_version q" and "is_separator c"
  shows "tokenize (v @ c # q) = tokenize v @ tokenize q"
proof -
  have "plain_version (v @ c # q)" using assms by (simp add: plain_version_def)
  then show ?thesis
    using assms
    by (simp add: tokenize_def trim_plain to_ascii_lowercase_def is_separator_lower tokenize_from_append)
qed

lemma compare_items_refl: "compare_items (Some a) (Some a) = Equal"
  by (simp add: compare_items_key del: compare_items.simps)

lemma compare_tokens_suffix: "compare_tokens (x @ z) x = compare_tokens z []"
  by (induction x) (simp_all add: compare_items_refl del: compare_items.simps)

text \<open>
  A pre-release is older than its release and a service pack newer, whatever the
  release's version; \<^verbatim>\<open>ga\<close>, \<^verbatim>\<open>final\<close> and \<^verbatim>\<open>release\<close> name the release itself.
\<close>

lemma prerelease_order:
  assumes "plain_version v"
  shows "(q \<in> set [''alpha'', ''beta'', ''milestone'', ''rc'', ''snapshot'', ''SNAPSHOT'', ''cr'', ''a'', ''b'', ''m''] \<longrightarrow>
            compare_versions (v @ ''-'' @ q) v = Less) \<and>
         (q \<in> set [''ga'', ''final'', ''release''] \<longrightarrow> compare_versions (v @ ''-'' @ q) v = Equal) \<and>
         (q \<in> set [''sp'', ''jre''] \<longrightarrow> compare_versions (v @ ''-'' @ q) v = Greater)"
proof -
  have reduce: "compare_versions (v @ ''-'' @ q) v = compare_tokens (tokenize q) []" if "plain_version q"
    using tokenize_append [OF assms that, of "CHR ''-''"]
    by (simp add: compare_versions_tokens compare_tokens_suffix is_separator_def)
  have "list_all (\<lambda>q. plain_version q \<and> compare_tokens (tokenize q) [] = Less)
      [''alpha'', ''beta'', ''milestone'', ''rc'', ''snapshot'', ''SNAPSHOT'', ''cr'', ''a'', ''b'', ''m'']"
    "list_all (\<lambda>q. plain_version q \<and> compare_tokens (tokenize q) [] = Equal) [''ga'', ''final'', ''release'']"
    "list_all (\<lambda>q. plain_version q \<and> compare_tokens (tokenize q) [] = Greater) [''sp'', ''jre'']"
    by code_simp+
  then show ?thesis
    by (simp only: list_all_iff) (metis reduce)
qed

lemma prerelease_order_witness:
  "plain_version ''2.0'' \<and> compare_versions ''2.0-rc'' ''2.0'' = Less"
proof -
  have "plain_version ''2.0''" by code_simp
  with prerelease_order [of "''2.0''" "''rc''"] show ?thesis by simp
qed


end
