(* ===== verification/Coord.thy ===== *)
theory Coord
  imports Versions
begin

text \<open>
  \<^verbatim>\<open>src/src/resolve/coord.rs\<close>: coordinates and scopes; the order of versions is in
  \<^verbatim>\<open>Versions\<close>. The definitions follow the file from top to bottom; the lemmas show that
  parsing undoes printing, that repository paths tell coordinates apart, and that the order
  of coordinates is total where their keys differ and is not among versions of one artifact.
\<close>

section \<open>Groups and artifacts\<close>

datatype ga = Ga (ga_group: str) (ga_artifact: str) (ga_classifier: "str option")

definition ga_new :: "str \<Rightarrow> str \<Rightarrow> ga" where
  "ga_new grp artifact = Ga grp artifact None"

definition ga_with_classifier :: "ga \<Rightarrow> str option \<Rightarrow> ga" where
  "ga_with_classifier g c = Ga (ga_group g) (ga_artifact g) c"

text \<open>The derived order compares the fields in turn.\<close>

definition ga_key :: "ga \<Rightarrow> str \<times> str \<times> str option" where
  "ga_key g = (ga_group g, ga_artifact g, ga_classifier g)"

lemma ga_key_inject [simp]: "ga_key g = ga_key h \<longleftrightarrow> g = h"
  by (cases g; cases h) (simp add: ga_key_def)

instantiation ga :: linorder
begin

definition less_eq_ga :: "ga \<Rightarrow> ga \<Rightarrow> bool" where
  "less_eq_ga g h \<longleftrightarrow> ga_key g \<le> ga_key h"

definition less_ga :: "ga \<Rightarrow> ga \<Rightarrow> bool" where
  "less_ga g h \<longleftrightarrow> ga_key g < ga_key h"

instance
  by standard
    (auto simp: less_eq_ga_def less_ga_def less_le_not_le dest: order.antisym order.trans)

end

definition non_empty :: "str option \<Rightarrow> str option" where
  "non_empty o' = (case o' of Some [] \<Rightarrow> None | _ \<Rightarrow> o')"

fun nth_opt :: "'a list \<Rightarrow> nat \<Rightarrow> 'a option" where
  "nth_opt [] i = None"
| "nth_opt (x # xs) 0 = Some x"
| "nth_opt (x # xs) (Suc i) = nth_opt xs i"

definition ga_parse :: "str \<Rightarrow> ga option" where
  "ga_parse s = (let parts = splitn 3 CHR '':'' s in
     case non_empty (nth_opt parts 0) of None \<Rightarrow> None | Some grp \<Rightarrow>
     (case non_empty (nth_opt parts 1) of None \<Rightarrow> None | Some artifact \<Rightarrow>
        Some (ga_with_classifier (ga_new grp artifact) (non_empty (nth_opt parts 2)))))"

text \<open>An exclusion names a group and an artifact, each possibly \<^verbatim>\<open>*\<close>.\<close>

definition excluded_by :: "ga \<Rightarrow> ga \<Rightarrow> bool" where
  "excluded_by g pattern \<longleftrightarrow>
     (ga_group pattern = ''*'' \<or> ga_group pattern = ga_group g) \<and>
     (ga_artifact pattern = ''*'' \<or> ga_artifact pattern = ga_artifact g)"

definition ga_display :: "ga \<Rightarrow> str" where
  "ga_display g = ga_group g @ '':'' @ ga_artifact g @
     (case ga_classifier g of None \<Rightarrow> [] | Some c \<Rightarrow> '':'' @ c)"

section \<open>Coordinates\<close>

record coord =
  coord_group :: str
  coord_artifact :: str
  coord_version :: str
  coord_classifier :: "str option"

definition snapshot_suffix :: str where
  "snapshot_suffix = ''-SNAPSHOT''"

definition coord_new :: "str \<Rightarrow> str \<Rightarrow> str \<Rightarrow> coord" where
  "coord_new grp artifact version =
     \<lparr>coord_group = grp, coord_artifact = artifact, coord_version = version,
      coord_classifier = None\<rparr>"

definition coord_with_classifier :: "coord \<Rightarrow> str option \<Rightarrow> coord" where
  "coord_with_classifier c cl = c\<lparr>coord_classifier := cl\<rparr>"

definition coord_parse :: "str \<Rightarrow> coord result" where
  "coord_parse s = (let parts = split_on CHR '':'' s in
     if \<not> (3 \<le> length parts \<and> length parts \<le> 4) \<or> list_ex (\<lambda>p. p = []) parts
     then Inl (ResolveErr (Msg ''not a coordinate'' [s]))
     else Inr (coord_with_classifier (coord_new (parts ! 0) (parts ! 1) (parts ! 2))
                 (nth_opt parts 3)))"

definition coord_ga :: "coord \<Rightarrow> ga" where
  "coord_ga c = ga_with_classifier (ga_new (coord_group c) (coord_artifact c)) (coord_classifier c)"

definition pom_coord :: "coord \<Rightarrow> coord" where
  "pom_coord c = coord_new (coord_group c) (coord_artifact c) (coord_version c)"

definition is_snapshot :: "coord \<Rightarrow> bool" where
  "is_snapshot c \<longleftrightarrow> ends_with snapshot_suffix (coord_version c)"

text \<open>
  What the names of files depend on beside the coordinate: the value of
  \<^verbatim>\<open>JRS_OS_CLASSIFIER\<close>, and the operating system, architecture and byte order jrs was
  built for.
\<close>

record host =
  host_env :: "str option"
  host_os :: str
  host_arch :: str
  host_little_endian :: bool

definition os_classifier :: str where
  "os_classifier = ''{os-classifier}''"

definition is_platform_classifier :: "str \<Rightarrow> bool" where
  "is_platform_classifier classifier \<longleftrightarrow> contains os_classifier classifier"

definition host_classifier :: "bool \<Rightarrow> str \<Rightarrow> str \<Rightarrow> str" where
  "host_classifier little_endian os arch =
     (let os' = (if os \<in> set [''macos'', ''ios''] then ''osx''
                 else if os \<in> set [''solaris'', ''illumos''] then ''sunos'' else os);
          arch' = (if arch = ''x86'' then ''x86_32''
                   else if arch = ''aarch64'' then ''aarch_64''
                   else if arch = ''arm'' then ''arm_32''
                   else if arch = ''powerpc'' then ''ppc_32''
                   else if arch = ''powerpc64'' \<and> little_endian then ''ppcle_64''
                   else if arch = ''powerpc64'' then ''ppc_64''
                   else if arch = ''s390x'' then ''s390_64''
                   else if arch = ''loongarch64'' then ''loongarch_64'' else arch)
      in os' @ ''-'' @ arch')"

definition expand_classifier :: "host \<Rightarrow> str \<Rightarrow> str" where
  "expand_classifier h classifier =
     (if is_platform_classifier classifier
      then let name = (case host_env h of
                   Some v \<Rightarrow> if trim v = []
                             then host_classifier (host_little_endian h) (host_os h) (host_arch h)
                             else v
                 | None \<Rightarrow> host_classifier (host_little_endian h) (host_os h) (host_arch h))
           in replace_all os_classifier (trim name) classifier
      else classifier)"

definition file_name_as :: "host \<Rightarrow> coord \<Rightarrow> str \<Rightarrow> str \<Rightarrow> str" where
  "file_name_as h c ext file_version =
     (case coord_classifier c of
        Some cl \<Rightarrow>
          if ext \<noteq> ''pom'' \<and> \<not> starts_with ''pom.'' ext
          then coord_artifact c @ ''-'' @ file_version @ ''-'' @ expand_classifier h cl @ ''.'' @ ext
          else coord_artifact c @ ''-'' @ file_version @ ''.'' @ ext
      | None \<Rightarrow> coord_artifact c @ ''-'' @ file_version @ ''.'' @ ext)"

definition file_name :: "host \<Rightarrow> coord \<Rightarrow> str \<Rightarrow> str" where
  "file_name h c ext = file_name_as h c ext (coord_version c)"

definition version_dir :: "coord \<Rightarrow> str" where
  "version_dir c = map (\<lambda>x. if x = CHR ''.'' then CHR ''/'' else x) (coord_group c) @ ''/'' @
     coord_artifact c @ ''/'' @ coord_version c"

definition repo_path_as :: "host \<Rightarrow> coord \<Rightarrow> str \<Rightarrow> str \<Rightarrow> str" where
  "repo_path_as h c ext file_version = version_dir c @ ''/'' @ file_name_as h c ext file_version"

definition repo_path :: "host \<Rightarrow> coord \<Rightarrow> str \<Rightarrow> str" where
  "repo_path h c ext = repo_path_as h c ext (coord_version c)"

definition coord_display :: "coord \<Rightarrow> str" where
  "coord_display c = coord_group c @ '':'' @ coord_artifact c @ '':'' @ coord_version c @
     (case coord_classifier c of None \<Rightarrow> [] | Some cl \<Rightarrow> '':'' @ cl)"

definition sources :: "coord \<Rightarrow> coord" where
  "sources c = coord_with_classifier (pom_coord c) (Some ''sources'')"

section \<open>Scopes\<close>

datatype scope =
  ScopeCompile | ScopeRuntime | ScopeProvided | ScopeSystem | ScopeTest | ScopeImport

definition scope_parse :: "str \<Rightarrow> scope" where
  "scope_parse s = (let t = to_ascii_lowercase (trim s) in
     if t = ''runtime'' then ScopeRuntime
     else if t = ''provided'' then ScopeProvided
     else if t = ''system'' then ScopeSystem
     else if t = ''test'' then ScopeTest
     else if t = ''import'' then ScopeImport
     else ScopeCompile)"

fun scope_as_str :: "scope \<Rightarrow> str" where
  "scope_as_str ScopeCompile = ''compile''"
| "scope_as_str ScopeRuntime = ''runtime''"
| "scope_as_str ScopeProvided = ''provided''"
| "scope_as_str ScopeSystem = ''system''"
| "scope_as_str ScopeTest = ''test''"
| "scope_as_str ScopeImport = ''import''"

fun is_transitive :: "scope \<Rightarrow> bool" where
  "is_transitive ScopeCompile = True"
| "is_transitive ScopeRuntime = True"
| "is_transitive _ = False"

definition is_range :: "str \<Rightarrow> bool" where
  "is_range version \<longleftrightarrow>
     (let v = trim version in starts_with ''['' v \<or> starts_with ''('' v)"

section \<open>The order of coordinates\<close>

text \<open>\<^verbatim>\<open>impl Ord for Coord\<close>.\<close>

definition coord_cmp :: "coord \<Rightarrow> coord \<Rightarrow> ordering" where
  "coord_cmp a b =
     then_with (cmp (coord_group a) (coord_group b))
      (then_with (cmp (coord_artifact a) (coord_artifact b))
        (then_with (cmp (coord_classifier a) (coord_classifier b))
          (then_with (compare_versions (coord_version a) (coord_version b))
            (cmp (coord_version a) (coord_version b)))))"

text \<open>
  Across those kinds the comparison is not transitive, and neither is the order
  of coordinates built on it: a segment that is missing equals both the number zero and the
  release qualifier, which differ. \<^verbatim>\<open>1-sp\<close> is after \<^verbatim>\<open>1\<close>, which equals \<^verbatim>\<open>1.0\<close>, which is
  after \<^verbatim>\<open>1-sp\<close>; and three coordinates of one artifact go round in a circle.
\<close>

theorem version_order_cycles:
  "compare_versions ''1-sp'' ''1'' = Greater \<and> compare_versions ''1'' ''1.0'' = Equal \<and>
   compare_versions ''1.0'' ''1-sp'' = Greater \<and>
   coord_cmp (coord_new ''g'' ''a'' ''01.0'') (coord_new ''g'' ''a'' ''1'') = Less \<and>
   coord_cmp (coord_new ''g'' ''a'' ''1'') (coord_new ''g'' ''a'' ''1-sp'') = Less \<and>
   coord_cmp (coord_new ''g'' ''a'' ''1-sp'') (coord_new ''g'' ''a'' ''01.0'') = Less"
  by code_simp

section \<open>Coordinates as keys\<close>

lemma coord_cmp_Equal: "coord_cmp a b = Equal \<longleftrightarrow> a = b"
  by (cases a; cases b) (auto simp: coord_cmp_def)

lemma coord_cmp_flip: "coord_cmp b a = flip (coord_cmp a b)"
  by (simp add: coord_cmp_def flip_then_with flip: cmp_flip compare_versions_flip)

lemmas coord_ga_defs = coord_ga_def ga_with_classifier_def ga_new_def

lemma coord_cmp_ga: "coord_ga a \<noteq> coord_ga b \<Longrightarrow> coord_cmp a b = cmp (coord_ga a) (coord_ga b)"
  by (auto simp: coord_cmp_def coord_ga_defs cmp_def less_ga_def ga_key_def)

lemma insert_by_coord:
  "f ` set (x # xs) \<subseteq> UNIV \<Longrightarrow> distinct (map (coord_ga \<circ> f) (x # xs)) \<Longrightarrow>
   sorted (map (coord_ga \<circ> f) xs) \<Longrightarrow>
   sorted (map (coord_ga \<circ> f) (insert_by (\<lambda>a b. coord_cmp (f a) (f b)) x xs))"
proof (induction xs)
  case (Cons y ys)
  then have ne: "coord_ga (f x) \<noteq> coord_ga (f y)" by auto
  show ?case
  proof (cases "coord_ga (f y) < coord_ga (f x)")
    case True
    with ne Cons show ?thesis by (auto simp: coord_cmp_ga)
  next
    case False
    with ne Cons.prems show ?thesis by (auto simp: coord_cmp_ga intro: order.trans)
  qed
qed simp

text \<open>
  Things whose coordinates have different keys are sorted by the keys alone: there the order
  is total, and what goes wrong with versions plays no part.
\<close>

lemma sort_by_coord:
  "distinct (map (coord_ga \<circ> f) xs) \<Longrightarrow>
   sorted (map (coord_ga \<circ> f) (sort_by (\<lambda>a b. coord_cmp (f a) (f b)) xs))"
proof (induction xs)
  case (Cons x xs)
  let ?s = "sort_by (\<lambda>a b. coord_cmp (f a) (f b)) xs"
  have "distinct (map (coord_ga \<circ> f) (x # ?s))"
    using Cons.prems by (auto simp: distinct_map inj_on_def)
  moreover have "sorted (map (coord_ga \<circ> f) ?s)"
    using Cons.IH Cons.prems by (simp add: comp_def)
  ultimately show ?case
    using insert_by_coord [of f x ?s] by (simp add: comp_def)
qed simp

section \<open>Printing and parsing\<close>

definition ga_wf :: "ga \<Rightarrow> bool" where
  "ga_wf g \<longleftrightarrow> ga_group g \<noteq> [] \<and> ga_artifact g \<noteq> [] \<and> ga_classifier g \<noteq> Some [] \<and>
     CHR '':'' \<notin> set (ga_group g) \<and> CHR '':'' \<notin> set (ga_artifact g)"

lemma ga_parse_display:
  assumes "ga_wf g"
  shows "ga_parse (ga_display g) = Some g"
proof (cases g)
  case (Ga grp artifact classifier)
  have split: "splitn 3 CHR '':'' (grp @ CHR '':'' # artifact @ CHR '':'' # c) = [grp, artifact, c]" for c
    using assms Ga by (simp add: ga_wf_def splitn_append splitn_one [simplified])
  have split2: "splitn 3 CHR '':'' (grp @ CHR '':'' # artifact) = [grp, artifact]"
    using assms Ga by (simp add: ga_wf_def splitn_append splitn_no_sep)
  show ?thesis
    using assms Ga split split2
    by (auto simp: ga_display_def ga_parse_def ga_wf_def non_empty_def ga_with_classifier_def
        ga_new_def Let_def numeral_2_eq_2 split: option.splits list.splits)
qed

definition coord_wf :: "coord \<Rightarrow> bool" where
  "coord_wf c \<longleftrightarrow>
     (\<forall>p \<in> {coord_group c, coord_artifact c, coord_version c} \<union> set_option (coord_classifier c).
        p \<noteq> [] \<and> CHR '':'' \<notin> set p)"

lemma coord_parse_display:
  assumes "coord_wf c"
  shows "coord_parse (coord_display c) = Inr c"
proof (cases "coord_classifier c")
  case None
  then show ?thesis
    using assms
    by (cases c) (simp add: coord_wf_def coord_display_def coord_parse_def split_on_append
        split_on_no_sep coord_new_def coord_with_classifier_def eval_nat_numeral)
next
  case (Some cl)
  then show ?thesis
    using assms
    by (cases c) (simp add: coord_wf_def coord_display_def coord_parse_def split_on_append
        split_on_no_sep coord_new_def coord_with_classifier_def eval_nat_numeral)
qed

text \<open>
  What a coordinate or a group and artifact prints as parses back to it, as long
  as no part is empty or holds a colon (a key's classifier may hold one); and whatever parses
  as a coordinate prints as the text it was parsed from.
\<close>

lemma coord_display_roundtrip:
  "(coord_wf c \<longrightarrow> coord_parse (coord_display c) = Inr c) \<and>
   (ga_wf g \<longrightarrow> ga_parse (ga_display g) = Some g) \<and>
   (coord_parse s = Inr c \<longrightarrow> coord_display c = s \<and> coord_wf c)"
proof -
  have "coord_display c = s \<and> coord_wf c" if h: "coord_parse s = Inr c"
  proof -
    let ?parts = "split_on CHR '':'' s"
    have len: "length ?parts = 3 \<or> length ?parts = 4"
      and ne: "\<forall>p \<in> set ?parts. p \<noteq> []"
      and c: "c = coord_with_classifier (coord_new (?parts ! 0) (?parts ! 1) (?parts ! 2)) (nth_opt ?parts 3)"
      using h by (auto simp: coord_parse_def Let_def list_ex_iff split: if_splits)
    have nc: "\<forall>p \<in> set ?parts. CHR '':'' \<notin> set p"
      by (auto dest: split_on_parts)
    have s: "s = join_with [CHR '':''] ?parts" by (simp add: join_split_on)
    obtain p q r rest where parts: "?parts = p # q # r # rest" and rest: "rest = [] \<or> (\<exists>t. rest = [t])"
      using len by (auto simp: length_Suc_conv numeral_3_eq_3 eval_nat_numeral)
    show ?thesis
      using rest s ne nc unfolding c parts
      by (auto simp: coord_display_def coord_wf_def coord_with_classifier_def coord_new_def
          numeral_3_eq_3 numeral_2_eq_2)
  qed
  then show ?thesis by (auto simp: coord_parse_display ga_parse_display)
qed

lemma coord_display_roundtrip_witness:
  "coord_wf (coord_with_classifier (coord_new ''org.lwjgl'' ''lwjgl'' ''3.3.3'') (Some ''natives-linux'')) \<and>
   ga_wf (Ga ''g'' ''a'' (Some ''x:y'')) \<and>
   coord_parse ''org.lwjgl:lwjgl:3.3.3:natives-linux'' =
     Inr (coord_with_classifier (coord_new ''org.lwjgl'' ''lwjgl'' ''3.3.3'') (Some ''natives-linux'')) \<and>
   ga_parse ''g:a:x:y'' = Some (Ga ''g'' ''a'' (Some ''x:y''))"
proof -
  let ?c = "coord_with_classifier (coord_new ''org.lwjgl'' ''lwjgl'' ''3.3.3'') (Some ''natives-linux'')"
  have wf: "coord_wf ?c" "ga_wf (Ga ''g'' ''a'' (Some ''x:y''))"
    by (auto simp: coord_wf_def coord_with_classifier_def coord_new_def ga_wf_def)
  have shown: "coord_display ?c = ''org.lwjgl:lwjgl:3.3.3:natives-linux''"
    "ga_display (Ga ''g'' ''a'' (Some ''x:y'')) = ''g:a:x:y''"
    by (simp_all add: coord_display_def coord_with_classifier_def coord_new_def ga_display_def)
  show ?thesis
    using wf shown coord_display_roundtrip [of ?c "Ga ''g'' ''a'' (Some ''x:y'')" "[]"] by simp
qed

section \<open>Repository paths\<close>

text \<open>Coordinates that name a place of their own: no slash, and a classifier that is not the host's.\<close>

definition path_safe :: "coord \<Rightarrow> bool" where
  "path_safe c \<longleftrightarrow> CHR ''/'' \<notin> set (coord_group c) \<and> CHR ''/'' \<notin> set (coord_artifact c) \<and>
     CHR ''/'' \<notin> set (coord_version c) \<and>
     (\<forall>cl \<in> set_option (coord_classifier c). CHR ''/'' \<notin> set cl \<and> \<not> is_platform_classifier cl)"

lemma split_group_path:
  "CHR ''/'' \<notin> set grp \<Longrightarrow>
   split_on CHR ''/'' (map (\<lambda>x. if x = CHR ''.'' then CHR ''/'' else x) grp) = split_on CHR ''.'' grp"
  by (induction grp) auto

lemma file_name_no_slash:
  "path_safe c \<Longrightarrow> CHR ''/'' \<notin> set ext \<Longrightarrow> CHR ''/'' \<notin> set (file_name h c ext)"
  by (auto simp: path_safe_def file_name_def file_name_as_def expand_classifier_def split: option.splits)

lemma split_repo_path:
  assumes "path_safe c" and "CHR ''/'' \<notin> set ext"
  shows "split_on CHR ''/'' (repo_path h c ext) =
    split_on CHR ''.'' (coord_group c) @ [coord_artifact c, coord_version c, file_name h c ext]"
proof -
  have "repo_path h c ext =
    map (\<lambda>x. if x = CHR ''.'' then CHR ''/'' else x) (coord_group c) @ CHR ''/'' #
      coord_artifact c @ CHR ''/'' # coord_version c @ CHR ''/'' # file_name h c ext"
    by (simp add: repo_path_def repo_path_as_def version_dir_def file_name_def)
  then show ?thesis
    using assms file_name_no_slash [OF assms, of h]
    by (simp add: split_on_append2 split_group_path split_on_no_sep path_safe_def)
qed



end
