(* ===== verification/Languages.thy ===== *)
theory Languages
  imports Coord
begin

text \<open>
  \<^verbatim>\<open>src/src/compile/lang.rs\<close>, its tables: the languages a project can hold, the names the
  manifest and the lockfile have for them, the compiler and documentation tool each version
  line uses, the runtime libraries it implies, and Kotlin's compiler plugins. The flags the
  compilers are started with are not modelled.
\<close>

datatype language = Java | Kotlin | Scala | Groovy

record compiler =
  compiler_coord :: coord
  compiler_main_class :: str

record doc_tool =
  doc_name :: str
  doc_roots :: "coord list"
  doc_main_class :: str

definition foreign :: "language list" where
  "foreign = [Kotlin, Scala, Groovy]"

fun lang_key :: "language \<Rightarrow> str" where
  "lang_key Java = ''java''"
| "lang_key Kotlin = ''kotlin''"
| "lang_key Scala = ''scala''"
| "lang_key Groovy = ''groovy''"

fun lang_name :: "language \<Rightarrow> str" where
  "lang_name Java = ''Java''"
| "lang_name Kotlin = ''Kotlin''"
| "lang_name Scala = ''Scala''"
| "lang_name Groovy = ''Groovy''"

fun extension :: "language \<Rightarrow> str" where
  "extension Java = ''java''"
| "extension Kotlin = ''kt''"
| "extension Scala = ''scala''"
| "extension Groovy = ''groovy''"

text \<open>The language of a file, by its extension if it has one.\<close>

definition language_of :: "str option \<Rightarrow> language option" where
  "language_of ext = (case ext of None \<Rightarrow> None
     | Some e \<Rightarrow> find (\<lambda>l. extension l = e) ([Java] @ foreign))"

fun compiler_name :: "language \<Rightarrow> str" where
  "compiler_name Java = ''javac''"
| "compiler_name Kotlin = ''kotlinc''"
| "compiler_name Scala = ''scalac''"
| "compiler_name Groovy = ''groovyc''"

definition args_key :: "language \<Rightarrow> str" where
  "args_key l = compiler_name l @ ''-args''"

definition lang_tool_name :: "language \<Rightarrow> str" where
  "lang_tool_name l = lang_key l @ ''-compiler''"

definition from_tool_name :: "str \<Rightarrow> language option" where
  "from_tool_name name = find (\<lambda>l. lang_tool_name l = name) foreign"

fun starter_version :: "language \<Rightarrow> str option" where
  "starter_version Java = None"
| "starter_version Kotlin = Some ''2.4.20''"
| "starter_version Scala = Some ''3.9.0''"
| "starter_version Groovy = Some ''5.1.2''"

definition is_scala3 :: "str \<Rightarrow> bool" where
  "is_scala3 version \<longleftrightarrow> hd (split_on CHR ''.'' version) = ''3''"

definition scala_suffix :: "str \<Rightarrow> str" where
  "scala_suffix version = (if is_scala3 version then ''_3'' else ''_2.13'')"

definition at_least :: "str \<Rightarrow> str \<Rightarrow> bool" where
  "at_least version minimum \<longleftrightarrow> compare_versions version minimum \<noteq> Less"

fun check_version :: "language \<Rightarrow> str \<Rightarrow> message + unit" where
  "check_version Java version = Inr ()"
| "check_version Kotlin version =
     (if at_least version ''2.0'' then Inr ()
      else Inl (Msg ''jrs needs Kotlin 2.0 or newer, the K2 compiler'' []))"
| "check_version Scala version =
     (if is_scala3 version \<and> at_least version ''3.3'' then Inr ()
      else if starts_with ''2.13.'' version \<and> at_least version ''2.13.9'' then Inr ()
      else Inl (Msg ''jrs needs Scala 2.13.9 or newer on the 2.13 line, or Scala 3.3 or newer'' []))"
| "check_version Groovy version =
     (if at_least version ''4.0'' then Inr ()
      else Inl (Msg ''jrs needs Groovy 4.0 or newer, published under org.apache.groovy'' []))"

fun compiler_of :: "language \<Rightarrow> str \<Rightarrow> compiler option" where
  "compiler_of Java version = None"
| "compiler_of Kotlin version = Some
     \<lparr>compiler_coord = coord_new ''org.jetbrains.kotlin'' ''kotlin-compiler-embeddable'' version,
      compiler_main_class = ''org.jetbrains.kotlin.cli.jvm.K2JVMCompiler''\<rparr>"
| "compiler_of Scala version =
     (if is_scala3 version
      then Some \<lparr>compiler_coord = coord_new ''org.scala-lang'' ''scala3-compiler_3'' version,
                 compiler_main_class = ''dotty.tools.dotc.Main''\<rparr>
      else Some \<lparr>compiler_coord = coord_new ''org.scala-lang'' ''scala-compiler'' version,
                 compiler_main_class = ''scala.tools.nsc.Main''\<rparr>)"
| "compiler_of Groovy version = Some
     \<lparr>compiler_coord = coord_new ''org.apache.groovy'' ''groovy'' version,
      compiler_main_class = ''org.codehaus.groovy.tools.FileSystemCompiler''\<rparr>"

fun doc_tool_of :: "language \<Rightarrow> str \<Rightarrow> doc_tool option" where
  "doc_tool_of Java version = None"
| "doc_tool_of Kotlin version = None"
| "doc_tool_of Scala version =
     (if is_scala3 version
      then Some \<lparr>doc_name = ''scaladoc'',
        doc_roots = coord_new ''org.scala-lang'' ''scaladoc_3'' version #
          (if compare_versions version ''3.9'' \<noteq> Less
           then [coord_new ''com.fasterxml.jackson.core'' ''jackson-annotations'' ''2.21''] else []),
        doc_main_class = ''dotty.tools.scaladoc.Main''\<rparr>
      else Some \<lparr>doc_name = ''scaladoc'', doc_roots = [], doc_main_class = ''scala.tools.nsc.ScalaDoc''\<rparr>)"
| "doc_tool_of Groovy version = Some
     \<lparr>doc_name = ''groovydoc'',
      doc_roots = [coord_new ''org.apache.groovy'' ''groovy-groovydoc'' version],
      doc_main_class = ''org.codehaus.groovy.tools.groovydoc.Main''\<rparr>"

fun runtime_libraries :: "language \<Rightarrow> str \<Rightarrow> (str \<times> str) list" where
  "runtime_libraries Java version = []"
| "runtime_libraries Kotlin version = [(''org.jetbrains.kotlin'', ''kotlin-stdlib'')]"
| "runtime_libraries Scala version =
     (if \<not> is_scala3 version then [(''org.scala-lang'', ''scala-library'')]
      else if compare_versions version ''3.8'' \<noteq> Less
      then [(''org.scala-lang'', ''scala3-library_3''), (''org.scala-lang'', ''scala-library'')]
      else [(''org.scala-lang'', ''scala3-library_3'')])"
| "runtime_libraries Groovy version = [(''org.apache.groovy'', ''groovy'')]"

text \<open>\<^verbatim>\<open>release_hint\<close>: the line added under an error of a compiler that does not know the release.\<close>

fun release_unknown :: "language \<Rightarrow> str \<Rightarrow> bool" where
  "release_unknown Java output = False"
| "release_unknown Kotlin output = contains ''unknown JVM target version'' output"
| "release_unknown Scala output = contains ''is not a valid choice for'' output"
| "release_unknown Groovy output =
     ((contains ''Bytecode version'' output \<and> contains ''is not supported'' output) \<or>
      contains ''Unsupported Java Version'' output)"

definition release_hint :: "language \<Rightarrow> str \<Rightarrow> nat \<Rightarrow> str \<Rightarrow> str option" where
  "release_hint l version release output =
     (if release_unknown l output
      then Some (lang_name l @ '' '' @ version @ '' does not know Java '' @ dec release @
        '': lower `java.source`, or raise `'' @ lang_key l @ ''.version`'')
      else None)"

section \<open>Kotlin's compiler plugins\<close>

record kotlin_plugin =
  kp_name :: str
  kp_artifact :: str
  kp_options :: "str list"

definition kotlin_plugins :: "kotlin_plugin list" where
  "kotlin_plugins =
     [\<lparr>kp_name = ''serialization'', kp_artifact = ''kotlin-serialization-compiler-plugin-embeddable'', kp_options = []\<rparr>,
      \<lparr>kp_name = ''spring'', kp_artifact = ''kotlin-allopen-compiler-plugin-embeddable'',
       kp_options = [''plugin:org.jetbrains.kotlin.allopen:preset=spring'']\<rparr>,
      \<lparr>kp_name = ''jpa'', kp_artifact = ''kotlin-noarg-compiler-plugin-embeddable'',
       kp_options = [''plugin:org.jetbrains.kotlin.noarg:preset=jpa'']\<rparr>,
      \<lparr>kp_name = ''allopen'', kp_artifact = ''kotlin-allopen-compiler-plugin-embeddable'', kp_options = []\<rparr>,
      \<lparr>kp_name = ''noarg'', kp_artifact = ''kotlin-noarg-compiler-plugin-embeddable'', kp_options = []\<rparr>,
      \<lparr>kp_name = ''power-assert'', kp_artifact = ''kotlin-power-assert-compiler-plugin-embeddable'', kp_options = []\<rparr>]"

definition find_kotlin_plugin :: "str \<Rightarrow> kotlin_plugin option" where
  "find_kotlin_plugin name = find (\<lambda>p. kp_name p = name) kotlin_plugins"

text \<open>\<^verbatim>\<open>rsplit_once('_')\<close> and the lines a cross-built artifact can be for.\<close>

definition cross_build_suffix :: "str \<Rightarrow> str option" where
  "cross_build_suffix artifact =
     (let ws = split_on CHR ''_'' artifact in
      if length ws < 2 then None
      else if last ws \<in> {''2.11'', ''2.12'', ''2.13'', ''3''} then Some (last ws) else None)"

section \<open>The tables agree\<close>

text \<open>
  The tables fit together: each language jrs compiles is found again by the name
  its compiler has in the lockfile, by its extension and by no other language's; a version jrs
  accepts has a compiler pinned at that version; what a language implies at run time is what
  the table of its version line says, distinct libraries all; and jrs accepts the version it
  suggests.
\<close>

lemma language_tables_agree:
  "(l \<in> set foreign \<longrightarrow> from_tool_name (lang_tool_name l) = Some l \<and>
      (\<exists>c. compiler_of l v = Some c \<and> coord_version (compiler_coord c) = v) \<and> runtime_libraries l v \<noteq> [] \<and>
      (\<exists>s. starter_version l = Some s \<and> check_version l s = Inr ())) \<and>
   language_of (Some (extension l)) = Some l \<and> (language_of ext = Some l \<longrightarrow> ext = Some (extension l)) \<and>
   distinct (runtime_libraries l v)"
proof (intro conjI impI)
  assume l: "l \<in> set foreign"
  have "from_tool_name (lang_tool_name Kotlin) = Some Kotlin"
      "from_tool_name (lang_tool_name Scala) = Some Scala"
      "from_tool_name (lang_tool_name Groovy) = Some Groovy"
    by code_simp+
  with l show "from_tool_name (lang_tool_name l) = Some l"
    by (auto simp: foreign_def)
  from l show "\<exists>c. compiler_of l v = Some c \<and> coord_version (compiler_coord c) = v"
    by (auto simp: foreign_def coord_new_def)
  from l show "runtime_libraries l v \<noteq> []"
    by (auto simp: foreign_def split: if_splits)
  have "check_version Kotlin ''2.4.20'' = Inr ()" "check_version Scala ''3.9.0'' = Inr ()"
      "check_version Groovy ''5.1.2'' = Inr ()"
    by code_simp+
  with l show "\<exists>s. starter_version l = Some s \<and> check_version l s = Inr ()"
    by (auto simp: foreign_def)
next
  show "language_of (Some (extension l)) = Some l"
  proof -
    have "language_of (Some ''java'') = Some Java" "language_of (Some ''kt'') = Some Kotlin"
        "language_of (Some ''scala'') = Some Scala" "language_of (Some ''groovy'') = Some Groovy"
      by code_simp+
    then show ?thesis by (cases l) simp_all
  qed
  show "ext = Some (extension l)" if "language_of ext = Some l"
    using that unfolding language_of_def by (cases ext) (auto simp only: option.case find_Some_iff)
  show "distinct (runtime_libraries l v)"
    by (cases l) auto
qed

lemma language_tables_agree_witness:
  "from_tool_name (lang_tool_name Scala) = Some Scala \<and> runtime_libraries Scala ''3.8.0'' \<noteq> []"
  using language_tables_agree [of Scala "''3.8.0''" "None"] by (simp add: foreign_def)

end
