(* ===== verification/Manifest.thy ===== *)
theory Manifest
  imports Template Languages
begin

text \<open>
  \<^verbatim>\<open>src/src/manifest/mod.rs\<close> and \<^verbatim>\<open>manifest/dependencies.rs\<close>: the manifest as a value, its
  dependencies, repositories, languages, tasks and hooks, and the functions that read it. The
  parser of \<^verbatim>\<open>jrs.toml\<close> (\<^verbatim>\<open>manifest/parse.rs\<close>) is in \<open>ManifestParse\<close>. A \<^verbatim>\<open>PathBuf\<close> is its text,
  joined by slashes.
\<close>

text \<open>\<^verbatim>\<open>Path::join\<close>: an absolute path replaces the one it is joined to.\<close>

definition path_join :: "str \<Rightarrow> str \<Rightarrow> str" where
  "path_join base p =
     (if starts_with ''/'' p \<or> base = [] then p
      else if ends_with ''/'' base then base @ p else base @ ''/'' @ p)"

definition manifest_file :: str where "manifest_file = ''jrs.toml''"
definition lock_file :: str where "lock_file = ''jrs.lock''"

section \<open>Dependencies\<close>

record exclusion =
  ex_group :: str
  ex_artifact :: str

definition exclusion_display :: "exclusion \<Rightarrow> str" where
  "exclusion_display e = ex_group e @ '':'' @ ex_artifact e"

record dependency =
  dep_group :: str
  dep_artifact :: str
  dep_version :: str
  dep_classifier :: "str option"
  dep_exclusions :: "exclusion list"
  dep_compile_only :: bool
  dep_runtime_only :: bool
  dep_path :: "str option"

record module_dependency =
  md_name :: str
  md_path :: str
  md_dev :: bool
  md_compile_only :: bool
  md_runtime_only :: bool

definition dependency_new :: "str \<Rightarrow> str \<Rightarrow> str \<Rightarrow> dependency" where
  "dependency_new grp artifact version =
     \<lparr>dep_group = grp, dep_artifact = artifact, dep_version = version, dep_classifier = None,
      dep_exclusions = [], dep_compile_only = False, dep_runtime_only = False, dep_path = None\<rparr>"

definition dependency_local :: "str \<Rightarrow> str \<Rightarrow> dependency" where
  "dependency_local name p = (dependency_new [] name [])\<lparr>dep_path := Some p\<rparr>"

definition is_local :: "dependency \<Rightarrow> bool" where
  "is_local d \<longleftrightarrow> dep_path d \<noteq> None"

definition dep_key :: "dependency \<Rightarrow> str" where
  "dep_key d =
     (if is_local d then dep_artifact d
      else case dep_classifier d of
             Some c \<Rightarrow> dep_group d @ '':'' @ dep_artifact d @ '':'' @ c
           | None \<Rightarrow> dep_group d @ '':'' @ dep_artifact d)"

definition is_plain :: "dependency \<Rightarrow> bool" where
  "is_plain d \<longleftrightarrow> dep_exclusions d = [] \<and> \<not> dep_compile_only d \<and> \<not> dep_runtime_only d \<and> \<not> is_local d"

definition is_managed :: "dependency \<Rightarrow> bool" where
  "is_managed d \<longleftrightarrow> \<not> is_local d \<and> dep_version d = []"

definition dependency_display :: "dependency \<Rightarrow> str" where
  "dependency_display d =
     (case dep_path d of
        Some p \<Rightarrow> dep_artifact d @ '' ('' @ p @ '')''
      | None \<Rightarrow> dep_group d @ '':'' @ dep_artifact d @
          (if dep_version d \<noteq> [] then '':'' @ dep_version d else []) @
          (case dep_classifier d of Some c \<Rightarrow> '':'' @ c | None \<Rightarrow> []))"

record managed =
  mg_group :: str
  mg_artifact :: str
  mg_version :: str
  mg_bom :: bool

definition managed_new :: "str \<Rightarrow> str \<Rightarrow> str \<Rightarrow> managed" where
  "managed_new grp artifact version =
     \<lparr>mg_group = grp, mg_artifact = artifact, mg_version = version, mg_bom = False\<rparr>"

definition managed_bom :: "str \<Rightarrow> str \<Rightarrow> str \<Rightarrow> managed" where
  "managed_bom grp artifact version = (managed_new grp artifact version)\<lparr>mg_bom := True\<rparr>"

definition managed_key :: "managed \<Rightarrow> str" where
  "managed_key m = mg_group m @ '':'' @ mg_artifact m"

section \<open>Repositories\<close>

record repository =
  repo_name :: str
  repo_url :: str
  repo_groups :: "str list"

definition repository_new :: "str \<Rightarrow> str \<Rightarrow> repository" where
  "repository_new name url = \<lparr>repo_name = name, repo_url = url, repo_groups = []\<rparr>"

definition group_matches :: "str \<Rightarrow> str \<Rightarrow> bool" where
  "group_matches pattern grp =
     (case strip_suffix ''.*'' pattern of
        Some prefix \<Rightarrow>
          (case strip_prefix prefix grp of
             None \<Rightarrow> False
           | Some rest \<Rightarrow> starts_with ''.'' rest \<and> 1 < length rest)
      | None \<Rightarrow> pattern = grp)"

definition claims :: "repository \<Rightarrow> str \<Rightarrow> bool" where
  "claims r grp \<longleftrightarrow> list_ex (\<lambda>pattern. group_matches pattern grp) (repo_groups r)"

definition central_name :: str where "central_name = ''central''"
definition central_url :: str where "central_url = ''https://repo1.maven.org/maven2''"

section \<open>Settings\<close>

record java_config =
  jc_source :: "nat option"
  jc_target :: "nat option"
  jc_encoding :: str
  jc_javac_args :: "str list"
  jc_javadoc_args :: "str list"
  jc_jdk :: "nat option"

definition java_config_default :: java_config where
  "java_config_default =
     \<lparr>jc_source = None, jc_target = None, jc_encoding = ''UTF-8'', jc_javac_args = [],
      jc_javadoc_args = [], jc_jdk = None\<rparr>"

datatype java_agent = AgentGraph ga | AgentPinned coord

fun agent_ga :: "java_agent \<Rightarrow> ga" where
  "agent_ga (AgentGraph g) = g"
| "agent_ga (AgentPinned c) = coord_ga c"

definition agent_tool_name :: "java_agent \<Rightarrow> str \<Rightarrow> str" where
  "agent_tool_name a section' = section' @ ''.java-agents.'' @ ga_display (agent_ga a)"

fun agent_display :: "java_agent \<Rightarrow> str" where
  "agent_display (AgentGraph g) = ga_display g"
| "agent_display (AgentPinned c) = coord_display c"

record run_config =
  rc_jvm_args :: "str list"
  rc_java_agents :: "java_agent list"
  rc_env :: "(str \<times> template) list"
  rc_cwd :: "template option"

datatype share_classes = ShareOff | ShareOn | ShareArchive | ShareAot

record test_suite =
  ts_name :: str
  ts_test_dir :: str
  ts_test_resource_dir :: str
  ts_jvm_args :: "str list"
  ts_env :: "(str \<times> template) list"
  ts_retries :: nat
  ts_forks :: nat

definition suite_forks :: "test_suite \<Rightarrow> nat option" where
  "suite_forks s = (if 0 < ts_forks s then Some (ts_forks s) else None)"

datatype coverage_counter =
  CovInstruction | CovBranch | CovLine | CovComplexity | CovMethod | CovClass

definition all_counters :: "coverage_counter list" where
  "all_counters = [CovInstruction, CovBranch, CovLine, CovComplexity, CovMethod, CovClass]"

fun counter_key :: "coverage_counter \<Rightarrow> str" where
  "counter_key CovInstruction = ''instruction''"
| "counter_key CovBranch = ''branch''"
| "counter_key CovLine = ''line''"
| "counter_key CovComplexity = ''complexity''"
| "counter_key CovMethod = ''method''"
| "counter_key CovClass = ''class''"

fun jacoco_type :: "coverage_counter \<Rightarrow> str" where
  "jacoco_type CovInstruction = ''INSTRUCTION''"
| "jacoco_type CovBranch = ''BRANCH''"
| "jacoco_type CovLine = ''LINE''"
| "jacoco_type CovComplexity = ''COMPLEXITY''"
| "jacoco_type CovMethod = ''METHOD''"
| "jacoco_type CovClass = ''CLASS''"

definition counter_from_key :: "str \<Rightarrow> coverage_counter option" where
  "counter_from_key key = find (\<lambda>c. counter_key c = key) all_counters"

record coverage_minimum =
  cm_counter :: coverage_counter
  cm_basis_points :: nat

text \<open>\<^verbatim>\<open>{:04}\<close> pads with zeros to four digits; trailing zeros are then cut, but for one.\<close>

definition pad4 :: "nat \<Rightarrow> str" where
  "pad4 n = (let d = dec n in replicate (4 - length d) CHR ''0'' @ d)"

definition trim_end_zeros :: "str \<Rightarrow> str" where
  "trim_end_zeros s = rev (dropWhile (\<lambda>c. c = CHR ''0'') (rev s))"

definition coverage_ratio :: "coverage_minimum \<Rightarrow> str" where
  "coverage_ratio m =
     (let digits = dec (cm_basis_points m div 10000) @ ''.'' @ pad4 (cm_basis_points m mod 10000);
          trimmed = trim_end_zeros digits
      in if ends_with ''.'' trimmed then trimmed @ ''0'' else trimmed)"

record test_config =
  tc_jvm_args :: "str list"
  tc_jacoco_version :: "str option"
  tc_java_agents :: "java_agent list"
  tc_env :: "(str \<times> template) list"
  tc_retries :: nat
  tc_forks :: nat
  tc_coverage_minimum :: "coverage_minimum list"
  tc_share_classes :: share_classes
  tc_suites :: "test_suite list"

definition test_forks :: "test_config \<Rightarrow> nat option" where
  "test_forks t = (if 0 < tc_forks t then Some (tc_forks t) else None)"

definition test_suite_named :: "test_config \<Rightarrow> str \<Rightarrow> test_suite option" where
  "test_suite_named t name = find (\<lambda>s. ts_name s = name) (tc_suites t)"

record relocation =
  rel_from :: str
  rel_to :: str
  rel_exclude :: "str list"

record package_config =
  pk_add_modules :: "str list"
  pk_manifest :: "(str \<times> template) list"
  pk_native_image_args :: "str list"
  pk_relocate :: "relocation list"

record resources_config =
  rs_expand :: "str list"
  rs_properties :: "(str \<times> template) list"

record obfuscate_config =
  ob_version :: str
  ob_keep :: "str list"
  ob_proguard_args :: "str list"

record language_config =
  lc_language :: language
  lc_version :: str
  lc_source_dir :: str
  lc_test_dir :: str
  lc_compiler_args :: "str list"
  lc_compiler_jvm_args :: "str list"
  lc_plugins :: "str list"

section \<open>Tasks and hooks\<close>

datatype hook = PreCompile | PostCompile | PreTest | PostTest | PostPackage | PreRun

definition all_hooks :: "hook list" where
  "all_hooks = [PreCompile, PostCompile, PreTest, PostTest, PostPackage, PreRun]"

fun hook_name :: "hook \<Rightarrow> str" where
  "hook_name PreCompile = ''pre-compile''"
| "hook_name PostCompile = ''post-compile''"
| "hook_name PreTest = ''pre-test''"
| "hook_name PostTest = ''post-test''"
| "hook_name PostPackage = ''post-package''"
| "hook_name PreRun = ''pre-run''"

datatype builtin = BuildCommand | TestCommand | PackageCommand | DocCommand

fun builtin_name :: "builtin \<Rightarrow> str" where
  "builtin_name BuildCommand = ''build''"
| "builtin_name TestCommand = ''test''"
| "builtin_name PackageCommand = ''package''"
| "builtin_name DocCommand = ''doc''"

definition builtin_parse :: "str \<Rightarrow> builtin option" where
  "builtin_parse s = find (\<lambda>b. builtin_name b = s) [BuildCommand, TestCommand, PackageCommand, DocCommand]"

fun builtin_hooks :: "builtin \<Rightarrow> hook list" where
  "builtin_hooks BuildCommand = [PreCompile, PostCompile]"
| "builtin_hooks TestCommand = [PreCompile, PostCompile, PreTest, PostTest]"
| "builtin_hooks PackageCommand = [PreCompile, PostCompile, PostPackage]"
| "builtin_hooks DocCommand = [PreCompile]"

datatype task_ref = RefTask str | RefBuiltin builtin | RefMember str str

fun task_ref_display :: "task_ref \<Rightarrow> str" where
  "task_ref_display (RefTask name) = name"
| "task_ref_display (RefBuiltin b) = builtin_name b"
| "task_ref_display (RefMember member task) = member @ '':'' @ task"

datatype action = ActRun "template list" | ActShell str | ActScript template | ActMain str

record task_def =
  td_name :: str
  td_description :: "str option"
  td_action :: "action option"
  td_args :: "template list"
  td_depends_on :: "task_ref list"
  td_env :: "(str \<times> template) list"
  td_cwd :: "template option"
  td_inputs :: "template list"
  td_outputs :: "template list"
  td_source_outputs :: "template list"
  td_resource_outputs :: "template list"
  td_cache :: bool
  td_dependencies :: "dependency list"

definition task_tool_name :: "task_def \<Rightarrow> str" where
  "task_tool_name t = ''tasks.'' @ td_name t"

definition path_templates :: "task_def \<Rightarrow> (str \<times> template) list" where
  "path_templates t =
     map (\<lambda>x. (''inputs'', x)) (td_inputs t) @ map (\<lambda>x. (''outputs'', x)) (td_outputs t) @
     map (\<lambda>x. (''source-outputs'', x)) (td_source_outputs t) @
     map (\<lambda>x. (''resource-outputs'', x)) (td_resource_outputs t)"

definition templates :: "task_def \<Rightarrow> (str \<times> template) list" where
  "templates t =
     (case td_action t of
        Some (ActRun argv) \<Rightarrow> map (\<lambda>x. (''run'', x)) argv
      | Some (ActScript x) \<Rightarrow> [(''script'', x)]
      | Some (ActShell _) \<Rightarrow> []
      | Some (ActMain _) \<Rightarrow> []
      | None \<Rightarrow> []) @
     map (\<lambda>x. (''args'', x)) (td_args t) @ map (\<lambda>(_, x). (''env'', x)) (td_env t) @
     (case td_cwd t of None \<Rightarrow> [] | Some x \<Rightarrow> [(''cwd'', x)]) @ path_templates t"

definition task_uses :: "task_def \<Rightarrow> placeholder \<Rightarrow> bool" where
  "task_uses t p \<longleftrightarrow> list_ex (\<lambda>(_, x). list_ex (\<lambda>q. q = p) (placeholders x)) (templates t)"

type_synonym hooks = "(hook \<times> str list) list"

definition hook_tasks :: "hooks \<Rightarrow> hook \<Rightarrow> str list" where
  "hook_tasks hs h = (case find (\<lambda>(k, _). k = h) hs of None \<Rightarrow> [] | Some (_, names) \<Rightarrow> names)"

definition hooks_is_empty :: "hooks \<Rightarrow> bool" where
  "hooks_is_empty hs \<longleftrightarrow> hs = []"

definition hook_position :: "hook \<Rightarrow> nat option" where
  "hook_position h = position (\<lambda>a. a = h) all_hooks"

text \<open>Appending to the first entry of the hook.\<close>

fun hooks_push :: "hook \<Rightarrow> str \<Rightarrow> hooks \<Rightarrow> hooks" where
  "hooks_push h task [] = []"
| "hooks_push h task ((k, names) # hs) =
     (if k = h then (k, if \<not> list_ex (\<lambda>n. n = task) names then names @ [task] else names) # hs
      else (k, names) # hooks_push h task hs)"

definition hooks_add :: "hooks \<Rightarrow> hook \<Rightarrow> str \<Rightarrow> hooks" where
  "hooks_add hs h task =
     (if list_ex (\<lambda>(k, _). k = h) hs then hooks_push h task hs
      else sort_by (\<lambda>a b. cmp (hook_position (fst a)) (hook_position (fst b))) (hs @ [(h, [task])]))"

section \<open>The manifest\<close>

record manifest =
  mf_path :: str
  mf_root :: str
  mf_name :: str
  mf_version :: str
  mf_group :: "str option"
  mf_main_class :: "str option"
  mf_source_dir :: str
  mf_test_dir :: str
  mf_resource_dir :: str
  mf_test_resource_dir :: str
  mf_target_dir :: str
  mf_java :: java_config
  mf_run :: run_config
  mf_test :: test_config
  mf_package :: package_config
  mf_resources :: resources_config
  mf_obfuscate :: "obfuscate_config option"
  mf_languages :: "language_config list"
  mf_dependencies :: "dependency list"
  mf_dev_dependencies :: "dependency list"
  mf_modules :: "module_dependency list"
  mf_managed :: "managed list"
  mf_repositories :: "repository list"
  mf_tasks :: "task_def list"
  mf_hooks :: hooks
  mf_warnings :: "message list"
  mf_jrs_version :: "str option"

definition reserved_task_names :: "str list" where
  "reserved_task_names =
     [''build'', ''test'', ''run'', ''package'', ''doc'', ''clean'', ''tree'', ''classpath'', ''update'',
      ''verify'', ''outdated'', ''licenses'', ''audit'', ''add'', ''remove'', ''cache'', ''init'', ''migrate'',
      ''completions'', ''task'', ''help'', ''metadata'', ''fetch'', ''self'', ''jdk'', ''wrapper'', ''install'']"

definition jar_attributes_owned :: "str list" where
  "jar_attributes_owned = [''Manifest-Version'', ''Created-By'', ''Main-Class'', ''Class-Path'', ''Name'']"

definition find_task :: "manifest \<Rightarrow> str \<Rightarrow> task_def option" where
  "find_task m name = find (\<lambda>t. td_name t = name) (mf_tasks m)"

definition manifest_language :: "manifest \<Rightarrow> language \<Rightarrow> language_config option" where
  "manifest_language m l = find (\<lambda>c. lc_language c = l) (mf_languages m)"

definition source_path :: "manifest \<Rightarrow> str" where
  "source_path m = path_join (mf_root m) (mf_source_dir m)"

definition test_path :: "manifest \<Rightarrow> str" where
  "test_path m = path_join (mf_root m) (mf_test_dir m)"

definition resource_path :: "manifest \<Rightarrow> str" where
  "resource_path m = path_join (mf_root m) (mf_resource_dir m)"

definition test_resource_path :: "manifest \<Rightarrow> str" where
  "test_resource_path m = path_join (mf_root m) (mf_test_resource_dir m)"

definition target_path :: "manifest \<Rightarrow> str" where
  "target_path m = path_join (mf_root m) (mf_target_dir m)"

definition lock_path :: "manifest \<Rightarrow> str" where
  "lock_path m = path_join (mf_root m) lock_file"

definition jar_name :: "manifest \<Rightarrow> str" where
  "jar_name m = mf_name m @ ''-'' @ mf_version m @ ''.jar''"

definition require_main_class :: "manifest \<Rightarrow> str \<Rightarrow> str result" where
  "require_main_class m command =
     ok_or (ManifestErr (Msg ''needs a main class'' [command, mf_path m])) (mf_main_class m)"

definition require_group :: "manifest \<Rightarrow> str \<Rightarrow> str result" where
  "require_group m command =
     ok_or (ManifestErr (Msg ''needs project.group'' [command, mf_name m, mf_path m])) (mf_group m)"

text \<open>The two placeholders an attribute of the jar or a resource's property may use.\<close>

definition project_value :: "manifest \<Rightarrow> str \<Rightarrow> str \<Rightarrow> placeholder \<Rightarrow> str result" where
  "project_value m section' name p =
     (case p of
        PhProjectName \<Rightarrow> Inr (mf_name m)
      | PhProjectVersion \<Rightarrow> Inr (mf_version m)
      | other \<Rightarrow> Inl (ManifestErr (Msg ''is not available here'' [section', name, placeholder_name other])))"

definition jar_attributes :: "manifest \<Rightarrow> (str \<Rightarrow> nat result) \<Rightarrow> (str \<times> str) list result" where
  "jar_attributes m port = collect (map (\<lambda>(name, t).
     and_then (template_expand (project_value m ''package.manifest'' name) port t) (\<lambda>v. Inr (name, v)))
     (pk_manifest (mf_package m)))"

definition resource_properties :: "manifest \<Rightarrow> (str \<Rightarrow> nat result) \<Rightarrow> (str \<times> str) list result" where
  "resource_properties m port =
     and_then (collect (map (\<lambda>(name, t).
       and_then (template_expand (project_value m ''resources.properties'' name) port t) (\<lambda>v. Inr (name, v)))
       (rs_properties (mf_resources m))))
     (\<lambda>out. Inr ([(''project.name'', mf_name m), (''project.version'', mf_version m)] @ out))"

definition blank :: "str \<Rightarrow> str \<Rightarrow> str \<Rightarrow> manifest" where
  "blank name version root =
     \<lparr>mf_path = path_join root manifest_file, mf_root = root, mf_name = name, mf_version = version,
      mf_group = None, mf_main_class = None, mf_source_dir = ''src/main/java'',
      mf_test_dir = ''src/test/java'', mf_resource_dir = ''src/main/resources'',
      mf_test_resource_dir = ''src/test/resources'', mf_target_dir = ''target'',
      mf_java = java_config_default,
      mf_run = \<lparr>rc_jvm_args = [], rc_java_agents = [], rc_env = [], rc_cwd = None\<rparr>,
      mf_test = \<lparr>tc_jvm_args = [], tc_jacoco_version = None, tc_java_agents = [], tc_env = [],
        tc_retries = 0, tc_forks = 0, tc_coverage_minimum = [], tc_share_classes = ShareOff, tc_suites = []\<rparr>,
      mf_package = \<lparr>pk_add_modules = [], pk_manifest = [], pk_native_image_args = [], pk_relocate = []\<rparr>,
      mf_resources = \<lparr>rs_expand = [], rs_properties = []\<rparr>,
      mf_obfuscate = None, mf_languages = [], mf_dependencies = [], mf_dev_dependencies = [],
      mf_modules = [], mf_managed = [], mf_repositories = [repository_new central_name central_url],
      mf_tasks = [], mf_hooks = [], mf_warnings = [], mf_jrs_version = None\<rparr>"

definition is_module_path :: "str \<Rightarrow> bool" where
  "is_module_path p \<longleftrightarrow> \<not> ends_with ''.jar'' (to_ascii_lowercase (last (split_on CHR ''/'' p)))"

section \<open>The dependencies resolution reads\<close>

definition declares :: "manifest \<Rightarrow> str \<Rightarrow> str \<Rightarrow> bool" where
  "declares m grp artifact \<longleftrightarrow> list_ex (\<lambda>d. dep_group d = grp \<and> dep_artifact d = artifact \<and> dep_classifier d = None)
     (mf_dependencies m @ mf_dev_dependencies m)"

definition implied_dependencies :: "manifest \<Rightarrow> (dependency \<times> language) list" where
  "implied_dependencies m = concat (map (\<lambda>config.
     map (\<lambda>(grp, artifact). (dependency_new grp artifact (lc_version config), lc_language config))
       (filter (\<lambda>(grp, artifact). \<not> declares m grp artifact)
         (runtime_libraries (lc_language config) (lc_version config)))) (mf_languages m))"

definition effective_dependencies :: "manifest \<Rightarrow> dependency list" where
  "effective_dependencies m = mf_dependencies m @ map fst (implied_dependencies m)"

definition pinned_of :: "str \<Rightarrow> java_agent list \<Rightarrow> (str \<times> coord) list" where
  "pinned_of section' agents = List.map_filter (\<lambda>a. case a of
     AgentPinned c \<Rightarrow> Some (agent_tool_name a section', c) | AgentGraph _ \<Rightarrow> None) agents"

definition pinned_agents :: "manifest \<Rightarrow> (str \<times> coord) list" where
  "pinned_agents m = pinned_of ''run'' (rc_java_agents (mf_run m)) @ pinned_of ''test'' (tc_java_agents (mf_test m))"

section \<open>Compiler graphs\<close>

text \<open>\<^verbatim>\<open>compile/lang.rs\<close>, \<^verbatim>\<open>compiler_roots\<close>.\<close>

definition compiler_roots :: "language_config \<Rightarrow> coord list" where
  "compiler_roots config =
     (case compiler_of (lc_language config) (lc_version config) of
        None \<Rightarrow> []
      | Some c \<Rightarrow> fold (\<lambda>p roots. push_new (coord_new ''org.jetbrains.kotlin'' (kp_artifact p) (lc_version config)) roots)
          (List.map_filter find_kotlin_plugin (lc_plugins config)) [compiler_coord c])"

section \<open>What the functions give\<close>

text \<open>
  What resolution reads is the declared dependencies, in order, and after them the
  runtime libraries the languages imply, each at its compiler's version and none that the
  manifest declares itself, in either table; and no library a language needs is left out.
\<close>

lemma implied_only_undeclared:
  "\<exists>implied. effective_dependencies m = mf_dependencies m @ implied \<and>
     (\<forall>d \<in> set implied. \<not> declares m (dep_group d) (dep_artifact d) \<and> \<not> is_local d \<and> is_plain d \<and>
        (\<exists>c \<in> set (mf_languages m). dep_version d = lc_version c \<and>
           (dep_group d, dep_artifact d) \<in> set (runtime_libraries (lc_language c) (lc_version c)))) \<and>
     (\<forall>c \<in> set (mf_languages m). \<forall>(grp, artifact) \<in> set (runtime_libraries (lc_language c) (lc_version c)).
        declares m grp artifact \<or> (\<exists>d \<in> set implied. dep_group d = grp \<and> dep_artifact d = artifact \<and> dep_version d = lc_version c))"
proof (intro exI conjI)
  let ?implied = "map fst (implied_dependencies m)"
  show "effective_dependencies m = mf_dependencies m @ ?implied"
    by (simp add: effective_dependencies_def)
  show "\<forall>d \<in> set ?implied. \<not> declares m (dep_group d) (dep_artifact d) \<and> \<not> is_local d \<and> is_plain d \<and>
      (\<exists>c \<in> set (mf_languages m). dep_version d = lc_version c \<and>
         (dep_group d, dep_artifact d) \<in> set (runtime_libraries (lc_language c) (lc_version c)))"
    by (fastforce simp: implied_dependencies_def dependency_new_def is_local_def is_plain_def)
  show "\<forall>c \<in> set (mf_languages m). \<forall>(grp, artifact) \<in> set (runtime_libraries (lc_language c) (lc_version c)).
      declares m grp artifact \<or> (\<exists>d \<in> set ?implied. dep_group d = grp \<and> dep_artifact d = artifact \<and> dep_version d = lc_version c)"
    by (force simp: implied_dependencies_def dependency_new_def)
qed

definition kotlin_manifest :: manifest where
  "kotlin_manifest = (blank ''app'' ''1'' ''/app'')\<lparr>mf_languages :=
     [\<lparr>lc_language = Kotlin, lc_version = ''2.1'', lc_source_dir = [], lc_test_dir = [],
       lc_compiler_args = [], lc_compiler_jvm_args = [], lc_plugins = []\<rparr>]\<rparr>"

lemma implied_only_undeclared_witness:
  "\<exists>d. d \<in> set (effective_dependencies kotlin_manifest) \<and> dep_artifact d = ''kotlin-stdlib'' \<and> dep_version d = ''2.1''"
proof -
  have none: "\<not> declares kotlin_manifest ''org.jetbrains.kotlin'' ''kotlin-stdlib''"
    by (simp add: declares_def kotlin_manifest_def blank_def)
  obtain implied where "effective_dependencies kotlin_manifest = mf_dependencies kotlin_manifest @ implied"
    and "\<forall>c \<in> set (mf_languages kotlin_manifest). \<forall>(grp, artifact) \<in> set (runtime_libraries (lc_language c) (lc_version c)).
        declares kotlin_manifest grp artifact \<or>
        (\<exists>d \<in> set implied. dep_group d = grp \<and> dep_artifact d = artifact \<and> dep_version d = lc_version c)"
    using implied_only_undeclared [of kotlin_manifest] by blast
  with none show ?thesis
    by (auto simp: kotlin_manifest_def blank_def)
qed

text \<open>
  A repository claims a group its patterns name: a pattern with a trailing
  \<^verbatim>\<open>.*\<close> the groups below its prefix and not the prefix itself, any other pattern that one
  group; and a repository with no patterns claims nothing.
\<close>

lemma group_matches_spec:
  "group_matches (prefix @ ''.*'') grp = (\<exists>rest. rest \<noteq> [] \<and> grp = prefix @ ''.'' @ rest) \<and>
   ((\<nexists>prefix. pattern = prefix @ ''.*'') \<longrightarrow> group_matches pattern grp = (grp = pattern)) \<and>
   claims (repository_new name url) grp = False"
proof (intro conjI impI)
  have "strip_suffix ''.*'' (prefix @ ''.*'') = Some prefix" by (simp add: strip_suffix_Some)
  then show "group_matches (prefix @ ''.*'') grp = (\<exists>rest. rest \<noteq> [] \<and> grp = prefix @ ''.'' @ rest)"
    by (auto simp: group_matches_def strip_prefix_Some starts_with_iff split: option.splits)
      (auto simp: strip_prefix_def starts_with_iff split: if_splits)
  show "group_matches pattern grp = (grp = pattern)" if "\<nexists>prefix. pattern = prefix @ ''.*''"
  proof -
    have "strip_suffix ''.*'' pattern = None"
      using that strip_suffix_Some [of "''.*''" pattern] by (metis not_Some_eq)
    then show ?thesis by (auto simp: group_matches_def)
  qed
qed (simp add: claims_def repository_new_def)

lemma group_matches_spec_witness:
  "group_matches ''com.acme.*'' ''com.acme.billing'' \<and> \<not> group_matches ''com.acme.*'' ''com.acme'' \<and>
   group_matches ''com.acme'' ''com.acme''"
proof -
  have "\<nexists>prefix. ''com.acme'' = prefix @ ''.*''"
    by (auto simp: append_eq_Cons_conv Cons_eq_append_conv)
  then show ?thesis
    using group_matches_spec [of "''com.acme''" "''com.acme.billing''" "''com.acme''"]
      group_matches_spec [of "''com.acme''" "''com.acme''" "''com.acme''"] by simp
qed

lemma hook_position_inj: "hook_position a = hook_position b \<Longrightarrow> a = b"
  by (cases a; cases b; simp add: hook_position_def all_hooks_def)

definition hooks_inv :: "hooks \<Rightarrow> bool" where
  "hooks_inv hs \<longleftrightarrow> distinct (map fst hs) \<and> sorted (map (hook_position \<circ> fst) hs) \<and> list_all (\<lambda>(_, names). distinct names) hs"

lemma hook_tasks_map_of: "hook_tasks hs h = (case map_of hs h of None \<Rightarrow> [] | Some names \<Rightarrow> names)"
  by (induction hs) (auto simp: hook_tasks_def)

lemma hooks_push_keys [simp]: "map fst (hooks_push h task hs) = map fst hs"
  by (induction h task hs rule: hooks_push.induct) auto

lemma map_of_hooks_push:
  "h \<in> fst ` set hs \<Longrightarrow>
   map_of (hooks_push h task hs) k = (if k = h then map_option (push_new task) (map_of hs k) else map_of hs k)"
proof (induction h task hs rule: hooks_push.induct)
  case (2 h task j names hs)
  then show ?case
    by (cases "j = h") (auto simp: push_new_def [of _ names] list_ex_iff)
qed simp

lemma hooks_push_distinct:
  "list_all (\<lambda>(_, names). distinct names) hs \<Longrightarrow> list_all (\<lambda>(_, names). distinct names) (hooks_push h task hs)"
  by (induction h task hs rule: hooks_push.induct) (auto simp: list_ex_iff)

lemma insert_by_key_sorted:
  "sorted (map f xs) \<Longrightarrow> sorted (map f (insert_by (\<lambda>a b. cmp (f a) (f b)) x xs))"
  by (induction xs) (auto simp: not_less)

lemma sort_by_key_sorted: "sorted (map f (sort_by (\<lambda>a b. cmp (f a) (f b)) xs))"
  by (induction xs) (simp_all add: insert_by_key_sorted)

lemma map_fst_sort_by: "distinct (map f (sort_by c xs)) \<longleftrightarrow> distinct (map f xs)"
proof -
  have *: "distinct (map f (insert_by c x xs)) \<longleftrightarrow> f x \<notin> f ` set xs \<and> distinct (map f xs)" for x xs
    by (induction xs) auto
  show ?thesis by (induction xs) (simp_all add: *)
qed

lemma map_of_sort_by: "distinct (map fst xs) \<Longrightarrow> map_of (sort_by c xs) = map_of xs"
  by (rule map_of_eqI) (auto simp: map_fst_sort_by map_of_eq_Some_iff)

text \<open>
  Adding a task to a hook runs it there after the others, once, and nowhere else;
  the hooks stay in the order of the build with each hook's tasks distinct.
\<close>

lemma hooks_add_appends:
  assumes "hooks_inv hs"
  shows "hooks_inv (hooks_add hs h task) \<and>
    hook_tasks (hooks_add hs h task) k = (if k = h then push_new task (hook_tasks hs h) else hook_tasks hs k)"
proof (cases "h \<in> fst ` set hs")
  case True
  then have "hooks_add hs h task = hooks_push h task hs"
    by (force simp: hooks_add_def list_ex_iff)
  moreover have "map (hook_position \<circ> fst) (hooks_push h task hs) = map (hook_position \<circ> fst) hs"
    by (simp flip: map_map)
  ultimately show ?thesis
    using assms True by (auto simp: hooks_inv_def hook_tasks_map_of map_of_hooks_push hooks_push_distinct
        map_of_eq_None_iff split: option.splits)
next
  case False
  let ?new = "hs @ [(h, [task])]" and ?c = "\<lambda>a b. cmp (hook_position (fst a)) (hook_position (fst b))"
  have add: "hooks_add hs h task = sort_by ?c ?new"
    using False by (force simp: hooks_add_def list_ex_iff)
  have keys: "distinct (map fst ?new)"
    using assms False by (auto simp: hooks_inv_def)
  have "sorted (map (hook_position \<circ> fst) (sort_by ?c ?new))"
    using sort_by_key_sorted [of "hook_position \<circ> fst" ?new] by (simp add: comp_def)
  moreover have "map_of (sort_by ?c ?new) = map_of ?new"
    using map_of_sort_by [OF keys] .
  moreover have "map_of hs h = None"
    using False by (simp add: map_of_eq_None_iff)
  ultimately show ?thesis
    using assms keys unfolding add
    by (auto simp: hooks_inv_def hook_tasks_map_of map_fst_sort_by list_all_iff push_new_def map_add_def
        split: option.splits)
qed

lemma hooks_add_appends_witness:
  "hook_tasks (hooks_add [(PostCompile, [''a''])] PreCompile ''gen'') PreCompile = [''gen''] \<and>
   hook_tasks (hooks_add [(PostCompile, [''a''])] PreCompile ''gen'') PostCompile = [''a'']"
proof -
  have "hooks_inv [(PostCompile, [''a''])]" by (simp add: hooks_inv_def)
  from hooks_add_appends [OF this, of PreCompile "''gen''"] show ?thesis
    by (simp add: hook_tasks_def push_new_def)
qed

lemma fold_push_new_head: "xs \<noteq> [] \<Longrightarrow> distinct xs \<Longrightarrow>
  distinct (fold (\<lambda>p. push_new (f p)) ps xs) \<and> fold (\<lambda>p. push_new (f p)) ps xs \<noteq> [] \<and>
  hd (fold (\<lambda>p. push_new (f p)) ps xs) = hd xs \<and> set (fold (\<lambda>p. push_new (f p)) ps xs) = set xs \<union> f ` set ps"
proof (induction ps arbitrary: xs)
  case (Cons p ps)
  have "push_new (f p) xs \<noteq> []" "hd (push_new (f p) xs) = hd xs" "distinct (push_new (f p) xs)"
    using Cons.prems by (auto simp: push_new_def)
  with Cons.IH [of "push_new (f p) xs"] show ?case by simp
qed simp

text \<open>
  A compiler's graph is rooted in the compiler and then in the artifact of each
  plugin named, once each and all at the version of the language.
\<close>

lemma compiler_roots_distinct:
  assumes "compiler_of (lc_language config) (lc_version config) = Some c"
  shows "distinct (compiler_roots config) \<and> hd (compiler_roots config) = compiler_coord c \<and>
    (\<forall>r \<in> set (compiler_roots config). coord_version r = lc_version config)"
proof -
  have version: "coord_version (compiler_coord c) = lc_version config"
    using assms by (cases "lc_language config") (auto simp: coord_new_def split: if_splits)
  have "compiler_roots config = fold (\<lambda>p. push_new (coord_new ''org.jetbrains.kotlin'' (kp_artifact p) (lc_version config)))
      (List.map_filter find_kotlin_plugin (lc_plugins config)) [compiler_coord c]"
    using assms by (simp add: compiler_roots_def)
  with fold_push_new_head [of "[compiler_coord c]"
      "\<lambda>p. coord_new ''org.jetbrains.kotlin'' (kp_artifact p) (lc_version config)"
      "List.map_filter find_kotlin_plugin (lc_plugins config)"] version
  show ?thesis by (auto simp: coord_new_def)
qed

lemma compiler_roots_distinct_witness:
  "\<exists>config. length (compiler_roots config) = 2 \<and> lc_plugins config = [''spring'', ''allopen''] \<and> distinct (compiler_roots config)"
proof -
  let ?config = "\<lparr>lc_language = Kotlin, lc_version = ''2.1'', lc_source_dir = [], lc_test_dir = [],
       lc_compiler_args = [], lc_compiler_jvm_args = [], lc_plugins = [''spring'', ''allopen'']\<rparr>"
  have "compiler_of (lc_language ?config) (lc_version ?config) =
      Some (the (compiler_of (lc_language ?config) (lc_version ?config)))" by simp
  from compiler_roots_distinct [OF this] have "distinct (compiler_roots ?config)" by blast
  moreover have "length (compiler_roots ?config) = 2" by code_simp
  ultimately show ?thesis by (intro exI [of _ ?config]) simp
qed

end
