(* ===== verification/Pom.thy ===== *)
theory Pom
  imports Coord
begin

text \<open>
  \<^verbatim>\<open>src/src/resolve/pom.rs\<close>: the element tree built from XML events, the Maven model read out
  of it, and the effective POM: a chain of POMs merged, placeholders expanded, dependency
  management applied. The XML tokenizer (\<^verbatim>\<open>quick_xml\<close>) is outside; its events are the input.
  The lemmas show that a tree written as events is read back, what an effective POM's
  properties and managed versions are, and what expansion does.
\<close>

section \<open>The element tree\<close>

datatype element = Element (el_name: str) (el_text: str) (el_children: "element list")

definition child :: "element \<Rightarrow> str \<Rightarrow> element option" where
  "child e name = find (\<lambda>c. el_name c = name) (el_children e)"

definition children_named :: "element \<Rightarrow> str \<Rightarrow> element list" where
  "children_named e name = filter (\<lambda>c. el_name c = name) (el_children e)"

fun path :: "element \<Rightarrow> str list \<Rightarrow> element option" where
  "path e [] = Some e"
| "path e (n # names) = (case child e n of None \<Rightarrow> None | Some c \<Rightarrow> path c names)"

definition text_of :: "element \<Rightarrow> str \<Rightarrow> str option" where
  "text_of e name = non_empty (map_option (\<lambda>c. trim (el_text c)) (child e name))"

definition el_list :: "element \<Rightarrow> str \<Rightarrow> str \<Rightarrow> element list" where
  "el_list e plural singular =
     (case child e plural of None \<Rightarrow> [] | Some c \<Rightarrow> children_named c singular)"

text \<open>
  The events of the tokenizer; a reference carries the character \<^verbatim>\<open>resolve_char_ref\<close> made of
  it, if it is numeric, and its name. The tokenizer can fail at any event.
\<close>

datatype xml_event =
    Start str
  | EmptyTag str
  | XmlText str
  | CData str
  | GeneralRef "str option" str
  | End
  | OtherEvent

fun resolve_reference :: "str option \<Rightarrow> str \<Rightarrow> str" where
  "resolve_reference (Some c) name = c"
| "resolve_reference None name =
     (if name = ''lt'' then ''<''
      else if name = ''gt'' then ''>''
      else if name = ''amp'' then ''&''
      else if name = ''quot'' then [CHR 0x22]
      else if name = ''apos'' then [CHR 0x27]
      else [])"

definition add_text :: "str \<Rightarrow> element list \<Rightarrow> element list" where
  "add_text t stack =
     (case stack of [] \<Rightarrow> []
      | t0 # rest \<Rightarrow> Element (el_name t0) (el_text t0 @ t) (el_children t0) # rest)"

text \<open>Handing a finished element to its parent, or keeping it as the root.\<close>

definition attach :: "element \<Rightarrow> element list \<Rightarrow> element option \<Rightarrow> element list \<times> element option" where
  "attach e stack root =
     (case stack of [] \<Rightarrow> ([], Some e)
      | t0 # rest \<Rightarrow> (Element (el_name t0) (el_text t0) (el_children t0 @ [e]) # rest, root))"

fun xml_step :: "xml_event \<Rightarrow> element list \<times> element option \<Rightarrow> element list \<times> element option" where
  "xml_step (Start n) (stack, root) = (Element n [] [] # stack, root)"
| "xml_step (EmptyTag n) (stack, root) = attach (Element n [] []) stack root"
| "xml_step (XmlText t) (stack, root) = (add_text t stack, root)"
| "xml_step (CData t) (stack, root) = (add_text t stack, root)"
| "xml_step (GeneralRef c n) (stack, root) = (add_text (resolve_reference c n) stack, root)"
| "xml_step End (stack, root) =
     (case stack of [] \<Rightarrow> ([], root) | done # rest \<Rightarrow> attach done rest root)"
| "xml_step OtherEvent (stack, root) = (stack, root)"

fun parse_events :: "(str + xml_event) list \<Rightarrow> element list \<times> element option \<Rightarrow> element result" where
  "parse_events [] (stack, root) = ok_or (ResolveErr (Msg ''XML document has no root element'' [])) root"
| "parse_events (Inl e # evs) s = Inl (ResolveErr (Msg ''malformed XML'' [e]))"
| "parse_events (Inr ev # evs) s = parse_events evs (xml_step ev s)"

definition parse_xml :: "(str + xml_event) list \<Rightarrow> element result" where
  "parse_xml evs = parse_events evs ([], None)"

section \<open>The Maven model\<close>

record parent_ref =
  parent_group :: str
  parent_artifact :: str
  parent_version :: str
  parent_relative_path :: "str option"

record pom_dependency =
  pd_group :: str
  pd_artifact :: str
  pd_version :: "str option"
  pd_scope :: "str option"
  pd_optional :: bool
  pd_kind :: str
  pd_classifier :: "str option"
  pd_exclusions :: "ga list"

definition pd_ga :: "pom_dependency \<Rightarrow> ga" where
  "pd_ga d = ga_new (pd_group d) (pd_artifact d)"

definition pd_effective_scope :: "pom_dependency \<Rightarrow> scope" where
  "pd_effective_scope d =
     (case pd_scope d of None \<Rightarrow> ScopeCompile | Some s \<Rightarrow> scope_parse s)"

definition pd_excludes :: "pom_dependency \<Rightarrow> ga \<Rightarrow> bool" where
  "pd_excludes d g \<longleftrightarrow> list_ex (\<lambda>e.
     (ga_group e = ''*'' \<or> ga_group e = ga_group g) \<and>
     (ga_artifact e = ''*'' \<or> ga_artifact e = ga_artifact g)) (pd_exclusions d)"

record plugin_info =
  plugin_group :: str
  plugin_artifact :: str
  plugin_configuration :: "element option"
  plugin_executions :: "element list"

record build_info =
  source_directory :: "str option"
  test_source_directory :: "str option"
  directory :: "str option"
  resource_directories :: "str list"
  final_name :: "str option"
  plugins :: "plugin_info list"

record profile =
  profile_id :: str
  active_by_default :: bool
  profile_element :: element

record pom =
  pom_root :: element
  pom_parent :: "parent_ref option"
  pom_group :: "str option"
  pom_artifact :: str
  pom_version :: "str option"
  pom_packaging :: str
  pom_properties :: "(str \<times> str) list"
  pom_dependency_management :: "pom_dependency list"
  pom_dependencies :: "pom_dependency list"
  pom_repositories :: "(str \<times> str) list"
  pom_modules :: "str list"
  pom_build :: build_info
  pom_profiles :: "profile list"

definition or_default :: "'a \<Rightarrow> 'a option \<Rightarrow> 'a" where
  "or_default d o' = (case o' of None \<Rightarrow> d | Some x \<Rightarrow> x)"

definition read_properties :: "element \<Rightarrow> (str \<times> str) list" where
  "read_properties root =
     (case child root ''properties'' of None \<Rightarrow> []
      | Some p \<Rightarrow> fold (\<lambda>(k, v). bt_put k v)
          (map (\<lambda>c. (el_name c, trim (el_text c))) (el_children p)) [])"

definition read_exclusion :: "element \<Rightarrow> ga option" where
  "read_exclusion e =
     (case text_of e ''groupId'' of None \<Rightarrow> None | Some grp \<Rightarrow>
     (case text_of e ''artifactId'' of None \<Rightarrow> None | Some artifact \<Rightarrow>
        Some (ga_new grp artifact)))"

definition read_dependency :: "element \<Rightarrow> pom_dependency option" where
  "read_dependency d =
     (case text_of d ''groupId'' of None \<Rightarrow> None | Some grp \<Rightarrow>
     (case text_of d ''artifactId'' of None \<Rightarrow> None | Some artifact \<Rightarrow>
        Some \<lparr>pd_group = grp, pd_artifact = artifact,
          pd_version = text_of d ''version'', pd_scope = text_of d ''scope'',
          pd_optional = (text_of d ''optional'' = Some ''true''),
          pd_kind = or_default ''jar'' (text_of d ''type''),
          pd_classifier = text_of d ''classifier'',
          pd_exclusions = List.map_filter read_exclusion (el_list d ''exclusions'' ''exclusion'')\<rparr>))"

definition read_dependencies :: "element \<Rightarrow> pom_dependency list" where
  "read_dependencies parent =
     List.map_filter read_dependency (el_list parent ''dependencies'' ''dependency'')"

definition read_repositories :: "element \<Rightarrow> (str \<times> str) list" where
  "read_repositories root = List.map_filter
     (\<lambda>r. case text_of r ''url'' of None \<Rightarrow> None
          | Some url \<Rightarrow> Some (or_default ''repository'' (text_of r ''id''), url))
     (el_list root ''repositories'' ''repository'')"

definition read_plugin :: "element \<Rightarrow> plugin_info option" where
  "read_plugin p =
     (case text_of p ''artifactId'' of None \<Rightarrow> None | Some artifact \<Rightarrow>
        Some \<lparr>plugin_group = or_default ''org.apache.maven.plugins'' (text_of p ''groupId''),
          plugin_artifact = artifact, plugin_configuration = child p ''configuration'',
          plugin_executions = el_list p ''executions'' ''execution''\<rparr>)"

definition read_build :: "element \<Rightarrow> build_info" where
  "read_build root =
     (case child root ''build'' of
        None \<Rightarrow> \<lparr>source_directory = None, test_source_directory = None, directory = None,
                 resource_directories = [], final_name = None, plugins = []\<rparr>
      | Some build \<Rightarrow>
          \<lparr>source_directory = text_of build ''sourceDirectory'',
           test_source_directory = text_of build ''testSourceDirectory'',
           directory = text_of build ''directory'',
           resource_directories =
             List.map_filter (\<lambda>r. text_of r ''directory'') (el_list build ''resources'' ''resource''),
           final_name = text_of build ''finalName'',
           plugins = List.map_filter read_plugin (el_list build ''plugins'' ''plugin'')\<rparr>)"

definition read_parent :: "element \<Rightarrow> parent_ref option" where
  "read_parent root =
     (case child root ''parent'' of None \<Rightarrow> None | Some p \<Rightarrow>
     (case text_of p ''groupId'' of None \<Rightarrow> None | Some grp \<Rightarrow>
     (case text_of p ''artifactId'' of None \<Rightarrow> None | Some artifact \<Rightarrow>
     (case text_of p ''version'' of None \<Rightarrow> None | Some version \<Rightarrow>
        Some \<lparr>parent_group = grp, parent_artifact = artifact, parent_version = version,
          parent_relative_path = map_option (\<lambda>e. trim (el_text e)) (child p ''relativePath'')\<rparr>))))"

definition read_profile :: "element \<Rightarrow> profile" where
  "read_profile p =
     \<lparr>profile_id = or_default [] (text_of p ''id''),
      active_by_default =
        (case path p [''activation'', ''activeByDefault''] of None \<Rightarrow> False
         | Some e \<Rightarrow> trim (el_text e) = ''true''),
      profile_element = p\<rparr>"

definition pom_from_element :: "element \<Rightarrow> pom" where
  "pom_from_element root =
     \<lparr>pom_root = root, pom_parent = read_parent root,
      pom_group = text_of root ''groupId'',
      pom_artifact = or_default [] (text_of root ''artifactId''),
      pom_version = text_of root ''version'',
      pom_packaging = or_default ''jar'' (text_of root ''packaging''),
      pom_properties = read_properties root,
      pom_dependency_management =
        (case path root [''dependencyManagement''] of None \<Rightarrow> [] | Some m \<Rightarrow> read_dependencies m),
      pom_dependencies = read_dependencies root,
      pom_repositories = read_repositories root,
      pom_modules = filter (\<lambda>m. m \<noteq> []) (map (\<lambda>m. trim (el_text m)) (el_list root ''modules'' ''module'')),
      pom_build = read_build root,
      pom_profiles = map read_profile (el_list root ''profiles'' ''profile'')\<rparr>"

definition pom_parse :: "(str + xml_event) list \<Rightarrow> pom result" where
  "pom_parse bytes = and_then (parse_xml bytes) (\<lambda>root.
     if el_name root \<noteq> ''project''
     then Inl (ResolveErr (Msg ''expected a project root element'' [el_name root]))
     else Inr (pom_from_element root))"

definition group_id :: "pom \<Rightarrow> str option" where
  "group_id p = (case pom_group p of Some g \<Rightarrow> Some g | None \<Rightarrow> map_option parent_group (pom_parent p))"

definition version_id :: "pom \<Rightarrow> str option" where
  "version_id p = (case pom_version p of Some v \<Rightarrow> Some v | None \<Rightarrow> map_option parent_version (pom_parent p))"

definition pom_own_coord :: "pom \<Rightarrow> coord option" where
  "pom_own_coord p =
     (case group_id p of None \<Rightarrow> None | Some grp \<Rightarrow>
     (case version_id p of None \<Rightarrow> None | Some version \<Rightarrow>
        Some (coord_new grp (pom_artifact p) version)))"

section \<open>Expanding placeholders\<close>

text \<open>
  One pass over the text. An unclosed placeholder ends the pass; the text before it has
  already been copied when the whole rest is, so it comes out twice.
\<close>

function interpolate_pass :: "(str \<times> str) list \<Rightarrow> str \<Rightarrow> str \<times> bool" where
  "interpolate_pass props rest =
     (case split_once ''${'' rest of
        None \<Rightarrow> (rest, False)
      | Some (before, after) \<Rightarrow>
          (case split_once ''}'' after of
             None \<Rightarrow> (before @ rest, False)
           | Some (key, rest') \<Rightarrow>
               let (out, changed) = interpolate_pass props rest' in
               (case map_of props key of
                  Some value \<Rightarrow> (before @ value @ out, True)
                | None \<Rightarrow> (before @ ''${'' @ key @ ''}'' @ out, changed))))"
  by pat_completeness auto
termination
  by (relation "measure (\<lambda>(props, rest). length rest)")
    (auto dest!: split_once_Some)

declare interpolate_pass.simps [simp del]

fun interpolate_loop :: "nat \<Rightarrow> (str \<times> str) list \<Rightarrow> str \<Rightarrow> str" where
  "interpolate_loop 0 props out = out"
| "interpolate_loop (Suc n) props out =
     (if \<not> contains ''${'' out then out
      else let (nxt, changed) = interpolate_pass props out in
           if \<not> changed then nxt else interpolate_loop n props nxt)"

definition interpolate :: "str \<Rightarrow> (str \<times> str) list \<Rightarrow> str" where
  "interpolate text props = interpolate_loop 8 props text"

definition interpolate_dep :: "pom_dependency \<Rightarrow> (str \<times> str) list \<Rightarrow> pom_dependency" where
  "interpolate_dep d props =
     \<lparr>pd_group = interpolate (pd_group d) props,
      pd_artifact = interpolate (pd_artifact d) props,
      pd_version = map_option (\<lambda>v. interpolate v props) (pd_version d),
      pd_scope = map_option (\<lambda>s. interpolate s props) (pd_scope d),
      pd_optional = pd_optional d, pd_kind = pd_kind d, pd_classifier = pd_classifier d,
      pd_exclusions = map (\<lambda>e. ga_new (interpolate (ga_group e) props)
                                     (interpolate (ga_artifact e) props)) (pd_exclusions d)\<rparr>"

section \<open>The effective POM\<close>

record managed_entry =
  me_version :: "str option"
  me_scope :: "str option"
  me_exclusions :: "ga list"

record eff_pom =
  eff_coord :: coord
  eff_packaging :: str
  eff_properties :: "(str \<times> str) list"
  eff_managed :: "(ga \<times> managed_entry) list"
  eff_dependencies :: "pom_dependency list"
  eff_repositories :: "(str \<times> str) list"
  eff_imports :: "coord list"

text \<open>Properties from the furthest ancestor inwards, so that nearer ones win.\<close>

definition merged_properties :: "pom list \<Rightarrow> (str \<times> str) list" where
  "merged_properties chain =
     fold (\<lambda>ancestor m. fold (\<lambda>(k, v). bt_put k v) (pom_properties ancestor) m) (rev chain) []"

definition chain_coord :: "pom list \<Rightarrow> pom \<Rightarrow> coord option" where
  "chain_coord chain p =
     (case pom_own_coord p of Some c \<Rightarrow> Some c | None \<Rightarrow>
     (case find_map group_id chain of None \<Rightarrow> None | Some grp \<Rightarrow>
     (case find_map version_id chain of None \<Rightarrow> None | Some version \<Rightarrow>
        Some (coord_new grp (pom_artifact p) version))))"

definition builtin_properties :: "coord \<Rightarrow> parent_ref option \<Rightarrow> (str \<times> str) list" where
  "builtin_properties c parent =
     [(''project.groupId'', coord_group c), (''project.artifactId'', coord_artifact c),
      (''project.version'', coord_version c), (''pom.groupId'', coord_group c),
      (''pom.artifactId'', coord_artifact c), (''pom.version'', coord_version c),
      (''version'', coord_version c)] @
     (case parent of None \<Rightarrow> []
      | Some p \<Rightarrow> [(''project.parent.version'', parent_version p),
                   (''project.parent.groupId'', parent_group p)])"

definition add_managed ::
    "(str \<times> str) list \<Rightarrow> pom_dependency \<Rightarrow> (ga \<times> managed_entry) list \<times> coord list \<Rightarrow>
     (ga \<times> managed_entry) list \<times> coord list" where
  "add_managed props d0 = (\<lambda>(managed, imports). let d = interpolate_dep d0 props in
     if pd_scope d = Some ''import'' \<and> pd_kind d = ''pom''
     then (managed, case pd_version d of None \<Rightarrow> imports
                    | Some v \<Rightarrow> imports @ [coord_new (pd_group d) (pd_artifact d) v])
     else (bt_put (pd_ga d) \<lparr>me_version = pd_version d, me_scope = pd_scope d,
                             me_exclusions = pd_exclusions d\<rparr> managed, imports))"

definition add_repository ::
    "(str \<times> str) list \<Rightarrow> str \<times> str \<Rightarrow> (str \<times> str) list \<Rightarrow> (str \<times> str) list" where
  "add_repository props = (\<lambda>(i, url0) repositories. let url = interpolate url0 props in
     if list_ex (\<lambda>(_, u). u = url) repositories then repositories else repositories @ [(i, url)])"

definition effective :: "pom list \<Rightarrow> eff_pom result" where
  "effective chain =
     (case chain of [] \<Rightarrow> Inl (ResolveErr (Msg ''empty POM chain'' []))
      | p # _ \<Rightarrow>
          and_then (ok_or (ResolveErr (Msg ''no resolvable groupId/version'' [pom_artifact p]))
            (chain_coord chain p)) (\<lambda>c.
          let props = fold (\<lambda>(k, v). bt_put k v) (builtin_properties c (pom_parent p))
                (merged_properties chain);
              (managed, imports) = fold (\<lambda>ancestor acc.
                fold (add_managed props) (pom_dependency_management ancestor) acc) (rev chain) ([], []);
              dependencies = map (\<lambda>d. interpolate_dep d props) (pom_dependencies p);
              repositories = fold (\<lambda>ancestor acc.
                fold (add_repository props) (pom_repositories ancestor) acc) (rev chain) []
          in Inr \<lparr>eff_coord = c, eff_packaging = pom_packaging p, eff_properties = props,
               eff_managed = managed, eff_dependencies = dependencies,
               eff_repositories = repositories, eff_imports = imports\<rparr>))"

definition manage :: "eff_pom \<Rightarrow> pom_dependency \<Rightarrow> pom_dependency" where
  "manage eff dep =
     (case map_of (eff_managed eff) (pd_ga dep) of
        None \<Rightarrow> dep
      | Some m \<Rightarrow> dep\<lparr>
          pd_version := (case pd_version dep of None \<Rightarrow> me_version m | Some v \<Rightarrow> Some v),
          pd_scope := (case pd_scope dep of None \<Rightarrow> me_scope m | Some s \<Rightarrow> Some s),
          pd_exclusions := fold push_new (me_exclusions m) (pd_exclusions dep)\<rparr>)"

definition absorb_import :: "eff_pom \<Rightarrow> eff_pom \<Rightarrow> eff_pom" where
  "absorb_import eff bom = eff\<lparr>
     eff_managed := fold (\<lambda>(g, m) acc. if map_of acc g = None then bt_put g m acc else acc)
       (eff_managed bom) (eff_managed eff),
     eff_properties := fold (\<lambda>(k, v) acc. if map_of acc k = None then bt_put k v acc else acc)
       (eff_properties bom) (eff_properties eff)\<rparr>"

section \<open>Reading back a document\<close>

text \<open>A tree as the events of the document that has it.\<close>

fun events_of :: "element \<Rightarrow> xml_event list" where
  "events_of (Element n t cs) = Start n # XmlText t # concat (map events_of cs) @ [End]"

lemma parse_events_children:
  "(\<And>c rest s r. c \<in> set cs \<Longrightarrow>
      parse_events (map Inr (events_of c) @ rest) (s, r) = parse_events rest (attach c s r)) \<Longrightarrow>
   parse_events (map Inr (concat (map events_of cs)) @ rest) (Element n t ds # stack, root) =
   parse_events rest (Element n t (ds @ cs) # stack, root)"
proof (induction cs arbitrary: ds)
  case (Cons c cs)
  then show ?case by (simp add: attach_def)
qed simp

lemma parse_events_of:
  "parse_events (map Inr (events_of e) @ rest) (stack, root) = parse_events rest (attach e stack root)"
proof (induction e arbitrary: rest stack root)
  case (Element n t cs)
  have "parse_events (map Inr (concat (map events_of cs)) @ Inr End # rest)
      (Element n t [] # stack, root) = parse_events (Inr End # rest) (Element n t cs # stack, root)"
    using parse_events_children [of cs "Inr End # rest" n t "[]" stack root] Element.IH by simp
  then show ?case by (simp add: add_text_def)
qed


section \<open>What merging a chain gives\<close>

lemma bt_inv_read_properties: "bt_inv (read_properties root)"
  by (auto simp: read_properties_def intro!: bt.inv_fold_put split: option.splits)

lemma bt_inv_pom_properties: "bt_inv (pom_properties (pom_from_element root))"
  by (simp add: pom_from_element_def bt_inv_read_properties)

lemma fold_layers:
  assumes "bt_inv m" and "\<And>p. p \<in> set ps \<Longrightarrow> distinct (map fst (f p))"
  shows "bt_inv (fold (\<lambda>p acc. fold (\<lambda>(k, v). bt_put k v) (f p) acc) ps m) \<and>
    map_of (fold (\<lambda>p acc. fold (\<lambda>(k, v). bt_put k v) (f p) acc) ps m) k =
      (case find_map (\<lambda>p. map_of (f p) k) (rev ps) of Some v \<Rightarrow> Some v | None \<Rightarrow> map_of m k)"
  using assms
proof (induction ps arbitrary: m)
  case (Cons p ps)
  then show ?case
    using bt.inv_fold_put [of m "f p"]
    by (auto simp: find_map_append bt.get_fold_put map_of_rev_distinct split: option.splits)
qed simp

lemma effective_Inr:
  "effective chain = Inr e \<Longrightarrow> \<exists>p ps c. chain = p # ps \<and> chain_coord chain p = Some c \<and>
     eff_coord e = c \<and> eff_packaging e = pom_packaging p \<and>
     eff_properties e = fold (\<lambda>(k, v). bt_put k v) (builtin_properties c (pom_parent p)) (merged_properties chain) \<and>
     (eff_managed e, eff_imports e) = fold (\<lambda>ancestor acc.
       fold (add_managed (eff_properties e)) (pom_dependency_management ancestor) acc) (rev chain) ([], []) \<and>
     eff_dependencies e = map (\<lambda>d. interpolate_dep d (eff_properties e)) (pom_dependencies p)"
  by (cases chain) (auto simp: effective_def and_then_Inr Let_def case_prod_beta)

lemma builtin_distinct: "distinct (map fst (builtin_properties c parent))"
  by (cases parent) (simp_all add: builtin_properties_def)

text \<open>
  Property C27. A property of an effective POM is its built-in value if it is a built-in one,
  which nothing overrides, and otherwise the value of the nearest POM of the chain that sets
  it.
\<close>

theorem effective_properties_nearest:
  assumes "effective (map pom_from_element roots) = Inr e"
  shows "map_of (eff_properties e) k =
    (case map_of (builtin_properties (eff_coord e) (pom_parent (pom_from_element (hd roots)))) k of
       Some v \<Rightarrow> Some v
     | None \<Rightarrow> find_map (\<lambda>root. map_of (read_properties root) k) roots)"
proof -
  let ?chain = "map pom_from_element roots"
  obtain root rest where roots: "roots = root # rest"
    and props: "eff_properties e = fold (\<lambda>(k, v). bt_put k v)
      (builtin_properties (eff_coord e) (pom_parent (pom_from_element root))) (merged_properties ?chain)"
    using effective_Inr [OF assms] by auto
  have "distinct (map fst (pom_properties p))" if "p \<in> set (rev ?chain)" for p
    using that bt_inv_distinct [OF bt_inv_pom_properties] by auto
  from fold_layers [of "[]" "rev ?chain" pom_properties k, OF _ this]
  have "bt_inv (merged_properties ?chain) \<and>
    map_of (merged_properties ?chain) k = find_map (\<lambda>p. map_of (pom_properties p) k) ?chain"
    by (simp add: merged_properties_def split: option.splits)
  then have layers: "bt_inv (merged_properties ?chain)"
    "map_of (merged_properties ?chain) k = find_map (\<lambda>root. map_of (read_properties root) k) roots"
    by (simp_all add: find_map_map pom_from_element_def)
  show ?thesis
    using layers
    by (auto simp: props roots bt.get_fold_put map_of_rev_distinct [OF builtin_distinct] split: option.splits)
qed

text \<open>A small project with a parent: what the examples below are about.\<close>

definition leaf :: "str \<Rightarrow> str \<Rightarrow> element" where
  "leaf n t = Element n t []"

definition example_pom :: element where
  "example_pom = Element ''project'' []
     [Element ''parent'' [] [leaf ''groupId'' ''g'', leaf ''artifactId'' ''p'', leaf ''version'' ''1''],
      leaf ''artifactId'' ''a'',
      Element ''properties'' [] [leaf ''v'' ''2''],
      Element ''dependencies'' []
        [Element ''dependency'' [] [leaf ''groupId'' ''h'', leaf ''artifactId'' ''b'']]]"

definition example_parent :: element where
  "example_parent = Element ''project'' []
     [leaf ''groupId'' ''g'', leaf ''artifactId'' ''p'', leaf ''version'' ''1'',
      Element ''properties'' [] [leaf ''v'' ''1'', leaf ''w'' ''3''],
      Element ''dependencyManagement'' []
        [Element ''dependencies'' []
          [Element ''dependency'' [] [leaf ''groupId'' ''h'', leaf ''artifactId'' ''b'', leaf ''version'' ''${v}'']]]]"

lemma example_effective:
  "\<exists>e. effective (map pom_from_element [example_pom, example_parent]) = Inr e"
proof -
  have "\<not> isl (effective (map pom_from_element [example_pom, example_parent]))"
    by code_simp
  then show ?thesis by (cases "effective (map pom_from_element [example_pom, example_parent])") auto
qed

theorem effective_properties_nearest_witness:
  "\<exists>e. effective (map pom_from_element [example_pom, example_parent]) = Inr e \<and>
     map_of (eff_properties e) ''v'' = Some ''2'' \<and> map_of (eff_properties e) ''w'' = Some ''3''"
proof -
  obtain e where e: "effective (map pom_from_element [example_pom, example_parent]) = Inr e"
    using example_effective by blast
  have read: "map_of (read_properties example_pom) ''v'' = Some ''2''"
    "map_of (read_properties example_pom) ''w'' = None"
    "map_of (read_properties example_parent) ''w'' = Some ''3''"
    by code_simp+
  have "map_of (builtin_properties c p) ''v'' = None" "map_of (builtin_properties c p) ''w'' = None" for c p
    by (cases p; simp add: builtin_properties_def)+
  with e read show ?thesis by (simp add: effective_properties_nearest [OF e])
qed

section \<open>Dependency management\<close>

definition to_entry :: "pom_dependency \<Rightarrow> managed_entry" where
  "to_entry d = \<lparr>me_version = pd_version d, me_scope = pd_scope d, me_exclusions = pd_exclusions d\<rparr>"

definition is_import :: "pom_dependency \<Rightarrow> bool" where
  "is_import d \<longleftrightarrow> pd_scope d = Some ''import'' \<and> pd_kind d = ''pom''"

text \<open>What one POM manages: its entries, expanded, but for the imported BOMs.\<close>

definition managed_by :: "(str \<times> str) list \<Rightarrow> pom \<Rightarrow> (ga \<times> managed_entry) list" where
  "managed_by props p = map (\<lambda>d. (pd_ga d, to_entry d))
     (filter (\<lambda>d. \<not> is_import d) (map (\<lambda>d. interpolate_dep d props) (pom_dependency_management p)))"

lemma fold_add_managed:
  "fst (fold (add_managed props) ds (m, imps)) =
   fold (\<lambda>(k, v). bt_put k v)
     (map (\<lambda>d. (pd_ga d, to_entry d)) (filter (\<lambda>d. \<not> is_import d) (map (\<lambda>d. interpolate_dep d props) ds))) m"
proof (induction ds arbitrary: m imps)
  case (Cons d ds)
  then show ?case by (auto simp: add_managed_def is_import_def to_entry_def Let_def split: option.splits)
qed simp

lemma fold_managed_chain:
  assumes "bt_inv m"
  shows "bt_inv (fst (fold (\<lambda>p acc. fold (add_managed props) (pom_dependency_management p) acc) ps (m, imps))) \<and>
    map_of (fst (fold (\<lambda>p acc. fold (add_managed props) (pom_dependency_management p) acc) ps (m, imps))) g =
      (case find_map (\<lambda>p. map_of (rev (managed_by props p)) g) (rev ps) of
         Some v \<Rightarrow> Some v | None \<Rightarrow> map_of m g)"
  using assms
proof (induction ps arbitrary: m imps)
  case (Cons p ps)
  obtain m' imps' where step: "fold (add_managed props) (pom_dependency_management p) (m, imps) = (m', imps')"
    by fastforce
  then have "m' = fold (\<lambda>(k, v). bt_put k v) (managed_by props p) m"
    using fold_add_managed [of props "pom_dependency_management p" m imps] by (simp add: managed_by_def)
  with Cons step bt.inv_fold_put [of m "managed_by props p"] show ?case
    by (auto simp: find_map_append bt.get_fold_put split: option.splits)
qed simp

text \<open>
  Property C28. What an effective POM manages for an artifact is the entry of the nearest POM of
  the chain that has one, the last one it has, with its placeholders expanded; an imported BOM
  is no entry.
\<close>

theorem effective_managed_nearest:
  assumes "effective chain = Inr e"
  shows "map_of (eff_managed e) g =
    find_map (\<lambda>p. map_of (rev (managed_by (eff_properties e) p)) g) chain"
proof -
  have "(eff_managed e, eff_imports e) = fold (\<lambda>ancestor acc.
      fold (add_managed (eff_properties e)) (pom_dependency_management ancestor) acc) (rev chain) ([], [])"
    using effective_Inr [OF assms] by blast
  then have "eff_managed e = fst (fold (\<lambda>ancestor acc.
      fold (add_managed (eff_properties e)) (pom_dependency_management ancestor) acc) (rev chain) ([], []))"
    by (metis fst_conv)
  then show ?thesis
    using fold_managed_chain [of "[]" "eff_properties e" "rev chain" "[]" g] by (simp split: option.splits)
qed

theorem effective_managed_nearest_witness:
  "\<exists>e. effective (map pom_from_element [example_pom, example_parent]) = Inr e \<and>
     map_option me_version (map_of (eff_managed e) (ga_new ''h'' ''b'')) = Some (Some ''2'')"
proof -
  obtain e where e: "effective (map pom_from_element [example_pom, example_parent]) = Inr e"
    using example_effective by blast
  let ?m = "\<lambda>props. find_map (\<lambda>p. map_of (rev (managed_by props p)) (ga_new ''h'' ''b''))
    (map pom_from_element [example_pom, example_parent])"
  have "eff_properties (projr (effective (map pom_from_element [example_pom, example_parent]))) =
      eff_properties e"
    using e by simp
  moreover have "map_option me_version (?m (eff_properties (projr (effective
      (map pom_from_element [example_pom, example_parent]))))) = Some (Some ''2'')"
    by code_simp
  ultimately have "map_option me_version (?m (eff_properties e)) = Some (Some ''2'')"
    by (simp only:)
  then have "map_option me_version (map_of (eff_managed e) (ga_new ''h'' ''b'')) = Some (Some ''2'')"
    by (subst effective_managed_nearest [OF e])
  with e show ?thesis by (intro exI conjI)
qed

lemma fold_push_new_set [simp]: "set (fold push_new ys xs) = set xs \<union> set ys"
  by (induction ys arbitrary: xs) auto

lemma fold_push_new_absorb: "set ys \<subseteq> set xs \<Longrightarrow> fold push_new ys xs = xs"
  by (induction ys arbitrary: xs) (auto simp: push_new_def)

text \<open>
  Property C29. Dependency management only fills gaps: a version or scope the dependency states
  is kept, exclusions are only added, the artifact stays the same, and managing twice is
  managing once. An imported BOM never replaces what a POM manages itself.
\<close>

theorem manage_fills_gaps:
  "pd_ga (manage eff d) = pd_ga d \<and>
   (pd_version d = Some v \<longrightarrow> pd_version (manage eff d) = Some v) \<and>
   (pd_scope d = Some sc \<longrightarrow> pd_scope (manage eff d) = Some sc) \<and>
   set (pd_exclusions d) \<subseteq> set (pd_exclusions (manage eff d)) \<and>
   manage eff (manage eff d) = manage eff d \<and>
   (bt_inv (eff_managed eff) \<longrightarrow>
     map_of (eff_managed (absorb_import eff bom)) g =
       (case map_of (eff_managed eff) g of Some m \<Rightarrow> Some m | None \<Rightarrow> map_of (eff_managed bom) g))"
proof (intro conjI impI)
  show "manage eff (manage eff d) = manage eff d"
    by (cases "map_of (eff_managed eff) (pd_ga d)")
      (simp_all add: manage_def pd_ga_def fold_push_new_absorb split: option.splits)
  show "map_of (eff_managed (absorb_import eff bom)) g =
       (case map_of (eff_managed eff) g of Some m \<Rightarrow> Some m | None \<Rightarrow> map_of (eff_managed bom) g)"
    if "bt_inv (eff_managed eff)"
    using that by (simp add: absorb_import_def bt_or_insert_eq bt.get_fold_or_insert)
qed (auto simp: manage_def pd_ga_def split: option.splits)

theorem manage_fills_gaps_witness:
  "\<exists>e d. effective (map pom_from_element [example_pom, example_parent]) = Inr e \<and>
     pd_version d = Some ''9'' \<and> pd_scope d = Some ''test'' \<and>
     pd_version (manage e d) = Some ''9'' \<and> pd_scope (manage e d) = Some ''test'' \<and>
     map_of (eff_managed (absorb_import (e\<lparr>eff_managed := []\<rparr>) e)) (ga_new ''h'' ''b'') =
       map_of (eff_managed e) (ga_new ''h'' ''b'')"
proof -
  obtain e where e: "effective (map pom_from_element [example_pom, example_parent]) = Inr e"
    using example_effective by blast
  define d where "d = \<lparr>pd_group = ''h'', pd_artifact = ''b'', pd_version = Some ''9'',
    pd_scope = Some ''test'', pd_optional = False, pd_kind = ''jar'', pd_classifier = None, pd_exclusions = []\<rparr>"
  have d: "pd_version d = Some ''9''" "pd_scope d = Some ''test''"
    by (simp_all add: d_def)
  have "pd_version (manage e d) = Some ''9''" "pd_scope (manage e d) = Some ''test''"
    using manage_fills_gaps [of e d "''9''" "''test''"] d by blast+
  moreover have "map_of (eff_managed (absorb_import (e\<lparr>eff_managed := []\<rparr>) e)) (ga_new ''h'' ''b'') =
      map_of (eff_managed e) (ga_new ''h'' ''b'')"
    using manage_fills_gaps [of "e\<lparr>eff_managed := []\<rparr>" d "[]" "[]" e "ga_new ''h'' ''b''"] by simp
  ultimately show ?thesis
    using e d by (intro exI conjI)
qed

section \<open>What expansion does\<close>

text \<open>
  A text as a template: literal text without dollar signs and references to properties. One
  pass replaces each bound reference by the template its value is.
\<close>

datatype piece = Lit str | Ref str

fun piece_text :: "piece \<Rightarrow> str" where
  "piece_text (Lit l) = l"
| "piece_text (Ref k) = ''${'' @ k @ ''}''"

definition template_text :: "piece list \<Rightarrow> str" where
  "template_text ps = concat (map piece_text ps)"

fun piece_wf :: "piece \<Rightarrow> bool" where
  "piece_wf (Lit l) \<longleftrightarrow> CHR ''$'' \<notin> set l"
| "piece_wf (Ref k) \<longleftrightarrow> CHR ''}'' \<notin> set k"

fun subst_piece :: "(str \<times> piece list) list \<Rightarrow> piece \<Rightarrow> piece list" where
  "subst_piece defs (Lit l) = [Lit l]"
| "subst_piece defs (Ref k) = (case map_of defs k of Some ps \<Rightarrow> ps | None \<Rightarrow> [Ref k])"

definition subst_pieces :: "(str \<times> piece list) list \<Rightarrow> piece list \<Rightarrow> piece list" where
  "subst_pieces defs ps = concat (map (subst_piece defs) ps)"

definition bound_in :: "(str \<times> piece list) list \<Rightarrow> piece list \<Rightarrow> bool" where
  "bound_in defs ps \<longleftrightarrow> (\<exists>k. Ref k \<in> set ps \<and> map_of defs k \<noteq> None)"

definition texts_of :: "(str \<times> piece list) list \<Rightarrow> (str \<times> str) list" where
  "texts_of defs = map (\<lambda>(k, ps). (k, template_text ps)) defs"

lemma map_of_texts_of: "map_of (texts_of defs) k = map_option template_text (map_of defs k)"
  unfolding texts_of_def by (induction defs) auto

lemma template_text_simps [simp]:
  "template_text [] = []"
  "template_text (p # ps) = piece_text p @ template_text ps"
  "template_text (ps @ qs) = template_text ps @ template_text qs"
  by (simp_all add: template_text_def)

lemma split_once_free: "c \<notin> set a \<Longrightarrow> split_once (c # p) (a @ c # p @ b) = Some (a, b)"
proof (induction a)
  case Nil
  then show ?case by (simp add: starts_with_iff)
next
  case (Cons x a)
  then show ?case by (cases "a @ c # p @ b") auto
qed

lemma split_once_absent: "c \<notin> set a \<Longrightarrow> split_once (c # p) a = None"
  by (auto simp: split_once_None)

lemma not_bound_simps:
  "bound_in defs [] = False"
  "bound_in defs (Lit l # ps) = bound_in defs ps"
  "bound_in defs (Ref k # ps) = (map_of defs k \<noteq> None \<or> bound_in defs ps)"
  by (auto simp: bound_in_def)

lemma interpolate_pass_pieces:
  assumes "CHR ''$'' \<notin> set a" and "list_all piece_wf ps"
  shows "interpolate_pass (texts_of defs) (a @ template_text ps) =
    (a @ template_text (subst_pieces defs ps), bound_in defs ps)"
  using assms
proof (induction ps arbitrary: a)
  case Nil
  then show ?case
    by (subst interpolate_pass.simps) (simp add: split_once_absent not_bound_simps subst_pieces_def)
next
  case (Cons p ps)
  show ?case
  proof (cases p)
    case (Lit l)
    with Cons.IH [of "a @ l"] Cons.prems show ?thesis
      by (simp add: not_bound_simps subst_pieces_def)
  next
    case (Ref k)
    have rest: "interpolate_pass (texts_of defs) (template_text ps) =
        (template_text (subst_pieces defs ps), bound_in defs ps)"
      using Cons.IH [of "[]"] Cons.prems by simp
    have "split_once ''${'' (a @ ''${'' @ k @ ''}'' @ template_text ps) =
        Some (a, k @ ''}'' @ template_text ps)"
      using split_once_free [of "CHR ''$''" a "''{''" "k @ ''}'' @ template_text ps"] Cons.prems by simp
    moreover have "split_once ''}'' (k @ ''}'' @ template_text ps) = Some (k, template_text ps)"
      using split_once_free [of "CHR ''}''" k "[]" "template_text ps"] Cons.prems Ref by simp
    ultimately show ?thesis
      using rest Ref
      by (subst interpolate_pass.simps)
        (simp add: not_bound_simps subst_pieces_def map_of_texts_of split: option.splits)
  qed
qed

lemma subst_unbound: "\<not> bound_in defs ps \<Longrightarrow> subst_pieces defs ps = ps"
proof (induction ps)
  case (Cons p ps)
  then show ?case by (cases p) (auto simp: subst_pieces_def not_bound_simps)
qed (simp add: subst_pieces_def)

lemma subst_iterate_unbound: "\<not> bound_in defs ps \<Longrightarrow> (subst_pieces defs ^^ n) ps = ps"
  by (induction n) (simp_all add: subst_unbound)

lemma subst_wf:
  assumes "list_all (\<lambda>(k, ps). list_all piece_wf ps) defs" and "list_all piece_wf ps"
  shows "list_all piece_wf (subst_pieces defs ps)"
  using assms(2)
proof (induction ps)
  case (Cons p ps)
  have "list_all piece_wf (subst_piece defs p)"
  proof (cases p)
    case (Ref k)
    with assms(1) Cons.prems show ?thesis
      by (auto simp: list_all_iff dest!: map_of_SomeD split: option.splits)
  qed (use Cons.prems in simp)
  with Cons show ?case by (simp add: subst_pieces_def)
qed (simp add: subst_pieces_def)

lemma no_placeholder: "list_all piece_wf ps \<Longrightarrow> \<not> contains ''${'' (template_text ps) \<Longrightarrow> \<not> bound_in defs ps"
proof -
  assume "\<not> contains ''${'' (template_text ps)"
  moreover have "contains ''${'' (template_text ps)" if "Ref k \<in> set ps" for k
  proof -
    obtain xs ys where "ps = xs @ Ref k # ys" using split_list [OF \<open>Ref k \<in> set ps\<close>] by blast
    then have "template_text ps = template_text xs @ ''${'' @ (k @ ''}'' @ template_text ys)" by simp
    then show ?thesis unfolding contains_iff by blast
  qed
  ultimately show "\<not> bound_in defs ps" by (auto simp: bound_in_def)
qed

lemma interpolate_loop_pieces:
  assumes "list_all (\<lambda>(k, ps). list_all piece_wf ps) defs" and "list_all piece_wf ps"
  shows "interpolate_loop n (texts_of defs) (template_text ps) =
    template_text ((subst_pieces defs ^^ n) ps)"
  using assms(2)
proof (induction n arbitrary: ps)
  case (Suc n)
  have pass: "interpolate_pass (texts_of defs) (template_text ps) =
      (template_text (subst_pieces defs ps), bound_in defs ps)"
    using interpolate_pass_pieces [of "[]" ps defs] Suc.prems by simp
  have iter: "(subst_pieces defs ^^ Suc n) ps = (subst_pieces defs ^^ n) (subst_pieces defs ps)"
    by (simp add: funpow_Suc_right del: funpow.simps)
  show ?case
  proof (cases "bound_in defs ps")
    case True
    with no_placeholder [OF Suc.prems, of defs] have "contains ''${'' (template_text ps)" by blast
    with True pass Suc.IH [OF subst_wf [OF assms(1) Suc.prems]] iter show ?thesis
      by (simp del: funpow.simps)
  next
    case False
    with pass show ?thesis
      by (simp add: subst_unbound subst_iterate_unbound del: funpow.simps)
  qed
qed simp

text \<open>
  Expanding a text whose placeholders are all closed is substituting the bound
  ones eight times over, each by the text its property has: chains of up to eight references
  are followed, a reference that is not bound stays as it is written, and one that refers to
  itself ends.
\<close>

theorem interpolate_substitutes:
  assumes "list_all (\<lambda>(k, ps). list_all piece_wf ps) defs" and "list_all piece_wf ps"
  shows "interpolate (template_text ps) (texts_of defs) = template_text ((subst_pieces defs ^^ 8) ps)"
  using assms by (simp add: interpolate_def interpolate_loop_pieces)

theorem interpolate_substitutes_witness:
  "interpolate ''lib-${a}-${z}'' [(''a'', ''1.${b}''), (''b'', ''2'')] = ''lib-1.2-${z}''"
proof -
  let ?defs = "[(''a'', [Lit ''1.'', Ref ''b'']), (''b'', [Lit ''2''])]"
  let ?ps = "[Lit ''lib-'', Ref ''a'', Lit ''-'', Ref ''z'']"
  have "interpolate (template_text ?ps) (texts_of ?defs) = template_text ((subst_pieces ?defs ^^ 8) ?ps)"
    by (rule interpolate_substitutes) simp_all
  also have "\<dots> = ''lib-1.2-${z}''"
    by (simp add: eval_nat_numeral subst_pieces_def)
  finally show ?thesis
    by (simp add: texts_of_def)
qed

text \<open>
  A placeholder that is never closed is copied together with the text before it,
  which has been copied already: the text comes out with its beginning twice, whatever the
  properties are.
\<close>

lemma interpolate_unclosed_duplicates:
  assumes "CHR ''$'' \<notin> set a" and "CHR ''}'' \<notin> set key"
  shows "interpolate (a @ ''${'' @ key) props = a @ a @ ''${'' @ key"
proof -
  have "split_once ''${'' (a @ ''${'' @ key) = Some (a, key)"
    using split_once_free [of "CHR ''$''" a "''{''" key] assms(1) by simp
  moreover have "split_once ''}'' key = None"
    using split_once_absent assms(2) by blast
  ultimately have "interpolate_pass props (a @ ''${'' @ key) = (a @ a @ ''${'' @ key, False)"
    by (subst interpolate_pass.simps) simp
  moreover have "contains ''${'' (a @ ''${'' @ key)"
    using contains_iff by blast
  ultimately show ?thesis
    by (simp add: interpolate_def eval_nat_numeral)
qed

lemma interpolate_unclosed_duplicates_witness:
  "interpolate ''lib-${v'' [] = ''lib-lib-${v''"
  using interpolate_unclosed_duplicates [of "''lib-''" "''v''" "[]"] by simp

end
