(* ===== verification/Classpath.thy ===== *)
theory Classpath
  imports Manifest Pom
begin

text \<open>
  \<^verbatim>\<open>src/src/resolve/mod.rs\<close>, its data: the classpaths a package can be on and how they join, the
  packages and local jars of a resolution, and the classpaths read off it. The lemmas show
  that joining is taking every place, and what a classpath holds and in which order.
\<close>

section \<open>Classpaths\<close>

datatype classpath = CpCompile | CpProvided | CpRuntime | CpTest

fun cp_as_str :: "classpath \<Rightarrow> str" where
  "cp_as_str CpCompile = ''compile''"
| "cp_as_str CpProvided = ''provided''"
| "cp_as_str CpRuntime = ''runtime''"
| "cp_as_str CpTest = ''test''"

definition cp_parse :: "str \<Rightarrow> classpath" where
  "cp_parse s = (if s = ''test'' then CpTest else if s = ''provided'' then CpProvided
     else if s = ''runtime'' then CpRuntime else CpCompile)"

fun cp_join :: "classpath \<Rightarrow> classpath \<Rightarrow> classpath" where
  "cp_join CpCompile other = CpCompile"
| "cp_join other CpCompile = CpCompile"
| "cp_join CpProvided CpRuntime = CpCompile"
| "cp_join CpRuntime CpProvided = CpCompile"
| "cp_join CpTest other = other"
| "cp_join other CpTest = other"
| "cp_join CpProvided CpProvided = CpProvided"
| "cp_join CpRuntime CpRuntime = CpRuntime"

fun compiles :: "classpath \<Rightarrow> bool" where
  "compiles CpCompile = True"
| "compiles CpProvided = True"
| "compiles _ = False"

fun runs :: "classpath \<Rightarrow> bool" where
  "runs CpCompile = True"
| "runs CpRuntime = True"
| "runs _ = False"

text \<open>
  A classpath is told by where it puts a jar; joining makes the four a lattice, in which one is
  below another when it puts a jar nowhere the other does not.
\<close>

lemma cp_eqI: "compiles a = compiles b \<Longrightarrow> runs a = runs b \<Longrightarrow> a = b"
  by (cases a; cases b) auto

lemma cp_join_places [simp]:
  "compiles (cp_join a b) \<longleftrightarrow> compiles a \<or> compiles b"
  "runs (cp_join a b) \<longleftrightarrow> runs a \<or> runs b"
  by (cases a; cases b; simp)+

instantiation classpath :: semilattice_sup
begin

definition less_eq_classpath :: "classpath \<Rightarrow> classpath \<Rightarrow> bool" where
  "less_eq_classpath a b \<longleftrightarrow> (compiles a \<longrightarrow> compiles b) \<and> (runs a \<longrightarrow> runs b)"

definition less_classpath :: "classpath \<Rightarrow> classpath \<Rightarrow> bool" where
  "less_classpath a b \<longleftrightarrow> a \<le> b \<and> \<not> b \<le> (a :: classpath)"

definition sup_classpath :: "classpath \<Rightarrow> classpath \<Rightarrow> classpath" where
  "sup_classpath a b = cp_join a b"

instance
  by standard
    (auto simp: less_eq_classpath_def less_classpath_def sup_classpath_def intro: cp_eqI)

end

lemma cp_join_sup: "cp_join a b = sup a b"
  by (simp add: sup_classpath_def)

text \<open>
  A package reached two ways goes to every place either puts it and to no other,
  in whatever order the ways are found; and a classpath's name in the lockfile is read back.
\<close>

lemma classpath_join_places:
  "compiles (cp_join a b) = (compiles a \<or> compiles b) \<and> runs (cp_join a b) = (runs a \<or> runs b) \<and>
   cp_join a b = cp_join b a \<and> cp_join a (cp_join b c) = cp_join (cp_join a b) c \<and> cp_join a a = a \<and>
   cp_parse (cp_as_str a) = a"
proof (intro conjI)
  show "cp_parse (cp_as_str a) = a" by (cases a) (simp_all add: cp_parse_def)
qed (simp_all add: cp_join_sup ac_simps, simp_all flip: cp_join_sup)

section \<open>Resolutions\<close>

record local_jar =
  lj_name :: str
  lj_path :: str
  lj_classpath :: classpath
  lj_checksum :: "str option"
  lj_jar :: "str option"

record package =
  pkg_coord :: coord
  pkg_classpath :: classpath
  pkg_packaging :: str
  pkg_depth :: nat
  pkg_direct :: bool
  pkg_dependencies :: "ga list"
  pkg_jar :: "str option"
  pkg_checksum :: "str option"
  pkg_mediated :: bool
  pkg_managed :: bool

definition pkg_ga :: "package \<Rightarrow> ga" where
  "pkg_ga p = coord_ga (pkg_coord p)"

record resolution =
  res_packages :: "package list"
  res_roots :: "ga list"
  res_test_roots :: "ga list"
  res_warnings :: "message list"
  res_downloaded :: nat
  res_local :: "local_jar list"

definition res_get :: "resolution \<Rightarrow> ga \<Rightarrow> package option" where
  "res_get r g = find (\<lambda>p. pkg_ga p = g) (res_packages r)"

definition ordered :: "resolution \<Rightarrow> (classpath \<Rightarrow> bool) \<Rightarrow> str list" where
  "ordered r include =
     (let wanted = filter (\<lambda>p. include (pkg_classpath p) \<and> pkg_jar p \<noteq> None) (res_packages r);
          direct = sort_by (\<lambda>a b. coord_cmp (pkg_coord a) (pkg_coord b)) (filter pkg_direct wanted);
          transitive = sort_by (\<lambda>a b. coord_cmp (pkg_coord a) (pkg_coord b)) (filter (\<lambda>p. \<not> pkg_direct p) wanted);
          loc = sort_by (\<lambda>a b. cmp (lj_name a) (lj_name b))
            (filter (\<lambda>l. include (lj_classpath l) \<and> lj_jar l \<noteq> None) (res_local r))
      in List.map_filter pkg_jar direct @ List.map_filter lj_jar loc @ List.map_filter pkg_jar transitive)"

definition runtime_classpath :: "resolution \<Rightarrow> str list" where
  "runtime_classpath r = ordered r runs"

definition classpath_of :: "resolution \<Rightarrow> classpath \<Rightarrow> str list" where
  "classpath_of r which =
     (case which of
        CpTest \<Rightarrow> ordered r (\<lambda>_. True)
      | CpRuntime \<Rightarrow> runtime_classpath r
      | CpCompile \<Rightarrow> ordered r compiles
      | CpProvided \<Rightarrow> ordered r compiles)"

definition runtime_packages :: "resolution \<Rightarrow> package list" where
  "runtime_packages r = filter (\<lambda>p. runs (pkg_classpath p) \<and> pkg_jar p \<noteq> None) (res_packages r)"

definition find_local_jar :: "resolution \<Rightarrow> str \<Rightarrow> local_jar option" where
  "find_local_jar r name = find (\<lambda>l. lj_name l = name) (res_local r)"

definition local_jar_of :: "bool \<Rightarrow> dependency \<Rightarrow> local_jar option" where
  "local_jar_of dev d =
     (case dep_path d of None \<Rightarrow> None
      | Some p \<Rightarrow> Some \<lparr>lj_name = dep_artifact d, lj_path = p,
          lj_classpath = (if dev then CpTest else if dep_compile_only d then CpProvided
            else if dep_runtime_only d then CpRuntime else CpCompile),
          lj_checksum = None, lj_jar = None\<rparr>)"

definition local_jars :: "manifest \<Rightarrow> local_jar list" where
  "local_jars m = List.map_filter (local_jar_of False) (mf_dependencies m) @
     List.map_filter (local_jar_of True) (mf_dev_dependencies m)"

definition sources_coords :: "resolution \<Rightarrow> coord list" where
  "sources_coords r = dedup (sort_by coord_cmp
     (map (\<lambda>p. sources (pkg_coord p)) (filter (\<lambda>p. pkg_packaging p \<noteq> ''pom'') (res_packages r))))"

text \<open>\<^verbatim>\<open>compile/lang.rs\<close>, \<^verbatim>\<open>plugin_flags\<close>: the compiler plugins' jars and options.\<close>

definition plugin_jar :: "resolution \<Rightarrow> kotlin_plugin \<Rightarrow> str option" where
  "plugin_jar graph plugin =
     (case find (\<lambda>p. coord_group (pkg_coord p) = ''org.jetbrains.kotlin'' \<and>
                     coord_artifact (pkg_coord p) = kp_artifact plugin) (res_packages graph) of
        None \<Rightarrow> None | Some p \<Rightarrow> pkg_jar p)"

fun plugin_flags_loop :: "resolution \<Rightarrow> str list \<Rightarrow> str list \<times> str list \<Rightarrow> message + str list" where
  "plugin_flags_loop graph [] (flags, jars) = Inr flags"
| "plugin_flags_loop graph (name # names) (flags, jars) =
     and_then (ok_or (Msg ''unknown plugin'' [name]) (find_kotlin_plugin name)) (\<lambda>plugin.
     and_then (ok_or (Msg ''is not in the Kotlin compiler's graph'' [name, kp_artifact plugin]) (plugin_jar graph plugin)) (\<lambda>jar.
       let (flags', jars') = (if jar \<notin> set jars then (flags @ [''-Xplugin='' @ jar], jars @ [jar]) else (flags, jars))
       in plugin_flags_loop graph names (flags' @ concat (map (\<lambda>opt. [''-P'', opt]) (kp_options plugin)), jars')))"

definition plugin_flags :: "str list \<Rightarrow> resolution \<Rightarrow> message + str list" where
  "plugin_flags names graph = plugin_flags_loop graph names ([], [])"

section \<open>What a classpath holds\<close>

definition jars_on :: "resolution \<Rightarrow> (classpath \<Rightarrow> bool) \<Rightarrow> str set" where
  "jars_on r include =
     {j. \<exists>p \<in> set (res_packages r). include (pkg_classpath p) \<and> pkg_jar p = Some j} \<union>
     {j. \<exists>l \<in> set (res_local r). include (lj_classpath l) \<and> lj_jar l = Some j}"

lemma set_map_filter_jars: "set (List.map_filter f xs) = {y. \<exists>x \<in> set xs. f x = Some y}"
  by (force simp: List.map_filter_def)

lemma set_ordered: "set (ordered r include) = jars_on r include"
proof -
  have "(\<exists>p. pkg_direct p \<and> Q p) \<or> (\<exists>p. \<not> pkg_direct p \<and> Q p) \<longleftrightarrow> (\<exists>p. Q p)" for Q by blast
  then show ?thesis
    by (simp add: ordered_def Let_def set_map_filter_jars jars_on_def set_eq_iff) blast
qed

text \<open>
  The test classpath holds the jar of everything resolved, the compile classpath of
  exactly what compiles and the runtime one of exactly what runs, local jars with the rest; so
  the tests see all the other two do. On each, what the manifest declares comes first.
\<close>

lemma classpath_contents:
  "set (classpath_of r CpTest) = jars_on r (\<lambda>_. True) \<and>
   set (classpath_of r CpCompile) = jars_on r compiles \<and> classpath_of r CpProvided = classpath_of r CpCompile \<and>
   set (classpath_of r CpRuntime) = jars_on r runs \<and>
   set (classpath_of r cp) \<subseteq> set (classpath_of r CpTest) \<and>
   (\<exists>direct rest. ordered r include = direct @ rest \<and>
      set direct = {j. \<exists>p \<in> set (res_packages r). pkg_direct p \<and> include (pkg_classpath p) \<and> pkg_jar p = Some j})"
proof (intro conjI)
  show "set (classpath_of r cp) \<subseteq> set (classpath_of r CpTest)"
    by (cases cp) (auto simp: classpath_of_def runtime_classpath_def set_ordered jars_on_def)
  show "\<exists>direct rest. ordered r include = direct @ rest \<and>
      set direct = {j. \<exists>p \<in> set (res_packages r). pkg_direct p \<and> include (pkg_classpath p) \<and> pkg_jar p = Some j}"
    unfolding ordered_def Let_def by (intro exI conjI, rule refl) (auto simp: set_map_filter_jars)
qed (simp_all add: classpath_of_def runtime_classpath_def set_ordered)

end
