(* ===== verification/Json.thy ===== *)
theory Json
  imports Prelude
begin

text \<open>
  \<^verbatim>\<open>src/src/json.rs\<close>: the JSON value tree, its printer, and the reader of JSON documents, byte by
  byte. The reader is given fuel, two steps a byte, which the lemmas show is always enough;
  a printed document is read back as the value it was printed from.
\<close>

section \<open>Values\<close>

text \<open>An \<^verbatim>\<open>i64\<close> is an integer; \<open>json_wf\<close> below bounds it.\<close>

datatype json =
    JNull
  | JBool bool
  | JInt int
  | JStr str
  | JArray "json list"
  | JObject "(str \<times> json) list"

definition json_string :: "str \<Rightarrow> json" where
  "json_string s = JStr s"

definition or_null :: "'a option \<Rightarrow> ('a \<Rightarrow> json) \<Rightarrow> json" where
  "or_null v f = (case v of None \<Rightarrow> JNull | Some x \<Rightarrow> f x)"

definition json_object :: "(str \<times> json) list \<Rightarrow> json" where
  "json_object pairs = JObject pairs"

fun json_get :: "json \<Rightarrow> str \<Rightarrow> json option" where
  "json_get (JObject pairs) key = map_option snd (find (\<lambda>(k, _). k = key) pairs)"
| "json_get _ key = None"

fun as_str :: "json \<Rightarrow> str option" where
  "as_str (JStr s) = Some s"
| "as_str _ = None"

fun items :: "json \<Rightarrow> json list" where
  "items (JArray xs) = xs"
| "items _ = []"

section \<open>UTF-8\<close>

text \<open>
  \<^verbatim>\<open>char::encode_utf8\<close> and \<^verbatim>\<open>String::from_utf8\<close>'s test: no overlong forms, no surrogates,
  nothing above U+10FFFF.
\<close>

definition byte_of :: "nat \<Rightarrow> char" where
  "byte_of n = char_of n"

definition code_of :: "char \<Rightarrow> nat" where
  "code_of c = of_char c"

definition encode_utf8 :: "nat \<Rightarrow> str" where
  "encode_utf8 c =
     (if c < 0x80 then [byte_of c]
      else if c < 0x800 then [byte_of (0xC0 + c div 64), byte_of (0x80 + c mod 64)]
      else if c < 0x10000 then
        [byte_of (0xE0 + c div 4096), byte_of (0x80 + c div 64 mod 64), byte_of (0x80 + c mod 64)]
      else [byte_of (0xF0 + c div 262144), byte_of (0x80 + c div 4096 mod 64),
            byte_of (0x80 + c div 64 mod 64), byte_of (0x80 + c mod 64)])"

definition continuation :: "char \<Rightarrow> bool" where
  "continuation b \<longleftrightarrow> 0x80 \<le> code_of b \<and> code_of b \<le> 0xBF"

definition between :: "nat \<Rightarrow> nat \<Rightarrow> char \<Rightarrow> bool" where
  "between lo hi b \<longleftrightarrow> lo \<le> code_of b \<and> code_of b \<le> hi"

text \<open>The length of the valid sequence a text starts with.\<close>

fun utf8_step :: "str \<Rightarrow> nat option" where
  "utf8_step [] = None"
| "utf8_step (a # s) =
     (if code_of a < 0x80 then Some 1
      else case s of [] \<Rightarrow> None
      | b # s2 \<Rightarrow>
          if between 0xC2 0xDF a then (if continuation b then Some 2 else None)
          else (case s2 of [] \<Rightarrow> None
          | c # s3 \<Rightarrow>
              if between 0xE0 0xEF a
              then (if continuation b \<and> continuation c \<and> (code_of a = 0xE0 \<longrightarrow> 0xA0 \<le> code_of b) \<and>
                      (code_of a = 0xED \<longrightarrow> code_of b \<le> 0x9F) then Some 3 else None)
              else (case s3 of [] \<Rightarrow> None
              | d # _ \<Rightarrow>
                  if between 0xF0 0xF4 a \<and> continuation b \<and> continuation c \<and> continuation d \<and>
                     (code_of a = 0xF0 \<longrightarrow> 0x90 \<le> code_of b) \<and> (code_of a = 0xF4 \<longrightarrow> code_of b \<le> 0x8F)
                  then Some 4 else None)))"

function utf8_valid :: "str \<Rightarrow> bool" where
  "utf8_valid s = (if s = [] then True else
     case utf8_step s of None \<Rightarrow> False | Some n \<Rightarrow> utf8_valid (drop n s))"
  by pat_completeness auto
termination
proof (relation "measure length")
  fix s :: str and n
  assume "s \<noteq> []" "utf8_step s = Some n"
  then show "(drop n s, s) \<in> measure length"
    by (cases s) (auto split: if_splits list.splits)
qed simp

declare utf8_valid.simps [simp del]

section \<open>Printing\<close>

definition json_indent :: "nat \<Rightarrow> str" where
  "json_indent depth = concat (replicate depth ''  '')"

definition hex_digit :: "nat \<Rightarrow> char" where
  "hex_digit d = ''0123456789abcdef'' ! d"

definition hex4_of :: "nat \<Rightarrow> str" where
  "hex4_of n = [hex_digit (n div 4096 mod 16), hex_digit (n div 256 mod 16),
                hex_digit (n div 16 mod 16), hex_digit (n mod 16)]"

text \<open>
  The characters of the text, by their bytes: the two separators that are escaped outside ASCII
  are the three-byte sequences of U+2028 and U+2029.
\<close>

fun escape_chars :: "str \<Rightarrow> str" where
  "escape_chars [] = []"
| "escape_chars (a # s) =
     (if a = CHR 0x22 then CHR 0x5C # CHR 0x22 # escape_chars s
      else if a = CHR 0x5C then CHR 0x5C # CHR 0x5C # escape_chars s
      else if a = CHR 0x0A then CHR 0x5C # CHR ''n'' # escape_chars s
      else if a = CHR 0x0D then CHR 0x5C # CHR ''r'' # escape_chars s
      else if a = CHR 0x09 then CHR 0x5C # CHR ''t'' # escape_chars s
      else if a = CHR 0x08 then CHR 0x5C # CHR ''b'' # escape_chars s
      else if a = CHR 0x0C then CHR 0x5C # CHR ''f'' # escape_chars s
      else if code_of a < 0x20 \<or> a = CHR 0x7F
      then CHR 0x5C # CHR ''u'' # hex4_of (code_of a) @ escape_chars s
      else if starts_with [CHR 0xE2, CHR 0x80, CHR 0xA8] (a # s)
      then CHR 0x5C # CHR ''u'' # hex4_of 0x2028 @ escape_chars (drop 2 s)
      else if starts_with [CHR 0xE2, CHR 0x80, CHR 0xA9] (a # s)
      then CHR 0x5C # CHR ''u'' # hex4_of 0x2029 @ escape_chars (drop 2 s)
      else a # escape_chars s)"

definition json_escape :: "str \<Rightarrow> str" where
  "json_escape s = CHR 0x22 # escape_chars s @ [CHR 0x22]"

definition show_int :: "int \<Rightarrow> str" where
  "show_int n = (if n < 0 then CHR ''-'' # dec (nat (- n)) else dec (nat n))"

fun json_write :: "json \<Rightarrow> nat \<Rightarrow> str"
  and write_items :: "bool \<Rightarrow> json list \<Rightarrow> nat \<Rightarrow> str"
  and write_pairs :: "bool \<Rightarrow> (str \<times> json) list \<Rightarrow> nat \<Rightarrow> str"
where
  "json_write JNull depth = ''null''"
| "json_write (JBool b) depth = (if b then ''true'' else ''false'')"
| "json_write (JInt n) depth = show_int n"
| "json_write (JStr s) depth = json_escape s"
| "json_write (JArray xs) depth =
     (if xs = [] then ''[]''
      else ''['' @ write_items True xs depth @ [CHR 0x0A] @ json_indent depth @ '']'')"
| "json_write (JObject ps) depth =
     (if ps = [] then ''{}''
      else ''{'' @ write_pairs True ps depth @ [CHR 0x0A] @ json_indent depth @ ''}'')"
| "write_items first [] depth = []"
| "write_items first (x # xs) depth =
     (if first then [CHR 0x0A] else [CHR '','', CHR 0x0A]) @ json_indent (depth + 1) @
     json_write x (depth + 1) @ write_items False xs depth"
| "write_pairs first [] depth = []"
| "write_pairs first ((k, v) # ps) depth =
     (if first then [CHR 0x0A] else [CHR '','', CHR 0x0A]) @ json_indent (depth + 1) @
     json_escape k @ '': '' @ json_write v (depth + 1) @ write_pairs False ps depth"

definition json_render :: "json \<Rightarrow> str" where
  "json_render v = json_write v 0 @ [CHR 0x0A]"

section \<open>Reading\<close>

definition max_depth :: nat where
  "max_depth = 128"

text \<open>
  The reader: the offset it is at and the bytes from there on. Its depth is an argument of the
  functions, since a nested value restores it. A failure is a message with the offset; running
  out of fuel is no failure of the code.
\<close>

type_synonym reader = "nat \<times> str"

datatype json_error = Fail str nat | OutOfFuel

definition rd_fail :: "str \<Rightarrow> reader \<Rightarrow> json_error + 'a" where
  "rd_fail what r = Inl (Fail what (fst r))"

definition peek :: "reader \<Rightarrow> char option" where
  "peek r = (case snd r of [] \<Rightarrow> None | b # _ \<Rightarrow> Some b)"

definition advance :: "nat \<Rightarrow> reader \<Rightarrow> reader" where
  "advance n r = (fst r + n, drop n (snd r))"

definition is_space :: "char \<Rightarrow> bool" where
  "is_space b \<longleftrightarrow> b \<in> {CHR '' '', CHR 0x09, CHR 0x0A, CHR 0x0D}"

definition skip_space :: "reader \<Rightarrow> reader" where
  "skip_space r = advance (length (takeWhile is_space (snd r))) r"

definition eat :: "char \<Rightarrow> reader \<Rightarrow> json_error + reader" where
  "eat b r = (let r' = skip_space r in
     if peek r' = Some b then Inr (advance 1 r') else rd_fail (''expected `'' @ [b] @ ''`'') r')"

definition word :: "str \<Rightarrow> json \<Rightarrow> reader \<Rightarrow> json_error + (json \<times> reader)" where
  "word w v r = (if starts_with w (snd r) then Inr (v, advance (length w) r)
     else rd_fail ''unexpected character'' r)"

definition is_number_byte :: "char \<Rightarrow> bool" where
  "is_number_byte b \<longleftrightarrow> b \<in> {CHR ''-'', CHR ''+'', CHR ''.'', CHR ''e'', CHR ''E''} \<or> is_ascii_digit b"

text \<open>\<^verbatim>\<open>str::parse::<i64>\<close>: a sign, digits, and no overflow.\<close>

definition parse_i64 :: "str \<Rightarrow> int option" where
  "parse_i64 s =
     (let (neg, ds) = (case s of
          [] \<Rightarrow> (False, [])
        | c # t \<Rightarrow> if c = CHR ''-'' then (True, t) else if c = CHR ''+'' then (False, t) else (False, s));
          n = (if neg then - int (undec ds) else int (undec ds))
      in if ds = [] \<or> list_ex (\<lambda>c. \<not> is_ascii_digit c) ds then None
         else if - (2 ^ 63) \<le> n \<and> n < 2 ^ 63 then Some n else None)"

definition number :: "reader \<Rightarrow> json \<times> reader" where
  "number r = (let t = takeWhile is_number_byte (snd r) in
     (case parse_i64 t of None \<Rightarrow> JStr t | Some n \<Rightarrow> JInt n, advance (length t) r))"

definition hex_value :: "char \<Rightarrow> nat option" where
  "hex_value c = map_of (zip ''0123456789abcdefABCDEF''
     [0, 1, 2, 3, 4, 5, 6, 7, 8, 9, 10, 11, 12, 13, 14, 15, 10, 11, 12, 13, 14, 15]) c"

text \<open>
  \<^verbatim>\<open>u32::from_str_radix(d, 16)\<close>, which takes a leading plus sign; four digits never overflow.
\<close>

definition from_str_radix16 :: "str \<Rightarrow> nat option" where
  "from_str_radix16 s =
     (let ds = (case s of [] \<Rightarrow> [] | c # t \<Rightarrow> if c = CHR ''+'' then t else s) in
      if ds = [] \<or> list_ex (\<lambda>c. hex_value c = None) ds then None
      else Some (foldl (\<lambda>n c. 16 * n + the (hex_value c)) 0 ds))"

definition hex4 :: "reader \<Rightarrow> json_error + (nat \<times> reader)" where
  "hex4 r =
     (if length (snd r) < 4 then rd_fail ''a bad u escape'' r
      else case from_str_radix16 (take 4 (snd r)) of
             None \<Rightarrow> rd_fail ''a bad u escape'' r
           | Some n \<Rightarrow> Inr (n, advance 4 r))"

definition from_u32 :: "nat \<Rightarrow> nat option" where
  "from_u32 c = (if (0xD800 \<le> c \<and> c < 0xE000) \<or> 0x110000 \<le> c then None else Some c)"

definition is_high_surrogate :: "nat \<Rightarrow> bool" where
  "is_high_surrogate c \<longleftrightarrow> 0xD800 \<le> c \<and> c < 0xDC00"

definition unicode :: "reader \<Rightarrow> json_error + (nat \<times> reader)" where
  "unicode r = and_then (hex4 r) (\<lambda>(high, r1).
     if is_high_surrogate high \<and> starts_with [CHR 0x5C, CHR ''u''] (snd r1)
     then and_then (hex4 (advance 2 r1)) (\<lambda>(low, r2).
            if \<not> (0xDC00 \<le> low \<and> low < 0xE000) then rd_fail ''a lone surrogate'' r2
            else case from_u32 (0x10000 + (high - 0xD800) * 1024 + (low - 0xDC00)) of
                   None \<Rightarrow> rd_fail ''a lone surrogate'' r2 | Some c \<Rightarrow> Inr (c, r2))
     else case from_u32 high of None \<Rightarrow> rd_fail ''a lone surrogate'' r1 | Some c \<Rightarrow> Inr (c, r1))"

definition simple_escape :: "char \<Rightarrow> char option" where
  "simple_escape b = map_of
     [(CHR 0x22, CHR 0x22), (CHR 0x5C, CHR 0x5C), (CHR ''/'', CHR ''/''), (CHR ''b'', CHR 0x08),
      (CHR ''f'', CHR 0x0C), (CHR ''n'', CHR 0x0A), (CHR ''r'', CHR 0x0D), (CHR ''t'', CHR 0x09)] b"

lemma hex4_advance: "hex4 r = Inr (n, r') \<Longrightarrow> r' = advance 4 r \<and> 4 \<le> length (snd r)"
  by (auto simp: hex4_def rd_fail_def split: if_splits option.splits)

lemma unicode_shorter: "unicode r = Inr (c, r') \<Longrightarrow> length (snd r') \<le> length (snd r)"
  by (auto simp: unicode_def and_then_Inr rd_fail_def advance_def dest!: hex4_advance split: if_splits option.splits)

function read_string :: "reader \<Rightarrow> str \<Rightarrow> json_error + (str \<times> reader)" where
  "read_string r out =
     (case snd r of
        [] \<Rightarrow> rd_fail ''unterminated string'' r
      | b # s \<Rightarrow>
          let r1 = advance 1 r in
          if b = CHR 0x22 then
            (if utf8_valid out then Inr (out, r1) else rd_fail ''a string that is not UTF-8'' r1)
          else if b = CHR 0x5C then
            (case s of
               [] \<Rightarrow> rd_fail ''unterminated string'' r1
             | e # _ \<Rightarrow>
                 let r2 = advance 2 r in
                 case simple_escape e of
                   Some c \<Rightarrow> read_string r2 (out @ [c])
                 | None \<Rightarrow>
                     if e = CHR ''u''
                     then (case unicode r2 of Inl err \<Rightarrow> Inl err
                           | Inr (c, r3) \<Rightarrow> read_string r3 (out @ encode_utf8 c))
                     else rd_fail ''unknown escape'' r2)
          else read_string r1 (out @ [b]))"
  by pat_completeness auto
termination
  by (relation "measure (\<lambda>(r, out). length (snd r))")
    (auto simp: advance_def dest!: unicode_shorter)

declare read_string.simps [simp del]

definition json_str :: "reader \<Rightarrow> json_error + (str \<times> reader)" where
  "json_str r = read_string (advance 1 r) []"

text \<open>The values that hold no other.\<close>

definition json_scalar :: "char \<Rightarrow> reader \<Rightarrow> json_error + (json \<times> reader)" where
  "json_scalar b r =
     (if b = CHR 0x22 then and_then (json_str r) (\<lambda>(s, r'). Inr (JStr s, r'))
      else if b = CHR ''t'' then word ''true'' (JBool True) r
      else if b = CHR ''f'' then word ''false'' (JBool False) r
      else if b = CHR ''n'' then word ''null'' JNull r
      else if b = CHR ''-'' \<or> is_ascii_digit b then Inr (number r)
      else rd_fail ''unexpected character'' r)"

fun json_value :: "nat \<Rightarrow> nat \<Rightarrow> reader \<Rightarrow> json_error + (json \<times> reader)"
  and array_loop :: "nat \<Rightarrow> nat \<Rightarrow> json list \<Rightarrow> reader \<Rightarrow> json_error + (json \<times> reader)"
  and object_loop :: "nat \<Rightarrow> nat \<Rightarrow> (str \<times> json) list \<Rightarrow> reader \<Rightarrow> json_error + (json \<times> reader)"
where
  "json_value 0 depth r = Inl OutOfFuel"
| "json_value (Suc fuel) depth r0 =
     (let r = skip_space r0 in
      case peek r of
        None \<Rightarrow> rd_fail ''unexpected end'' r
      | Some b \<Rightarrow>
          if b = CHR ''{'' then
            (if max_depth < depth + 1 then rd_fail ''nested too deeply'' r
             else and_then (eat CHR ''{'' r) (\<lambda>r1.
               let r2 = skip_space r1 in
               if peek r2 = Some CHR ''}'' then Inr (JObject [], advance 1 r2)
               else object_loop fuel (depth + 1) [] r2))
          else if b = CHR ''['' then
            (if max_depth < depth + 1 then rd_fail ''nested too deeply'' r
             else and_then (eat CHR ''['' r) (\<lambda>r1.
               let r2 = skip_space r1 in
               if peek r2 = Some CHR '']'' then Inr (JArray [], advance 1 r2)
               else array_loop fuel (depth + 1) [] r2))
          else json_scalar b r)"
| "array_loop 0 depth xs r = Inl OutOfFuel"
| "array_loop (Suc fuel) depth xs r =
     and_then (json_value fuel depth r) (\<lambda>(v, r1).
       let r2 = skip_space r1 in
       if peek r2 = Some CHR '','' then array_loop fuel depth (xs @ [v]) (advance 1 r2)
       else if peek r2 = Some CHR '']'' then Inr (JArray (xs @ [v]), advance 1 r2)
       else rd_fail ''expected `,` or `]`'' r2)"
| "object_loop 0 depth ps r = Inl OutOfFuel"
| "object_loop (Suc fuel) depth ps r0 =
     (let r = skip_space r0 in
      if peek r \<noteq> Some CHR 0x22 then rd_fail ''expected a key'' r
      else and_then (json_str r) (\<lambda>(key, r1).
        and_then (eat CHR '':'' r1) (\<lambda>r2.
          and_then (json_value fuel depth r2) (\<lambda>(v, r3).
            let r4 = skip_space r3 in
            if peek r4 = Some CHR '','' then object_loop fuel depth (ps @ [(key, v)]) (advance 1 r4)
            else if peek r4 = Some CHR ''}'' then Inr (JObject (ps @ [(key, v)]), advance 1 r4)
            else rd_fail ''expected `,` or `}`'' r4))))"

definition json_fuel :: "str \<Rightarrow> nat" where
  "json_fuel s = 2 * length s + 1"

definition json_parse :: "str \<Rightarrow> json_error + json" where
  "json_parse s = and_then (json_value (json_fuel s) 0 (0, s)) (\<lambda>(v, r0).
     let r = skip_space r0 in
     if snd r \<noteq> [] then rd_fail ''text after the document'' r else Inr v)"

section \<open>The fuel is enough\<close>

lemma advance_simps [simp]:
  "snd (advance n r) = drop n (snd r)"
  "advance (length w) (i, w @ t) = (i + length w, t)"
  by (simp_all add: advance_def)

lemma skip_space_shorter: "length (snd (skip_space r)) \<le> length (snd r)"
  by (simp add: skip_space_def)

lemma peek_Some: "peek r = Some b \<longleftrightarrow> (\<exists>s. snd r = b # s)"
  by (auto simp: peek_def split: list.splits)

lemma peek_shorter: "peek (skip_space r) = Some b \<Longrightarrow> length (snd (advance 1 (skip_space r))) < length (snd r)"
  using skip_space_shorter [of r] by (auto simp: peek_Some)

lemma rd_fail_neq [simp]: "rd_fail w r \<noteq> Inr x" "rd_fail w r \<noteq> Inl OutOfFuel"
  by (simp_all add: rd_fail_def)

lemma eat_shorter: "eat b r = Inr r' \<Longrightarrow> length (snd r') < length (snd r)"
  using peek_shorter [of r b] by (auto simp: eat_def Let_def split: if_splits)

lemma hex4_no_fuel: "hex4 r \<noteq> Inl OutOfFuel"
  by (auto simp: hex4_def split: option.splits)

lemma unicode_no_fuel: "unicode r \<noteq> Inl OutOfFuel"
  by (auto simp: unicode_def and_then_Inl hex4_no_fuel split: option.splits)

lemma read_string_eqs:
  "read_string (i, []) out = rd_fail ''unterminated string'' (i, [])"
  "read_string (i, CHR 0x22 # s) out =
     (if utf8_valid out then Inr (out, (Suc i, s)) else rd_fail ''a string that is not UTF-8'' (Suc i, s))"
  "read_string (i, [CHR 0x5C]) out = rd_fail ''unterminated string'' (Suc i, [])"
  "read_string (i, CHR 0x5C # e # s) out =
     (case simple_escape e of
        Some c \<Rightarrow> read_string (Suc (Suc i), s) (out @ [c])
      | None \<Rightarrow> if e = CHR ''u''
          then (case unicode (Suc (Suc i), s) of Inl err \<Rightarrow> Inl err
                | Inr (c, r) \<Rightarrow> read_string r (out @ encode_utf8 c))
          else rd_fail ''unknown escape'' (Suc (Suc i), s))"
  "b \<noteq> CHR 0x22 \<Longrightarrow> b \<noteq> CHR 0x5C \<Longrightarrow> read_string (i, b # s) out = read_string (Suc i, s) (out @ [b])"
  by (subst read_string.simps, simp add: advance_def Let_def)+

lemma read_string_cases:
  obtains "s = []" | t where "s = CHR 0x22 # t" | "s = [CHR 0x5C]"
    | e t where "s = CHR 0x5C # e # t"
    | b t where "s = b # t" "b \<noteq> CHR 0x22" "b \<noteq> CHR 0x5C"
  by (metis neq_Nil_conv)

lemma read_string_step:
  "read_string (i, s) out \<noteq> Inl OutOfFuel \<and>
   (\<forall>x r. read_string (i, s) out = Inr (x, r) \<longrightarrow> length (snd r) < length s)"
proof (induction "length s" arbitrary: i s out rule: less_induct)
  case less
  show ?case
  proof (cases s rule: read_string_cases)
    case (4 e t)
    show ?thesis
    proof (cases "simple_escape e")
      case None
      show ?thesis
      proof (cases "unicode (Suc (Suc i), t)")
        case (Inl err)
        with None 4 unicode_no_fuel [of "(Suc (Suc i), t)"] show ?thesis
          by (auto simp: read_string_eqs)
      next
        case (Inr cr)
        obtain c j u where cr: "cr = (c, j, u)" by (metis prod.exhaust)
        with Inr have "length u \<le> length t" using unicode_shorter by fastforce
        with less [of u j "out @ encode_utf8 c"] Inr None 4 cr show ?thesis
          by (auto simp: read_string_eqs)
      qed
    next
      case (Some c)
      with less [of t "Suc (Suc i)" "out @ [c]"] 4 show ?thesis
        by (auto simp: read_string_eqs)
    qed
  next
    case (5 b t)
    with less [of t "Suc i" "out @ [b]"] show ?thesis
      by (auto simp: read_string_eqs)
  qed (auto simp: read_string_eqs)
qed

lemma read_string_no_fuel [simp]: "read_string r out \<noteq> Inl OutOfFuel"
  using read_string_step by (cases r) blast

lemma read_string_shorter: "read_string r out = Inr (s, r') \<Longrightarrow> length (snd r') < length (snd r)"
  using read_string_step by (cases r) fastforce

lemma json_str_shorter: "json_str r = Inr (s, r') \<Longrightarrow> length (snd r') < length (snd r)"
  unfolding json_str_def by (drule read_string_shorter) simp

lemma word_shorter: "word w v r = Inr (x, r') \<Longrightarrow> w \<noteq> [] \<Longrightarrow> length (snd r') < length (snd r)"
  by (auto simp: word_def starts_with_iff split: if_splits)

lemma number_shorter:
  "peek r = Some b \<Longrightarrow> b = CHR ''-'' \<or> is_ascii_digit b \<Longrightarrow> length (snd (snd (number r))) < length (snd r)"
  by (auto simp: number_def Let_def peek_Some is_number_byte_def)

text \<open>Reading a value uses up at least one byte, and so does each round of a loop.\<close>

lemma eat_step:
  assumes "eat b r = Inr r'"
  shows "length (snd (skip_space r')) < length (snd r)"
  using eat_shorter [OF assms] skip_space_shorter [of r'] by simp

lemma scalar_shorter:
  "peek r = Some b \<Longrightarrow> json_scalar b r = Inr (v, r') \<Longrightarrow> length (snd r') < length (snd r)"
  using number_shorter [of r b]
  by (auto simp: json_scalar_def and_then_Inr split: if_splits dest: json_str_shorter word_shorter)

lemma scalar_no_fuel [simp]: "json_scalar b r \<noteq> Inl OutOfFuel"
  by (auto simp: json_scalar_def and_then_Inl json_str_def word_def)

lemma value_shorter_step:
  assumes "json_value (Suc f) d r = Inr (v, r')"
    and array: "\<And>d xs r v r'. array_loop f d xs r = Inr (v, r') \<Longrightarrow> length (snd r') < length (snd r)"
    and object: "\<And>d ps r v r'. object_loop f d ps r = Inr (v, r') \<Longrightarrow> length (snd r') < length (snd r)"
  shows "length (snd r') < length (snd r)"
proof -
  let ?r = "skip_space r"
  obtain b where b: "peek ?r = Some b" using assms(1) by (auto simp: Let_def split: option.splits)
  consider r1 where "eat b ?r = Inr r1" "r' = advance 1 (skip_space r1)"
    | r1 ps dd where "eat b ?r = Inr r1" "object_loop f dd ps (skip_space r1) = Inr (v, r')"
    | r1 xs dd where "eat b ?r = Inr r1" "array_loop f dd xs (skip_space r1) = Inr (v, r')"
    | "json_scalar b ?r = Inr (v, r')"
    using assms(1) b by (auto simp: Let_def and_then_Inr split: if_splits)
  then have "length (snd r') < length (snd ?r)"
  proof cases
    case (1 r1)
    with eat_step [of b ?r r1] show ?thesis by simp
  next
    case (2 r1)
    with eat_step [of b ?r r1] object show ?thesis by fastforce
  next
    case (3 r1)
    with eat_step [of b ?r r1] array show ?thesis by fastforce
  next
    case 4
    with b scalar_shorter show ?thesis by blast
  qed
  with skip_space_shorter [of r] show ?thesis by simp
qed

lemma array_shorter_step:
  assumes "array_loop (Suc f) d xs r = Inr (v, r')"
    and val: "\<And>d r v r'. json_value f d r = Inr (v, r') \<Longrightarrow> length (snd r') < length (snd r)"
    and array: "\<And>d xs r v r'. array_loop f d xs r = Inr (v, r') \<Longrightarrow> length (snd r') < length (snd r)"
  shows "length (snd r') < length (snd r)"
proof -
  obtain x r1 where x: "json_value f d r = Inr (x, r1)"
    using assms(1) by (auto simp: and_then_Inr)
  then have "length (snd (skip_space r1)) < length (snd r)"
    using val skip_space_shorter [of r1] by fastforce
  moreover have "length (snd r') \<le> length (snd (skip_space r1))"
    using assms(1) x array [of d "xs @ [x]" "advance 1 (skip_space r1)" v r']
    by (auto simp: Let_def split: if_splits)
  ultimately show ?thesis by simp
qed

lemma object_shorter_step:
  assumes "object_loop (Suc f) d ps r = Inr (v, r')"
    and val: "\<And>d r v r'. json_value f d r = Inr (v, r') \<Longrightarrow> length (snd r') < length (snd r)"
    and object: "\<And>d ps r v r'. object_loop f d ps r = Inr (v, r') \<Longrightarrow> length (snd r') < length (snd r)"
  shows "length (snd r') < length (snd r)"
proof -
  obtain key r1 r2 x r3 where steps: "json_str (skip_space r) = Inr (key, r1)" "eat CHR '':'' r1 = Inr r2"
    "json_value f d r2 = Inr (x, r3)"
    using assms(1) by (auto simp: and_then_Inr Let_def split: if_splits)
  then have "length (snd (skip_space r3)) < length (snd r)"
    using val [OF steps(3)] eat_shorter [OF steps(2)] json_str_shorter [OF steps(1)]
      skip_space_shorter [of r3] skip_space_shorter [of r] by simp
  moreover have "length (snd r') \<le> length (snd (skip_space r3))"
    using assms(1) steps object [of d "ps @ [(key, x)]" "advance 1 (skip_space r3)" v r']
    by (auto simp: Let_def split: if_splits)
  ultimately show ?thesis by simp
qed

lemma reading_shorter:
  "(\<forall>d r v r'. json_value f d r = Inr (v, r') \<longrightarrow> length (snd r') < length (snd r)) \<and>
   (\<forall>d xs r v r'. array_loop f d xs r = Inr (v, r') \<longrightarrow> length (snd r') < length (snd r)) \<and>
   (\<forall>d ps r v r'. object_loop f d ps r = Inr (v, r') \<longrightarrow> length (snd r') < length (snd r))"
proof (induction f)
  case (Suc f)
  note val = Suc.IH [THEN conjunct1, rule_format]
  note array = Suc.IH [THEN conjunct2, THEN conjunct1, rule_format]
  note object = Suc.IH [THEN conjunct2, THEN conjunct2, rule_format]
  show ?case
    by (intro conjI allI impI)
      (erule value_shorter_step array_shorter_step object_shorter_step, (erule val array object)+)+
qed simp

text \<open>Two steps a byte are enough.\<close>

lemma value_fuel_step:
  assumes "2 * length (snd r) < Suc f"
    and array: "\<And>d xs r. 2 * length (snd r) + 1 < f \<Longrightarrow> array_loop f d xs r \<noteq> Inl OutOfFuel"
    and object: "\<And>d ps r. 2 * length (snd r) + 1 < f \<Longrightarrow> object_loop f d ps r \<noteq> Inl OutOfFuel"
  shows "json_value (Suc f) d r \<noteq> Inl OutOfFuel"
proof
  assume out: "json_value (Suc f) d r = Inl OutOfFuel"
  let ?r = "skip_space r"
  obtain b where b: "peek ?r = Some b" using out by (auto simp: Let_def split: option.splits)
  have fits: "2 * length (snd (skip_space r1)) + 1 < f" if "eat b ?r = Inr r1" for r1
    using eat_step [OF that] skip_space_shorter [of r] assms(1) by simp
  have no: "eat b ?r \<noteq> Inl OutOfFuel" by (simp add: eat_def Let_def)
  show False
    using out b no fits array object by (auto simp: Let_def and_then_Inl split: if_splits)
qed

lemma array_fuel_step:
  assumes "2 * length (snd r) + 1 < Suc f"
    and val: "\<And>d r. 2 * length (snd r) < f \<Longrightarrow> json_value f d r \<noteq> Inl OutOfFuel"
    and array: "\<And>d xs r. 2 * length (snd r) + 1 < f \<Longrightarrow> array_loop f d xs r \<noteq> Inl OutOfFuel"
  shows "array_loop (Suc f) d xs r \<noteq> Inl OutOfFuel"
proof (cases "json_value f d r")
  case (Inl e)
  with val [of r d] assms(1) show ?thesis by simp
next
  case (Inr xr)
  obtain x r1 where xr: "xr = (x, r1)" by (cases xr)
  then have "length (snd r1) < length (snd r)"
    using Inr reading_shorter by blast
  then have "2 * length (snd (advance 1 (skip_space r1))) + 1 < f"
    using assms(1) skip_space_shorter [of r1] by simp
  then show ?thesis
    using Inr xr array by (simp add: Let_def)
qed

lemma object_fuel_step:
  assumes "2 * length (snd r) + 1 < Suc f"
    and val: "\<And>d r. 2 * length (snd r) < f \<Longrightarrow> json_value f d r \<noteq> Inl OutOfFuel"
    and object: "\<And>d ps r. 2 * length (snd r) + 1 < f \<Longrightarrow> object_loop f d ps r \<noteq> Inl OutOfFuel"
  shows "object_loop (Suc f) d ps r \<noteq> Inl OutOfFuel"
proof
  assume out: "object_loop (Suc f) d ps r = Inl OutOfFuel"
  obtain key r1 where key: "json_str (skip_space r) = Inr (key, r1)"
    using out by (cases "json_str (skip_space r)") (auto simp: Let_def json_str_def split: if_splits)
  obtain r2 where colon: "eat CHR '':'' r1 = Inr r2"
    using out key by (cases "eat CHR '':'' r1") (auto simp: Let_def eat_def split: if_splits)
  have small: "2 * length (snd r2) < f"
    using json_str_shorter [OF key] eat_shorter [OF colon] skip_space_shorter [of r] assms(1) by simp
  then obtain x r3 where x: "json_value f d r2 = Inr (x, r3)"
    using out key colon val [OF small] by (cases "json_value f d r2") (auto simp: Let_def split: if_splits)
  then have "length (snd r3) < length (snd r2)"
    using reading_shorter by blast
  then have "2 * length (snd (advance 1 (skip_space r3))) + 1 < f"
    using small skip_space_shorter [of r3] by simp
  then show False
    using out key colon x object by (auto simp: Let_def split: if_splits)
qed

lemma reading_fuel:
  "(\<forall>d r. 2 * length (snd r) < f \<longrightarrow> json_value f d r \<noteq> Inl OutOfFuel) \<and>
   (\<forall>d xs r. 2 * length (snd r) + 1 < f \<longrightarrow> array_loop f d xs r \<noteq> Inl OutOfFuel) \<and>
   (\<forall>d ps r. 2 * length (snd r) + 1 < f \<longrightarrow> object_loop f d ps r \<noteq> Inl OutOfFuel)"
proof (induction f)
  case (Suc f)
  note val = Suc.IH [THEN conjunct1, rule_format]
  note array = Suc.IH [THEN conjunct2, THEN conjunct1, rule_format]
  note object = Suc.IH [THEN conjunct2, THEN conjunct2, rule_format]
  show ?case
    by (intro conjI allI impI)
      (erule value_fuel_step array_fuel_step object_fuel_step, (erule val array object)+)+
qed simp

text \<open>
  Reading a document always ends: on any bytes at all the reader, which takes at
  most two steps a byte, gives a value or says what is wrong and at which byte.
\<close>

theorem json_parse_total:
  "(\<exists>v. json_parse s = Inr v) \<or> (\<exists>what at. json_parse s = Inl (Fail what at))"
proof -
  have "json_value (json_fuel s) 0 (0, s) \<noteq> Inl OutOfFuel"
    using reading_fuel [of "json_fuel s"] by (simp add: json_fuel_def)
  then have "json_parse s \<noteq> Inl OutOfFuel"
    by (auto simp: json_parse_def and_then_Inl Let_def)
  then show ?thesis
    by (metis json_error.exhaust sum.exhaust)
qed

section \<open>Printing and reading back\<close>

fun json_nesting :: "json \<Rightarrow> nat" where
  "json_nesting (JArray xs) = Suc (fold max (map json_nesting xs) 0)"
| "json_nesting (JObject ps) = Suc (fold max (map (\<lambda>(k, v). json_nesting v) ps) 0)"
| "json_nesting _ = 0"

fun json_wf :: "json \<Rightarrow> bool" where
  "json_wf (JInt n) \<longleftrightarrow> - (2 ^ 63) \<le> n \<and> n < 2 ^ 63"
| "json_wf (JStr s) \<longleftrightarrow> utf8_valid s"
| "json_wf (JArray xs) \<longleftrightarrow> list_all json_wf xs"
| "json_wf (JObject ps) \<longleftrightarrow> list_all (\<lambda>(k, v). utf8_valid k \<and> json_wf v) ps"
| "json_wf _ \<longleftrightarrow> True"

lemma less_16_cases:
  "(d :: nat) < 16 \<Longrightarrow> d = 0 \<or> d = 1 \<or> d = 2 \<or> d = 3 \<or> d = 4 \<or> d = 5 \<or> d = 6 \<or> d = 7 \<or> d = 8 \<or> d = 9 \<or>
     d = 10 \<or> d = 11 \<or> d = 12 \<or> d = 13 \<or> d = 14 \<or> d = 15"
  by (simp add: numeral_eq_Suc less_Suc_eq)

lemma hex_digit_value: "d < 16 \<Longrightarrow> hex_value (hex_digit d) = Some d \<and> hex_digit d \<noteq> CHR ''+''"
  by (drule less_16_cases) (elim disjE; simp add: hex_value_def hex_digit_def)

lemma from_hex4_of:
  assumes "n < 65536"
  shows "from_str_radix16 (hex4_of n) = Some n"
proof -
  have "16 * (16 * (16 * (n div 4096 mod 16) + n div 256 mod 16) + n div 16 mod 16) + n mod 16 = n"
  proof -
    have "n div 4096 mod 16 = n div 16 div 16 div 16" "n div 256 = n div 16 div 16"
      using assms by (simp_all flip: div_mult2_eq)
    moreover have "16 * (m div 16) + m mod 16 = m" for m :: nat by simp
    ultimately show ?thesis by metis
  qed
  moreover have "n div 4096 mod 16 = n div 4096"
    using assms by simp
  ultimately show ?thesis
    using assms hex_digit_value [of "n div 4096"]
    by (simp add: from_str_radix16_def hex4_of_def hex_digit_value)
qed

lemma unicode_hex4_of:
  assumes "n < 0xD800"
  shows "unicode (i, hex4_of n @ s) = Inr (n, (i + 4, s))"
proof -
  have len: "length (hex4_of n) = 4" by (simp add: hex4_of_def)
  then have "hex4 (i, hex4_of n @ s) = Inr (n, (i + 4, s))"
    using assms from_hex4_of [of n] by (simp add: hex4_def advance_def)
  then show ?thesis
    using assms by (simp add: unicode_def from_u32_def is_high_surrogate_def)
qed

text \<open>Every byte a text is escaped to is read back as what it was escaped from.\<close>

lemma escape_control_code: "code_of a < 0x20 \<or> a = CHR 0x7F \<Longrightarrow> code_of a < 0x80"
  by (auto simp: code_of_def)

lemma encode_utf8_ascii: "code_of a < 0x80 \<Longrightarrow> encode_utf8 (code_of a) = [a]"
  by (simp add: encode_utf8_def byte_of_def code_of_def)

lemma encode_separators:
  "encode_utf8 0x2028 = [CHR 0xE2, CHR 0x80, CHR 0xA8]"
  "encode_utf8 0x2029 = [CHR 0xE2, CHR 0x80, CHR 0xA9]"
  by (simp_all add: encode_utf8_def byte_of_def char_of_def bit_simps)

lemma read_unicode:
  assumes "n < 0xD800"
  shows "read_string (i, CHR 0x5C # CHR ''u'' # hex4_of n @ s) out =
    read_string (6 + i, s) (out @ encode_utf8 n)"
  using unicode_hex4_of [OF assms, of "Suc (Suc i)" s]
  by (simp add: read_string_eqs simple_escape_def)

lemma read_simple_escape:
  "simple_escape e = Some c \<Longrightarrow>
   read_string (i, CHR 0x5C # e # s) out = read_string (Suc (Suc i), s) (out @ [c])"
  by (simp add: read_string_eqs)

lemma simple_escapes:
  "simple_escape CHR 0x22 = Some CHR 0x22" "simple_escape CHR 0x5C = Some CHR 0x5C"
  "simple_escape CHR ''n'' = Some CHR 0x0A" "simple_escape CHR ''r'' = Some CHR 0x0D"
  "simple_escape CHR ''t'' = Some CHR 0x09" "simple_escape CHR ''b'' = Some CHR 0x08"
  "simple_escape CHR ''f'' = Some CHR 0x0C"
  by (simp_all add: simple_escape_def)

text \<open>What one character of a text is written as, and what is left to write.\<close>

lemma escape_chars_step:
  "s \<noteq> [] \<Longrightarrow> \<exists>w t u. s = w @ t \<and> length t < length s \<and> escape_chars s = u @ escape_chars t \<and>
     (\<forall>i out rest. \<exists>j. read_string (i, u @ rest) out = read_string (j, rest) (out @ w))"
  (is "_ \<Longrightarrow> ?step s")
proof -
  assume "s \<noteq> []"
  then obtain a s' where s: "s = a # s'" by (cases s) auto
  have step: "?step s"
    if "s = w @ t" "w \<noteq> []" "escape_chars s = u @ escape_chars t"
      "\<And>i out rest. \<exists>j. read_string (i, u @ rest) out = read_string (j, rest) (out @ w)" for w t u
  proof -
    have "length t < length s" unfolding that(1) using that(2) by simp
    with that show ?thesis by blast
  qed
  have simple: "?step s" if "escape_chars s = CHR 0x5C # e # escape_chars s'" "simple_escape e = Some a" for e
  proof (rule step [of "[a]" s' "[CHR 0x5C, e]"])
    show "escape_chars s = [CHR 0x5C, e] @ escape_chars s'" using that(1) by (simp only: append.simps)
    show "\<exists>j. read_string (i, [CHR 0x5C, e] @ rest) out = read_string (j, rest) (out @ [a])" for i out rest
      using read_simple_escape [OF that(2)] by (simp only: append.simps) blast
  qed (simp_all add: s)
  have coded: "?step s"
    if "escape_chars s = CHR 0x5C # CHR ''u'' # hex4_of n @ escape_chars t" "encode_utf8 n = w"
      "n < 0xD800" "s = w @ t" "w \<noteq> []" for n t w
  proof (rule step [of w t "CHR 0x5C # CHR ''u'' # hex4_of n"])
    show "escape_chars s = (CHR 0x5C # CHR ''u'' # hex4_of n) @ escape_chars t"
      using that(1) by (simp only: append.simps)
    show "\<exists>j. read_string (i, (CHR 0x5C # CHR ''u'' # hex4_of n) @ rest) out =
        read_string (j, rest) (out @ w)" for i out rest
      using read_unicode [OF that(3)] that(2) by (simp only: append.simps) blast
  qed (fact that(4) that(5))+
  define special where "special = {CHR 0x22, CHR 0x5C, CHR 0x0A, CHR 0x0D, CHR 0x09, CHR 0x08, CHR 0x0C}"
  define control where "control \<longleftrightarrow> code_of a < 0x20 \<or> a = CHR 0x7F"
  define ls where "ls \<longleftrightarrow> starts_with [CHR 0xE2, CHR 0x80, CHR 0xA8] s"
  define ps where "ps \<longleftrightarrow> starts_with [CHR 0xE2, CHR 0x80, CHR 0xA9] s"
  consider "a \<in> special" | "a \<notin> special" "control"
    | "a \<notin> special" "\<not> control" "ls"
    | "a \<notin> special" "\<not> control" "ps"
    | "a \<notin> special" "\<not> control" "\<not> ls"
      "\<not> ps"
    by argo
  then show ?thesis
  proof cases
    case 1
    then have "\<exists>e. escape_chars s = CHR 0x5C # e # escape_chars s' \<and> simple_escape e = Some a"
      unfolding special_def s by (elim insertE emptyE) (simp_all add: simple_escapes)
    then show ?thesis using simple by blast
  next
    case 2
    then have "escape_chars s = CHR 0x5C # CHR ''u'' # hex4_of (code_of a) @ escape_chars s'"
      using s by (simp add: special_def control_def)
    moreover have "code_of a < 0x80"
      using 2 escape_control_code by (simp add: control_def)
    ultimately show ?thesis
      using coded [of "code_of a" s' "[a]"] s encode_utf8_ascii by simp
  next
    case 3
    then obtain t where "s = [CHR 0xE2, CHR 0x80, CHR 0xA8] @ t" unfolding ls_def ps_def starts_with_iff by blast
    then show ?thesis
      using coded [of "0x2028" t "[CHR 0xE2, CHR 0x80, CHR 0xA8]"] encode_separators
      by (simp add: code_of_def)
  next
    case 4
    then obtain t where "s = [CHR 0xE2, CHR 0x80, CHR 0xA9] @ t" unfolding ls_def ps_def starts_with_iff by blast
    then show ?thesis
      using coded [of "0x2029" t "[CHR 0xE2, CHR 0x80, CHR 0xA9]"] encode_separators
      by (simp add: code_of_def)
  next
    case 5
    then have "escape_chars s = [a] @ escape_chars s'"
      using s by (auto simp: special_def control_def ls_def ps_def)
    moreover have "read_string (i, [a] @ rest) out = read_string (Suc i, rest) (out @ [a])" for i rest out
      using 5 by (simp add: read_string_eqs special_def)
    ultimately show ?thesis
      by (intro step [of "[a]" s' "[a]"]) (auto simp only: s append.simps)
  qed
qed

lemma read_escape_chars:
  assumes "utf8_valid (out @ s)"
  shows "\<exists>j. read_string (i, escape_chars s @ CHR 0x22 # tail) out = Inr (out @ s, (j, tail))"
  using assms
proof (induction "length s" arbitrary: s i out rule: less_induct)
  case less
  show ?case
  proof (cases "s = []")
    case True
    with less.prems show ?thesis by (simp add: read_string_eqs)
  next
    case False
    then obtain w t u j where step: "s = w @ t" "length t < length s" "escape_chars s = u @ escape_chars t"
      "read_string (i, u @ escape_chars t @ CHR 0x22 # tail) out =
       read_string (j, escape_chars t @ CHR 0x22 # tail) (out @ w)"
      using escape_chars_step by metis
    with less.hyps [of t "out @ w" j] less.prems show ?thesis by simp
  qed
qed

lemma json_str_escape:
  "utf8_valid s \<Longrightarrow> \<exists>j. json_str (i, json_escape s @ tail) = Inr (s, (j, tail))"
  using read_escape_chars [of "[]" s "Suc i" tail]
  by (simp add: json_str_def json_escape_def advance_def)

lemma skip_space_at: "b \<notin> {CHR '' '', CHR 0x09, CHR 0x0A, CHR 0x0D} \<Longrightarrow> skip_space (i, b # s) = (i, b # s)"
  by (simp add: skip_space_def is_space_def advance_def)

lemma skip_space_indent:
  "\<exists>j. skip_space (i, concat (replicate n ''  '') @ s) = skip_space (j, s)"
proof (induction n arbitrary: i)
  case (Suc n)
  have "skip_space (i, CHR '' '' # CHR '' '' # t) = skip_space (i + 2, t)" for t
    by (simp add: skip_space_def is_space_def advance_def)
  with Suc [of "i + 2"] show ?case by simp
qed auto

lemma skip_newline: "skip_space (i, CHR 0x0A # s) = skip_space (Suc i, s)"
  by (simp add: skip_space_def is_space_def advance_def)

text \<open>What no printed value starts with.\<close>

definition starts_value :: "str \<Rightarrow> bool" where
  "starts_value s \<longleftrightarrow> (\<exists>b t. s = b # t \<and> \<not> is_space b \<and> b \<notin> {CHR '']'', CHR ''}'', CHR '',''})"

definition ends_value :: "str \<Rightarrow> bool" where
  "ends_value s \<longleftrightarrow> (case s of [] \<Rightarrow> True | b # _ \<Rightarrow> \<not> is_number_byte b)"

lemma digit_not_special: "is_ascii_digit b \<Longrightarrow> b \<notin> {CHR 0x22, CHR ''t'', CHR ''f'', CHR ''n'', CHR ''['', CHR ''{'',
    CHR '']'', CHR ''}'', CHR '','', CHR ''-'', CHR ''+'', CHR '' '', CHR 0x09, CHR 0x0A, CHR 0x0D}"
  by (auto simp: is_ascii_digit_def digits_ascii_def)

lemma show_int_head: "\<exists>b t. show_int n = b # t \<and> (b = CHR ''-'' \<or> is_ascii_digit b)"
proof (cases "n < 0")
  case False
  obtain b t where "dec (nat n) = b # t" using dec_nonempty by (meson neq_Nil_conv)
  with dec_digits [of "nat n"] False show ?thesis by (simp add: show_int_def)
qed (simp add: show_int_def)

lemma parse_i64_digits:
  assumes "ds \<noteq> []" and "list_all is_ascii_digit ds"
  shows "parse_i64 ds = (if undec ds < 2 ^ 63 then Some (int (undec ds)) else None)"
    and "parse_i64 (CHR ''-'' # ds) = (if undec ds \<le> 2 ^ 63 then Some (- int (undec ds)) else None)"
proof -
  have all: "\<not> list_ex (\<lambda>c. \<not> is_ascii_digit c) ds"
    using assms(2) by (simp add: list_ex_iff list_all_iff)
  obtain b t where ds: "ds = b # t" using assms(1) by (meson neq_Nil_conv)
  then have "b \<noteq> CHR ''-''" "b \<noteq> CHR ''+''"
    using assms(2) digit_not_special [of b] by auto
  then have head: "(case ds of [] \<Rightarrow> (False, []) | c # t \<Rightarrow>
      if c = CHR ''-'' then (True, t) else if c = CHR ''+'' then (False, t) else (False, ds)) = (False, ds)"
    using ds by simp
  have "int (undec ds) < 2 ^ 63 \<longleftrightarrow> undec ds < 2 ^ 63"
    by (metis of_nat_less_iff of_nat_numeral of_nat_power)
  moreover have "- (2 ^ 63) \<le> int (undec ds)"
    by (rule order.trans [of _ 0]) simp_all
  ultimately show "parse_i64 ds = (if undec ds < 2 ^ 63 then Some (int (undec ds)) else None)"
    unfolding parse_i64_def head using all assms(1) by (simp add: Let_def del: power_numeral)
  have "- (2 ^ 63) \<le> - int (undec ds) \<longleftrightarrow> undec ds \<le> 2 ^ 63"
    by (metis neg_le_iff_le of_nat_le_iff of_nat_numeral of_nat_power)
  moreover have "- int (undec ds) < 2 ^ 63"
    by (rule order.strict_trans1 [of _ 0]) simp_all
  ultimately show "parse_i64 (CHR ''-'' # ds) = (if undec ds \<le> 2 ^ 63 then Some (- int (undec ds)) else None)"
    unfolding parse_i64_def using all assms(1) by (simp add: Let_def del: power_numeral)
qed

lemma parse_i64_show:
  assumes "- (2 ^ 63) \<le> n" and "n < 2 ^ 63"
  shows "parse_i64 (show_int n) = Some n"
proof (cases "n < 0")
  case True
  then have "nat (- n) \<le> 2 ^ 63" using assms(1) by (simp add: nat_le_iff)
  with True show ?thesis
    using parse_i64_digits(2) [of "dec (nat (- n))"] dec_digits
    by (simp add: show_int_def undec_dec list_all_iff)
next
  case False
  then have "nat n < 2 ^ 63" using assms(2) by (simp add: nat_less_iff)
  with False show ?thesis
    using parse_i64_digits(1) [of "dec (nat n)"] dec_digits
    by (simp add: show_int_def undec_dec list_all_iff)
qed

lemma number_show:
  assumes "- (2 ^ 63) \<le> n" and "n < 2 ^ 63" and "ends_value tail"
  shows "number (i, show_int n @ tail) = (JInt n, (i + length (show_int n), tail))"
proof -
  have "\<forall>c \<in> set (show_int n). is_number_byte c"
    using dec_digits by (auto simp: show_int_def is_number_byte_def)
  then have "takeWhile is_number_byte (show_int n @ tail) = show_int n @ takeWhile is_number_byte tail"
    by simp
  also have "takeWhile is_number_byte tail = []"
    using assms(3) by (cases tail) (simp_all add: ends_value_def)
  finally show ?thesis
    using parse_i64_show [OF assms(1,2)] by (simp add: number_def)
qed

text \<open>The reader at a printed value, whatever space comes before it and whatever follows.\<close>

lemma json_str_head: "\<exists>t. json_escape s = CHR 0x22 # t"
  by (simp add: json_escape_def)

definition scalar_head :: "char \<Rightarrow> bool" where
  "scalar_head b \<longleftrightarrow> \<not> is_space b \<and> b \<noteq> CHR ''{'' \<and> b \<noteq> CHR ''['' \<and> b \<noteq> CHR '']'' \<and> b \<noteq> CHR ''}''"

lemma scalar_heads:
  "scalar_head CHR 0x22" "scalar_head CHR ''t''" "scalar_head CHR ''f''" "scalar_head CHR ''n''" "scalar_head CHR ''-''"
  by (simp_all add: scalar_head_def is_space_def)

lemma digit_head:
  "is_ascii_digit b \<Longrightarrow> scalar_head b \<and> b \<noteq> CHR 0x22 \<and> b \<noteq> CHR ''t'' \<and> b \<noteq> CHR ''f'' \<and> b \<noteq> CHR ''n''"
  by (auto simp: is_ascii_digit_def digits_ascii_def scalar_head_def is_space_def)

lemma scalar_write:
  assumes "json_wf v" and "ends_value tail" and "\<forall>xs. v \<noteq> JArray xs" and "\<forall>ps. v \<noteq> JObject ps"
  shows "\<exists>b t j. json_write v k = b # t \<and> scalar_head b \<and>
    json_scalar b (i, json_write v k @ tail) = Inr (v, (j, tail))"
proof (cases v)
  case (JBool b)
  then show ?thesis by (cases b) (simp_all add: json_scalar_def word_def advance_def scalar_heads)
next
  case (JInt n)
  obtain b t where b: "show_int n = b # t" "b = CHR ''-'' \<or> is_ascii_digit b" using show_int_head by blast
  have num: "number (i, show_int n @ tail) = (JInt n, (i + length (show_int n), tail))"
    using number_show assms JInt by simp
  have "json_scalar b (i, show_int n @ tail) = Inr (JInt n, (i + length (show_int n), tail)) \<and> scalar_head b"
    using b(2)
  proof
    assume "b = CHR ''-''"
    with num show ?thesis by (simp add: json_scalar_def scalar_heads)
  next
    assume "is_ascii_digit b"
    with num digit_head [of b] show ?thesis by (simp add: json_scalar_def)
  qed
  then show ?thesis
    using b(1) JInt by simp
next
  case (JStr s)
  obtain t where "json_escape s = CHR 0x22 # t" using json_str_head by blast
  moreover obtain j where "json_str (i, json_escape s @ tail) = Inr (s, (j, tail))"
    using json_str_escape assms(1) JStr by fastforce
  ultimately show ?thesis
    using JStr by (simp add: json_scalar_def scalar_heads)
qed (use assms in \<open>simp_all add: json_scalar_def word_def advance_def scalar_heads\<close>)

lemma ends_value_simps [simp]:
  "ends_value (CHR '','' # s)" "ends_value (CHR 0x0A # s)" "ends_value []"
  by (simp_all add: ends_value_def is_number_byte_def is_ascii_digit_def digits_ascii_def)

lemma skip_to_value:
  "\<exists>j. skip_space (i, CHR 0x0A # json_indent n @ s) = skip_space (j, s)"
  using skip_space_indent [of "Suc i" n s] by (simp add: skip_newline json_indent_def)

lemma skip_skip [simp]: "skip_space (skip_space r) = skip_space r"
proof -
  have *: "skip_space q = (fst q + length (takeWhile is_space (snd q)), dropWhile is_space (snd q))" for q
    by (simp add: skip_space_def advance_def dropWhile_eq_drop)
  have "takeWhile is_space (dropWhile is_space s) = []" for s
    by (induction s) auto
  then show ?thesis
    by (simp add: *)
qed

lemma json_value_skip: "skip_space r = skip_space r' \<Longrightarrow> json_value f d r = json_value f d r'"
  by (cases f) simp_all

lemma peek_at [simp]: "peek (i, b # s) = Some b" "advance 1 (i, b # s) = (i + 1, s)" "advance (Suc 0) (i, b # s) = (Suc i, s)"
  by (simp_all add: peek_def advance_def)

lemma eat_at: "\<not> is_space b \<Longrightarrow> eat b (i, b # s) = Inr (Suc i, s)"
  by (simp add: eat_def skip_space_at is_space_def)

text \<open>
  The reader at a printed value: \<open>reads d v\<close> says it gives the value back wherever it is
  printed, given fuel for what there is to read, at the depth.
\<close>

definition reads :: "nat \<Rightarrow> json \<Rightarrow> bool" where
  "reads d v \<longleftrightarrow> (\<forall>f i k tail r. 2 * length (snd r) < f \<longrightarrow> ends_value tail \<longrightarrow>
     skip_space r = skip_space (i, json_write v k @ tail) \<longrightarrow>
     (\<exists>j. json_value f d r = Inr (v, (j, tail))))"

lemma readsD:
  "reads d v \<Longrightarrow> 2 * length (snd r) < f \<Longrightarrow> ends_value tail \<Longrightarrow>
   skip_space r = skip_space (i, json_write v k @ tail) \<Longrightarrow> \<exists>j. json_value f d r = Inr (v, (j, tail))"
  unfolding reads_def by blast

lemma skip_space_head: "\<not> is_space b \<Longrightarrow> skip_space (i, b # s) = (i, b # s)"
  by (simp add: skip_space_def advance_def)

lemma reads_scalar:
  assumes "json_wf v" and "\<forall>xs. v \<noteq> JArray xs" and "\<forall>ps. v \<noteq> JObject ps"
  shows "reads d v"
  unfolding reads_def
proof (intro allI impI)
  fix f i k tail and r :: reader
  assume fuel: "2 * length (snd r) < f" and ends: "ends_value tail"
    and r: "skip_space r = skip_space (i, json_write v k @ tail)"
  obtain b t j where b: "json_write v k = b # t" "scalar_head b"
    and v: "json_scalar b (i, json_write v k @ tail) = Inr (v, (j, tail))"
    using scalar_write [OF assms(1) ends assms(2,3)] by blast
  obtain f' where f: "f = Suc f'" using fuel by (cases f) auto
  have "skip_space r = (i, b # t @ tail)"
    using r b by (simp add: skip_space_head scalar_head_def)
  then show "\<exists>j. json_value f d r = Inr (v, (j, tail))"
    using v b by (simp add: f Let_def scalar_head_def)
qed

text \<open>What is left of an array after its first items, and of an object after its first pairs.\<close>

lemma reads_array_loop:
  assumes "list_all (reads d) (x # xs)" and "2 * length (snd r) + 1 < f"
    and "skip_space r = skip_space (i, json_write x (k + 1) @ write_items False xs k @ CHR 0x0A # json_indent k @ CHR '']'' # tail)"
  shows "\<exists>j. array_loop f d ys r = Inr (JArray (ys @ x # xs), (j, tail))"
  using assms
proof (induction xs arbitrary: x f i r ys)
  case Nil
  obtain f' where f: "f = Suc f'" using Nil.prems by (cases f) auto
  obtain j where "json_value f' d r = Inr (x, (j, CHR 0x0A # json_indent k @ CHR '']'' # tail))"
    using readsD [of d x r f' "CHR 0x0A # json_indent k @ CHR '']'' # tail" i "k + 1"] Nil.prems f by auto
  moreover obtain j' where "skip_space (j, CHR 0x0A # json_indent k @ CHR '']'' # tail) = (j', CHR '']'' # tail)"
    using skip_to_value [of j k "CHR '']'' # tail"] by (auto simp: skip_space_head is_space_def)
  ultimately show ?case by (simp add: f Let_def)
next
  case (Cons y xs)
  obtain f' where f: "f = Suc f'" using Cons.prems by (cases f) auto
  let ?rest = "CHR 0x0A # json_indent (k + 1) @ json_write y (k + 1) @ write_items False xs k @
    CHR 0x0A # json_indent k @ CHR '']'' # tail"
  obtain j where v: "json_value f' d r = Inr (x, (j, CHR '','' # ?rest))"
    using readsD [of d x r f' "CHR '','' # ?rest" i "k + 1"] Cons.prems f by auto
  have comma: "skip_space (j, CHR '','' # ?rest) = (j, CHR '','' # ?rest)"
    by (simp add: skip_space_head is_space_def)
  have short: "length (CHR '','' # ?rest) < length (snd r)"
    using v reading_shorter [of f'] by (metis snd_conv)
  obtain i' where "skip_space (Suc j, ?rest) = skip_space (i', json_write y (k + 1) @ write_items False xs k @
      CHR 0x0A # json_indent k @ CHR '']'' # tail)"
    using skip_to_value by blast
  then obtain j' where "array_loop f' d (ys @ [x]) (Suc j, ?rest) = Inr (JArray ((ys @ [x]) @ y # xs), (j', tail))"
    using Cons.IH [of y "(Suc j, ?rest)" f' i' "ys @ [x]"] Cons.prems short f by auto
  then show ?case using v comma by (simp add: f Let_def)
qed

lemma json_str_key:
  assumes "utf8_valid key"
  shows "\<exists>j t. json_escape key @ s = CHR 0x22 # t \<and> json_str (i, json_escape key @ '': '' @ s) = Inr (key, (j, '': '' @ s)) \<and>
    eat CHR '':'' (j, '': '' @ s) = Inr (Suc j, CHR '' '' # s)"
proof -
  obtain j where "json_str (i, json_escape key @ '': '' @ s) = Inr (key, (j, '': '' @ s))"
    using json_str_escape [OF assms] by blast
  moreover have "eat CHR '':'' (j, '': '' @ s) = Inr (Suc j, CHR '' '' # s)"
    by (simp add: eat_at is_space_def)
  moreover have "\<exists>t. json_escape key @ s = CHR 0x22 # t" by (simp add: json_escape_def)
  ultimately show ?thesis by blast
qed

text \<open>One pair of an object, read up to what follows its value.\<close>

lemma reads_pair:
  assumes "utf8_valid key" and "reads d v" and "2 * length (snd r) < f" and "ends_value tail"
    and "skip_space r = skip_space (i, json_escape key @ '': '' @ json_write v k @ tail)"
  shows "\<exists>r1 r2 j. peek (skip_space r) = Some CHR 0x22 \<and> json_str (skip_space r) = Inr (key, r1) \<and>
    eat CHR '':'' r1 = Inr r2 \<and> json_value f d r2 = Inr (v, (j, tail)) \<and> length tail < length (snd r)"
proof -
  obtain t where head: "json_escape key = CHR 0x22 # t" using json_str_head by blast
  have r: "skip_space r = (i, json_escape key @ '': '' @ json_write v k @ tail)"
    using assms(5) head by (simp add: skip_space_head is_space_def)
  obtain j where key: "json_str (skip_space r) = Inr (key, (j, '': '' @ json_write v k @ tail))"
    and colon: "eat CHR '':'' (j, '': '' @ json_write v k @ tail) = Inr (Suc j, CHR '' '' # json_write v k @ tail)"
    unfolding r using json_str_key [OF assms(1), of "json_write v k @ tail" i] by blast
  let ?r2 = "(Suc j, CHR '' '' # json_write v k @ tail)"
  have "skip_space ?r2 = skip_space (Suc (Suc j), json_write v k @ tail)"
    by (simp add: skip_space_def is_space_def advance_def)
  moreover have short: "length (snd ?r2) < length (snd r)"
    using json_str_shorter [OF key] eat_shorter [OF colon] skip_space_shorter [of r] by simp
  ultimately obtain j' where v: "json_value f d ?r2 = Inr (v, (j', tail))"
    using readsD [OF assms(2) _ assms(4), of ?r2 f "Suc (Suc j)" k] assms(3) by auto
  have "peek (skip_space r) = Some CHR 0x22" unfolding r head by simp
  then show ?thesis using key colon v short by auto
qed

lemma reads_object_loop:
  assumes "list_all (\<lambda>(key, v). utf8_valid key \<and> reads d v) ((key, v) # ps)" and "2 * length (snd r) + 1 < f"
    and "skip_space r = skip_space (i, json_escape key @ '': '' @ json_write v (k + 1) @ write_pairs False ps k @
      CHR 0x0A # json_indent k @ CHR ''}'' # tail)"
  shows "\<exists>j. object_loop f d qs r = Inr (JObject (qs @ (key, v) # ps), (j, tail))"
  using assms
proof (induction ps arbitrary: key v f i r qs)
  case Nil
  obtain f' where f: "f = Suc f'" using Nil.prems by (cases f) auto
  obtain r1 r2 j where pair: "peek (skip_space r) = Some CHR 0x22" "json_str (skip_space r) = Inr (key, r1)"
      "eat CHR '':'' r1 = Inr r2" "json_value f' d r2 = Inr (v, (j, CHR 0x0A # json_indent k @ CHR ''}'' # tail))"
    using reads_pair [of key d v r f' "CHR 0x0A # json_indent k @ CHR ''}'' # tail" i "k + 1"] Nil.prems f by auto
  obtain j' where "skip_space (j, CHR 0x0A # json_indent k @ CHR ''}'' # tail) = (j', CHR ''}'' # tail)"
    using skip_to_value [of j k "CHR ''}'' # tail"] by (auto simp: skip_space_head is_space_def)
  with pair show ?case by (simp add: f Let_def)
next
  case (Cons p ps)
  obtain f' where f: "f = Suc f'" using Cons.prems by (cases f) auto
  obtain key' v' where p: "p = (key', v')" by (cases p)
  let ?next = "json_escape key' @ '': '' @ json_write v' (k + 1) @ write_pairs False ps k @
    CHR 0x0A # json_indent k @ CHR ''}'' # tail"
  let ?rest = "CHR 0x0A # json_indent (k + 1) @ ?next"
  obtain r1 r2 j where pair: "peek (skip_space r) = Some CHR 0x22" "json_str (skip_space r) = Inr (key, r1)"
      "eat CHR '':'' r1 = Inr r2" "json_value f' d r2 = Inr (v, (j, CHR '','' # ?rest))"
      "length (CHR '','' # ?rest) < length (snd r)"
    using reads_pair [of key d v r f' "CHR '','' # ?rest" i "k + 1"] Cons.prems f p by auto
  have comma: "skip_space (j, CHR '','' # ?rest) = (j, CHR '','' # ?rest)"
    by (simp add: skip_space_head is_space_def)
  obtain i' where "skip_space (Suc j, ?rest) = skip_space (i', ?next)"
    using skip_to_value by blast
  then obtain j' where "object_loop f' d (qs @ [(key, v)]) (Suc j, ?rest) =
      Inr (JObject ((qs @ [(key, v)]) @ (key', v') # ps), (j', tail))"
    using Cons.IH [of key' v' "(Suc j, ?rest)" f' i' "qs @ [(key, v)]"] Cons.prems pair(5) f p by auto
  then show ?case using pair comma by (simp add: f p Let_def)
qed

lemma write_head: "\<exists>b t. json_write v k = b # t \<and> \<not> is_space b \<and> b \<noteq> CHR '']''"
proof (cases v)
  case (JInt n)
  obtain b t where b: "show_int n = b # t" "b = CHR ''-'' \<or> is_ascii_digit b" using show_int_head by blast
  then have "scalar_head b" using digit_head scalar_heads by blast
  with b JInt show ?thesis by (simp add: scalar_head_def)
qed (auto simp: is_space_def json_escape_def)

lemma nesting_le:
  "v \<in> set xs \<Longrightarrow> json_nesting v < json_nesting (JArray xs)"
  "(key, v) \<in> set ps \<Longrightarrow> json_nesting v < json_nesting (JObject ps)"
proof -
  have *: "x \<in> set ys \<Longrightarrow> x \<le> fold max ys a" and "a \<le> fold max ys a" for x a and ys :: "nat list"
    by (induction ys arbitrary: a) (auto intro: order.trans [OF max.cobounded1] order.trans [OF max.cobounded2])
  show "v \<in> set xs \<Longrightarrow> json_nesting v < json_nesting (JArray xs)"
    by (simp add: less_Suc_eq_le *)
  show "(key, v) \<in> set ps \<Longrightarrow> json_nesting v < json_nesting (JObject ps)"
    by (auto simp: less_Suc_eq_le intro!: * rev_image_eqI)
qed

lemma reads_written:
  "json_wf v \<Longrightarrow> d + json_nesting v \<le> max_depth \<Longrightarrow> reads d v"
proof (induction v arbitrary: d)
  case (JArray xs)
  have items: "list_all (reads (d + 1)) xs"
    using JArray nesting_le(1) [of _ xs] by (fastforce simp: list_all_iff)
  show ?case
    unfolding reads_def
  proof (intro allI impI)
    fix f i k tail and r :: reader
    assume fuel: "2 * length (snd r) < f" and ends: "ends_value tail"
      and r0: "skip_space r = skip_space (i, json_write (JArray xs) k @ tail)"
    obtain f' where f: "f = Suc f'" using fuel by (cases f) auto
    let ?body = "if xs = [] then CHR '']'' # tail else write_items True xs k @ CHR 0x0A # json_indent k @ CHR '']'' # tail"
    have r: "skip_space r = (i, CHR ''['' # ?body)"
      using r0 by (simp add: skip_space_head is_space_def split: if_splits)
    then have short: "length ?body < length (snd r)"
      using skip_space_shorter [of r] by simp
    have deep: "\<not> max_depth < d + 1"
      using JArray.prems by simp
    have eat: "eat CHR ''['' (i, CHR ''['' # ?body) = Inr (Suc i, ?body)"
      by (simp add: eat_at is_space_def)
    show "\<exists>j. json_value f d r = Inr (JArray xs, (j, tail))"
    proof (cases xs)
      case Nil
      have "skip_space (Suc i, CHR '']'' # tail) = (Suc i, CHR '']'' # tail)"
        by (simp add: skip_space_head is_space_def)
      with Nil r eat deep show ?thesis by (simp add: f Let_def)
    next
      case (Cons x ys)
      let ?r = "skip_space (Suc i, ?body)"
      obtain i' where start: "?r = skip_space (i', json_write x (k + 1) @ write_items False ys k @
          CHR 0x0A # json_indent k @ CHR '']'' # tail)"
        using skip_to_value [of "Suc i" "k + 1"] Cons by fastforce
      have "2 * length (snd ?r) + 1 < f'"
        using short skip_space_shorter [of "(Suc i, ?body)"] fuel f by simp
      then obtain j where "array_loop f' (d + 1) [] ?r = Inr (JArray ([] @ x # ys), (j, tail))"
        using reads_array_loop [of "d + 1" x ys ?r f' i' k tail "[]"] items Cons start by auto
      moreover have "peek ?r \<noteq> Some CHR '']''"
        unfolding start using write_head [of x "k + 1"] by (auto simp: skip_space_head)
      ultimately show ?thesis
        using Cons r eat deep by (simp add: f Let_def)
    qed
  qed
next
  case (JObject ps)
  have pairs: "list_all (\<lambda>(key, v). utf8_valid key \<and> reads (d + 1) v) ps"
    unfolding list_all_iff
  proof safe
    fix key v
    assume kv: "(key, v) \<in> set ps"
    with JObject.prems(1) show "utf8_valid key" by (auto simp: list_all_iff)
    have "json_wf v" using JObject.prems(1) kv by (auto simp: list_all_iff)
    moreover have "d + 1 + json_nesting v \<le> max_depth"
      using JObject.prems(2) nesting_le(2) [OF kv] by simp
    ultimately show "reads (d + 1) v"
      using JObject.IH [OF kv] by simp
  qed
  show ?case
    unfolding reads_def
  proof (intro allI impI)
    fix f i k tail and r :: reader
    assume fuel: "2 * length (snd r) < f" and ends: "ends_value tail"
      and r0: "skip_space r = skip_space (i, json_write (JObject ps) k @ tail)"
    obtain f' where f: "f = Suc f'" using fuel by (cases f) auto
    let ?body = "if ps = [] then CHR ''}'' # tail else write_pairs True ps k @ CHR 0x0A # json_indent k @ CHR ''}'' # tail"
    have r: "skip_space r = (i, CHR ''{'' # ?body)"
      using r0 by (simp add: skip_space_head is_space_def split: if_splits)
    then have short: "length ?body < length (snd r)"
      using skip_space_shorter [of r] by simp
    have deep: "\<not> max_depth < d + 1"
      using JObject.prems by simp
    have eat: "eat CHR ''{'' (i, CHR ''{'' # ?body) = Inr (Suc i, ?body)"
      by (simp add: eat_at is_space_def)
    show "\<exists>j. json_value f d r = Inr (JObject ps, (j, tail))"
    proof (cases ps)
      case Nil
      have "skip_space (Suc i, CHR ''}'' # tail) = (Suc i, CHR ''}'' # tail)"
        by (simp add: skip_space_head is_space_def)
      with Nil r eat deep show ?thesis by (simp add: f Let_def)
    next
      case (Cons p qs)
      obtain key v where p: "p = (key, v)" by (cases p)
      let ?r = "skip_space (Suc i, ?body)"
      obtain i' where start: "?r = skip_space (i', json_escape key @ '': '' @ json_write v (k + 1) @ write_pairs False qs k @
          CHR 0x0A # json_indent k @ CHR ''}'' # tail)"
        using skip_to_value [of "Suc i" "k + 1"] Cons p by fastforce
      have "2 * length (snd ?r) + 1 < f'"
        using short skip_space_shorter [of "(Suc i, ?body)"] fuel f by simp
      then obtain j where "object_loop f' (d + 1) [] ?r = Inr (JObject ([] @ (key, v) # qs), (j, tail))"
        using reads_object_loop [of "d + 1" key v qs ?r f' i' k tail "[]"] pairs Cons p start by auto
      moreover have "peek ?r \<noteq> Some CHR ''}''"
        unfolding start by (simp add: json_escape_def skip_space_head is_space_def)
      ultimately show ?thesis
        using Cons p r eat deep by (simp add: f Let_def)
    qed
  qed
qed (simp_all add: reads_scalar)

text \<open>
  Property C32. What the printer writes the reader reads: a document printed from any value
  whose texts are UTF-8, whose integers fit 64 bits and which nests at most 128 deep is read
  back as that value, escapes, separators, indentation and all.
\<close>

theorem json_roundtrip:
  assumes "json_wf v" and "json_nesting v \<le> max_depth"
  shows "json_parse (json_render v) = Inr v"
proof -
  have "reads 0 v" using assms reads_written by simp
  from readsD [OF this, of "(0, json_render v)" "json_fuel (json_render v)" "[CHR 0x0A]" 0 0]
  obtain j where "json_value (json_fuel (json_render v)) 0 (0, json_render v) = Inr (v, (j, [CHR 0x0A]))"
    by (auto simp: json_render_def json_fuel_def)
  moreover have "skip_space (j, [CHR 0x0A]) = (Suc j, [])"
    by (simp add: skip_space_def is_space_def advance_def)
  ultimately show ?thesis
    by (simp add: json_parse_def)
qed

theorem json_roundtrip_witness:
  "json_parse (json_render (JObject [(''a'', JArray [JInt (- 5), JStr [CHR 0x0A, CHR 0xE2, CHR 0x80, CHR 0xA8]]), (''b'', JNull)])) =
   Inr (JObject [(''a'', JArray [JInt (- 5), JStr [CHR 0x0A, CHR 0xE2, CHR 0x80, CHR 0xA8]]), (''b'', JNull)])"
  (is "json_parse (json_render ?v) = Inr ?v")
proof (rule json_roundtrip)
  show "json_wf ?v" by code_simp
  show "json_nesting ?v \<le> max_depth" by code_simp
qed

text \<open>Comparisons with large constants are evaluated on integers.\<close>

lemma surrogates_code [code]:
  "is_high_surrogate c \<longleftrightarrow> (let i = int c in 0xD800 \<le> i \<and> i < 0xDC00)"
  "from_u32 c = (let i = int c in if (0xD800 \<le> i \<and> i < 0xE000) \<or> 0x110000 \<le> i then None else Some c)"
  by (auto simp: is_high_surrogate_def from_u32_def Let_def)

text \<open>
  The reader takes more than JSON: four hexadecimal digits may be a plus sign and
  three, an integer may have leading zeros, a run of digits and signs that is no number is
  text, and a text may hold a line break as it is. A document that nests 129 deep is refused.
\<close>

lemma json_reads_too_much:
  "json_parse [CHR 0x22, CHR 0x5C, CHR ''u'', CHR ''+'', CHR ''0'', CHR ''4'', CHR ''1'', CHR 0x22] = Inr (JStr ''A'') \<and>
   json_parse ''007'' = Inr (JInt 7) \<and> json_parse ''1-2'' = Inr (JStr ''1-2'') \<and>
   json_parse [CHR 0x22, CHR 0x0A, CHR 0x22] = Inr (JStr [CHR 0x0A]) \<and>
   json_parse (replicate 129 CHR ''['') = Inl (Fail ''nested too deeply'' 128)"
  by code_simp

end
