(* ===== verification/GradleModule.thy ===== *)
theory GradleModule
  imports Json Coord
begin

text \<open>
  \<^verbatim>\<open>src/src/resolve/gradle_module.rs\<close>: what a Gradle module file says of a library, read from the
  JSON of \<^verbatim>\<open>Json\<close>: the artifact that holds its JVM classes, and whether it ships a jar.
\<close>

definition marker :: str where
  "marker = ''published-with-gradle-metadata''"

definition announced :: "str \<Rightarrow> bool" where
  "announced pom \<longleftrightarrow> contains marker pom"

text \<open>An attribute of a variant, if it is a text.\<close>

definition attribute :: "json \<Rightarrow> str \<Rightarrow> str option" where
  "attribute variant name = Option.bind (json_get variant ''attributes'') (\<lambda>a. Option.bind (json_get a name) as_str)"

definition variants :: "json \<Rightarrow> json list" where
  "variants doc = (case json_get doc ''variants'' of None \<Rightarrow> [] | Some v \<Rightarrow> items v)"

definition is_jvm_variant :: "str \<Rightarrow> json \<Rightarrow> bool" where
  "is_jvm_variant usage variant \<longleftrightarrow>
     attribute variant ''org.jetbrains.kotlin.platform.type'' = Some ''jvm'' \<and>
     (case attribute variant ''org.gradle.category'' of None \<Rightarrow> True | Some c \<Rightarrow> c = ''library'') \<and>
     attribute variant ''org.gradle.usage'' = Some usage"

definition available_at :: "json \<Rightarrow> coord option" where
  "available_at at =
     Option.bind (Option.bind (json_get at ''group'') as_str) (\<lambda>grp.
     Option.bind (Option.bind (json_get at ''module'') as_str) (\<lambda>module.
     Option.bind (Option.bind (json_get at ''version'') as_str) (\<lambda>version.
       Some (coord_new grp module version))))"

definition jvm_target :: "json \<Rightarrow> str \<Rightarrow> coord option" where
  "jvm_target doc usage =
     Option.bind (find (is_jvm_variant usage) (variants doc)) (\<lambda>variant.
     Option.bind (json_get variant ''available-at'') available_at)"

text \<open>A document, or the message it cannot be read for.\<close>

definition module_document :: "str \<Rightarrow> json_error + json" where
  "module_document module =
     (if \<not> utf8_valid module then Inl (Fail ''it is not UTF-8'' 0) else json_parse module)"

definition jvm_variant :: "str \<Rightarrow> coord \<Rightarrow> json_error + coord option" where
  "jvm_variant module c = and_then (module_document module) (\<lambda>doc.
     let target = (case jvm_target doc ''java-runtime'' of
                     Some t \<Rightarrow> Some t | None \<Rightarrow> jvm_target doc ''java-api'')
     in Inr (case target of
               None \<Rightarrow> None
             | Some t \<Rightarrow> if coord_ga t \<noteq> coord_ga c then Some t else None))"

definition ships_jar :: "host \<Rightarrow> str \<Rightarrow> coord \<Rightarrow> json_error + bool" where
  "ships_jar h module c = and_then (module_document module) (\<lambda>doc.
     let jar = file_name h c ''jar'' in
     Inr (list_ex (\<lambda>variant.
       attribute variant ''org.gradle.category'' = Some ''library'' \<and>
       attribute variant ''org.gradle.usage'' = Some ''java-runtime'' \<and>
       json_get variant ''available-at'' = None \<and>
       list_ex (\<lambda>f. Option.bind (json_get f ''name'') as_str = Some jar)
         (case json_get variant ''files'' of None \<Rightarrow> [] | Some v \<Rightarrow> items v)) (variants doc)))"

text \<open>
  The artifact a module file sends a library to is never the library itself, under
  any version, and is named by a variant for the JVM, the one for running before the one for
  compiling; and both questions are answered for every file, with a message if it is not JSON.
\<close>

lemma jvm_variant_elsewhere:
  "(jvm_variant module c = Inr (Some t) \<longrightarrow>
      coord_ga t \<noteq> coord_ga c \<and> coord_classifier t = None \<and>
      (\<exists>doc. module_document module = Inr doc \<and>
         (jvm_target doc ''java-runtime'' = Some t \<or>
          jvm_target doc ''java-runtime'' = None \<and> jvm_target doc ''java-api'' = Some t))) \<and>
   (\<exists>r. jvm_variant module c = Inr r) = (\<exists>doc. module_document module = Inr doc) \<and>
   (\<exists>r. ships_jar h module c = Inr r) = (\<exists>doc. module_document module = Inr doc)"
proof (intro conjI impI)
  assume v: "jvm_variant module c = Inr (Some t)"
  then obtain doc where doc: "module_document module = Inr doc"
    and t: "(case jvm_target doc ''java-runtime'' of Some t \<Rightarrow> Some t | None \<Rightarrow> jvm_target doc ''java-api'') = Some t"
    and ne: "coord_ga t \<noteq> coord_ga c"
    by (auto simp: jvm_variant_def and_then_Inr Let_def split: option.splits if_splits)
  have "jvm_target d u = Some t \<Longrightarrow> coord_classifier t = None" for d u
    by (auto simp: jvm_target_def available_at_def coord_new_def bind_eq_Some_conv)
  with t have "coord_classifier t = None" by (auto split: option.splits)
  then show "coord_classifier t = None" .
  show "coord_ga t \<noteq> coord_ga c" by (rule ne)
  show "\<exists>doc. module_document module = Inr doc \<and> (jvm_target doc ''java-runtime'' = Some t \<or>
      jvm_target doc ''java-runtime'' = None \<and> jvm_target doc ''java-api'' = Some t)"
    using doc t by (auto split: option.splits)
qed (auto simp: jvm_variant_def ships_jar_def and_then_Inr Let_def)

definition example_module :: json where
  "example_module = JObject [(''variants'', JArray [JObject
     [(''attributes'', JObject [(''org.jetbrains.kotlin.platform.type'', JStr ''jvm''),
                               (''org.gradle.usage'', JStr ''java-runtime'')]),
      (''available-at'', JObject [(''group'', JStr ''g''), (''module'', JStr ''a-jvm''), (''version'', JStr ''1'')])]])]"

lemma jvm_variant_elsewhere_witness:
  "jvm_variant (json_render example_module) (coord_new ''g'' ''a'' ''1'') = Inr (Some (coord_new ''g'' ''a-jvm'' ''1'')) \<and>
   coord_ga (coord_new ''g'' ''a-jvm'' ''1'') \<noteq> coord_ga (coord_new ''g'' ''a'' ''1'')"
proof -
  have "jvm_variant (json_render example_module) (coord_new ''g'' ''a'' ''1'') = Inr (Some (coord_new ''g'' ''a-jvm'' ''1''))"
    by code_simp
  with jvm_variant_elsewhere [of "json_render example_module" "coord_new ''g'' ''a'' ''1''" "coord_new ''g'' ''a-jvm'' ''1''"]
  show ?thesis by blast
qed

end
