(* ===== verification/EffectivePom.thy ===== *)
theory EffectivePom
  imports Pom GradleModule
begin

text \<open>
  \<^verbatim>\<open>src/src/resolve/mod.rs\<close>, \<^verbatim>\<open>Context\<close>: the effective POM of a coordinate, from the POMs a
  fetcher gives: the chain of its parents read, BOMs folded in, and what a Gradle module file
  says applied. The fetcher (\<^verbatim>\<open>resolve/repo.rs\<close>) and the XML tokenizer are parameters, answers to
  a coordinate and to bytes; what was built is remembered, and warnings are kept once each.
\<close>

record fetcher =
  fx_pom :: "coord \<Rightarrow> str result"
  fx_module :: "coord \<Rightarrow> str option result"
  fx_xml :: "str \<Rightarrow> (str + xml_event) list"
  fx_host :: host

record ctx =
  cx_effective :: "(coord \<times> eff_pom) list"
  cx_warnings :: "message list"

definition ctx_new :: ctx where
  "ctx_new = \<lparr>cx_effective = [], cx_warnings = []\<rparr>"

definition warn :: "message \<Rightarrow> ctx \<Rightarrow> ctx" where
  "warn msg cx = (if msg \<notin> set (cx_warnings cx) then cx\<lparr>cx_warnings := cx_warnings cx @ [msg]\<rparr> else cx)"

text \<open>An error as a part of another message.\<close>

fun message_text :: "message \<Rightarrow> str" where
  "message_text (Msg n vs) = join_with '' '' (n # vs)"

fun error_text :: "jrs_error \<Rightarrow> str" where
  "error_text (UsageErr m) = message_text m"
| "error_text (ManifestErr m) = message_text m"
| "error_text (ToolchainErr m) = message_text m"
| "error_text (ResolveErr m) = message_text m"
| "error_text (BuildErr m) = message_text m"
| "error_text (TestErr m) = message_text m"
| "error_text (IoErr p m) = p @ '': '' @ message_text m"

fun json_error_text :: "json_error \<Rightarrow> str" where
  "json_error_text (Fail what at) = what @ '' at byte '' @ dec at"
| "json_error_text OutOfFuel = []"

fun map_error :: "('e \<Rightarrow> 'f) \<Rightarrow> 'e + 'a \<Rightarrow> 'f + 'a" where
  "map_error f (Inl e) = Inl (f e)"
| "map_error f (Inr x) = Inr x"

lemma map_error_Inr [simp]: "map_error f r = Inr x \<longleftrightarrow> r = Inr x"
  by (cases r) auto

section \<open>The chain of parents\<close>

text \<open>At most 32 POMs; a parent met before ends the chain with a warning.\<close>

function read_chain ::
    "fetcher \<Rightarrow> coord \<Rightarrow> coord \<Rightarrow> coord list \<Rightarrow> pom list \<Rightarrow> bool \<Rightarrow> ctx \<Rightarrow> (pom list \<times> bool) result \<times> ctx" where
  "read_chain fx c current seen chain ann cx =
     (if current \<in> set seen
      then (Inr (chain, ann), warn (Msg ''has a cyclic <parent> chain; truncated'' [coord_display c]) cx)
      else case fx_pom fx current of
        Inl e \<Rightarrow> (Inl e, cx)
      | Inr bytes \<Rightarrow>
          let ann' = (if chain = [] then announced bytes else ann) in
          case map_error (\<lambda>e. ResolveErr (Msg ''POM'' [coord_display current, error_text e])) (pom_parse (fx_xml fx bytes)) of
            Inl e \<Rightarrow> (Inl e, cx)
          | Inr parsed \<Rightarrow>
              let chain' = chain @ [parsed] in
              case pom_parent parsed of
                Some p \<Rightarrow>
                  if length chain' < 32
                  then read_chain fx c (coord_new (parent_group p) (parent_artifact p) (parent_version p))
                         (current # seen) chain' ann' cx
                  else (Inr (chain', ann'), cx)
              | None \<Rightarrow> (Inr (chain', ann'), cx))"
  by pat_completeness auto
termination
  by (relation "measure (\<lambda>(fx, c, current, seen, chain, ann, cx). 32 - length chain)") auto

declare read_chain.simps [simp del]

section \<open>Building an effective POM\<close>

text \<open>A Multiplatform root stands for its JVM artifact; a POM that ships a jar is a jar.\<close>

definition stand_for :: "coord \<Rightarrow> eff_pom \<Rightarrow> eff_pom" where
  "stand_for jvm eff = eff\<lparr>eff_packaging := ''pom'',
     eff_dependencies := [\<lparr>pd_group = coord_group jvm, pd_artifact = coord_artifact jvm,
       pd_version = Some (coord_version jvm), pd_scope = None, pd_optional = False, pd_kind = ''jar'',
       pd_classifier = None, pd_exclusions = []\<rparr>]\<rparr>"

definition apply_module :: "fetcher \<Rightarrow> coord \<Rightarrow> bool \<Rightarrow> eff_pom \<Rightarrow> eff_pom result" where
  "apply_module fx c ann eff =
     (let unreadable = (\<lambda>e. ResolveErr (Msg ''its Gradle module metadata cannot be read'' [coord_display c, json_error_text e])) in
      and_then (if ann then fx_module fx c else Inr None) (\<lambda>module.
      and_then (case module of Some m \<Rightarrow> map_error unreadable (jvm_variant m c) | None \<Rightarrow> Inr None) (\<lambda>jvm.
      and_then
        (if jvm = None \<and> eff_packaging eff = ''pom''
         then (case module of
                 Some m \<Rightarrow> and_then (map_error unreadable (ships_jar (fx_host fx) m c))
                   (\<lambda>ships. Inr (if ships then eff\<lparr>eff_packaging := ''jar''\<rparr> else eff))
               | None \<Rightarrow> Inr eff)
         else Inr eff) (\<lambda>eff'.
      Inr (case jvm of Some t \<Rightarrow> stand_for t eff' | None \<Rightarrow> eff')))))"

function build_effective :: "fetcher \<Rightarrow> nat \<Rightarrow> coord \<Rightarrow> ctx \<Rightarrow> eff_pom result \<times> ctx" where
  "build_effective fx import_depth c cx =
     (case read_chain fx c c [] [] False cx of
        (Inl e, cx1) \<Rightarrow> (Inl e, cx1)
      | (Inr (chain, ann), cx1) \<Rightarrow>
          (case effective chain of
             Inl e \<Rightarrow> (Inl e, cx1)
           | Inr eff \<Rightarrow>
               let (eff', cx2) =
                 (if import_depth < 8
                  then fold (\<lambda>import (acc, cx').
                      case build_effective fx (import_depth + 1) import cx' of
                        (Inr bom, cx'') \<Rightarrow> (absorb_import acc bom, cx'')
                      | (Inl e, cx'') \<Rightarrow> (acc, warn (Msg ''imports the BOM, which could not be read''
                           [coord_display c, coord_display import, error_text e]) cx''))
                    (eff_imports eff) (eff, cx1)
                  else (eff, cx1))
               in (apply_module fx c ann eff', cx2)))"
  by pat_completeness auto
termination
  by (relation "measure (\<lambda>(fx, import_depth, c, cx). 8 - import_depth)") auto

declare build_effective.simps [simp del]

definition ctx_effective :: "fetcher \<Rightarrow> coord \<Rightarrow> ctx \<Rightarrow> eff_pom result \<times> ctx" where
  "ctx_effective fx c cx =
     (case map_of (cx_effective cx) c of
        Some hit \<Rightarrow> (Inr hit, cx)
      | None \<Rightarrow>
          (case build_effective fx 0 c cx of
             (Inl e, cx') \<Rightarrow> (Inl e, cx')
           | (Inr built, cx') \<Rightarrow> (Inr built, cx'\<lparr>cx_effective := hm_put c built (cx_effective cx')\<rparr>)))"

section \<open>What is built does not depend on what was\<close>

text \<open>
  An operation that reads nothing of the context and only adds warnings to it: its value is the
  same in every context, and what was built before stays.
\<close>

definition grows :: "ctx \<Rightarrow> ctx \<Rightarrow> bool" where
  "grows cx cx' \<longleftrightarrow> cx_effective cx' = cx_effective cx \<and> (\<exists>more. cx_warnings cx' = cx_warnings cx @ more) \<and>
     (distinct (cx_warnings cx) \<longrightarrow> distinct (cx_warnings cx'))"

lemma grows_refl [simp]: "grows cx cx"
  by (simp add: grows_def)

lemma grows_trans: "grows a b \<Longrightarrow> grows b c \<Longrightarrow> grows a c"
  by (auto simp: grows_def)

lemma grows_warn [simp]: "grows cx (warn msg cx)"
  by (auto simp: grows_def warn_def)

definition pure_in :: "(ctx \<Rightarrow> 'a \<times> ctx) \<Rightarrow> bool" where
  "pure_in f \<longleftrightarrow> (\<forall>cx cx'. fst (f cx) = fst (f cx')) \<and> (\<forall>cx. grows cx (snd (f cx)))"

lemma pure_inI: "(\<And>cx cx'. fst (f cx) = fst (f cx')) \<Longrightarrow> (\<And>cx. grows cx (snd (f cx))) \<Longrightarrow> pure_in f"
  by (simp add: pure_in_def)

lemma pure_in_cases:
  assumes "pure_in f"
  obtains x where "\<And>cx. f cx = (x, snd (f cx))" and "\<And>cx. grows cx (snd (f cx))"
  using assms unfolding pure_in_def by (metis prod.collapse)

lemma read_chain_pure: "pure_in (read_chain fx c current seen chain ann)"
proof (induction "32 - length chain" arbitrary: current seen chain ann rule: less_induct)
  case less
  show ?case
  proof (cases "current \<in> set seen")
    case True
    then show ?thesis
      by (intro pure_inI) (subst (1 2) read_chain.simps, simp, subst read_chain.simps, simp)
  next
    case False
    note step = read_chain.simps [of fx c current seen chain ann]
    show ?thesis
    proof (cases "fx_pom fx current")
      case (Inl e)
      with False show ?thesis by (simp add: pure_in_def step)
    next
      case (Inr bytes)
      let ?parsed = "map_error (\<lambda>e. ResolveErr (Msg ''POM'' [coord_display current, error_text e])) (pom_parse (fx_xml fx bytes))"
      show ?thesis
      proof (cases ?parsed)
        case (Inl e)
        with \<open>fx_pom fx current = Inr bytes\<close> False show ?thesis by (simp add: pure_in_def step)
      next
        case parsed: (Inr p)
        show ?thesis
        proof (cases "\<exists>q. pom_parent p = Some q \<and> length chain + 1 < 32")
          case True
          then obtain q where q: "pom_parent p = Some q" and len: "length chain + 1 < 32" by blast
          have "pure_in (read_chain fx c (coord_new (parent_group q) (parent_artifact q) (parent_version q))
              (current # seen) (chain @ [p]) (if chain = [] then announced bytes else ann))"
            using less [of "chain @ [p]"] len by simp
          moreover have "read_chain fx c current seen chain ann =
              read_chain fx c (coord_new (parent_group q) (parent_artifact q) (parent_version q))
                (current # seen) (chain @ [p]) (if chain = [] then announced bytes else ann)"
            using False Inr parsed q len by (simp add: fun_eq_iff step Let_def)
          ultimately show ?thesis by simp
        next
          case none: False
          with False Inr parsed show ?thesis
            by (cases "pom_parent p") (simp_all add: pure_in_def step Let_def)
        qed
      qed
    qed
  qed
qed

lemma fold_pure:
  assumes "\<And>x acc. x \<in> set xs \<Longrightarrow> pure_in (\<lambda>cx. g x (acc, cx))"
  shows "pure_in (\<lambda>cx. fold g xs (acc, cx))"
  using assms
proof (induction xs arbitrary: acc)
  case Nil
  then show ?case by (simp add: pure_in_def)
next
  case (Cons x xs)
  obtain acc' where g: "\<And>cx. g x (acc, cx) = (acc', snd (g x (acc, cx)))" "\<And>cx. grows cx (snd (g x (acc, cx)))"
    using pure_in_cases [OF Cons.prems [of x acc]] by auto
  have rest: "pure_in (\<lambda>cx. fold g xs (acc', cx))"
    using Cons by simp
  show ?case
  proof (rule pure_inI)
    fix cx cx'
    show "fst (fold g (x # xs) (acc, cx)) = fst (fold g (x # xs) (acc, cx'))"
      using rest by (simp add: pure_in_def) (metis g(1))
    have "grows (snd (g x (acc, cx))) (snd (fold g xs (acc', snd (g x (acc, cx)))))"
      using rest by (simp add: pure_in_def)
    then show "grows cx (snd (fold g (x # xs) (acc, cx)))"
      using g by (metis comp_apply fold.simps(2) grows_trans)
  qed
qed

lemma build_effective_pure: "pure_in (build_effective fx d c)"
proof (induction "8 - d" arbitrary: d c rule: less_induct)
  case less
  obtain r where chain: "\<And>cx. read_chain fx c c [] [] False cx = (r, snd (read_chain fx c c [] [] False cx))"
      "\<And>cx. grows cx (snd (read_chain fx c c [] [] False cx))"
    using pure_in_cases [OF read_chain_pure] by blast
  show ?case
  proof (cases "\<exists>ps ann eff. r = Inr (ps, ann) \<and> effective ps = Inr eff")
    case False
    then have "build_effective fx d c cx = ((case r of Inl e \<Rightarrow> Inl e | Inr (ps, ann) \<Rightarrow>
        (case effective ps of Inl e \<Rightarrow> Inl e | Inr _ \<Rightarrow> undefined)), snd (read_chain fx c c [] [] False cx))" for cx
      by (subst build_effective.simps, subst chain(1)) (auto split: sum.splits)
    with chain(2) show ?thesis by (simp add: pure_in_def)
  next
    case True
    then obtain ps ann eff where r: "r = Inr (ps, ann)" "effective ps = Inr eff" by blast
    define g where "g = (\<lambda>import (acc, cx'). case build_effective fx (d + 1) import cx' of
        (Inr bom, cx'') \<Rightarrow> (absorb_import acc bom, cx'')
      | (Inl e, cx'') \<Rightarrow> (acc, warn (Msg ''imports the BOM, which could not be read''
           [coord_display c, coord_display import, error_text e]) cx''))"
    define h where "h = (\<lambda>cx. if d < 8 then fold g (eff_imports eff) (eff, cx) else (eff, cx))"
    have build: "build_effective fx d c cx =
        (let (eff', cx2) = h (snd (read_chain fx c c [] [] False cx)) in (apply_module fx c ann eff', cx2))" for cx
      by (subst build_effective.simps, subst chain(1)) (simp add: r h_def g_def cong: if_cong)
    have "pure_in h"
    proof (cases "d < 8")
      case True
      have "pure_in (\<lambda>cx. g x (acc, cx))" for x acc
      proof -
        have "pure_in (build_effective fx (d + 1) x)"
          using less [of "d + 1" x] True by simp
        then obtain b where b: "\<And>cx. build_effective fx (d + 1) x cx = (b, snd (build_effective fx (d + 1) x cx))"
            "\<And>cx. grows cx (snd (build_effective fx (d + 1) x cx))"
          using pure_in_cases by blast
        have fst_b: "fst (build_effective fx (d + 1) x cx) = b" for cx
          using b(1) by (metis fst_conv)
        have g: "g x (acc, cx) = (case fst (build_effective fx (d + 1) x cx) of
            Inr bom \<Rightarrow> (absorb_import acc bom, snd (build_effective fx (d + 1) x cx))
          | Inl e \<Rightarrow> (acc, warn (Msg ''imports the BOM, which could not be read''
              [coord_display c, coord_display x, error_text e]) (snd (build_effective fx (d + 1) x cx))))" for cx
          by (simp only: g_def prod.case prod.case_eq_if fst_conv snd_conv)
        show ?thesis
        proof (cases b)
          case (Inl e)
          have "g x (acc, cx) = (acc, warn (Msg ''imports the BOM, which could not be read''
              [coord_display c, coord_display x, error_text e]) (snd (build_effective fx (d + 1) x cx)))" for cx
            unfolding g fst_b Inl by (simp only: sum.case)
          then show ?thesis using grows_trans [OF b(2) grows_warn] by (simp add: pure_in_def)
        next
          case (Inr bom)
          have "g x (acc, cx) = (absorb_import acc bom, snd (build_effective fx (d + 1) x cx))" for cx
            unfolding g fst_b Inr by (simp only: sum.case)
          then show ?thesis using b(2) by (simp add: pure_in_def)
        qed
      qed
      with True show ?thesis using fold_pure [of "eff_imports eff" g eff] by (simp add: h_def)
    qed (simp add: h_def pure_in_def)
    then obtain e' where h: "\<And>cx. h cx = (e', snd (h cx))" "\<And>cx. grows cx (snd (h cx))"
      using pure_in_cases by blast
    have "build_effective fx d c cx = (apply_module fx c ann e', snd (h (snd (read_chain fx c c [] [] False cx))))" for cx
      unfolding build by (subst h(1)) simp
    then show ?thesis
      using h(2) chain(2) grows_trans by (simp add: pure_in_def) blast
  qed
qed

text \<open>The effective POM of a coordinate, whatever was built and warned of before.\<close>

definition effective_pom :: "fetcher \<Rightarrow> coord \<Rightarrow> eff_pom result" where
  "effective_pom fx c = fst (build_effective fx 0 c ctx_new)"

definition ctx_inv :: "fetcher \<Rightarrow> ctx \<Rightarrow> bool" where
  "ctx_inv fx cx \<longleftrightarrow> distinct (cx_warnings cx) \<and> hm_inv (cx_effective cx) \<and>
     (\<forall>c e. map_of (cx_effective cx) c = Some e \<longrightarrow> effective_pom fx c = Inr e)"

text \<open>
  Property C30. Remembering effective POMs changes nothing: asked in any order, a coordinate has
  the effective POM building it afresh gives, every error again and not only the first time;
  warnings are kept once each, in the order they came, and none is lost.
\<close>

theorem effective_remembered:
  assumes "ctx_inv fx cx" and "ctx_effective fx c cx = (r, cx')"
  shows "r = effective_pom fx c \<and> ctx_inv fx cx' \<and> (\<exists>more. cx_warnings cx' = cx_warnings cx @ more)"
proof (cases "map_of (cx_effective cx) c")
  case (Some hit)
  with assms show ?thesis by (auto simp: ctx_effective_def ctx_inv_def)
next
  case None
  obtain b cxb where build: "build_effective fx 0 c cx = (b, cxb)" by (cases "build_effective fx 0 c cx")
  have b: "b = effective_pom fx c" "grows cx cxb"
    using build_effective_pure [of fx 0 c] build unfolding pure_in_def effective_pom_def
    by (metis fst_conv, metis snd_conv)
  show ?thesis
  proof (cases b)
    case (Inl e)
    with assms None build have "r = Inl e" "cx' = cxb" by (simp_all add: ctx_effective_def)
    with b Inl assms(1) show ?thesis by (auto simp: grows_def ctx_inv_def)
  next
    case (Inr e)
    with assms None build have r: "r = Inr e" "cx' = cxb\<lparr>cx_effective := hm_put c e (cx_effective cxb)\<rparr>"
      by (simp_all add: ctx_effective_def)
    have "ctx_inv fx cx'"
      using b Inr assms(1) r by (auto simp: grows_def ctx_inv_def map_of_hm_put hm_inv_hm_put split: if_splits)
    with b Inr r show ?thesis by (auto simp: grows_def)
  qed
qed

definition example_fetcher :: fetcher where
  "example_fetcher =
     \<lparr>fx_pom = (\<lambda>c. if coord_artifact c = ''a'' then Inr ''A'' else if coord_artifact c = ''p'' then Inr ''P''
        else Inl (ResolveErr (Msg ''not found'' [coord_display c]))),
      fx_module = (\<lambda>_. Inr None),
      fx_xml = (\<lambda>bytes. map Inr (events_of (if bytes = ''A'' then example_pom else example_parent))),
      fx_host = \<lparr>host_env = None, host_os = ''linux'', host_arch = ''x86_64'', host_little_endian = True\<rparr>\<rparr>"

theorem effective_remembered_witness:
  "\<exists>e cx. ctx_effective example_fetcher (coord_new ''g'' ''a'' ''1'') ctx_new = (Inr e, cx) \<and>
     effective_pom example_fetcher (coord_new ''g'' ''a'' ''1'') = Inr e \<and>
     fst (ctx_effective example_fetcher (coord_new ''g'' ''a'' ''1'') cx) = Inr e"
proof -
  let ?c = "coord_new ''g'' ''a'' ''1''"
  have inv: "ctx_inv example_fetcher ctx_new" by (simp add: ctx_inv_def ctx_new_def)
  have "\<not> isl (fst (ctx_effective example_fetcher ?c ctx_new))" by code_simp
  then obtain e cx where first: "ctx_effective example_fetcher ?c ctx_new = (Inr e, cx)"
    by (cases "ctx_effective example_fetcher ?c ctx_new"; cases "fst (ctx_effective example_fetcher ?c ctx_new)") auto
  from effective_remembered [OF inv first] have e: "effective_pom example_fetcher ?c = Inr e" "ctx_inv example_fetcher cx"
    by auto
  obtain r cx' where second: "ctx_effective example_fetcher ?c cx = (r, cx')" by fastforce
  from effective_remembered [OF e(2) second] e(1) have "r = Inr e" by simp
  with first e second show ?thesis by (intro exI [of _ e] exI [of _ cx]) simp
qed

lemma read_chain_extends:
  "read_chain fx c current seen chain ann cx = (Inr (chain', ann'), cx') \<Longrightarrow> length chain < 32 \<Longrightarrow>
   \<exists>more. chain' = chain @ more \<and> length chain' \<le> 32 \<and> (chain \<noteq> [] \<longrightarrow> ann' = ann) \<and>
     (current \<notin> set seen \<longrightarrow> (\<exists>bytes p ps. fx_pom fx current = Inr bytes \<and> pom_parse (fx_xml fx bytes) = Inr p \<and>
        more = p # ps \<and> (chain = [] \<longrightarrow> ann' = announced bytes)))"
proof (induction "32 - length chain" arbitrary: current seen chain ann rule: less_induct)
  case less
  show ?case
  proof (cases "current \<in> set seen")
    case True
    with less.prems show ?thesis by (subst (asm) read_chain.simps) simp
  next
    case False
    obtain bytes p where pom: "fx_pom fx current = Inr bytes" "pom_parse (fx_xml fx bytes) = Inr p"
      using less.prems(1) False
      by (subst (asm) read_chain.simps) (auto simp: Let_def split: sum.splits)
    let ?ann = "if chain = [] then announced bytes else ann"
    show ?thesis
    proof (cases "\<exists>q. pom_parent p = Some q \<and> length chain + 1 < 32")
      case True
      then obtain q where q: "pom_parent p = Some q" "length chain + 1 < 32" by blast
      then have "read_chain fx c (coord_new (parent_group q) (parent_artifact q) (parent_version q))
          (current # seen) (chain @ [p]) ?ann cx = (Inr (chain', ann'), cx')"
        using less.prems(1) False pom by (subst (asm) read_chain.simps) (simp add: Let_def)
      moreover have "32 - length (chain @ [p]) < 32 - length chain" "length (chain @ [p]) < 32"
        using q by simp_all
      ultimately obtain more where "chain' = (chain @ [p]) @ more" "length chain' \<le> 32" "ann' = ?ann"
        using less.hyps [of "chain @ [p]"] by (metis append_is_Nil_conv not_Cons_self2)
      with False pom show ?thesis by auto
    next
      case none: False
      then have "chain' = chain @ [p]" "ann' = ?ann"
        using less.prems(1) False pom
        by (subst (asm) read_chain.simps; auto simp: Let_def split: option.splits if_splits)+
      with False pom less.prems(2) show ?thesis by auto
    qed
  qed
qed



end
