(* ===== verification/Walk.thy ===== *)
theory Walk
  imports Classpath EffectivePom
begin

text \<open>
  \<^verbatim>\<open>src/src/resolve/mod.rs\<close>, the resolution itself: the versions \<^verbatim>\<open>[managed]\<close> decides, the
  breadth-first walk of the dependency graph with nearest-wins mediation, the widening of
  classpaths, and the resolution that comes out. The effective POMs come from a function
  \<open>ef\<close> on coordinates and contexts, which is \<open>ctx_effective\<close> of a fetcher in \<open>resolve\<close>. The POMs
  of a level are read one after another, in the order of the level; jrs reads them in parallel,
  which only reorders warnings.
\<close>

section \<open>Managed versions\<close>

text \<open>Keyed by group and artifact.\<close>

record managed_versions =
  mv_versions :: "((str \<times> str) \<times> str) list"
  mv_exclusions :: "((str \<times> str) \<times> ga list) list"

definition mv_get :: "managed_versions \<Rightarrow> str \<Rightarrow> str \<Rightarrow> str option" where
  "mv_get mv grp artifact = map_of (mv_versions mv) (grp, artifact)"

definition mv_exclusions_of :: "managed_versions \<Rightarrow> str \<Rightarrow> str \<Rightarrow> ga list" where
  "mv_exclusions_of mv grp artifact =
     (case map_of (mv_exclusions mv) (grp, artifact) of None \<Rightarrow> [] | Some ex \<Rightarrow> ex)"

definition mv_is_empty :: "managed_versions \<Rightarrow> bool" where
  "mv_is_empty mv \<longleftrightarrow> mv_versions mv = []"

text \<open>One entry of a BOM: it counts when nothing before it names the artifact.\<close>

definition add_bom_entry :: "ga \<times> managed_entry \<Rightarrow> managed_versions \<Rightarrow> managed_versions" where
  "add_bom_entry = (\<lambda>(g, entry) mv.
     case me_version entry of
       None \<Rightarrow> mv
     | Some version \<Rightarrow>
         if contains ''${'' version \<or> is_range version then mv
         else let key = (ga_group g, ga_artifact g) in
           if map_of (mv_versions mv) key = None
           then \<lparr>mv_versions = hm_put key version (mv_versions mv),
                 mv_exclusions = (if me_exclusions entry \<noteq> []
                   then hm_put key (me_exclusions entry) (mv_exclusions mv) else mv_exclusions mv)\<rparr>
           else mv)"

fun add_boms :: "(coord \<Rightarrow> ctx \<Rightarrow> eff_pom result \<times> ctx) \<Rightarrow> managed list \<Rightarrow> managed_versions \<Rightarrow> ctx \<Rightarrow>
    managed_versions result \<times> ctx" where
  "add_boms ef [] mv cx = (Inr mv, cx)"
| "add_boms ef (m # ms) mv cx =
     (let c = coord_new (mg_group m) (mg_artifact m) (mg_version m) in
      case ef c cx of
        (Inl e, cx') \<Rightarrow> (Inl (ResolveErr (Msg ''the BOM in [managed] could not be read'' [coord_display c, error_text e])), cx')
      | (Inr bom, cx') \<Rightarrow> add_boms ef ms (fold add_bom_entry (eff_managed bom) mv) cx')"

definition add_pin :: "managed \<Rightarrow> managed_versions \<Rightarrow> managed_versions" where
  "add_pin m mv = (let key = (mg_group m, mg_artifact m) in
     mv\<lparr>mv_versions := (case map_of (mv_versions mv) key of
       None \<Rightarrow> hm_put key (mg_version m) (mv_versions mv) | Some _ \<Rightarrow> mv_versions mv)\<rparr>)"

lemma add_pin_or_insert:
  "mv_versions (add_pin m mv) = hm.or_insert (mg_group m, mg_artifact m) (mg_version m) (mv_versions mv)"
  by (simp add: add_pin_def hm.or_insert_def Let_def)

definition managed_versions_with ::
    "manifest \<Rightarrow> (coord \<Rightarrow> ctx \<Rightarrow> eff_pom result \<times> ctx) \<Rightarrow> ctx \<Rightarrow> managed_versions result \<times> ctx" where
  "managed_versions_with m ef cx =
     add_boms ef (filter mg_bom (mf_managed m))
       (fold add_pin (filter (\<lambda>x. \<not> mg_bom x) (mf_managed m)) \<lparr>mv_versions = [], mv_exclusions = []\<rparr>) cx"

definition range_floor :: "str \<Rightarrow> str option" where
  "range_floor rg =
     (case strip_prefix ''['' rg of
        None \<Rightarrow> None
      | Some s \<Rightarrow> let floor' = trim (takeWhile (\<lambda>c. c \<noteq> CHR '','' \<and> c \<noteq> CHR '']'') s) in
          if floor' \<noteq> [] then Some floor' else None)"

definition with_managed_versions ::
    "dependency list \<Rightarrow> managed_versions \<Rightarrow> str \<Rightarrow> dependency list result" where
  "with_managed_versions dependencies mv section' = collect (map (\<lambda>d.
     if is_managed d
     then (case mv_get mv (dep_group d) (dep_artifact d) of
             None \<Rightarrow> Inl (ResolveErr (Msg ''has no version, and nothing manages it''
               [dep_key d, section', dep_group d, dep_artifact d]))
           | Some version \<Rightarrow> Inr (d\<lparr>dep_version := version\<rparr>))
     else Inr d) dependencies)"

section \<open>Pending and selected packages\<close>

record pending =
  pn_coord :: coord
  pn_classpath :: classpath
  pn_depth :: nat
  pn_exclusions :: "ga list"
  pn_parent :: "ga option"
  pn_pom_only :: bool

record selected =
  se_coord :: coord
  se_depth :: nat
  se_classpath :: classpath
  se_direct :: bool
  se_mediated :: bool

record disagreement =
  da_ga :: ga
  da_nearest :: str
  da_highest :: str

definition root_ga :: "dependency \<Rightarrow> ga" where
  "root_ga d = ga_with_classifier (ga_new (dep_group d) (dep_artifact d)) (dep_classifier d)"

definition seed_one :: "managed_versions \<Rightarrow> classpath \<Rightarrow> dependency \<Rightarrow> pending" where
  "seed_one mv cp d =
     \<lparr>pn_coord = coord_with_classifier (coord_new (dep_group d) (dep_artifact d) (dep_version d)) (dep_classifier d),
      pn_classpath = (if dep_compile_only d then CpProvided else if dep_runtime_only d then CpRuntime else cp),
      pn_depth = 1,
      pn_exclusions = map (\<lambda>e. ga_new (ex_group e) (ex_artifact e)) (dep_exclusions d) @
        mv_exclusions_of mv (dep_group d) (dep_artifact d),
      pn_parent = None, pn_pom_only = False\<rparr>"

definition seed :: "dependency list \<Rightarrow> dependency list \<Rightarrow> managed_versions \<Rightarrow> pending list" where
  "seed dependencies dev_dependencies mv =
     map (seed_one mv CpCompile) (filter (\<lambda>d. \<not> is_local d) dependencies) @
     map (seed_one mv CpTest) (filter (\<lambda>d. \<not> is_local d) dev_dependencies)"

text \<open>
  The file a dependency stands for: its classifier, and whether it has no jar; a kind of file
  that cannot go on a classpath is none.
\<close>

definition kind_of :: "pom_dependency \<Rightarrow> (str option \<times> bool) option" where
  "kind_of dep =
     (if pd_kind dep \<in> set [''jar'', ''bundle'', ''ejb'', ''maven-plugin''] then Some (pd_classifier dep, False)
      else if pd_kind dep = ''test-jar''
      then Some (Some (case pd_classifier dep of None \<Rightarrow> ''tests'' | Some c \<Rightarrow> c), False)
      else if pd_kind dep = ''pom'' then Some (None, True)
      else None)"

definition admissible ::
    "pom_dependency \<Rightarrow> pending \<Rightarrow> eff_pom \<Rightarrow> managed_versions \<Rightarrow> ctx \<Rightarrow> (coord \<times> bool) option result \<times> ctx" where
  "admissible dep parent eff mv cx =
     (if pd_optional dep \<or> \<not> is_transitive (pd_effective_scope dep) then (Inr None, cx)
      else let g = pd_ga dep in
      case kind_of dep of
        None \<Rightarrow> (Inr None, warn (Msg ''depends on a type which does not go on a classpath; skipped''
          [coord_display (eff_coord eff), ga_display g, pd_kind dep]) cx)
      | Some (classifier, pom_only) \<Rightarrow>
          if list_ex (\<lambda>e. excluded_by g e) (pn_exclusions parent) then (Inr None, cx)
          else case mv_get mv (ga_group g) (ga_artifact g) of
            Some version \<Rightarrow> (Inr (Some (coord_with_classifier (coord_new (ga_group g) (ga_artifact g) version) classifier, pom_only)), cx)
          | None \<Rightarrow>
              (case pd_version dep of
                 None \<Rightarrow> (Inr None, warn (Msg ''declares a dependency with no version and no dependencyManagement entry; skipped''
                   [coord_display (eff_coord eff), ga_display g]) cx)
               | Some version \<Rightarrow>
                   if is_range version
                   then (Inl (ResolveErr (Msg ''depends on a version range''
                     [coord_display (eff_coord eff), ga_display g, version,
                      case range_floor version of None \<Rightarrow> ''<version>'' | Some pin \<Rightarrow> pin])), cx)
                   else if contains ''${'' version
                   then (Inr None, warn (Msg ''declares an unresolvable version; skipped''
                     [coord_display (eff_coord eff), ga_display g, version]) cx)
                   else (Inr (Some (coord_with_classifier (coord_new (ga_group g) (ga_artifact g) version) classifier, pom_only)), cx)))"

section \<open>Mediation\<close>

text \<open>What the walk keeps beside the level it is at.\<close>

record walk =
  wk_selected :: "(ga \<times> selected) list"
  wk_edges :: "(ga \<times> ga list) list"
  wk_packaging :: "(ga \<times> str) list"
  wk_walked :: "(ga \<times> ga list \<times> bool) list"
  wk_highest :: "(ga \<times> str) list"
  wk_ctx :: ctx

definition note_highest :: "ga \<Rightarrow> str \<Rightarrow> (ga \<times> str) list \<Rightarrow> (ga \<times> str) list" where
  "note_highest g version highest =
     (case map_of highest g of
        Some h \<Rightarrow> if compare_versions version h = Greater then hm_put g version highest else highest
      | None \<Rightarrow> hm_put g version highest)"

text \<open>With \<open>every_path\<close>: a package walked before with exclusions this path does not make.\<close>

definition rewalk_of :: "bool \<Rightarrow> pending \<Rightarrow> walk \<Rightarrow> walk \<times> pending list" where
  "rewalk_of every_path item w =
     (let g = coord_ga (pn_coord item) in
      case (map_of (wk_selected w) g, map_of (wk_walked w) g) of
        (Some existing, Some (before, pom_only)) \<Rightarrow>
          if every_path
          then let kept = filter (\<lambda>e. e \<in> set (pn_exclusions item)) before in
            if length kept < length before
            then (w\<lparr>wk_walked := hm_put g (kept, pom_only) (wk_walked w)\<rparr>,
                  [\<lparr>pn_coord = se_coord existing, pn_classpath = cp_join (se_classpath existing) (pn_classpath item),
                    pn_depth = se_depth existing, pn_exclusions = kept, pn_parent = None, pn_pom_only = pom_only\<rparr>])
            else (w, [])
          else (w, [])
      | _ \<Rightarrow> (w, []))"

text \<open>A package met again keeps its version; one met first is selected.\<close>

definition meet_again :: "pending \<Rightarrow> selected \<Rightarrow> walk \<Rightarrow> walk" where
  "meet_again item existing w =
     (let g = coord_ga (pn_coord item);
          differs = compare_versions (coord_version (se_coord existing)) (coord_version (pn_coord item)) \<noteq> Equal;
          cx = (if differs
                then warn (Msg ''is requested at both; nearest-wins picked''
                  [ga_display g, coord_version (se_coord existing), coord_version (pn_coord item),
                   coord_version (se_coord existing), dec (se_depth existing)]) (wk_ctx w)
                else wk_ctx w)
      in w\<lparr>wk_ctx := cx,
           wk_selected := hm_put g (existing\<lparr>se_mediated := se_mediated existing \<or> differs,
             se_classpath := cp_join (se_classpath existing) (pn_classpath item),
             se_direct := se_direct existing \<or> pn_depth item = 1\<rparr>) (wk_selected w)\<rparr>)"

definition meet_first :: "bool \<Rightarrow> pending \<Rightarrow> walk \<Rightarrow> walk" where
  "meet_first every_path item w =
     (let g = coord_ga (pn_coord item) in
      w\<lparr>wk_selected := hm_put g \<lparr>se_coord = pn_coord item, se_depth = pn_depth item,
          se_classpath = pn_classpath item, se_direct = (pn_depth item = 1), se_mediated = False\<rparr> (wk_selected w),
        wk_walked := (if every_path then hm_put g (pn_exclusions item, pn_pom_only item) (wk_walked w) else wk_walked w)\<rparr>)"

definition push_edge :: "ga \<Rightarrow> ga \<Rightarrow> (ga \<times> ga list) list \<Rightarrow> (ga \<times> ga list) list" where
  "push_edge parent kid edges =
     hm_put parent ((case map_of edges parent of None \<Rightarrow> [] | Some cs \<Rightarrow> cs) @ [kid]) edges"

definition record_edge :: "pending \<Rightarrow> walk \<Rightarrow> walk" where
  "record_edge item w =
     (case pn_parent item of
        None \<Rightarrow> w
      | Some parent \<Rightarrow> w\<lparr>wk_edges := push_edge parent (coord_ga (pn_coord item)) (wk_edges w)\<rparr>)"

definition mediate_one ::
    "bool \<Rightarrow> pending \<Rightarrow> walk \<times> pending list \<times> pending list \<Rightarrow> walk \<times> pending list \<times> pending list" where
  "mediate_one every_path item = (\<lambda>(w0, admitted, rewalk).
     let g = coord_ga (pn_coord item);
         w1 = w0\<lparr>wk_highest := note_highest g (coord_version (pn_coord item)) (wk_highest w0)\<rparr>;
         (w2, again) = rewalk_of every_path item w1;
         (w3, admitted') =
           (case map_of (wk_selected w2) g of
              Some existing \<Rightarrow> (meet_again item existing w2, admitted)
            | None \<Rightarrow> (meet_first every_path item w2, admitted @ [item]))
     in (record_edge item w3, admitted', rewalk @ again))"

definition mediate :: "bool \<Rightarrow> pending list \<Rightarrow> walk \<Rightarrow> walk \<times> pending list" where
  "mediate every_path level w =
     (let (w', admitted, rewalk) = fold (mediate_one every_path) level (w, [], []) in (w', admitted @ rewalk))"

section \<open>A level\<close>

text \<open>The POMs of a level, every one read before any is looked at.\<close>

fun effectives :: "(coord \<Rightarrow> ctx \<Rightarrow> eff_pom result \<times> ctx) \<Rightarrow> pending list \<Rightarrow> ctx \<Rightarrow> eff_pom result list \<times> ctx" where
  "effectives ef [] cx = ([], cx)"
| "effectives ef (item # rest) cx =
     (let (r, cx1) = ef (pom_coord (pn_coord item)) cx; (rs, cx2) = effectives ef rest cx1 in (r # rs, cx2))"

definition packaging_kind :: "pending \<Rightarrow> eff_pom \<Rightarrow> str" where
  "packaging_kind parent eff =
     (if pn_pom_only parent then ''pom''
      else if coord_classifier (pn_coord parent) \<noteq> None then ''jar''
      else eff_packaging eff)"

definition child_pending :: "nat \<Rightarrow> managed_versions \<Rightarrow> pending \<Rightarrow> pom_dependency \<Rightarrow> coord \<Rightarrow> bool \<Rightarrow> pending" where
  "child_pending depth mv parent dep kid pom_only =
     \<lparr>pn_coord = kid, pn_classpath = pn_classpath parent, pn_depth = depth + 1,
      pn_exclusions = pn_exclusions parent @ pd_exclusions dep @
        mv_exclusions_of mv (ga_group (pd_ga dep)) (ga_artifact (pd_ga dep)),
      pn_parent = Some (coord_ga (pn_coord parent)), pn_pom_only = pom_only\<rparr>"

fun children :: "nat \<Rightarrow> managed_versions \<Rightarrow> pending \<Rightarrow> eff_pom \<Rightarrow> pom_dependency list \<Rightarrow> ctx \<Rightarrow>
    pending list result \<times> ctx" where
  "children depth mv parent eff [] cx = (Inr [], cx)"
| "children depth mv parent eff (d # ds) cx =
     (let dep = manage eff d in
      case admissible dep parent eff mv cx of
        (Inl e, cx') \<Rightarrow> (Inl e, cx')
      | (Inr None, cx') \<Rightarrow> children depth mv parent eff ds cx'
      | (Inr (Some (kid, pom_only)), cx') \<Rightarrow>
          (case children depth mv parent eff ds cx' of
             (Inl e, cx'') \<Rightarrow> (Inl e, cx'')
           | (Inr rest, cx'') \<Rightarrow> (Inr (child_pending depth mv parent dep kid pom_only # rest), cx'')))"

fun expand_level :: "nat \<Rightarrow> managed_versions \<Rightarrow> (pending \<times> eff_pom result) list \<Rightarrow> walk \<Rightarrow> pending list \<Rightarrow>
    (pending list \<times> walk) result" where
  "expand_level depth mv [] w nxt = Inr (nxt, w)"
| "expand_level depth mv ((parent, r) # rest) w nxt =
     and_then r (\<lambda>eff.
       let packaging = hm_put (coord_ga (pn_coord parent)) (packaging_kind parent eff) (wk_packaging w) in
       case children depth mv parent eff (eff_dependencies eff) (wk_ctx w) of
         (Inl e, cx) \<Rightarrow> Inl e
       | (Inr cs, cx) \<Rightarrow> expand_level depth mv rest (w\<lparr>wk_packaging := packaging, wk_ctx := cx\<rparr>) (nxt @ cs))"

definition walk_level :: "bool \<Rightarrow> managed_versions \<Rightarrow> (coord \<Rightarrow> ctx \<Rightarrow> eff_pom result \<times> ctx) \<Rightarrow> nat \<Rightarrow>
    pending list \<Rightarrow> walk \<Rightarrow> (pending list \<times> walk) result" where
  "walk_level every_path mv ef depth level w =
     (let (w1, admitted) = mediate every_path level w;
          (rs, cx) = effectives ef admitted (wk_ctx w1)
      in expand_level depth mv (zip admitted rs) (w1\<lparr>wk_ctx := cx\<rparr>) [])"

text \<open>The levels, from \<open>depth\<close> on; the counter is tested after a level, even when none is left.\<close>

function walk_from :: "bool \<Rightarrow> managed_versions \<Rightarrow> (coord \<Rightarrow> ctx \<Rightarrow> eff_pom result \<times> ctx) \<Rightarrow> nat \<Rightarrow>
    pending list \<Rightarrow> walk \<Rightarrow> walk result" where
  "walk_from every_path mv ef depth level w =
     (if level = [] then Inr w
      else and_then (walk_level every_path mv ef depth level w) (\<lambda>(nxt, w').
        if depth + 1 > 64 then Inl (ResolveErr (Msg ''dependency graph is more than 64 levels deep; refusing to continue'' []))
        else walk_from every_path mv ef (depth + 1) nxt w'))"
  by pat_completeness auto
termination
  by (relation "measure (\<lambda>(every_path, mv, ef, depth, level, w). 65 - depth)") auto

declare walk_from.simps [simp del]

section \<open>Widening\<close>

definition widen_child :: "classpath \<Rightarrow> ga \<Rightarrow> (ga \<times> selected) list \<times> bool \<Rightarrow> (ga \<times> selected) list \<times> bool" where
  "widen_child widest kid = (\<lambda>(sel, changed).
     case map_of sel kid of
       None \<Rightarrow> (sel, changed)
     | Some c \<Rightarrow>
         let joined = cp_join (se_classpath c) widest in
         if joined \<noteq> se_classpath c then (hm_put kid (c\<lparr>se_classpath := joined\<rparr>) sel, True)
         else (sel, changed))"

definition widen_edges :: "ga \<times> ga list \<Rightarrow> (ga \<times> selected) list \<times> bool \<Rightarrow> (ga \<times> selected) list \<times> bool" where
  "widen_edges = (\<lambda>(parent, cs) (sel, changed).
     case map_of sel parent of
       None \<Rightarrow> (sel, changed)
     | Some s \<Rightarrow> fold (widen_child (se_classpath s)) cs (sel, changed))"

definition widen_round :: "(ga \<times> ga list) list \<Rightarrow> (ga \<times> selected) list \<Rightarrow> (ga \<times> selected) list \<times> bool" where
  "widen_round edges sel = fold widen_edges edges (sel, False)"

text \<open>How many more places the selected packages could still go.\<close>

fun cp_room :: "classpath \<Rightarrow> nat" where
  "cp_room CpCompile = 0"
| "cp_room CpProvided = 1"
| "cp_room CpRuntime = 1"
| "cp_room CpTest = 2"

definition room :: "(ga \<times> selected) list \<Rightarrow> nat" where
  "room sel = sum_list (map (\<lambda>(_, s). cp_room (se_classpath s)) sel)"

lemma cp_join_room: "cp_room (cp_join a b) \<le> cp_room a" "cp_join a b \<noteq> a \<Longrightarrow> cp_room (cp_join a b) < cp_room a"
  by (cases a; cases b; simp)+

lemma room_put: "map_of sel g = Some c \<Longrightarrow>
   room (hm_put g c' sel) + cp_room (se_classpath c) = room sel + cp_room (se_classpath c')"
proof (induction sel)
  case (Cons kv sel)
  then show ?case by (cases kv) (auto simp: room_def)
qed simp

lemma widen_child_room:
  "widen_child widest kid (sel, changed) = (sel', changed') \<Longrightarrow>
   room sel' \<le> room sel \<and> (changed' \<longrightarrow> changed \<or> room sel' < room sel)"
proof (cases "map_of sel kid")
  case (Some c)
  assume "widen_child widest kid (sel, changed) = (sel', changed')"
  with Some room_put [OF Some, of "c\<lparr>se_classpath := cp_join (se_classpath c) widest\<rparr>"]
    cp_join_room(2) [of "se_classpath c" widest] show ?thesis
    by (auto simp: widen_child_def Let_def split: if_splits)
qed (auto simp: widen_child_def)

lemma widen_children_room:
  "fold (widen_child widest) cs (sel, changed) = (sel', changed') \<Longrightarrow>
   room sel' \<le> room sel \<and> (changed' \<longrightarrow> changed \<or> room sel' < room sel)"
proof (induction cs arbitrary: sel changed)
  case (Cons c cs)
  obtain sel1 ch1 where 1: "widen_child widest c (sel, changed) = (sel1, ch1)" by fastforce
  with Cons.prems have "fold (widen_child widest) cs (sel1, ch1) = (sel', changed')" by simp
  from Cons.IH [OF this] widen_child_room [OF 1] show ?case by auto
qed simp

lemma widen_round_room:
  "fold widen_edges edges (sel, changed) = (sel', changed') \<Longrightarrow>
   room sel' \<le> room sel \<and> (changed' \<longrightarrow> changed \<or> room sel' < room sel)"
proof (induction edges arbitrary: sel changed)
  case (Cons e edges)
  obtain parent cs where e: "e = (parent, cs)" by (cases e)
  obtain sel1 ch1 where 1: "widen_edges e (sel, changed) = (sel1, ch1)" by fastforce
  have "room sel1 \<le> room sel \<and> (ch1 \<longrightarrow> changed \<or> room sel1 < room sel)"
    using 1 widen_children_room by (auto simp: e widen_edges_def split: option.splits)
  moreover have "fold widen_edges edges (sel1, ch1) = (sel', changed')" using Cons.prems 1 by simp
  ultimately show ?case using Cons.IH by force
qed simp

function widen :: "(ga \<times> ga list) list \<Rightarrow> (ga \<times> selected) list \<Rightarrow> (ga \<times> selected) list" where
  "widen edges sel = (let (sel', changed) = widen_round edges sel in if changed then widen edges sel' else sel')"
  by pat_completeness auto
termination
  by (relation "measure (\<lambda>(edges, sel). room sel)")
    (auto simp: widen_round_def dest: widen_round_room [OF sym] widen_round_room)

declare widen.simps [simp del]

section \<open>The resolution\<close>

definition disagreements :: "walk \<Rightarrow> (ga \<times> selected) list \<Rightarrow> disagreement list" where
  "disagreements w sel = sort_by (\<lambda>a b. cmp (da_ga a) (da_ga b)) (List.map_filter (\<lambda>(g, s).
     case map_of (wk_highest w) g of
       None \<Rightarrow> None
     | Some h \<Rightarrow> if compare_versions h (coord_version (se_coord s)) = Greater
         then Some \<lparr>da_ga = g, da_nearest = coord_version (se_coord s), da_highest = h\<rparr> else None) sel)"

definition package_of :: "managed_versions \<Rightarrow> walk \<Rightarrow> ga \<times> selected \<Rightarrow> package" where
  "package_of mv w = (\<lambda>(g, s).
     \<lparr>pkg_coord = se_coord s, pkg_classpath = se_classpath s,
      pkg_packaging = (case map_of (wk_packaging w) g of None \<Rightarrow> ''jar'' | Some k \<Rightarrow> k),
      pkg_depth = se_depth s, pkg_direct = se_direct s,
      pkg_dependencies = dedup (sort (case map_of (wk_edges w) g of None \<Rightarrow> [] | Some cs \<Rightarrow> cs)),
      pkg_jar = None, pkg_checksum = None, pkg_mediated = se_mediated s,
      pkg_managed = (mv_get mv (ga_group g) (ga_artifact g) = Some (coord_version (se_coord s)))\<rparr>)"

definition packages_of :: "managed_versions \<Rightarrow> walk \<Rightarrow> (ga \<times> selected) list \<Rightarrow> package list" where
  "packages_of mv w sel = sort_by (\<lambda>a b. coord_cmp (pkg_coord a) (pkg_coord b)) (map (package_of mv w) sel)"

definition declared_range :: "dependency list \<Rightarrow> dependency option" where
  "declared_range ds = find (\<lambda>d. \<not> is_local d \<and> \<not> is_managed d \<and> is_range (dep_version d)) ds"

definition walk_empty :: "ctx \<Rightarrow> walk" where
  "walk_empty cx = \<lparr>wk_selected = [], wk_edges = [], wk_packaging = [], wk_walked = [], wk_highest = [], wk_ctx = cx\<rparr>"

text \<open>
  The walk without the local jars, which \<open>attach_local\<close> fills in at the end; starting the worker
  pool is not modelled.
\<close>

definition resolve_inputs ::
    "manifest \<Rightarrow> (coord \<Rightarrow> ctx \<Rightarrow> eff_pom result \<times> ctx) \<Rightarrow>
     (managed_versions \<times> dependency list \<times> dependency list \<times> ctx) result" where
  "resolve_inputs m ef =
     (let dependencies0 = effective_dependencies m in
      case declared_range (dependencies0 @ mf_dev_dependencies m) of
        Some d \<Rightarrow> Inl (ResolveErr (Msg ''asks for the version range'' [dep_key d, dep_version d]))
      | None \<Rightarrow>
          let (mvr, cx) = managed_versions_with m ef ctx_new in
          and_then mvr (\<lambda>mv.
          and_then (with_managed_versions dependencies0 mv ''dependencies'') (\<lambda>dependencies.
          and_then (with_managed_versions (mf_dev_dependencies m) mv ''dev-dependencies'') (\<lambda>dev_dependencies.
          Inr (mv, dependencies, dev_dependencies, cx)))))"

definition resolve_walking ::
    "manifest \<Rightarrow> (coord \<Rightarrow> ctx \<Rightarrow> eff_pom result \<times> ctx) \<Rightarrow> bool \<Rightarrow> (resolution \<times> disagreement list) result" where
  "resolve_walking m ef every_path =
     and_then (resolve_inputs m ef) (\<lambda>(mv, dependencies, dev_dependencies, cx).
     and_then (walk_from every_path mv ef 1 (seed dependencies dev_dependencies mv) (walk_empty cx)) (\<lambda>w.
       let sel = widen (wk_edges w) (wk_selected w) in
       Inr (\<lparr>res_packages = packages_of mv w sel,
             res_roots = map root_ga (filter (\<lambda>d. \<not> is_local d) dependencies),
             res_test_roots = map root_ga (filter (\<lambda>d. \<not> is_local d) dev_dependencies),
             res_warnings = cx_warnings (wk_ctx w), res_downloaded = 0, res_local = local_jars m\<rparr>,
            disagreements w sel)))"

definition resolve :: "manifest \<Rightarrow> fetcher \<Rightarrow> resolution result" where
  "resolve m fx = and_then (resolve_walking m (ctx_effective fx) False) (\<lambda>(r, _). Inr r)"

definition resolve_workspace :: "manifest \<Rightarrow> fetcher \<Rightarrow> resolution result" where
  "resolve_workspace m fx = and_then (resolve_walking m (ctx_effective fx) True) (\<lambda>(r, _). Inr r)"

definition resolve_comparing_highest :: "manifest \<Rightarrow> fetcher \<Rightarrow> (resolution \<times> disagreement list) result" where
  "resolve_comparing_highest m fx = resolve_walking m (ctx_effective fx) False"

text \<open>Tools and agents are resolutions of a manifest that declares them and nothing else.\<close>

definition resolve_tool_dependencies :: "dependency list \<Rightarrow> fetcher \<Rightarrow> resolution result" where
  "resolve_tool_dependencies ds fx = resolve ((blank ''tool'' ''0'' ''.'')\<lparr>mf_dependencies := ds\<rparr>) fx"

definition tool_dependency :: "coord \<Rightarrow> dependency" where
  "tool_dependency c = (dependency_new (coord_group c) (coord_artifact c) (coord_version c))
     \<lparr>dep_classifier := coord_classifier c\<rparr>"

definition resolve_tool :: "coord list \<Rightarrow> fetcher \<Rightarrow> resolution result" where
  "resolve_tool roots fx = resolve_tool_dependencies (map tool_dependency roots) fx"

definition resolve_agent :: "coord \<Rightarrow> fetcher \<Rightarrow> resolution result" where
  "resolve_agent c fx = resolve_tool_dependencies
     [(tool_dependency c)\<lparr>dep_exclusions := [\<lparr>ex_group = ''*'', ex_artifact = ''*''\<rparr>]\<rparr>] fx"

end
