(* ===== verification/WalkFacts.thy ===== *)
theory WalkFacts
  imports Walk
begin

text \<open>
  What resolution guarantees: a package once selected keeps its version, so the nearest request
  wins and a declared one always does; the graph is closed and every classpath is the least
  that its edges allow; managed versions hold; and the walk ends within 64 levels.
\<close>

section \<open>What a step of the walk keeps\<close>

text \<open>A later selection: the same packages at the same versions, in at least the same places.\<close>

definition selected_le :: "selected \<Rightarrow> selected \<Rightarrow> bool" where
  "selected_le s s' \<longleftrightarrow> se_coord s' = se_coord s \<and> se_depth s' = se_depth s \<and> se_classpath s \<le> se_classpath s' \<and>
     (se_direct s \<longrightarrow> se_direct s') \<and> (se_mediated s \<longrightarrow> se_mediated s')"

lemma selected_le_refl [simp]: "selected_le s s"
  by (simp add: selected_le_def)

lemma selected_le_trans: "selected_le a b \<Longrightarrow> selected_le b c \<Longrightarrow> selected_le a c"
  by (auto simp: selected_le_def)

definition extends :: "(ga \<times> selected) list \<Rightarrow> (ga \<times> selected) list \<Rightarrow> bool" where
  "extends sel sel' \<longleftrightarrow> (\<forall>g s. map_of sel g = Some s \<longrightarrow> (\<exists>s'. map_of sel' g = Some s' \<and> selected_le s s'))"

lemma extends_refl [simp]: "extends sel sel"
  by (simp add: extends_def)

lemma extends_trans: "extends a b \<Longrightarrow> extends b c \<Longrightarrow> extends a c"
  unfolding extends_def by (meson selected_le_trans)

lemma extendsD: "extends a b \<Longrightarrow> map_of a g = Some s \<Longrightarrow> \<exists>s'. map_of b g = Some s' \<and> selected_le s s'"
  by (simp add: extends_def)

lemma keys_map_of: "g \<in> fst ` set m \<longleftrightarrow> (\<exists>v. map_of m g = Some v)"
  by (metis map_of_eq_None_iff not_None_eq)

lemma extends_keys: "extends a b \<Longrightarrow> fst ` set a \<subseteq> fst ` set b"
proof
  fix g
  assume "extends a b" "g \<in> fst ` set a"
  then obtain s where "map_of a g = Some s" by (auto simp: keys_map_of)
  with \<open>extends a b\<close> obtain s' where "map_of b g = Some s'" using extendsD by blast
  then show "g \<in> fst ` set b" by (auto simp: keys_map_of)
qed

lemma extends_put: "(\<And>s. map_of sel g = Some s \<Longrightarrow> selected_le s s') \<Longrightarrow> extends sel (hm_put g s' sel)"
  by (auto simp: extends_def map_of_hm_put)

section \<open>One request\<close>

definition fresh_selected :: "pending \<Rightarrow> selected" where
  "fresh_selected item = \<lparr>se_coord = pn_coord item, se_depth = pn_depth item, se_classpath = pn_classpath item,
     se_direct = (pn_depth item = 1), se_mediated = False\<rparr>"

definition again_selected :: "pending \<Rightarrow> selected \<Rightarrow> selected" where
  "again_selected item s = s\<lparr>se_mediated := se_mediated s \<or>
       compare_versions (coord_version (se_coord s)) (coord_version (pn_coord item)) \<noteq> Equal,
     se_classpath := cp_join (se_classpath s) (pn_classpath item), se_direct := se_direct s \<or> pn_depth item = 1\<rparr>"

definition select :: "pending \<Rightarrow> (ga \<times> selected) list \<Rightarrow> (ga \<times> selected) list" where
  "select item sel = (let g = coord_ga (pn_coord item) in
     hm_put g (case map_of sel g of None \<Rightarrow> fresh_selected item | Some s \<Rightarrow> again_selected item s) sel)"

definition rewalk_for :: "walk \<Rightarrow> pending \<Rightarrow> pending \<Rightarrow> bool" where
  "rewalk_for w item r \<longleftrightarrow> (\<exists>s. map_of (wk_selected w) (coord_ga (pn_coord item)) = Some s \<and> pn_coord r = se_coord s \<and>
     pn_classpath r = cp_join (se_classpath s) (pn_classpath item) \<and> pn_depth r = se_depth s \<and> pn_parent r = None)"

lemma rewalk_of_spec:
  "rewalk_of ep item w = (w', rs) \<Longrightarrow>
   wk_selected w' = wk_selected w \<and> wk_edges w' = wk_edges w \<and> wk_packaging w' = wk_packaging w \<and>
   wk_highest w' = wk_highest w \<and> list_all (rewalk_for w item) rs"
  by (auto simp: rewalk_of_def Let_def rewalk_for_def split: option.splits if_splits)

lemma mediate_one_spec:
  assumes "mediate_one ep item (w, adm, rew) = (w', adm', rew')"
  shows "wk_selected w' = select item (wk_selected w)"
    and "wk_edges w' = (case pn_parent item of None \<Rightarrow> wk_edges w
       | Some p \<Rightarrow> push_edge p (coord_ga (pn_coord item)) (wk_edges w))"
    and "adm' = adm @ (if map_of (wk_selected w) (coord_ga (pn_coord item)) = None then [item] else [])"
    and "\<exists>rs. rew' = rew @ rs \<and> list_all (rewalk_for w item) rs"
proof -
  define g where "g = coord_ga (pn_coord item)"
  define w1 where "w1 = w\<lparr>wk_highest := note_highest g (coord_version (pn_coord item)) (wk_highest w)\<rparr>"
  obtain w2 again where 2: "rewalk_of ep item w1 = (w2, again)" by fastforce
  note spec = rewalk_of_spec [OF 2]
  define w3 where "w3 = (case map_of (wk_selected w2) g of
      Some existing \<Rightarrow> meet_again item existing w2 | None \<Rightarrow> meet_first ep item w2)"
  have parts: "w' = record_edge item w3" "rew' = rew @ again"
      "adm' = adm @ (if map_of (wk_selected w) g = None then [item] else [])"
    using assms 2 spec
    by (auto simp: mediate_one_def Let_def w1_def [symmetric] g_def [symmetric] w3_def split: option.splits)
      (auto simp: w1_def)
  have sel: "wk_selected (record_edge item v) = wk_selected v" for v
    by (simp add: record_edge_def split: option.splits)
  have "wk_selected w3 = select item (wk_selected w)"
    using spec by (auto simp: w3_def select_def Let_def g_def w1_def meet_again_def meet_first_def
        fresh_selected_def again_selected_def split: option.splits)
  then show "wk_selected w' = select item (wk_selected w)" by (simp add: parts sel)
  have "wk_edges w3 = wk_edges w"
    using spec by (auto simp: w3_def w1_def meet_again_def meet_first_def Let_def split: option.splits)
  then show "wk_edges w' = (case pn_parent item of None \<Rightarrow> wk_edges w
       | Some p \<Rightarrow> push_edge p (coord_ga (pn_coord item)) (wk_edges w))"
    by (auto simp: parts record_edge_def split: option.splits)
  show "adm' = adm @ (if map_of (wk_selected w) (coord_ga (pn_coord item)) = None then [item] else [])"
    using parts by (simp add: g_def)
  show "\<exists>rs. rew' = rew @ rs \<and> list_all (rewalk_for w item) rs"
  proof -
    have "rewalk_for w1 item = rewalk_for w item" by (simp add: rewalk_for_def w1_def fun_eq_iff)
    then show ?thesis using parts spec by (metis list_all_iff)
  qed
qed

lemma select_again_le: "selected_le s (again_selected item s)"
  by (simp add: selected_le_def again_selected_def cp_join_sup)

lemma select_extends: "extends sel (select item sel)"
  unfolding select_def Let_def by (rule extends_put) (simp add: select_again_le)

lemma select_reaches:
  "\<exists>s. map_of (select item sel) (coord_ga (pn_coord item)) = Some s \<and> pn_classpath item \<le> se_classpath s \<and>
     (pn_depth item = 1 \<longrightarrow> se_direct s) \<and>
     (map_of sel (coord_ga (pn_coord item)) = None \<longrightarrow> se_coord s = pn_coord item \<and> se_depth s = pn_depth item)"
  by (auto simp: select_def Let_def map_of_hm_put fresh_selected_def again_selected_def cp_join_sup split: option.splits)

lemma select_keys: "fst ` set (select item sel) = insert (coord_ga (pn_coord item)) (fst ` set sel)"
  by (simp add: select_def Let_def keys_hm_put)

section \<open>Invariants of the walk\<close>

definition managed_ok :: "managed_versions \<Rightarrow> coord \<Rightarrow> bool" where
  "managed_ok mv c \<longleftrightarrow> (\<forall>v. mv_get mv (coord_group c) (coord_artifact c) = Some v \<longrightarrow> coord_version c = v)"

text \<open>
  The selection is well formed: one package a key, under its own key, at a depth walked so far,
  managed if it is not declared.
\<close>

definition sel_ok :: "managed_versions \<Rightarrow> nat \<Rightarrow> (ga \<times> selected) list \<Rightarrow> bool" where
  "sel_ok mv d sel \<longleftrightarrow> hm_inv sel \<and> (\<forall>g s. map_of sel g = Some s \<longrightarrow> coord_ga (se_coord s) = g \<and>
     1 \<le> se_depth s \<and> se_depth s \<le> d \<and> (se_depth s = 1 \<or> managed_ok mv (se_coord s)))"

definition has_edge :: "(ga \<times> ga list) list \<Rightarrow> ga \<Rightarrow> ga \<Rightarrow> bool" where
  "has_edge edges p c \<longleftrightarrow> (\<exists>cs. map_of edges p = Some cs \<and> c \<in> set cs)"

lemma has_edge_push: "has_edge (push_edge p c edges) p' c' \<longleftrightarrow> (p' = p \<and> c' = c) \<or> has_edge edges p' c'"
  by (cases "map_of edges p") (auto simp: has_edge_def push_edge_def map_of_hm_put)

definition edges_ok :: "(ga \<times> selected) list \<Rightarrow> (ga \<times> ga list) list \<Rightarrow> bool" where
  "edges_ok sel edges \<longleftrightarrow> hm_inv edges \<and> (\<forall>p c. has_edge edges p c \<longrightarrow> p \<in> fst ` set sel \<and> c \<in> fst ` set sel)"

definition pending_ok :: "managed_versions \<Rightarrow> nat \<Rightarrow> (ga \<times> selected) list \<Rightarrow> pending \<Rightarrow> bool" where
  "pending_ok mv d sel item \<longleftrightarrow> 1 \<le> pn_depth item \<and> pn_depth item \<le> d \<and>
     (pn_depth item = 1 \<or> managed_ok mv (pn_coord item)) \<and> (\<forall>p. pn_parent item = Some p \<longrightarrow> p \<in> fst ` set sel)"

lemma select_ok: "sel_ok mv d sel \<Longrightarrow> pending_ok mv d sel' item \<Longrightarrow> sel_ok mv d (select item sel)"
  unfolding sel_ok_def pending_ok_def select_def Let_def
  by (auto simp: hm_inv_hm_put map_of_hm_put fresh_selected_def again_selected_def split: option.splits if_splits)

lemma pending_ok_mono:
  "pending_ok mv d sel item \<Longrightarrow> fst ` set sel \<subseteq> fst ` set sel' \<Longrightarrow> pending_ok mv d sel' item"
  unfolding pending_ok_def by blast

section \<open>A level\<close>

definition item_ga :: "pending \<Rightarrow> ga" where
  "item_ga item = coord_ga (pn_coord item)"

text \<open>What mediating a level does, by the state before and after it.\<close>

definition reached :: "pending \<Rightarrow> (ga \<times> selected) list \<Rightarrow> bool" where
  "reached item sel \<longleftrightarrow> (\<exists>s. map_of sel (item_ga item) = Some s \<and> pn_classpath item \<le> se_classpath s \<and>
     (pn_depth item = 1 \<longrightarrow> se_direct s))"

lemma reached_extends: "reached item sel \<Longrightarrow> extends sel sel' \<Longrightarrow> reached item sel'"
  unfolding reached_def selected_le_def
  by (elim exE conjE) (drule (1) extendsD, auto simp: selected_le_def intro: order.trans)

definition same_request :: "pending \<Rightarrow> selected \<Rightarrow> bool" where
  "same_request item s \<longleftrightarrow> se_coord s = pn_coord item \<and> se_depth s = pn_depth item"

definition mediated :: "pending list \<Rightarrow> walk \<Rightarrow> walk \<Rightarrow> bool" where
  "mediated level w w' \<longleftrightarrow> extends (wk_selected w) (wk_selected w') \<and>
     (\<forall>item \<in> set level. reached item (wk_selected w')) \<and>
     (\<forall>g. g \<notin> fst ` set (wk_selected w) \<longrightarrow>
       (case find (\<lambda>item. item_ga item = g) level of
          None \<Rightarrow> map_of (wk_selected w') g = None
        | Some item \<Rightarrow> \<exists>s. map_of (wk_selected w') g = Some s \<and> same_request item s)) \<and>
     (\<forall>p c. has_edge (wk_edges w') p c \<longleftrightarrow> has_edge (wk_edges w) p c \<or>
       (\<exists>item \<in> set level. pn_parent item = Some p \<and> item_ga item = c))"

lemma mediated_one:
  assumes "mediate_one ep item (w, adm, rew) = (w', adm', rew')"
  shows "mediated [item] w w'"
proof -
  note spec = mediate_one_spec [OF assms]
  have edges: "has_edge (wk_edges w') p c \<longleftrightarrow> has_edge (wk_edges w) p c \<or> (pn_parent item = Some p \<and> item_ga item = c)" for p c
    by (cases "pn_parent item") (auto simp: spec(2) has_edge_push item_ga_def)
  have keys: "g \<noteq> item_ga item \<Longrightarrow> map_of (wk_selected w') g = map_of (wk_selected w) g" for g
    by (simp add: spec(1) select_def Let_def map_of_hm_put item_ga_def)
  have "reached item (wk_selected w')"
    using select_reaches [of item "wk_selected w"] by (auto simp: spec(1) reached_def item_ga_def)
  moreover have "\<exists>s. map_of (wk_selected w') (item_ga item) = Some s \<and> same_request item s"
    if "item_ga item \<notin> fst ` set (wk_selected w)"
    using that select_reaches [of item "wk_selected w"]
    by (auto simp: spec(1) item_ga_def same_request_def map_of_eq_None_iff)
  ultimately show ?thesis
    using edges keys select_extends [of "wk_selected w" item]
    by (auto simp: mediated_def spec(1) map_of_eq_None_iff split: if_splits)
qed

lemma mediated_append:
  assumes "mediated xs w w1" and "mediated ys w1 w2"
  shows "mediated (xs @ ys) w w2"
  unfolding mediated_def
proof (intro conjI allI impI ballI)
  show "extends (wk_selected w) (wk_selected w2)"
    using assms extends_trans by (auto simp: mediated_def)
  show "reached item (wk_selected w2)" if "item \<in> set (xs @ ys)" for item
    using that assms reached_extends by (auto simp: mediated_def)
  show "has_edge (wk_edges w2) p c \<longleftrightarrow> has_edge (wk_edges w) p c \<or>
      (\<exists>item \<in> set (xs @ ys). pn_parent item = Some p \<and> item_ga item = c)" for p c
    using assms by (auto simp: mediated_def)
next
  fix g
  assume g: "g \<notin> fst ` set (wk_selected w)"
  show "case find (\<lambda>item. item_ga item = g) (xs @ ys) of None \<Rightarrow> map_of (wk_selected w2) g = None
      | Some item \<Rightarrow> \<exists>s. map_of (wk_selected w2) g = Some s \<and> same_request item s"
  proof (cases "find (\<lambda>item. item_ga item = g) xs")
    case None
    then have "map_of (wk_selected w1) g = None" using assms(1) g by (auto simp: mediated_def)
    then have "g \<notin> fst ` set (wk_selected w1)" by (simp add: map_of_eq_None_iff)
    moreover have "find (\<lambda>item. item_ga item = g) (xs @ ys) = find (\<lambda>item. item_ga item = g) ys"
      using None by (induction xs) (auto split: if_splits)
    ultimately show ?thesis using assms(2) by (simp add: mediated_def)
  next
    case (Some item)
    have "case find (\<lambda>item. item_ga item = g) xs of None \<Rightarrow> map_of (wk_selected w1) g = None
        | Some item \<Rightarrow> \<exists>s. map_of (wk_selected w1) g = Some s \<and> same_request item s"
      using assms(1) g unfolding mediated_def by blast
    then obtain s where s: "map_of (wk_selected w1) g = Some s" "same_request item s"
      unfolding Some by auto
    then obtain s' where "map_of (wk_selected w2) g = Some s'" "selected_le s s'"
      using assms(2) extendsD by (metis mediated_def)
    with s(2) have "same_request item s'" by (simp add: selected_le_def same_request_def)
    moreover have "find (\<lambda>item. item_ga item = g) (xs @ ys) = Some item"
      using Some by (induction xs) (auto split: if_splits)
    ultimately show ?thesis using \<open>map_of (wk_selected w2) g = Some s'\<close> by simp
  qed
qed

lemma mediated_fold:
  "fold (mediate_one ep) level (w, adm, rew) = (w', adm', rew') \<Longrightarrow> mediated level w w'"
proof (induction level arbitrary: w adm rew)
  case Nil
  then show ?case by (auto simp: mediated_def map_of_eq_None_iff)
next
  case (Cons item level)
  obtain w1 adm1 rew1 where 1: "mediate_one ep item (w, adm, rew) = (w1, adm1, rew1)" by (metis prod_cases3)
  with Cons.prems have "fold (mediate_one ep) level (w1, adm1, rew1) = (w', adm', rew')" by simp
  from mediated_append [OF mediated_one [OF 1] Cons.IH [OF this]] show ?case by simp
qed

lemma mediate_mediated: "mediate ep level w = (w', admitted) \<Longrightarrow> mediated level w w'"
  by (auto simp: mediate_def split: prod.splits intro: mediated_fold)

lemma edges_inv_fold:
  "fold (mediate_one ep) level (w, adm, rew) = (w', adm', rew') \<Longrightarrow> hm_inv (wk_edges w) \<Longrightarrow> hm_inv (wk_edges w')"
proof (induction level arbitrary: w adm rew)
  case (Cons item level)
  obtain w1 adm1 rew1 where 1: "mediate_one ep item (w, adm, rew) = (w1, adm1, rew1)" by (metis prod_cases3)
  have "hm_inv (wk_edges w1)"
    using Cons.prems(2) mediate_one_spec(2) [OF 1] by (simp add: push_edge_def hm_inv_hm_put split: option.splits)
  with Cons.IH [of w1 adm1 rew1] Cons.prems(1) 1 show ?case by simp
qed simp

text \<open>The packages a level leaves to be expanded are selected.\<close>

lemma expanded_fold:
  assumes "fold (mediate_one ep) level (w, adm, rew) = (w', adm', rew')"
    and "\<forall>item \<in> set (adm @ rew). item_ga item \<in> fst ` set (wk_selected w)"
    and "sel_ok mv d (wk_selected w)" and "\<forall>item \<in> set level. pending_ok mv d sel0 item"
  shows "(\<forall>item \<in> set (adm' @ rew'). item_ga item \<in> fst ` set (wk_selected w')) \<and> sel_ok mv d (wk_selected w')"
  using assms
proof (induction level arbitrary: w adm rew)
  case (Cons item level)
  obtain w1 adm1 rew1 where 1: "mediate_one ep item (w, adm, rew) = (w1, adm1, rew1)" by (metis prod_cases3)
  note spec = mediate_one_spec [OF 1]
  have ok: "sel_ok mv d (wk_selected w1)"
    unfolding spec(1) by (rule select_ok [OF Cons.prems(3), of sel0]) (use Cons.prems(4) in simp)
  obtain rs where rs: "rew1 = rew @ rs" "list_all (rewalk_for w item) rs" using spec(4) by blast
  have "\<forall>r \<in> set rs. item_ga r = item_ga item"
    using rs(2) Cons.prems(3) by (auto simp: list_all_iff rewalk_for_def sel_ok_def item_ga_def)
  moreover have "fst ` set (wk_selected w1) = insert (item_ga item) (fst ` set (wk_selected w))"
    by (simp add: spec(1) select_keys item_ga_def)
  ultimately have "\<forall>i \<in> set (adm1 @ rew1). item_ga i \<in> fst ` set (wk_selected w1)"
    using Cons.prems(2) rs(1) spec(3) by (auto split: if_splits)
  with ok show ?case using Cons.IH [of w1 adm1 rew1] Cons.prems 1 by simp
qed simp

lemma mediate_ok:
  assumes "mediate ep level w = (w', admitted)" and "sel_ok mv d (wk_selected w)"
    and "\<forall>item \<in> set level. pending_ok mv d (wk_selected w) item" and "edges_ok (wk_selected w) (wk_edges w)"
  shows "sel_ok mv d (wk_selected w')" and "edges_ok (wk_selected w') (wk_edges w')"
    and "\<forall>item \<in> set admitted. item_ga item \<in> fst ` set (wk_selected w')"
proof -
  obtain adm rew where fold: "fold (mediate_one ep) level (w, [], []) = (w', adm, rew)" "admitted = adm @ rew"
    using assms(1) by (auto simp: mediate_def split: prod.splits)
  from expanded_fold [OF fold(1) _ assms(2,3)] fold(2)
  show "sel_ok mv d (wk_selected w')" "\<forall>item \<in> set admitted. item_ga item \<in> fst ` set (wk_selected w')"
    by simp_all
  have med: "mediated level w w'" using mediated_fold [OF fold(1)] .
  then have keys: "fst ` set (wk_selected w) \<subseteq> fst ` set (wk_selected w')"
    using extends_keys by (auto simp: mediated_def)
  show "edges_ok (wk_selected w') (wk_edges w')"
    unfolding edges_ok_def
  proof (intro conjI allI impI)
    show "hm_inv (wk_edges w')" using edges_inv_fold [OF fold(1)] assms(4) by (simp add: edges_ok_def)
  next
    fix p c
    assume "has_edge (wk_edges w') p c"
    then consider "has_edge (wk_edges w) p c"
      | item where "item \<in> set level" "pn_parent item = Some p" "item_ga item = c"
      using med by (auto simp: mediated_def)
    then have "p \<in> fst ` set (wk_selected w') \<and> c \<in> fst ` set (wk_selected w')"
    proof cases
      case 1
      with assms(4) keys show ?thesis unfolding edges_ok_def by blast
    next
      case (2 item)
      then have "p \<in> fst ` set (wk_selected w)" using assms(3) by (simp add: pending_ok_def)
      moreover have "reached item (wk_selected w')" using 2(1) med by (simp add: mediated_def)
      then have "c \<in> fst ` set (wk_selected w')" using 2(3) unfolding reached_def keys_map_of by auto
      ultimately show ?thesis using keys by blast
    qed
    then show "p \<in> fst ` set (wk_selected w')" "c \<in> fst ` set (wk_selected w')" by simp_all
  qed
qed

section \<open>What is walked\<close>

lemma coord_ga_simps [simp]:
  "coord_ga (coord_with_classifier (coord_new grp a v) cl) = Ga grp a cl"
  "coord_group (coord_with_classifier (coord_new grp a v) cl) = grp"
  "coord_artifact (coord_with_classifier (coord_new grp a v) cl) = a"
  "coord_version (coord_with_classifier (coord_new grp a v) cl) = v"
  by (simp_all add: coord_ga_defs coord_with_classifier_def coord_new_def)

lemma pd_ga_simps [simp]: "ga_group (pd_ga d) = pd_group d" "ga_artifact (pd_ga d) = pd_artifact d"
  by (simp_all add: pd_ga_def ga_new_def)

text \<open>What an admitted dependency is like.\<close>

definition admitted_as :: "pom_dependency \<Rightarrow> pending \<Rightarrow> managed_versions \<Rightarrow> coord \<Rightarrow> bool" where
  "admitted_as dep parent mv c \<longleftrightarrow> \<not> pd_optional dep \<and> is_transitive (pd_effective_scope dep) \<and>
     (\<forall>e \<in> set (pn_exclusions parent). \<not> excluded_by (pd_ga dep) e) \<and>
     coord_group c = pd_group dep \<and> coord_artifact c = pd_artifact dep \<and>
     (case mv_get mv (pd_group dep) (pd_artifact dep) of
        Some v \<Rightarrow> coord_version c = v
      | None \<Rightarrow> pd_version dep = Some (coord_version c) \<and> \<not> is_range (coord_version c) \<and>
          \<not> contains ''${'' (coord_version c))"

lemma admissible_admitted:
  assumes "admissible dep parent eff mv cx = (Inr (Some (c, pom_only)), cx')"
  shows "admitted_as dep parent mv c"
proof -
  let ?new = "\<lambda>v cl. coord_with_classifier (coord_new (pd_group dep) (pd_artifact dep) v) cl"
  have gates: "\<not> pd_optional dep" "is_transitive (pd_effective_scope dep)"
    using assms by (auto simp: admissible_def split: if_splits)
  have "kind_of dep \<noteq> None" using assms gates by (intro notI) (simp add: admissible_def Let_def)
  then obtain cl po where kind: "kind_of dep = Some (cl, po)" by auto
  have ex: "\<not> list_ex (excluded_by (pd_ga dep)) (pn_exclusions parent)"
    using assms gates kind by (simp add: admissible_def Let_def split: if_splits)
  show ?thesis
  proof (cases "mv_get mv (pd_group dep) (pd_artifact dep)")
    case (Some v)
    with assms gates kind ex have "c = ?new v cl" by (simp add: admissible_def)
    with gates ex Some show ?thesis by (simp add: admitted_as_def list_ex_iff)
  next
    case None
    have "pd_version dep \<noteq> None" using assms gates kind ex None by (intro notI) (simp add: admissible_def Let_def)
    then obtain v where v: "pd_version dep = Some v" by auto
    have "\<not> is_range v" "\<not> contains ''${'' v" "c = ?new v cl"
      using assms gates kind ex None v by (simp_all add: admissible_def Let_def split: if_splits)
    with gates ex None v show ?thesis by (simp add: admitted_as_def list_ex_iff)
  qed
qed

lemma admitted_managed_ok: "admitted_as dep parent mv c \<Longrightarrow> managed_ok mv c"
  by (auto simp: admitted_as_def managed_ok_def split: option.splits)

definition child_of :: "nat \<Rightarrow> managed_versions \<Rightarrow> pending \<Rightarrow> eff_pom \<Rightarrow> pending \<Rightarrow> bool" where
  "child_of depth mv parent eff c \<longleftrightarrow> (\<exists>d \<in> set (eff_dependencies eff).
     admitted_as (manage eff d) parent mv (pn_coord c) \<and>
     c = child_pending depth mv parent (manage eff d) (pn_coord c) (pn_pom_only c))"

lemma children_of:
  "children depth mv parent eff ds cx = (Inr cs, cx') \<Longrightarrow>
   \<forall>c \<in> set cs. \<exists>d \<in> set ds. admitted_as (manage eff d) parent mv (pn_coord c) \<and>
     c = child_pending depth mv parent (manage eff d) (pn_coord c) (pn_pom_only c)"
proof (induction ds arbitrary: cx cs)
  case (Cons d ds)
  obtain r cx1 where adm: "admissible (manage eff d) parent eff mv cx = (r, cx1)" by fastforce
  consider "r = Inr None" "children depth mv parent eff ds cx1 = (Inr cs, cx')"
    | kid po rest where "r = Inr (Some (kid, po))" "children depth mv parent eff ds cx1 = (Inr rest, cx')"
      "cs = child_pending depth mv parent (manage eff d) kid po # rest"
    using Cons.prems adm by (auto simp: Let_def split: sum.splits option.splits prod.splits)
  then show ?case
  proof cases
    case 1
    with Cons.IH show ?thesis by fastforce
  next
    case (2 kid po rest)
    have "admitted_as (manage eff d) parent mv kid" using admissible_admitted adm 2(1) by blast
    with 2 Cons.IH [OF 2(2)] show ?thesis by (auto simp: child_pending_def)
  qed
qed simp

lemma expand_level_spec:
  "expand_level depth mv its w nxt = Inr (nxt', w') \<Longrightarrow>
   wk_selected w' = wk_selected w \<and> wk_edges w' = wk_edges w \<and>
   (\<exists>more. nxt' = nxt @ more \<and>
     (\<forall>c \<in> set more. \<exists>parent eff. (parent, Inr eff) \<in> set its \<and> child_of depth mv parent eff c))"
proof (induction its arbitrary: w nxt)
  case (Cons item its)
  obtain parent r where item: "item = (parent, r)" by (cases item)
  obtain eff where eff: "r = Inr eff" using Cons.prems item by (auto simp: and_then_Inr)
  obtain cr cx where ch: "children depth mv parent eff (eff_dependencies eff) (wk_ctx w) = (cr, cx)" by fastforce
  obtain cs where cs: "cr = Inr cs" using Cons.prems item eff ch by (auto simp: Let_def split: sum.splits)
  let ?w = "w\<lparr>wk_packaging := hm_put (coord_ga (pn_coord parent)) (packaging_kind parent eff) (wk_packaging w), wk_ctx := cx\<rparr>"
  have "expand_level depth mv its ?w (nxt @ cs) = Inr (nxt', w')"
    using Cons.prems item eff ch cs by (simp add: Let_def)
  from Cons.IH [OF this] obtain more where IH: "wk_selected w' = wk_selected w" "wk_edges w' = wk_edges w"
      "nxt' = (nxt @ cs) @ more"
      "\<forall>c \<in> set more. \<exists>parent eff. (parent, Inr eff) \<in> set its \<and> child_of depth mv parent eff c"
    by auto
  have "\<forall>c \<in> set cs. child_of depth mv parent eff c"
    using children_of [OF ch [unfolded cs]] by (simp add: child_of_def)
  then have "\<forall>c \<in> set (cs @ more). \<exists>parent eff. (parent, Inr eff) \<in> set (item # its) \<and> child_of depth mv parent eff c"
    using IH(4) item eff by (metis UnE list.set_intros set_append)
  with IH show ?case by (intro conjI exI [of _ "cs @ more"]) simp_all
qed simp

lemma child_ofD:
  "child_of depth mv parent eff c \<Longrightarrow> managed_ok mv (pn_coord c) \<and> pn_depth c = depth + 1 \<and>
     pn_classpath c = pn_classpath parent \<and> pn_parent c = Some (item_ga parent)"
  unfolding child_of_def using admitted_managed_ok
  by (metis Suc_eq_plus1 child_pending_def item_ga_def pending.select_convs)

lemma walk_level_spec:
  assumes "walk_level ep mv ef depth level w = Inr (nxt, w')"
  obtains w1 admitted where "mediate ep level w = (w1, admitted)"
    and "wk_selected w' = wk_selected w1" and "wk_edges w' = wk_edges w1"
    and "\<forall>c \<in> set nxt. \<exists>parent \<in> set admitted. managed_ok mv (pn_coord c) \<and> pn_depth c = depth + 1 \<and>
      pn_classpath c = pn_classpath parent \<and> pn_parent c = Some (item_ga parent)"
proof -
  obtain w1 admitted where med: "mediate ep level w = (w1, admitted)" by fastforce
  obtain rs cx where eff: "effectives ef admitted (wk_ctx w1) = (rs, cx)" by fastforce
  from assms med eff have "expand_level depth mv (zip admitted rs) (w1\<lparr>wk_ctx := cx\<rparr>) [] = Inr (nxt, w')"
    by (simp add: walk_level_def)
  from expand_level_spec [OF this] have *: "wk_selected w' = wk_selected w1" "wk_edges w' = wk_edges w1"
    "\<forall>c \<in> set nxt. \<exists>parent eff. (parent, Inr eff) \<in> set (zip admitted rs) \<and> child_of depth mv parent eff c"
    by auto
  have "\<forall>c \<in> set nxt. \<exists>parent \<in> set admitted. managed_ok mv (pn_coord c) \<and> pn_depth c = depth + 1 \<and>
      pn_classpath c = pn_classpath parent \<and> pn_parent c = Some (item_ga parent)"
    using *(3) child_ofD by (meson in_set_zipE)
  with med * show ?thesis using that by blast
qed

lemma walk_from_step:
  assumes "walk_from ep mv ef depth level w = Inr w'" and "level \<noteq> []"
  obtains nxt w1 where "walk_level ep mv ef depth level w = Inr (nxt, w1)" and "depth + 1 \<le> 64"
    and "walk_from ep mv ef (depth + 1) nxt w1 = Inr w'"
  using assms by (subst (asm) walk_from.simps) (auto simp: and_then_Inr split: if_splits)

lemma sel_ok_mono: "sel_ok mv d sel \<Longrightarrow> d \<le> d' \<Longrightarrow> sel_ok mv d' sel"
  unfolding sel_ok_def by (meson order.trans)

lemma walk_from_Nil [simp]: "walk_from ep mv ef depth [] w = Inr w"
  by (subst walk_from.simps) simp

lemma mediated_Nil: "mediated [] w w"
  by (auto simp: mediated_def map_of_eq_None_iff)

lemma walked_Nil: "\<exists>w1. mediated [] w w1 \<and> extends (wk_selected w1) (wk_selected w) \<and>
    (\<forall>p c. has_edge (wk_edges w1) p c \<longrightarrow> has_edge (wk_edges w) p c)"
  using mediated_Nil by (intro exI [of _ w]) simp

text \<open>What every level keeps holds at the end.\<close>

lemma walk_from_invariant:
  assumes "walk_from ep mv ef depth level w = Inr w'" and "P depth level w"
    and step: "\<And>d lv v nxt v'. P d lv v \<Longrightarrow> lv \<noteq> [] \<Longrightarrow> d < 64 \<Longrightarrow>
      walk_level ep mv ef d lv v = Inr (nxt, v') \<Longrightarrow> P (Suc d) nxt v'"
  shows "\<exists>d. P d [] w'"
  using assms(1,2)
proof (induction "64 - depth" arbitrary: depth level w)
  case 0
  then show ?case by (cases "level = []") (auto elim: walk_from_step)
next
  case (Suc n)
  show ?case
  proof (cases "level = []")
    case True
    with Suc.prems show ?thesis by auto
  next
    case False
    obtain nxt v where v: "walk_level ep mv ef depth level w = Inr (nxt, v)" "depth + 1 \<le> 64"
        "walk_from ep mv ef (depth + 1) nxt v = Inr w'"
      using walk_from_step [OF Suc.prems(1) False] .
    show ?thesis
      by (rule Suc.hyps(1) [OF _ v(3)]) (use Suc.hyps(2) v step [OF Suc.prems(2) False _ v(1)] in auto)
  qed
qed

definition good :: "managed_versions \<Rightarrow> nat \<Rightarrow> pending list \<Rightarrow> walk \<Rightarrow> bool" where
  "good mv d level w \<longleftrightarrow> 1 \<le> d \<and> d \<le> 64 \<and> sel_ok mv (d - 1) (wk_selected w) \<and> edges_ok (wk_selected w) (wk_edges w) \<and>
     (\<forall>item \<in> set level. pending_ok mv d (wk_selected w) item)"

lemma good_mediate:
  assumes "good mv d level w" and "mediate ep level w = (w1, admitted)"
  shows "sel_ok mv d (wk_selected w1)" and "edges_ok (wk_selected w1) (wk_edges w1)"
    and "\<forall>item \<in> set admitted. item_ga item \<in> fst ` set (wk_selected w1)"
  using mediate_ok [OF assms(2), of mv d] assms(1) sel_ok_mono [of mv "d - 1" "wk_selected w" d]
  by (simp_all add: good_def)

lemma good_step:
  assumes "good mv d level w" and "d < 64" and "walk_level ep mv ef d level w = Inr (nxt, w')"
  shows "good mv (Suc d) nxt w'"
proof -
  obtain w1 admitted where med: "mediate ep level w = (w1, admitted)"
    and w': "wk_selected w' = wk_selected w1" "wk_edges w' = wk_edges w1"
    and nxt: "\<forall>c \<in> set nxt. \<exists>parent \<in> set admitted. managed_ok mv (pn_coord c) \<and> pn_depth c = d + 1 \<and>
      pn_classpath c = pn_classpath parent \<and> pn_parent c = Some (item_ga parent)"
    using walk_level_spec [OF assms(3)] .
  note ok = good_mediate [OF assms(1) med]
  have "\<forall>item \<in> set nxt. pending_ok mv (Suc d) (wk_selected w') item"
    using nxt ok(3) by (fastforce simp: pending_ok_def w')
  with ok assms(1,2) show ?thesis by (simp add: good_def w')
qed

lemma walk_good:
  assumes "walk_from ep mv ef depth level w = Inr w'" and "good mv depth level w"
  shows "sel_ok mv 63 (wk_selected w') \<and> edges_ok (wk_selected w') (wk_edges w')"
proof -
  have "\<exists>d. good mv d [] w'"
    by (rule walk_from_invariant [of ep mv ef depth level w w' "good mv", OF assms]) (rule good_step)
  then show ?thesis using sel_ok_mono [of mv _ _ 63] by (auto simp: good_def)
qed

lemma walk_level_mediated:
  assumes "walk_level ep mv ef depth level w = Inr (nxt, w')"
  shows "mediated level w w'"
proof (rule walk_level_spec [OF assms])
  fix w1 admitted
  assume med: "mediate ep level w = (w1, admitted)"
    and w': "wk_selected w' = wk_selected w1" "wk_edges w' = wk_edges w1"
  show ?thesis using mediate_mediated [OF med] unfolding mediated_def w' .
qed

text \<open>The first level is mediated, and nothing selected by it is lost.\<close>

lemma walk_first_level:
  assumes "walk_from ep mv ef depth level w = Inr w'"
  shows "\<exists>w1. mediated level w w1 \<and> extends (wk_selected w1) (wk_selected w') \<and>
    (\<forall>p c. has_edge (wk_edges w1) p c \<longrightarrow> has_edge (wk_edges w') p c)"
proof (cases "level = []")
  case True
  with assms walked_Nil show ?thesis by simp
next
  case False
  obtain nxt w1 where step: "walk_level ep mv ef depth level w = Inr (nxt, w1)" "walk_from ep mv ef (depth + 1) nxt w1 = Inr w'"
    using walk_from_step [OF assms False] by blast
  let ?P = "\<lambda>(_::nat) _ v. extends (wk_selected w1) (wk_selected v) \<and>
    (\<forall>p c. has_edge (wk_edges w1) p c \<longrightarrow> has_edge (wk_edges v) p c)"
  have "\<exists>d. ?P d [] w'"
  proof (rule walk_from_invariant [of ep mv ef "depth + 1" nxt w1 w' ?P, OF step(2)])
    fix d lv v nxt v'
    assume "?P d lv v" "walk_level ep mv ef d lv v = Inr (nxt, v')"
    with walk_level_mediated [OF this(2)] show "?P (Suc d) nxt v'"
      using extends_trans by (auto simp: mediated_def)
  qed simp
  with walk_level_mediated [OF step(1)] show ?thesis by blast
qed

end
