(* ===== verification/Resolved.thy ===== *)
theory Resolved
  imports WalkFacts
begin

text \<open>
  What a resolution is: the theorems about \<open>resolve_walking\<close>, from the invariants of the walk in
  \<open>WalkFacts\<close> and the lemmas on widening below.
\<close>

section \<open>Widening\<close>

text \<open>Widening moves classpaths up and touches nothing else.\<close>

definition widened :: "(ga \<times> selected) list \<Rightarrow> (ga \<times> selected) list \<Rightarrow> bool" where
  "widened sel sel' \<longleftrightarrow> map fst sel' = map fst sel \<and> extends sel sel'"

lemma widened_refl [simp]: "widened sel sel"
  by (simp add: widened_def)

lemma widened_trans: "widened a b \<Longrightarrow> widened b c \<Longrightarrow> widened a c"
  by (auto simp: widened_def intro: extends_trans)

lemma map_fst_hm_put: "map_of m k \<noteq> None \<Longrightarrow> map fst (hm_put k v m) = map fst m"
  by (induction k v m rule: hm_put.induct) (auto split: if_splits)

text \<open>An assignment of classpaths that lies above a selection.\<close>

definition below :: "(ga \<Rightarrow> classpath) \<Rightarrow> (ga \<times> selected) list \<Rightarrow> bool" where
  "below f sel \<longleftrightarrow> (\<forall>g s. map_of sel g = Some s \<longrightarrow> se_classpath s \<le> f g)"

definition edge_closed :: "(ga \<times> selected) list \<Rightarrow> ga \<Rightarrow> ga \<Rightarrow> bool" where
  "edge_closed sel p c \<longleftrightarrow> (\<forall>sp sc. map_of sel p = Some sp \<longrightarrow> map_of sel c = Some sc \<longrightarrow> se_classpath sp \<le> se_classpath sc)"

lemma widen_child_facts:
  assumes "widen_child widest c (sel, ch) = (sel', ch')"
  shows "widened sel sel'" and "\<not> ch' \<Longrightarrow> \<not> ch \<and> sel' = sel \<and> (\<forall>sc. map_of sel c = Some sc \<longrightarrow> widest \<le> se_classpath sc)"
    and "below f sel \<Longrightarrow> widest \<le> f c \<Longrightarrow> below f sel'"
proof -
  have "widened sel sel' \<and> (\<not> ch' \<longrightarrow> \<not> ch \<and> sel' = sel \<and> (\<forall>sc. map_of sel c = Some sc \<longrightarrow> widest \<le> se_classpath sc)) \<and>
    (below f sel \<longrightarrow> widest \<le> f c \<longrightarrow> below f sel')"
  proof (cases "map_of sel c")
    case None
    with assms show ?thesis by (simp add: widen_child_def)
  next
    case (Some s)
    show ?thesis
    proof (cases "cp_join (se_classpath s) widest = se_classpath s")
      case True
      then have "widest \<le> se_classpath s" by (metis cp_join_sup sup.cobounded2)
      with True assms Some show ?thesis by (simp add: widen_child_def)
    next
      case False
      let ?s = "s\<lparr>se_classpath := cp_join (se_classpath s) widest\<rparr>"
      have new: "sel' = hm_put c ?s sel" "ch'"
        using False assms Some by (simp_all add: widen_child_def Let_def)
      have "widened sel sel'"
        using Some unfolding widened_def new(1)
        by (auto intro!: extends_put simp: map_fst_hm_put selected_le_def cp_join_sup)
      moreover have "below f sel'" if "below f sel" "widest \<le> f c"
        using that Some by (simp add: below_def new map_of_hm_put cp_join_sup)
      ultimately show ?thesis using new(2) by simp
    qed
  qed
  then show "widened sel sel'" "\<not> ch' \<Longrightarrow> \<not> ch \<and> sel' = sel \<and> (\<forall>sc. map_of sel c = Some sc \<longrightarrow> widest \<le> se_classpath sc)"
    "below f sel \<Longrightarrow> widest \<le> f c \<Longrightarrow> below f sel'" by blast+
qed

lemma widen_children_facts:
  assumes "fold (widen_child widest) cs (sel, ch) = (sel', ch')"
  shows "widened sel sel' \<and> (\<not> ch' \<longrightarrow> \<not> ch \<and> sel' = sel \<and>
      (\<forall>c \<in> set cs. \<forall>sc. map_of sel c = Some sc \<longrightarrow> widest \<le> se_classpath sc)) \<and>
    (below f sel \<longrightarrow> (\<forall>c \<in> set cs. widest \<le> f c) \<longrightarrow> below f sel')"
  using assms
proof (induction cs arbitrary: sel ch)
  case (Cons c cs)
  obtain sel1 ch1 where 1: "widen_child widest c (sel, ch) = (sel1, ch1)" by fastforce
  with Cons.prems have "fold (widen_child widest) cs (sel1, ch1) = (sel', ch')" by simp
  from Cons.IH [OF this] widen_child_facts [OF 1] show ?case
    by (auto intro: widened_trans)
qed simp

lemma widen_edges_facts:
  assumes "widen_edges (p, cs) (sel, ch) = (sel', ch')"
  shows "widened sel sel' \<and> (\<not> ch' \<longrightarrow> \<not> ch \<and> sel' = sel \<and> (\<forall>c \<in> set cs. edge_closed sel p c)) \<and>
    (below f sel \<longrightarrow> (\<forall>c \<in> set cs. f p \<le> f c) \<longrightarrow> below f sel')"
proof (cases "map_of sel p")
  case None
  with assms show ?thesis by (simp add: widen_edges_def edge_closed_def)
next
  case (Some sp)
  with assms have "fold (widen_child (se_classpath sp)) cs (sel, ch) = (sel', ch')" by (simp add: widen_edges_def)
  note facts = widen_children_facts [OF this, of f]
  have "below f sel \<Longrightarrow> se_classpath sp \<le> f p" using Some by (simp add: below_def)
  with facts Some show ?thesis by (auto simp: edge_closed_def intro: order.trans)
qed

lemma widen_round_facts:
  assumes "fold widen_edges edges (sel, ch) = (sel', ch')"
  shows "widened sel sel' \<and> (\<not> ch' \<longrightarrow> \<not> ch \<and> sel' = sel \<and> (\<forall>(p, cs) \<in> set edges. \<forall>c \<in> set cs. edge_closed sel p c)) \<and>
    (below f sel \<longrightarrow> (\<forall>(p, cs) \<in> set edges. \<forall>c \<in> set cs. f p \<le> f c) \<longrightarrow> below f sel')"
  using assms
proof (induction edges arbitrary: sel ch)
  case (Cons e edges)
  obtain p cs where e: "e = (p, cs)" by (cases e)
  obtain sel1 ch1 where 1: "widen_edges (p, cs) (sel, ch) = (sel1, ch1)" by fastforce
  with Cons.prems e have "fold widen_edges edges (sel1, ch1) = (sel', ch')" by simp
  from Cons.IH [OF this] widen_edges_facts [OF 1, of f] e show ?case
    by (auto intro: widened_trans)
qed simp

lemma has_edge_iff: "hm_inv edges \<Longrightarrow> (\<exists>cs. (p, cs) \<in> set edges \<and> c \<in> set cs) \<longleftrightarrow> has_edge edges p c"
  by (auto simp: has_edge_def map_of_eq_Some_iff)

text \<open>The fixed point: closed under the edges, and below every assignment that is.\<close>

lemma widen_facts:
  assumes "hm_inv edges"
  shows "widened sel (widen edges sel) \<and>
    (\<forall>p c. has_edge edges p c \<longrightarrow> edge_closed (widen edges sel) p c) \<and>
    (below f sel \<longrightarrow> (\<forall>p c. has_edge edges p c \<longrightarrow> f p \<le> f c) \<longrightarrow> below f (widen edges sel))"
  using assms
proof (induction edges sel rule: widen.induct)
  case (1 edges sel)
  obtain sel' ch where round: "widen_round edges sel = (sel', ch)" by fastforce
  then have "fold widen_edges edges (sel, False) = (sel', ch)" by (simp add: widen_round_def)
  note facts = widen_round_facts [OF this, of f]
  have edges: "(\<forall>(p, cs) \<in> set edges. \<forall>c \<in> set cs. Q p c) \<longleftrightarrow> (\<forall>p c. has_edge edges p c \<longrightarrow> Q p c)" for Q
    using has_edge_iff [OF 1(2)] by fast
  show ?case
  proof (cases ch)
    case True
    then have w: "widen edges sel = widen edges sel'" using round by (subst widen.simps) simp
    from 1(1) [OF round [symmetric] refl True 1(2)] facts show ?thesis
      unfolding w edges by (auto intro: widened_trans)
  next
    case False
    then have w: "widen edges sel = sel'" using round by (subst widen.simps) simp
    from facts False show ?thesis unfolding w edges by auto
  qed
qed

lemma widened_lookup:
  assumes "widened sel sel'"
  shows "fst ` set sel' = fst ` set sel" and "map_of sel' g = Some s' \<Longrightarrow> \<exists>s. map_of sel g = Some s \<and> selected_le s s'"
proof -
  show keys: "fst ` set sel' = fst ` set sel" using assms by (metis image_set widened_def)
  assume s': "map_of sel' g = Some s'"
  then obtain s where "map_of sel g = Some s" by (metis keys keys_map_of)
  with s' assms show "\<exists>s. map_of sel g = Some s \<and> selected_le s s'"
    using extendsD [of sel sel'] by (fastforce simp: widened_def)
qed

lemma widened_ok:
  assumes "widened sel sel'"
  shows "sel_ok mv d sel \<Longrightarrow> sel_ok mv d sel'" and "edges_ok sel edges \<Longrightarrow> edges_ok sel' edges"
proof -
  show "edges_ok sel' edges" if "edges_ok sel edges"
    using that widened_lookup(1) [OF assms] by (simp add: edges_ok_def)
  show "sel_ok mv d sel'" if ok: "sel_ok mv d sel"
    unfolding sel_ok_def
  proof (rule conjI, use ok assms in \<open>simp add: sel_ok_def widened_def\<close>, intro allI impI)
    fix g s'
    assume "map_of sel' g = Some s'"
    then obtain s where "map_of sel g = Some s" "selected_le s s'" using widened_lookup(2) [OF assms] by blast
    with ok show "coord_ga (se_coord s') = g \<and> 1 \<le> se_depth s' \<and> se_depth s' \<le> d \<and> (se_depth s' = 1 \<or> managed_ok mv (se_coord s'))"
      unfolding sel_ok_def selected_le_def by metis
  qed
qed

section \<open>From the walk to the resolution\<close>

lemma seed_good: "good mv 1 (seed ds dev mv) (walk_empty cx)"
  by (auto simp: good_def sel_ok_def edges_ok_def has_edge_def walk_empty_def pending_ok_def seed_def seed_one_def)

lemma resolve_walkingE:
  assumes "resolve_walking m ef ep = Inr (r, ds)"
  obtains mv deps dev cx w sel where "resolve_inputs m ef = Inr (mv, deps, dev, cx)"
    and "walk_from ep mv ef 1 (seed deps dev mv) (walk_empty cx) = Inr w"
    and "sel = widen (wk_edges w) (wk_selected w)" and "ds = disagreements w sel"
    and "res_packages r = packages_of mv w sel"
    and "res_roots r = map root_ga (filter (\<lambda>d. \<not> is_local d) deps)"
    and "res_test_roots r = map root_ga (filter (\<lambda>d. \<not> is_local d) dev)"
    and "sel_ok mv 63 sel" and "edges_ok sel (wk_edges w)" and "widened (wk_selected w) sel"
proof -
  obtain mv deps dev cx where inputs: "resolve_inputs m ef = Inr (mv, deps, dev, cx)"
    using assms by (cases "resolve_inputs m ef") (auto simp: resolve_walking_def)
  then obtain w where w: "walk_from ep mv ef 1 (seed deps dev mv) (walk_empty cx) = Inr w"
    using assms by (auto simp: resolve_walking_def and_then_Inr)
  let ?sel = "widen (wk_edges w) (wk_selected w)"
  have r: "res_packages r = packages_of mv w ?sel" "res_roots r = map root_ga (filter (\<lambda>d. \<not> is_local d) deps)"
    "res_test_roots r = map root_ga (filter (\<lambda>d. \<not> is_local d) dev)" "ds = disagreements w ?sel"
    using assms inputs w by (auto simp: resolve_walking_def Let_def)
  note good = walk_good [OF w seed_good]
  then have wid: "widened (wk_selected w) ?sel" using widen_facts by (auto simp: edges_ok_def)
  with good show ?thesis using that [OF inputs w refl r(4,1,2,3)] widened_ok [OF wid] by blast
qed

lemma packages_of_keys:
  assumes "sel_ok mv d sel"
  shows "map pkg_ga (map (package_of mv w) sel) = map fst sel"
proof -
  have "pkg_ga (package_of mv w (g, s)) = g" if "(g, s) \<in> set sel" for g s
    using that assms by (simp add: sel_ok_def package_of_def pkg_ga_def map_of_eq_Some_iff)
  then show ?thesis by auto
qed

lemma packages_of_lookup:
  assumes "sel_ok mv d sel"
  shows "(\<exists>p \<in> set (packages_of mv w sel). pkg_ga p = g \<and> Q p) \<longleftrightarrow> (\<exists>s. map_of sel g = Some s \<and> Q (package_of mv w (g, s)))"
proof -
  have ga: "pkg_ga (package_of mv w (h, s)) = h" if "(h, s) \<in> set sel" for h s
    using that assms by (simp add: sel_ok_def package_of_def pkg_ga_def map_of_eq_Some_iff)
  have "hm_inv sel" using assms by (simp add: sel_ok_def)
  then have at: "map_of sel g = Some s \<longleftrightarrow> (g, s) \<in> set sel" for s by (rule map_of_eq_Some_iff)
  show ?thesis unfolding at by (force simp: packages_of_def ga)
qed

lemma packages_of_ball:
  assumes "sel_ok mv d sel"
  shows "(\<forall>p \<in> set (packages_of mv w sel). Q p) \<longleftrightarrow> (\<forall>g s. map_of sel g = Some s \<longrightarrow> Q (package_of mv w (g, s)))"
  using packages_of_lookup [OF assms, of w _ "\<lambda>p. \<not> Q p"] by blast

lemma package_of_simps [simp]:
  "pkg_coord (package_of mv w (g, s)) = se_coord s" "pkg_classpath (package_of mv w (g, s)) = se_classpath s"
  "pkg_depth (package_of mv w (g, s)) = se_depth s" "pkg_direct (package_of mv w (g, s)) = se_direct s"
  "c \<in> set (pkg_dependencies (package_of mv w (g, s))) \<longleftrightarrow> has_edge (wk_edges w) g c"
  by (simp_all add: package_of_def) (cases "map_of (wk_edges w) g"; simp add: has_edge_def)

lemma mediated_find:
  assumes "mediated level w w1" and "map_of (wk_selected w) g = None"
    and "find (\<lambda>item. item_ga item = g) level = Some item"
  shows "\<exists>s. map_of (wk_selected w1) g = Some s \<and> same_request item s"
proof -
  have "case find (\<lambda>item. item_ga item = g) level of None \<Rightarrow> map_of (wk_selected w1) g = None
      | Some item \<Rightarrow> \<exists>s. map_of (wk_selected w1) g = Some s \<and> same_request item s"
    using assms(1,2) unfolding mediated_def by (simp add: map_of_eq_None_iff)
  then show ?thesis unfolding assms(3) by simp
qed

lemma seed_reached:
  assumes "walk_from ep mv ef 1 level (walk_empty cx) = Inr w" and "widened (wk_selected w) sel"
  shows "item \<in> set level \<Longrightarrow> reached item sel"
    and "find (\<lambda>item. item_ga item = g) level = Some item \<Longrightarrow> \<exists>s. map_of sel g = Some s \<and> same_request item s"
proof -
  obtain w1 where w1: "mediated level (walk_empty cx) w1" "extends (wk_selected w1) (wk_selected w)"
    using walk_first_level [OF assms(1)] by blast
  have ext: "extends (wk_selected w1) sel" using w1(2) assms(2) extends_trans by (auto simp: widened_def)
  show "reached item sel" if "item \<in> set level"
    using that w1(1) ext reached_extends by (auto simp: mediated_def)
  assume "find (\<lambda>item. item_ga item = g) level = Some item"
  from mediated_find [OF w1(1) _ this]
  obtain s where s: "map_of (wk_selected w1) g = Some s" "same_request item s" by (auto simp: walk_empty_def)
  with extendsD [OF ext s(1)] show "\<exists>s. map_of sel g = Some s \<and> same_request item s"
    by (auto simp: selected_le_def same_request_def)
qed

lemma seed_one_simps [simp]:
  "item_ga (seed_one mv cp d) = root_ga d" "pn_depth (seed_one mv cp d) = 1" "pn_parent (seed_one mv cp d) = None"
  "coord_version (pn_coord (seed_one mv cp d)) = dep_version d"
  by (simp_all add: item_ga_def seed_one_def root_ga_def ga_with_classifier_def ga_new_def)

text \<open>
  Property C5. Whatever the POMs say, a resolution is well formed: its packages are in the order
  of their keys, one package a key; every root and every dependency of a package is a package
  of the same resolution, so the graph can be walked without a miss; and no package is deeper
  than 63, so no walk over it is longer.
\<close>

theorem resolution_well_formed:
  assumes "resolve_walking m ef every_path = Inr (r, ds)"
  shows "sorted (map pkg_ga (res_packages r)) \<and> distinct (map pkg_ga (res_packages r)) \<and>
    set (res_roots r) \<union> set (res_test_roots r) \<subseteq> pkg_ga ` set (res_packages r) \<and>
    (\<forall>p \<in> set (res_packages r). set (pkg_dependencies p) \<subseteq> pkg_ga ` set (res_packages r) \<and>
       1 \<le> pkg_depth p \<and> pkg_depth p \<le> 63)"
proof -
  obtain mv deps dev cx w sel where w: "walk_from every_path mv ef 1 (seed deps dev mv) (walk_empty cx) = Inr w"
    and r: "res_packages r = packages_of mv w sel" "res_roots r = map root_ga (filter (\<lambda>d. \<not> is_local d) deps)"
      "res_test_roots r = map root_ga (filter (\<lambda>d. \<not> is_local d) dev)"
    and ok: "sel_ok mv 63 sel" "edges_ok sel (wk_edges w)" "widened (wk_selected w) sel"
    using resolve_walkingE [OF assms] .
  have keys: "pkg_ga ` set (res_packages r) = fst ` set sel"
    using packages_of_keys [OF ok(1), of w] unfolding r packages_of_def by (metis image_set set_sort_by)
  have inv: "distinct (map (coord_ga \<circ> pkg_coord) (map (package_of mv w) sel))"
  proof -
    have "map (coord_ga \<circ> pkg_coord) (map (package_of mv w) sel) = map fst sel"
      using packages_of_keys [OF ok(1), of w] by (simp only: pkg_ga_def [abs_def] comp_def)
    then show ?thesis using ok(1) by (simp only: sel_ok_def)
  qed
  have "sorted (map pkg_ga (res_packages r))"
    using sort_by_coord [OF inv] by (simp add: r packages_of_def pkg_ga_def [abs_def] comp_def)
  moreover have "distinct (map pkg_ga (res_packages r))"
    using inv by (simp add: r packages_of_def map_fst_sort_by pkg_ga_def [abs_def] comp_def)
  moreover have "set (res_roots r) \<union> set (res_test_roots r) \<subseteq> fst ` set sel"
    unfolding r(2,3)
  proof (clarsimp, intro conjI subsetI)
    have root: "root_ga d \<in> fst ` set sel" if "d \<in> set deps \<and> \<not> is_local d \<or> d \<in> set dev \<and> \<not> is_local d" for d
    proof -
      have "seed_one mv CpCompile d \<in> set (seed deps dev mv) \<or> seed_one mv CpTest d \<in> set (seed deps dev mv)"
        using that by (auto simp: seed_def)
      then have "reached (seed_one mv CpCompile d) sel \<or> reached (seed_one mv CpTest d) sel"
        using seed_reached(1) [OF w ok(3)] by blast
      then show ?thesis unfolding keys_map_of by (auto simp: reached_def)
    qed
    show "g \<in> root_ga ` {d \<in> set deps. \<not> is_local d} \<Longrightarrow> g \<in> fst ` set sel" for g using root by auto
    show "g \<in> root_ga ` {d \<in> set dev. \<not> is_local d} \<Longrightarrow> g \<in> fst ` set sel" for g using root by auto
  qed
  moreover have "\<forall>p \<in> set (res_packages r). set (pkg_dependencies p) \<subseteq> fst ` set sel \<and> 1 \<le> pkg_depth p \<and> pkg_depth p \<le> 63"
    unfolding r(1) packages_of_ball [OF ok(1)] subset_iff package_of_simps
    using ok(1,2) unfolding sel_ok_def edges_ok_def by blast
  ultimately show ?thesis by (simp add: keys)
qed

section \<open>Declared and managed versions\<close>

definition settle :: "managed_versions \<Rightarrow> dependency \<Rightarrow> dependency" where
  "settle mv d = (if is_managed d then d\<lparr>dep_version := the (mv_get mv (dep_group d) (dep_artifact d))\<rparr> else d)"

lemma settle_simps [simp]:
  "root_ga (settle mv d) = root_ga d" "is_local (settle mv d) = is_local d"
  "dep_compile_only (settle mv d) = dep_compile_only d" "dep_runtime_only (settle mv d) = dep_runtime_only d"
  by (simp_all add: settle_def root_ga_def is_local_def)

lemma with_managed_settled:
  assumes "with_managed_versions ds mv sec = Inr ds'"
  shows "ds' = map (settle mv) ds \<and> (\<forall>d \<in> set ds. is_managed d \<longrightarrow> mv_get mv (dep_group d) (dep_artifact d) \<noteq> None)"
  using assms unfolding with_managed_versions_def collect_Inr
proof (induction ds arbitrary: ds')
  case (Cons d ds)
  then show ?case
    by (cases ds') (auto simp: settle_def split: if_splits option.splits)
qed simp

text \<open>What the manifest declares, the tests' dependencies after the rest, local jars aside.\<close>

definition declared :: "manifest \<Rightarrow> dependency list" where
  "declared m = filter (\<lambda>d. \<not> is_local d) (effective_dependencies m @ mf_dev_dependencies m)"

definition declared_version :: "managed_versions \<Rightarrow> dependency \<Rightarrow> str option" where
  "declared_version mv d = (if is_managed d then mv_get mv (dep_group d) (dep_artifact d) else Some (dep_version d))"

lemma find_map: "find P (map f xs) = map_option f (find (P \<circ> f) xs)"
  by (induction xs) auto

lemma find_append: "find P (xs @ ys) = (case find P xs of None \<Rightarrow> find P ys | Some x \<Rightarrow> Some x)"
  by (induction xs) auto

lemma find_seed:
  "find (\<lambda>item. item_ga item = g) (seed (map (settle mv) ds) (map (settle mv) dev) mv) = Some item \<longleftrightarrow>
   (\<exists>cp d. item = seed_one mv cp (settle mv d) \<and> find (\<lambda>x. root_ga x = g) (filter (\<lambda>d. \<not> is_local d) (ds @ dev)) = Some d \<and>
     cp = (if \<exists>d \<in> set ds. \<not> is_local d \<and> root_ga d = g then CpCompile else CpTest))"
proof -
  have "find (\<lambda>item. item_ga item = g) (map (seed_one mv cp) (filter (\<lambda>d. \<not> is_local d) (map (settle mv) xs))) =
      map_option (\<lambda>d. seed_one mv cp (settle mv d)) (find (\<lambda>x. root_ga x = g) (filter (\<lambda>d. \<not> is_local d) xs))" for cp xs
    by (induction xs) auto
  moreover have "find (\<lambda>x. root_ga x = g) (filter (\<lambda>d. \<not> is_local d) ds) = None \<longleftrightarrow>
      \<not> (\<exists>d \<in> set ds. \<not> is_local d \<and> root_ga d = g)"
    by (auto simp: find_None_iff)
  ultimately show ?thesis
    by (cases "find (\<lambda>x. root_ga x = g) (filter (\<lambda>d. \<not> is_local d) ds)")
      (auto simp: seed_def find_append)
qed

lemma resolve_inputsE:
  assumes "resolve_inputs m ef = Inr (mv, deps, dev, cx)"
  shows "managed_versions_with m ef ctx_new = (Inr mv, cx)" and "deps = map (settle mv) (effective_dependencies m)"
    and "dev = map (settle mv) (mf_dev_dependencies m)"
    and "d \<in> set (declared m) \<Longrightarrow> declared_version mv d = Some (dep_version (settle mv d))"
    and "d \<in> set (declared m) \<Longrightarrow> \<not> is_managed d \<Longrightarrow> \<not> is_range (dep_version d)"
proof -
  obtain mvr cx1 where mvr: "managed_versions_with m ef ctx_new = (mvr, cx1)" by fastforce
  have none: "declared_range (effective_dependencies m @ mf_dev_dependencies m) = None"
    using assms by (cases "declared_range (effective_dependencies m @ mf_dev_dependencies m)")
      (simp_all add: resolve_inputs_def Let_def)
  with assms mvr have "mvr = Inr mv" "cx1 = cx"
    and deps: "with_managed_versions (effective_dependencies m) mv ''dependencies'' = Inr deps"
      "with_managed_versions (mf_dev_dependencies m) mv ''dev-dependencies'' = Inr dev"
    by (auto simp: resolve_inputs_def Let_def and_then_Inr)
  with mvr show "managed_versions_with m ef ctx_new = (Inr mv, cx)" by simp
  note settled = with_managed_settled [OF deps(1)] with_managed_settled [OF deps(2)]
  then show "deps = map (settle mv) (effective_dependencies m)" "dev = map (settle mv) (mf_dev_dependencies m)" by simp_all
  show "declared_version mv d = Some (dep_version (settle mv d))" if "d \<in> set (declared m)"
    using that settled by (auto simp: declared_def declared_version_def settle_def)
  show "\<not> is_range (dep_version d)" if "d \<in> set (declared m)" "\<not> is_managed d"
    using that none by (auto simp: declared_range_def find_None_iff declared_def)
qed

text \<open>
  Property C1. What the manifest declares wins: a resolution holds every declared dependency, as
  a direct package at depth 1, at exactly the version its first declaration gives (the managed
  one, where the declaration leaves it out), whatever versions its transitive dependencies ask
  for; and a declaration that is a version range never gets that far.
\<close>

theorem declared_wins:
  assumes "resolve_walking m ef every_path = Inr (r, ds)"
    and "find (\<lambda>x. root_ga x = g) (declared m) = Some d"
  shows "\<exists>mv cx. managed_versions_with m ef ctx_new = (Inr mv, cx) \<and>
    (\<exists>p \<in> set (res_packages r). pkg_ga p = g \<and> pkg_direct p \<and> pkg_depth p = 1 \<and>
       declared_version mv d = Some (coord_version (pkg_coord p))) \<and>
    (\<not> is_managed d \<longrightarrow> \<not> is_range (dep_version d))"
proof -
  obtain mv deps dev cx w sel where inputs: "resolve_inputs m ef = Inr (mv, deps, dev, cx)"
    and w: "walk_from every_path mv ef 1 (seed deps dev mv) (walk_empty cx) = Inr w"
    and r: "res_packages r = packages_of mv w sel"
    and ok: "sel_ok mv 63 sel" "widened (wk_selected w) sel"
    using resolve_walkingE [OF assms(1)] .
  note parts = resolve_inputsE [OF inputs]
  have d: "d \<in> set (declared m)" using assms(2) by (auto simp: find_Some_iff in_set_conv_nth)
  obtain cp where item: "find (\<lambda>item. item_ga item = g) (seed deps dev mv) = Some (seed_one mv cp (settle mv d))"
    using find_seed assms(2) unfolding parts(2,3) declared_def by blast
  then obtain s where s: "map_of sel g = Some s" "same_request (seed_one mv cp (settle mv d)) s"
    using seed_reached(2) [OF w ok(2)] by blast
  have "seed_one mv cp (settle mv d) \<in> set (seed deps dev mv)"
    using item by (auto simp: find_Some_iff in_set_conv_nth)
  then have "reached (seed_one mv cp (settle mv d)) sel" by (rule seed_reached(1) [OF w ok(2)])
  moreover have "root_ga d = g" using assms(2) by (auto simp: find_Some_iff)
  ultimately have "se_direct s" using s(1) by (simp add: reached_def)
  with s parts(4) [OF d] have "\<exists>p \<in> set (res_packages r). pkg_ga p = g \<and> pkg_direct p \<and> pkg_depth p = 1 \<and>
       declared_version mv d = Some (coord_version (pkg_coord p))"
    unfolding r packages_of_lookup [OF ok(1)]
    by (auto simp: same_request_def)
  with parts(1) parts(5) [OF d] show ?thesis by blast
qed

text \<open>The pins are laid down first, in the manifest's order, and no BOM moves one.\<close>

definition pin_key :: "managed \<Rightarrow> str \<times> str" where
  "pin_key x = (mg_group x, mg_artifact x)"

definition pinned :: "manifest \<Rightarrow> str \<Rightarrow> str \<Rightarrow> str option" where
  "pinned m grp artifact = map_option mg_version
     (find (\<lambda>x. pin_key x = (grp, artifact)) (filter (\<lambda>x. \<not> mg_bom x) (mf_managed m)))"

lemma fold_add_pin:
  "hm_inv (mv_versions mv) \<Longrightarrow> map_of (mv_versions (fold add_pin xs mv)) k =
   (case map_of (mv_versions mv) k of Some v \<Rightarrow> Some v | None \<Rightarrow> map_option mg_version (find (\<lambda>x. pin_key x = k) xs))"
proof (induction xs arbitrary: mv)
  case (Cons x xs)
  have "hm_inv (mv_versions (add_pin x mv))" using Cons.prems by (simp add: add_pin_or_insert hm.inv_or_insert)
  from Cons.IH [OF this] Cons.prems show ?case
    by (auto simp: add_pin_or_insert hm.get_or_insert pin_key_def split: option.splits)
qed (simp split: option.splits)

lemma add_bom_entry_keeps:
  "map_of (mv_versions mv) k = Some v \<Longrightarrow> map_of (mv_versions (add_bom_entry e mv)) k = Some v"
  by (cases e) (auto simp: add_bom_entry_def Let_def map_of_hm_put split: option.splits)

lemma fold_bom_keeps:
  "map_of (mv_versions mv) k = Some v \<Longrightarrow> map_of (mv_versions (fold add_bom_entry es mv)) k = Some v"
  by (induction es arbitrary: mv) (simp_all add: add_bom_entry_keeps)

lemma add_boms_keeps:
  "add_boms ef ms mv cx = (Inr mv', cx') \<Longrightarrow> map_of (mv_versions mv) k = Some v \<Longrightarrow> map_of (mv_versions mv') k = Some v"
proof (induction ms arbitrary: mv cx)
  case (Cons x ms)
  have "\<exists>(bom :: eff_pom) cx1. add_boms ef ms (fold add_bom_entry (eff_managed bom) mv) cx1 = (Inr mv', cx')"
    using Cons.prems(1) by (auto simp: Let_def split: prod.splits sum.splits)
  then obtain bom :: eff_pom and cx1 where "add_boms ef ms (fold add_bom_entry (eff_managed bom) mv) cx1 = (Inr mv', cx')" by blast
  from Cons.IH [OF this fold_bom_keeps [OF Cons.prems(2)]] show ?case .
qed simp

lemma managed_versions_pinned:
  assumes "managed_versions_with m ef cx = (Inr mv, cx')" and "pinned m grp artifact = Some v"
  shows "mv_get mv grp artifact = Some v"
proof -
  have "map_of (mv_versions (fold add_pin (filter (\<lambda>x. \<not> mg_bom x) (mf_managed m)) \<lparr>mv_versions = [], mv_exclusions = []\<rparr>))
      (grp, artifact) = Some v"
    using assms(2) by (simp add: fold_add_pin pinned_def)
  with add_boms_keeps [OF assms(1) [unfolded managed_versions_with_def]] show ?thesis by (simp add: mv_get_def)
qed

text \<open>
  Property C4. \<^verbatim>\<open>[managed]\<close> decides transitive versions: a package the manifest does not declare has
  exactly the version the first pin of its artifact gives, under every classifier and whatever
  POMs and BOMs say; and a declared dependency without a version takes the pin's.
\<close>

theorem pins_hold:
  assumes "resolve_walking m ef every_path = Inr (r, ds)" and "p \<in> set (res_packages r)"
    and "pinned m (coord_group (pkg_coord p)) (coord_artifact (pkg_coord p)) = Some v"
    and how: "pkg_depth p \<noteq> 1 \<or> (\<exists>d. find (\<lambda>x. root_ga x = pkg_ga p) (declared m) = Some d \<and> is_managed d)"
  shows "coord_version (pkg_coord p) = v"
proof -
  obtain mv deps dev cx w sel where inputs: "resolve_inputs m ef = Inr (mv, deps, dev, cx)"
    and w: "walk_from every_path mv ef 1 (seed deps dev mv) (walk_empty cx) = Inr w"
    and r: "res_packages r = packages_of mv w sel"
    and ok: "sel_ok mv 63 sel" "widened (wk_selected w) sel"
    using resolve_walkingE [OF assms(1)] .
  note parts = resolve_inputsE [OF inputs]
  have v: "mv_get mv (coord_group (pkg_coord p)) (coord_artifact (pkg_coord p)) = Some v"
    using managed_versions_pinned [OF parts(1) assms(3)] .
  have "\<forall>p \<in> set (res_packages r). pkg_depth p = 1 \<or> managed_ok mv (pkg_coord p)"
    using ok(1) unfolding r packages_of_ball [OF ok(1)] package_of_simps sel_ok_def by blast
  then have deep: "pkg_depth p \<noteq> 1 \<Longrightarrow> coord_version (pkg_coord p) = v"
    using assms(2) v by (auto simp: managed_ok_def)
  show ?thesis
  proof (cases "pkg_depth p = 1")
    case True
    with how obtain d where d: "find (\<lambda>x. root_ga x = pkg_ga p) (declared m) = Some d" "is_managed d" by auto
    from declared_wins [OF assms(1) d(1)] parts(1) obtain q where q: "q \<in> set (res_packages r)" "pkg_ga q = pkg_ga p"
      "declared_version mv d = Some (coord_version (pkg_coord q))" by auto
    have "q = p"
      using q assms(2) resolution_well_formed [OF assms(1)] by (metis distinct_map inj_onD)
    moreover have "dep_group d = coord_group (pkg_coord p)" "dep_artifact d = coord_artifact (pkg_coord p)"
      using d(1) by (auto simp: find_Some_iff root_ga_def pkg_ga_def coord_ga_def ga_with_classifier_def ga_new_def)
    ultimately show ?thesis using q(3) d(2) v by (simp add: declared_version_def)
  next
    case False
    then show ?thesis using deep by simp
  qed
qed

section \<open>Classpaths\<close>

lemma select_below:
  "below f sel \<Longrightarrow> pn_classpath item \<le> f (item_ga item) \<Longrightarrow> below f (select item sel)"
  unfolding below_def select_def Let_def item_ga_def map_of_hm_put
  by (auto simp: fresh_selected_def again_selected_def cp_join_sup split: option.splits if_splits)

lemma mediate_below_fold:
  assumes "fold (mediate_one ep) level (w, adm, rew) = (w', adm', rew')"
    and "below f (wk_selected w)" and "\<forall>item \<in> set (level @ adm @ rew). pn_classpath item \<le> f (item_ga item)"
    and "sel_ok mv d (wk_selected w)" and "\<forall>item \<in> set level. pending_ok mv d sel0 item"
  shows "below f (wk_selected w') \<and> (\<forall>item \<in> set (adm' @ rew'). pn_classpath item \<le> f (item_ga item))"
  using assms
proof (induction level arbitrary: w adm rew)
  case (Cons item level)
  obtain w1 adm1 rew1 where 1: "mediate_one ep item (w, adm, rew) = (w1, adm1, rew1)" by (metis prod_cases3)
  note spec = mediate_one_spec [OF 1]
  have item: "pn_classpath item \<le> f (item_ga item)" using Cons.prems(3) by simp
  have ok: "sel_ok mv d (wk_selected w1)"
    unfolding spec(1) by (rule select_ok [OF Cons.prems(4), of sel0]) (use Cons.prems(5) in simp)
  have below: "below f (wk_selected w1)" unfolding spec(1) using select_below [OF Cons.prems(2) item] .
  obtain rs where rs: "rew1 = rew @ rs" "list_all (rewalk_for w item) rs" using spec(4) by blast
  have "pn_classpath r \<le> f (item_ga r)" if "r \<in> set rs" for r
  proof -
    have "rewalk_for w item r" using rs(2) that by (simp add: list_all_iff)
    then obtain s where s: "map_of (wk_selected w) (item_ga item) = Some s" "pn_coord r = se_coord s"
        "pn_classpath r = cp_join (se_classpath s) (pn_classpath item)"
      unfolding rewalk_for_def item_ga_def by blast
    then have "item_ga r = item_ga item" using Cons.prems(4) by (simp add: sel_ok_def item_ga_def)
    with s item Cons.prems(2) show ?thesis by (simp add: below_def cp_join_sup)
  qed
  then have "\<forall>item \<in> set (level @ adm1 @ rew1). pn_classpath item \<le> f (item_ga item)"
    using Cons.prems(3) rs(1) spec(3) by (auto split: if_splits)
  with below ok show ?case using Cons.IH [of w1 adm1 rew1] Cons.prems(1,5) 1 by simp
qed simp

text \<open>Every assignment closed under the edges the walk ends with, and above its seeds, lies above it.\<close>

definition goes_to :: "pending \<Rightarrow> ga" where
  "goes_to item = (case pn_parent item of None \<Rightarrow> item_ga item | Some p \<Rightarrow> p)"

definition bounded_by :: "(ga \<Rightarrow> classpath) \<Rightarrow> nat \<Rightarrow> pending list \<Rightarrow> walk \<Rightarrow> bool" where
  "bounded_by f d level w \<longleftrightarrow> ((\<forall>p c. has_edge (wk_edges w) p c \<longrightarrow> f p \<le> f c) \<longrightarrow>
     below f (wk_selected w) \<and> (\<forall>item \<in> set level. pn_classpath item \<le> f (goes_to item)))"

lemma bounded_step:
  assumes "bounded_by f d level w" and "good mv d level w" and "walk_level ep mv ef d level w = Inr (nxt, w')"
  shows "bounded_by f (Suc d) nxt w'"
  unfolding bounded_by_def
proof (intro impI)
  assume closed': "\<forall>p c. has_edge (wk_edges w') p c \<longrightarrow> f p \<le> f c"
  obtain w1 admitted where med: "mediate ep level w = (w1, admitted)"
    and w': "wk_selected w' = wk_selected w1" "wk_edges w' = wk_edges w1"
    and nxt: "\<forall>c \<in> set nxt. \<exists>parent \<in> set admitted. managed_ok mv (pn_coord c) \<and> pn_depth c = d + 1 \<and>
      pn_classpath c = pn_classpath parent \<and> pn_parent c = Some (item_ga parent)"
    using walk_level_spec [OF assms(3)] .
  have edges: "has_edge (wk_edges w') p c \<longleftrightarrow> has_edge (wk_edges w) p c \<or>
      (\<exists>item \<in> set level. pn_parent item = Some p \<and> item_ga item = c)" for p c
    using mediate_mediated [OF med] by (simp add: mediated_def w')
  with closed' assms(1) have below: "below f (wk_selected w)"
    and items: "\<forall>item \<in> set level. pn_classpath item \<le> f (goes_to item)"
    unfolding bounded_by_def by blast+
  have "pn_classpath item \<le> f (item_ga item)" if "item \<in> set level" for item
  proof (cases "pn_parent item")
    case None
    then show ?thesis using items that by (auto simp: goes_to_def)
  next
    case (Some p)
    then have "pn_classpath item \<le> f p" using items that by (auto simp: goes_to_def)
    also have "f p \<le> f (item_ga item)" using Some that edges closed' by blast
    finally show ?thesis .
  qed
  moreover obtain adm rew where "fold (mediate_one ep) level (w, [], []) = (w1, adm, rew)" "admitted = adm @ rew"
    using med by (auto simp: mediate_def split: prod.splits)
  moreover have "sel_ok mv d (wk_selected w)" "\<forall>item \<in> set level. pending_ok mv d (wk_selected w) item"
    using assms(2) sel_ok_mono by (auto simp: good_def)
  ultimately have "below f (wk_selected w1) \<and> (\<forall>item \<in> set admitted. pn_classpath item \<le> f (item_ga item))"
    using mediate_below_fold [of ep level w "[]" "[]" w1 adm rew f mv d "wk_selected w"] below by auto
  with nxt show "below f (wk_selected w') \<and> (\<forall>item \<in> set nxt. pn_classpath item \<le> f (goes_to item))"
    by (fastforce simp: w' goes_to_def)
qed

lemma walk_bounded:
  assumes "walk_from ep mv ef 1 level w = Inr w'" and "good mv 1 level w" and "bounded_by f 1 level w"
    and "\<forall>p c. has_edge (wk_edges w') p c \<longrightarrow> f p \<le> f c"
  shows "below f (wk_selected w')"
proof -
  let ?P = "\<lambda>d lv v. good mv d lv v \<and> bounded_by f d lv v"
  have "\<exists>d. ?P d [] w'"
    by (rule walk_from_invariant [of ep mv ef 1 level w w' ?P, OF assms(1)])
      (use assms(2,3) good_step bounded_step in blast)+
  with assms(4) show ?thesis by (auto simp: bounded_by_def)
qed

text \<open>Where the manifest itself puts what it declares.\<close>

definition place_of :: "classpath \<Rightarrow> dependency \<Rightarrow> classpath" where
  "place_of cp d = (if dep_compile_only d then CpProvided else if dep_runtime_only d then CpRuntime else cp)"

definition declared_places :: "manifest \<Rightarrow> (ga \<times> classpath) list" where
  "declared_places m =
     map (\<lambda>d. (root_ga d, place_of CpCompile d)) (filter (\<lambda>d. \<not> is_local d) (effective_dependencies m)) @
     map (\<lambda>d. (root_ga d, place_of CpTest d)) (filter (\<lambda>d. \<not> is_local d) (mf_dev_dependencies m))"

lemma seed_one_place: "pn_classpath (seed_one mv cp (settle mv d)) = place_of cp d"
  by (simp add: seed_one_def place_of_def)

lemma seed_places:
  "map (\<lambda>item. (item_ga item, pn_classpath item))
     (seed (map (settle mv) (effective_dependencies m)) (map (settle mv) (mf_dev_dependencies m)) mv) = declared_places m"
proof -
  have "map (\<lambda>item. (item_ga item, pn_classpath item)) (map (seed_one mv cp) (filter (\<lambda>d. \<not> is_local d) (map (settle mv) ds))) =
      map (\<lambda>d. (root_ga d, place_of cp d)) (filter (\<lambda>d. \<not> is_local d) ds)" for cp ds
    by (induction ds) (simp_all add: seed_one_place)
  then show ?thesis by (simp add: seed_def declared_places_def)
qed

text \<open>
  Property C3. The classpaths of a resolution are the least that its graph allows: every package
  goes where the manifest puts it and wherever a package that depends on it goes, and nowhere
  else. Any other assignment with those two properties puts it in at least those places; so the
  fixed point is reached, and neither the order of the walk nor that of the edges matters.
\<close>

theorem classpaths_least:
  assumes "resolve_walking m ef every_path = Inr (r, ds)"
  shows "(\<forall>(g, place) \<in> set (declared_places m). \<exists>p \<in> set (res_packages r). pkg_ga p = g \<and> place \<le> pkg_classpath p) \<and>
    (\<forall>p \<in> set (res_packages r). \<forall>q \<in> set (res_packages r). pkg_ga q \<in> set (pkg_dependencies p) \<longrightarrow>
       pkg_classpath p \<le> pkg_classpath q) \<and>
    ((\<forall>(g, place) \<in> set (declared_places m). place \<le> f g) \<and>
     (\<forall>p \<in> set (res_packages r). \<forall>g \<in> set (pkg_dependencies p). f (pkg_ga p) \<le> f g) \<longrightarrow>
       (\<forall>p \<in> set (res_packages r). pkg_classpath p \<le> f (pkg_ga p)))"
proof (intro conjI impI)
  obtain mv deps dev cx w sel where inputs: "resolve_inputs m ef = Inr (mv, deps, dev, cx)"
    and w: "walk_from every_path mv ef 1 (seed deps dev mv) (walk_empty cx) = Inr w"
    and sel: "sel = widen (wk_edges w) (wk_selected w)" and r: "res_packages r = packages_of mv w sel"
    and ok: "sel_ok mv 63 sel" "edges_ok sel (wk_edges w)" "widened (wk_selected w) sel"
    using resolve_walkingE [OF assms] .
  note lookup = packages_of_lookup [OF ok(1), where w = w, folded r]
    and ball = packages_of_ball [OF ok(1), where w = w, folded r]
  have ga: "map_of sel g = Some s \<Longrightarrow> pkg_ga (package_of mv w (g, s)) = g" for g s
    using ok(1) by (simp add: sel_ok_def pkg_ga_def)
  have "hm_inv (wk_edges w)" using ok(2) by (simp add: edges_ok_def)
  note widen = widen_facts [OF this, of "wk_selected w", folded sel]
  have places: "declared_places m = map (\<lambda>item. (item_ga item, pn_classpath item)) (seed deps dev mv)"
    using seed_places resolve_inputsE(2,3) [OF inputs] by simp
  show "\<forall>(g, place) \<in> set (declared_places m). \<exists>p \<in> set (res_packages r). pkg_ga p = g \<and> place \<le> pkg_classpath p"
  proof -
    have "\<exists>p \<in> set (res_packages r). pkg_ga p = item_ga x \<and> pn_classpath x \<le> pkg_classpath p"
      if "x \<in> set (seed deps dev mv)" for x
      using seed_reached(1) [OF w ok(3) that] unfolding lookup package_of_simps reached_def by blast
    then show ?thesis by (auto simp: places)
  qed
  show "\<forall>p \<in> set (res_packages r). \<forall>q \<in> set (res_packages r). pkg_ga q \<in> set (pkg_dependencies p) \<longrightarrow>
      pkg_classpath p \<le> pkg_classpath q"
    unfolding ball using widen ga by (auto simp: edge_closed_def)
  assume f: "(\<forall>(g, place) \<in> set (declared_places m). place \<le> f g) \<and>
     (\<forall>p \<in> set (res_packages r). \<forall>g \<in> set (pkg_dependencies p). f (pkg_ga p) \<le> f g)"
  have closed: "\<forall>p c. has_edge (wk_edges w) p c \<longrightarrow> f p \<le> f c"
  proof (intro allI impI)
    fix p c
    assume e: "has_edge (wk_edges w) p c"
    then obtain s where "map_of sel p = Some s" using ok(2) by (auto simp: edges_ok_def keys_map_of)
    with f e ga show "f p \<le> f c" unfolding ball by auto
  qed
  have "bounded_by f 1 (seed deps dev mv) (walk_empty cx)"
    using f by (auto simp: bounded_by_def below_def walk_empty_def goes_to_def places seed_def)
  with walk_bounded [OF w seed_good] closed have "below f (wk_selected w)" by blast
  with widen closed have "below f sel" by blast
  then show "\<forall>p \<in> set (res_packages r). pkg_classpath p \<le> f (pkg_ga p)"
    unfolding ball by (auto simp: below_def ga)
qed

section \<open>Nearest\<close>

text \<open>Without \<open>every_path\<close>, a package's depth is its distance from the manifest.\<close>

definition nearest :: "ga set \<Rightarrow> (ga \<times> selected) list \<Rightarrow> (ga \<times> ga list) list \<Rightarrow> bool" where
  "nearest roots sel edges \<longleftrightarrow>
     (\<forall>p c sp sc. has_edge edges p c \<longrightarrow> map_of sel p = Some sp \<longrightarrow> map_of sel c = Some sc \<longrightarrow> se_depth sc \<le> se_depth sp + 1) \<and>
     (\<forall>g s. map_of sel g = Some s \<longrightarrow> (se_depth s = 1 \<and> g \<in> roots) \<or>
        (\<exists>p sp. has_edge edges p g \<and> map_of sel p = Some sp \<and> se_depth s = se_depth sp + 1))"

definition level_at :: "ga set \<Rightarrow> nat \<Rightarrow> (ga \<times> selected) list \<Rightarrow> pending \<Rightarrow> bool" where
  "level_at roots d sel item \<longleftrightarrow> pn_depth item = d \<and> (case pn_parent item of
     None \<Rightarrow> d = 1 \<and> item_ga item \<in> roots | Some p \<Rightarrow> \<exists>sp. map_of sel p = Some sp \<and> se_depth sp + 1 = d)"

lemma mediate_nearest:
  assumes "mediated level w w'" and "sel_ok mv d (wk_selected w')" and "edges_ok (wk_selected w) (wk_edges w)"
    and "nearest roots (wk_selected w) (wk_edges w)" and "\<forall>item \<in> set level. level_at roots d (wk_selected w) item"
  shows "nearest roots (wk_selected w') (wk_edges w')"
  unfolding nearest_def
proof (intro conjI allI impI)
  have ext: "extends (wk_selected w) (wk_selected w')"
    and edges: "\<And>p c. has_edge (wk_edges w') p c \<longleftrightarrow> has_edge (wk_edges w) p c \<or>
      (\<exists>item \<in> set level. pn_parent item = Some p \<and> item_ga item = c)"
    using assms(1) by (auto simp: mediated_def)
  have same: "map_of (wk_selected w') g = Some s' \<Longrightarrow> se_depth s' = se_depth s"
    if "map_of (wk_selected w) g = Some s" for g s s'
    using extendsD [OF ext that] by (auto simp: selected_le_def)
  {
    fix p c sp sc
    assume e: "has_edge (wk_edges w') p c" "map_of (wk_selected w') p = Some sp" "map_of (wk_selected w') c = Some sc"
    then consider "has_edge (wk_edges w) p c" | item where "item \<in> set level" "pn_parent item = Some p"
      using edges by blast
    then show "se_depth sc \<le> se_depth sp + 1"
    proof cases
      case 1
      then obtain s t where st: "map_of (wk_selected w) p = Some s" "map_of (wk_selected w) c = Some t"
        using assms(3) unfolding edges_ok_def keys_map_of by blast
      with 1 assms(4) have "se_depth t \<le> se_depth s + 1" unfolding nearest_def by blast
      with same [OF st(1) e(2)] same [OF st(2) e(3)] show ?thesis by simp
    next
      case (2 item)
      have "level_at roots d (wk_selected w) item" using assms(5) 2(1) by blast
      with 2(2) obtain s where "map_of (wk_selected w) p = Some s" "se_depth s + 1 = d"
        by (auto simp: level_at_def)
      with same [OF _ e(2)] have "se_depth sp + 1 = d" by fastforce
      with assms(2) e(3) show ?thesis by (simp add: sel_ok_def)
    qed
  }
  fix g s
  assume g: "map_of (wk_selected w') g = Some s"
  let ?by = "\<exists>p sp. has_edge (wk_edges w') p g \<and> map_of (wk_selected w') p = Some sp \<and> se_depth s = se_depth sp + 1"
  have moved: "?by" if e: "has_edge (wk_edges w') p g" "map_of (wk_selected w) p = Some sp" "se_depth s = se_depth sp + 1" for p sp
  proof -
    obtain sp' where "map_of (wk_selected w') p = Some sp'" using extendsD [OF ext e(2)] by blast
    with e same [OF e(2) this] show ?thesis by auto
  qed
  show "se_depth s = 1 \<and> g \<in> roots \<or> ?by"
  proof (cases "map_of (wk_selected w) g")
    case (Some s0)
    with assms(4) have "se_depth s0 = 1 \<and> g \<in> roots \<or> (\<exists>p sp. has_edge (wk_edges w) p g \<and> map_of (wk_selected w) p = Some sp \<and>
        se_depth s0 = se_depth sp + 1)" by (simp add: nearest_def)
    then show ?thesis unfolding same [OF Some g, symmetric] using moved edges by blast
  next
    case None
    show ?thesis
    proof (cases "find (\<lambda>item. item_ga item = g) level")
      case none: None
      have "case find (\<lambda>item. item_ga item = g) level of None \<Rightarrow> map_of (wk_selected w') g = None
          | Some item \<Rightarrow> \<exists>s. map_of (wk_selected w') g = Some s \<and> same_request item s"
        using assms(1) None unfolding mediated_def by (simp add: map_of_eq_None_iff)
      with none g show ?thesis by simp
    next
      case (Some item)
      then have item: "item \<in> set level" "item_ga item = g" by (auto simp: find_Some_iff)
      have at: "level_at roots d (wk_selected w) item" using assms(5) item(1) by blast
      with mediated_find [OF assms(1) None Some] g have d: "se_depth s = d"
        by (simp add: same_request_def level_at_def)
      show ?thesis
      proof (cases "pn_parent item")
        case None
        with at d item show ?thesis by (simp add: level_at_def)
      next
        case (Some p)
        with at obtain sp where sp: "map_of (wk_selected w) p = Some sp" "se_depth sp + 1 = d" by (auto simp: level_at_def)
        have "has_edge (wk_edges w') p g" using edges item Some by blast
        from moved [OF this sp(1)] sp(2) d show ?thesis by simp
      qed
    qed
  qed
qed

lemma rewalk_never: "rewalk_of False item w = (w, [])"
  by (simp add: rewalk_of_def Let_def split: option.splits)

lemma admitted_fold:
  assumes "fold (mediate_one False) level (w, adm, []) = (w', adm', rew')"
    and "\<forall>i \<in> set adm. \<exists>s. map_of (wk_selected w) (item_ga i) = Some s \<and> se_depth s = pn_depth i \<and> pn_depth i = d"
    and "\<forall>i \<in> set level. pn_depth i = d"
  shows "rew' = [] \<and>
    (\<forall>i \<in> set adm'. \<exists>s. map_of (wk_selected w') (item_ga i) = Some s \<and> se_depth s = pn_depth i \<and> pn_depth i = d)"
  using assms
proof (induction level arbitrary: w adm)
  case (Cons item level)
  obtain w1 adm1 rew1 where 1: "mediate_one False item (w, adm, []) = (w1, adm1, rew1)" by (metis prod_cases3)
  then have rew: "rew1 = []" by (auto simp: mediate_one_def Let_def rewalk_never split: option.splits)
  note spec = mediate_one_spec [OF 1]
  have ext: "extends (wk_selected w) (wk_selected w1)" unfolding spec(1) by (rule select_extends)
  have "\<exists>s. map_of (wk_selected w1) (item_ga i) = Some s \<and> se_depth s = pn_depth i \<and> pn_depth i = d" if i: "i \<in> set adm1" for i
  proof (cases "i \<in> set adm")
    case True
    with Cons.prems(2) obtain s where s: "map_of (wk_selected w) (item_ga i) = Some s" "se_depth s = pn_depth i" "pn_depth i = d"
      by blast
    with extendsD [OF ext s(1)] show ?thesis by (auto simp: selected_le_def)
  next
    case False
    with i spec(3) have "i = item" "map_of (wk_selected w) (item_ga item) = None" by (auto simp: item_ga_def split: if_splits)
    with select_reaches [of item "wk_selected w"] Cons.prems(3) show ?thesis by (auto simp: spec(1) item_ga_def)
  qed
  with Cons.IH [of w1 adm1] Cons.prems(1,3) 1 rew show ?case by simp
qed simp

definition near_at :: "ga set \<Rightarrow> nat \<Rightarrow> pending list \<Rightarrow> walk \<Rightarrow> bool" where
  "near_at roots d level w \<longleftrightarrow> nearest roots (wk_selected w) (wk_edges w) \<and>
     (\<forall>item \<in> set level. level_at roots d (wk_selected w) item)"

lemma near_step:
  assumes "near_at roots d level w" and "good mv d level w" and "walk_level False mv ef d level w = Inr (nxt, w')"
  shows "near_at roots (Suc d) nxt w'"
proof -
  obtain w1 admitted where med: "mediate False level w = (w1, admitted)"
    and w': "wk_selected w' = wk_selected w1" "wk_edges w' = wk_edges w1"
    and nxt: "\<forall>c \<in> set nxt. \<exists>parent \<in> set admitted. managed_ok mv (pn_coord c) \<and> pn_depth c = d + 1 \<and>
      pn_classpath c = pn_classpath parent \<and> pn_parent c = Some (item_ga parent)"
    using walk_level_spec [OF assms(3)] .
  have at: "\<forall>item \<in> set level. level_at roots d (wk_selected w) item"
    and near: "nearest roots (wk_selected w) (wk_edges w)"
    using assms(1) by (auto simp: near_at_def)
  have near': "nearest roots (wk_selected w') (wk_edges w')"
    using mediate_nearest [OF mediate_mediated [OF med] good_mediate(1) [OF assms(2) med] _ near at] assms(2)
    by (simp add: good_def w')
  obtain adm rew where fold: "fold (mediate_one False) level (w, [], []) = (w1, adm, rew)" "admitted = adm @ rew"
    using med by (auto simp: mediate_def split: prod.splits)
  have "\<forall>i \<in> set level. pn_depth i = d" using at by (simp add: level_at_def)
  from admitted_fold [OF fold(1) _ this] fold(2)
  have adm: "\<forall>i \<in> set admitted. \<exists>s. map_of (wk_selected w') (item_ga i) = Some s \<and> se_depth s = d"
    by (auto simp: w')
  have "level_at roots (Suc d) (wk_selected w') c" if "c \<in> set nxt" for c
  proof -
    obtain parent where "parent \<in> set admitted" "pn_depth c = d + 1" "pn_parent c = Some (item_ga parent)"
      using nxt \<open>c \<in> set nxt\<close> by blast
    with adm show ?thesis by (auto simp: level_at_def)
  qed
  with near' show ?thesis by (simp add: near_at_def)
qed

lemma seed_at: "item \<in> set (seed ds dev mv) \<Longrightarrow> pn_depth item = 1 \<and> pn_parent item = None"
  by (auto simp: seed_def)

lemma nearest_moved:
  assumes "nearest roots sel edges" and "widened sel sel'"
  shows "nearest roots sel' edges"
proof -
  have fwd: "\<exists>s'. map_of sel' g = Some s' \<and> se_depth s' = se_depth s" if "map_of sel g = Some s" for g s
    using assms(2) extendsD [OF _ that] by (auto simp: widened_def selected_le_def)
  have older: "\<exists>s. map_of sel g = Some s \<and> se_depth s' = se_depth s" if "map_of sel' g = Some s'" for g s'
    using widened_lookup(2) [OF assms(2) that] by (auto simp: selected_le_def)
  show ?thesis
    unfolding nearest_def
  proof (intro conjI allI impI)
    fix p c sp sc
    assume "has_edge edges p c" "map_of sel' p = Some sp" "map_of sel' c = Some sc"
    with assms(1) older show "se_depth sc \<le> se_depth sp + 1" unfolding nearest_def by metis
  next
    fix g s
    assume "map_of sel' g = Some s"
    then obtain s0 where "map_of sel g = Some s0" "se_depth s = se_depth s0" using older by blast
    with assms(1) fwd show "se_depth s = 1 \<and> g \<in> roots \<or>
        (\<exists>p sp. has_edge edges p g \<and> map_of sel' p = Some sp \<and> se_depth s = se_depth sp + 1)"
      unfolding nearest_def by metis
  qed
qed


text \<open>
  The walk refuses a graph it is not through with after 64 levels: at level 64 it
  ends only if nothing is left, and otherwise it is an error, even where that level is the last.
\<close>

lemma depth_limit:
  "(\<exists>w'. walk_from every_path mv ef 64 level w = Inr w') \<longleftrightarrow> level = []"
  by (subst walk_from.simps) (auto simp: and_then_Inr split: prod.splits)

section \<open>An example\<close>

text \<open>
  A manifest with two dependencies, one of them without a version, a pin and a test dependency;
  and a graph in which \<open>c\<close> is asked for twice, at versions the pin overrules.
\<close>

definition plain_dep :: "str \<Rightarrow> str \<Rightarrow> str option \<Rightarrow> pom_dependency" where
  "plain_dep artifact version scp = \<lparr>pd_group = ''g'', pd_artifact = artifact, pd_version = Some version, pd_scope = scp,
     pd_optional = False, pd_kind = ''jar'', pd_classifier = None, pd_exclusions = []\<rparr>"

definition example_graph :: "coord \<Rightarrow> ctx \<Rightarrow> eff_pom result \<times> ctx" where
  "example_graph c cx = (Inr \<lparr>eff_coord = c, eff_packaging = ''jar'', eff_properties = [], eff_managed = [],
     eff_dependencies =
       (if coord_artifact c = ''a'' then [plain_dep ''c'' ''1'' None, plain_dep ''b'' ''9'' None]
        else if coord_artifact c = ''b'' then [plain_dep ''c'' ''3'' (Some ''runtime''), plain_dep ''e'' ''1'' None] else []),
     eff_repositories = [], eff_imports = []\<rparr>, cx)"

definition example_manifest :: manifest where
  "example_manifest = (blank ''t'' ''1'' ''.'')\<lparr>
     mf_dependencies := [dependency_new ''g'' ''a'' ''1'', (dependency_new ''g'' ''b'' [])\<lparr>dep_runtime_only := True\<rparr>],
     mf_dev_dependencies := [dependency_new ''g'' ''d'' ''1''],
     mf_managed := [managed_new ''g'' ''c'' ''2'', managed_new ''g'' ''b'' ''5'']\<rparr>"

lemma example_resolves: "\<exists>r ds. resolve_walking example_manifest example_graph False = Inr (r, ds)"
proof -
  have "\<not> isl (resolve_walking example_manifest example_graph False)" by code_simp
  then show ?thesis by (cases "resolve_walking example_manifest example_graph False") auto
qed

theorem resolution_well_formed_witness:
  "\<exists>r ds. resolve_walking example_manifest example_graph False = Inr (r, ds) \<and>
     sorted (map pkg_ga (res_packages r)) \<and> distinct (map pkg_ga (res_packages r))"
  using example_resolves resolution_well_formed by blast

lemma example_declared:
  "find (\<lambda>x. root_ga x = Ga ''g'' ''b'' None) (declared example_manifest) =
     Some ((dependency_new ''g'' ''b'' [])\<lparr>dep_runtime_only := True\<rparr>)"
  by code_simp

theorem declared_wins_witness:
  "\<exists>r ds. resolve_walking example_manifest example_graph False = Inr (r, ds) \<and>
     (\<exists>p \<in> set (res_packages r). pkg_ga p = Ga ''g'' ''b'' None \<and> pkg_direct p \<and> pkg_depth p = 1)"
  using example_resolves declared_wins [OF _ example_declared] by meson

lemma example_transitive:
  "resolve_walking example_manifest example_graph False = Inr (r, ds) \<Longrightarrow>
   \<exists>p \<in> set (res_packages r). pkg_depth p = 2 \<and> pkg_ga p = Ga ''g'' ''c'' None \<and> pkg_classpath p = CpCompile"
proof -
  have "(case resolve_walking example_manifest example_graph False of Inl _ \<Rightarrow> False
    | Inr (r, ds) \<Rightarrow> list_ex (\<lambda>p. pkg_depth p = 2 \<and> pkg_ga p = Ga ''g'' ''c'' None \<and> pkg_classpath p = CpCompile) (res_packages r))"
    by code_simp
  moreover assume "resolve_walking example_manifest example_graph False = Inr (r, ds)"
  ultimately show ?thesis by (simp add: list_ex_iff)
qed

theorem pins_hold_witness:
  "\<exists>r ds p. resolve_walking example_manifest example_graph False = Inr (r, ds) \<and> p \<in> set (res_packages r) \<and>
     pkg_depth p = 2 \<and> coord_version (pkg_coord p) = ''2''"
proof -
  obtain r ds where r: "resolve_walking example_manifest example_graph False = Inr (r, ds)"
    using example_resolves by blast
  obtain p where p: "p \<in> set (res_packages r)" "pkg_depth p = 2" "pkg_ga p = Ga ''g'' ''c'' None"
    using example_transitive [OF r] by blast
  have "pinned example_manifest ''g'' ''c'' = Some ''2''" by code_simp
  moreover have "coord_group (pkg_coord p) = ''g''" "coord_artifact (pkg_coord p) = ''c''"
    using p(3) by (simp_all add: pkg_ga_def coord_ga_def ga_with_classifier_def ga_new_def)
  ultimately have "coord_version (pkg_coord p) = ''2''" using pins_hold [OF r p(1)] p(2) by simp
  with r p show ?thesis by blast
qed

theorem classpaths_least_witness:
  "\<exists>r ds. resolve_walking example_manifest example_graph False = Inr (r, ds) \<and>
     (\<exists>p \<in> set (res_packages r). pkg_ga p = Ga ''g'' ''b'' None \<and> CpRuntime \<le> pkg_classpath p)"
proof -
  obtain r ds where r: "resolve_walking example_manifest example_graph False = Inr (r, ds)"
    using example_resolves by blast
  have "(Ga ''g'' ''b'' None, CpRuntime) \<in> set (declared_places example_manifest)" by code_simp
  with classpaths_least [OF r, of "\<lambda>_. CpCompile"] r show ?thesis by blast
qed


end
