(* ===== verification/Lines.thy ===== *)
theory Lines
  imports Prelude
begin

text \<open>
  Texts that are read line by line: \<^verbatim>\<open>str::lines\<close>, lines written one behind the other, numbers in
  decimal as \<^verbatim>\<open>FromStr\<close> reads them, and words with a space between.
\<close>

definition newline :: str where "newline = [CHR 0x0A]"

text \<open>A line break ends a line and takes a carriage return before it along; the last line may have none.\<close>

definition strip_cr :: "str \<Rightarrow> str" where
  "strip_cr l = (case strip_suffix [CHR 0x0D] l of Some l' \<Rightarrow> l' | None \<Rightarrow> l)"

definition text_lines :: "str \<Rightarrow> str list" where
  "text_lines s = (let ls = split_on CHR 0x0A s in map strip_cr (butlast ls) @ (if last ls = [] then [] else [last ls]))"

text \<open>A text without line breaks of either kind, and one without spaces too.\<close>

definition one_line :: "str \<Rightarrow> bool" where
  "one_line s \<longleftrightarrow> CHR 0x0A \<notin> set s \<and> CHR 0x0D \<notin> set s"

definition one_word :: "str \<Rightarrow> bool" where
  "one_word s \<longleftrightarrow> one_line s \<and> CHR '' '' \<notin> set s"

lemma one_line_append [simp]: "one_line (a @ b) \<longleftrightarrow> one_line a \<and> one_line b"
  by (auto simp: one_line_def)

lemma one_line_Cons [simp]: "one_line (c # a) \<longleftrightarrow> c \<noteq> CHR 0x0A \<and> c \<noteq> CHR 0x0D \<and> one_line a"
  by (auto simp: one_line_def)

lemma one_line_Nil [simp]: "one_line []"
  by (simp add: one_line_def)

lemma one_wordD [dest]: "one_word w \<Longrightarrow> one_line w"
  by (simp add: one_word_def)

lemma one_word_no_space: "one_word w \<Longrightarrow> CHR '' '' \<notin> set w"
  by (simp add: one_word_def)

lemma one_word_dec [simp]: "one_word (dec n)"
proof -
  have "set (dec n) \<subseteq> set digits_ascii" using dec_digits by (auto simp: is_ascii_digit_def)
  moreover have "set digits_ascii \<inter> {CHR 0x0A, CHR 0x0D, CHR '' ''} = {}" by (simp add: digits_ascii_def)
  ultimately show ?thesis unfolding one_word_def one_line_def by blast
qed

lemma split_lines: "\<forall>l \<in> set ls. CHR 0x0A \<notin> set l \<Longrightarrow> split_on CHR 0x0A (concat (map (\<lambda>l. l @ newline) ls)) = ls @ [[]]"
  by (induction ls) (simp_all add: newline_def split_on_append)

lemma strip_cr_id: "CHR 0x0D \<notin> set l \<Longrightarrow> strip_cr l = l"
  by (auto simp: strip_cr_def strip_suffix_Some split: option.splits)

lemma text_lines_written:
  assumes "\<forall>l \<in> set ls. one_line l"
  shows "text_lines (concat (map (\<lambda>l. l @ newline) ls)) = ls"
proof -
  have "split_on CHR 0x0A (concat (map (\<lambda>l. l @ newline) ls)) = ls @ [[]]"
    using assms by (intro split_lines) (auto simp: one_line_def)
  moreover have "map strip_cr ls = ls" using assms by (induction ls) (auto simp: strip_cr_id one_line_def)
  ultimately show ?thesis by (simp add: text_lines_def)
qed

lemma split_once_space: "CHR '' '' \<notin> set w \<Longrightarrow> split_once '' '' (w @ CHR '' '' # r) = Some (w, r)"
  by (induction w) auto

lemma set_join_with: "set (join_with sep ws) \<subseteq> set sep \<union> (\<Union>w \<in> set ws. set w)"
  by (induction sep ws rule: join_with.induct) auto

text \<open>\<^verbatim>\<open>str::parse\<close> of an unsigned integer of \<open>w\<close> bits.\<close>

definition parse_uint :: "nat \<Rightarrow> str \<Rightarrow> nat option" where
  "parse_uint w s =
     (let ds = (case strip_prefix ''+'' s of Some r \<Rightarrow> r | None \<Rightarrow> s) in
      if ds \<noteq> [] \<and> list_all is_ascii_digit ds \<and> undec ds < 2 ^ w then Some (undec ds) else None)"

lemma dec_no_plus: "strip_prefix ''+'' (dec n) = None"
proof (cases "strip_prefix ''+'' (dec n)")
  case (Some r)
  then have "CHR ''+'' \<in> set (dec n)" by (simp add: strip_prefix_Some)
  then have "is_ascii_digit (CHR ''+'')" using dec_digits by blast
  then show ?thesis by (simp add: is_ascii_digit_def digits_ascii_def)
qed

lemma parse_uint_dec: "n < 2 ^ w \<Longrightarrow> parse_uint w (dec n) = Some n"
  using dec_digits [of n] by (simp add: parse_uint_def dec_no_plus undec_dec list_all_iff)

end
