(* ===== verification/Toml.thy ===== *)
theory Toml
  imports Lines "HOL-Library.Word"
begin

text \<open>
  Values of the TOML crate, what the code asks of them, and \<^verbatim>\<open>f64\<close> as far as the manifest uses it. A
  table is the list of its pairs, in the order of the text; a key stands in it once.
\<close>

section \<open>Values\<close>

text \<open>A float is its 64 bits; \<open>TomlOther\<close> stands for dates and times, as they are displayed.\<close>

datatype toml = TomlString str | TomlInteger int | TomlBoolean bool | TomlFloat "64 word" | TomlOther str
  | TomlArray "toml list" | TomlTable "(str \<times> toml) list"

type_synonym toml_table = "(str \<times> toml) list"

definition toml_str :: "toml_table \<Rightarrow> str \<Rightarrow> str option" where
  "toml_str t k = (case map_of t k of Some (TomlString s) \<Rightarrow> Some s | _ \<Rightarrow> None)"

definition toml_nat :: "toml_table \<Rightarrow> str \<Rightarrow> nat option" where
  "toml_nat t k = (case map_of t k of Some (TomlInteger n) \<Rightarrow> if 0 \<le> n then Some (nat n) else None | _ \<Rightarrow> None)"

definition toml_bool :: "toml_table \<Rightarrow> str \<Rightarrow> bool option" where
  "toml_bool t k = (case map_of t k of Some (TomlBoolean b) \<Rightarrow> Some b | _ \<Rightarrow> None)"

definition toml_array :: "toml_table \<Rightarrow> str \<Rightarrow> toml list" where
  "toml_array t k = (case map_of t k of Some (TomlArray vs) \<Rightarrow> vs | _ \<Rightarrow> [])"

definition strings_of :: "toml list \<Rightarrow> str list" where
  "strings_of vs = List.map_filter (\<lambda>v. case v of TomlString s \<Rightarrow> Some s | _ \<Rightarrow> None) vs"

definition value_or :: "'a \<Rightarrow> 'a option \<Rightarrow> 'a" where
  "value_or d x = (case x of None \<Rightarrow> d | Some y \<Rightarrow> y)"

text \<open>\<^verbatim>\<open>as_table\<close>, \<^verbatim>\<open>as_str\<close>, \<^verbatim>\<open>as_array\<close>, \<^verbatim>\<open>as_integer\<close>, \<^verbatim>\<open>as_bool\<close> of a value.\<close>

fun tv_table :: "toml \<Rightarrow> toml_table option" where
  "tv_table (TomlTable t) = Some t"
| "tv_table _ = None"

fun tv_str :: "toml \<Rightarrow> str option" where
  "tv_str (TomlString s) = Some s"
| "tv_str _ = None"

fun tv_array :: "toml \<Rightarrow> toml list option" where
  "tv_array (TomlArray vs) = Some vs"
| "tv_array _ = None"

fun tv_integer :: "toml \<Rightarrow> int option" where
  "tv_integer (TomlInteger n) = Some n"
| "tv_integer _ = None"

fun tv_bool :: "toml \<Rightarrow> bool option" where
  "tv_bool (TomlBoolean b) = Some b"
| "tv_bool _ = None"

definition has_key :: "toml_table \<Rightarrow> str \<Rightarrow> bool" where
  "has_key t k \<longleftrightarrow> map_of t k \<noteq> None"

definition keys_of :: "toml_table \<Rightarrow> str list" where
  "keys_of t = map fst t"

text \<open>\<^verbatim>\<open>u32::try_from\<close> on an \<^verbatim>\<open>i64\<close>, and how an integer is displayed.\<close>

definition u32_from :: "int \<Rightarrow> nat option" where
  "u32_from n = (if 0 \<le> n \<and> n < 2 ^ 32 then Some (nat n) else None)"

definition int_text :: "int \<Rightarrow> str" where
  "int_text n = (if n < 0 then CHR ''-'' # dec (nat (- n)) else dec (nat n))"

section \<open>Ratios\<close>

text \<open>
  \<^verbatim>\<open>(0.0..=1.0).contains(x)\<close> on the bits: from zero to one the floats are ordered as their bits are, and the
  negative zero equals zero.
\<close>

definition is_ratio :: "64 word \<Rightarrow> bool" where
  "is_ratio w \<longleftrightarrow> unat w \<le> 0x3FF0000000000000 \<or> w = 0x8000000000000000"

text \<open>A float from zero to one as a fraction: its significand, and the power of two below it.\<close>

definition f64_significand :: "64 word \<Rightarrow> nat" where
  "f64_significand w =
     (let e = unat w div 2 ^ 52 mod 2 ^ 11; m = unat w mod 2 ^ 52 in if e = 0 then m else m + 2 ^ 52)"

definition f64_scale :: "64 word \<Rightarrow> nat" where
  "f64_scale w = (let e = unat w div 2 ^ 52 mod 2 ^ 11 in if e = 0 then 1074 else 1075 - e)"

fun bit_length :: "nat \<Rightarrow> nat" where
  "bit_length n = (if n = 0 then 0 else Suc (bit_length (n div 2)))"

declare bit_length.simps [simp del]

text \<open>Half to even, as \<^verbatim>\<open>*\<close> rounds, to 53 bits: the product is the result times \<open>2 ^ s\<close>.\<close>

definition div_half_even :: "nat \<Rightarrow> nat \<Rightarrow> nat" where
  "div_half_even n d =
     (let q = n div d; r = n mod d in if 2 * r < d \<or> 2 * r = d \<and> even q then q else q + 1)"

definition round_53 :: "nat \<Rightarrow> nat" where
  "round_53 p = (let s = bit_length p - 53 in div_half_even p (2 ^ s) * 2 ^ s)"

text \<open>\<^verbatim>\<open>(ratio * 10_000.0).round() as u32\<close>: \<^verbatim>\<open>round\<close> takes halves away from zero.\<close>

definition ratio_points :: "64 word \<Rightarrow> nat" where
  "ratio_points w =
     (let p = round_53 (f64_significand w * 10000) in (2 * p div 2 ^ f64_scale w + 1) div 2)"

end
