(* ===== verification/Lockfile.thy ===== *)
theory Lockfile
  imports Walk Toml
begin

text \<open>
  \<^verbatim>\<open>src/src/lockfile.rs\<close>: the lockfile as a value, the text it is written as, how that text is read,
  and the digest that says whether it still describes a manifest. The TOML reader is a third-party
  crate and an argument, \<open>from_str\<close>; so are the crate's way to write a string, \<open>quote\<close>, and SHA-256.
\<close>

section \<open>The lockfile\<close>

record locked_tool =
  lt_name :: str
  lt_roots :: "ga list"
  lt_packages :: "package list"

record lockfile =
  lk_version :: nat
  lk_manifest_checksum :: str
  lk_roots :: "ga list"
  lk_test_roots :: "ga list"
  lk_packages :: "package list"
  lk_tools :: "locked_tool list"
  lk_local :: "local_jar list"
  lk_members :: "str list"

definition lock_version :: nat where "lock_version = 1"
definition tools_lock_version :: nat where "tools_lock_version = 2"
definition workspace_lock_version :: nat where "workspace_lock_version = 3"

definition supported :: "nat \<Rightarrow> bool" where
  "supported version \<longleftrightarrow> version = lock_version \<or> version = tools_lock_version \<or> version = workspace_lock_version"

definition sorted_packages :: "package list \<Rightarrow> package list" where
  "sorted_packages ps = sort_by (\<lambda>a b. coord_cmp (pkg_coord a) (pkg_coord b)) ps"

definition with_members :: "str list \<Rightarrow> lockfile \<Rightarrow> lockfile" where
  "with_members ms lk = lk\<lparr>lk_members := ms, lk_version := workspace_lock_version\<rparr>"

definition with_tool :: "str \<Rightarrow> resolution \<Rightarrow> lockfile \<Rightarrow> lockfile" where
  "with_tool name r lk =
     lk\<lparr>lk_tools := lk_tools lk @ [\<lparr>lt_name = name, lt_roots = res_roots r, lt_packages = sorted_packages (res_packages r)\<rparr>],
        lk_version := max (lk_version lk) tools_lock_version\<rparr>"

definition lock_tool :: "lockfile \<Rightarrow> str \<Rightarrow> resolution option" where
  "lock_tool lk name = map_option (\<lambda>t. \<lparr>res_packages = lt_packages t, res_roots = lt_roots t, res_test_roots = [],
     res_warnings = [], res_downloaded = 0, res_local = []\<rparr>) (find (\<lambda>t. lt_name t = name) (lk_tools lk))"

definition all_packages :: "lockfile \<Rightarrow> package list" where
  "all_packages lk = lk_packages lk @ concat (map lt_packages (lk_tools lk))"

definition to_resolution :: "lockfile \<Rightarrow> resolution" where
  "to_resolution lk = \<lparr>res_packages = lk_packages lk, res_roots = lk_roots lk, res_test_roots = lk_test_roots lk,
     res_warnings = [], res_downloaded = 0, res_local = lk_local lk\<rparr>"

section \<open>Writing\<close>

definition quoted :: "str \<Rightarrow> str" where "quoted s = [CHR 0x22] @ s @ [CHR 0x22]"

definition render_gas :: "ga list \<Rightarrow> str" where
  "render_gas gas = ''['' @ join_with '', '' (map (\<lambda>g. quoted (ga_display g)) gas) @ '']''"

definition pinned_checksum :: "package \<Rightarrow> str option" where
  "pinned_checksum p =
     (if (case coord_classifier (pkg_coord p) of None \<Rightarrow> False | Some c \<Rightarrow> is_platform_classifier c) then None else pkg_checksum p)"

definition render_package :: "str \<Rightarrow> package \<Rightarrow> str" where
  "render_package header p =
     newline @ ''[['' @ header @ '']]'' @ newline @
     ''group = '' @ quoted (coord_group (pkg_coord p)) @ newline @
     ''artifact = '' @ quoted (coord_artifact (pkg_coord p)) @ newline @
     ''version = '' @ quoted (coord_version (pkg_coord p)) @ newline @
     (case coord_classifier (pkg_coord p) of None \<Rightarrow> [] | Some c \<Rightarrow> ''classifier = '' @ quoted c @ newline) @
     ''classpath = '' @ quoted (cp_as_str (pkg_classpath p)) @ newline @
     ''packaging = '' @ quoted (pkg_packaging p) @ newline @
     ''depth = '' @ dec (pkg_depth p) @ newline @
     ''direct = '' @ (if pkg_direct p then ''true'' else ''false'') @ newline @
     (if pkg_managed p then ''managed = true'' @ newline else []) @
     (case pinned_checksum p of None \<Rightarrow> [] | Some c \<Rightarrow> ''checksum = '' @ quoted c @ newline) @
     (if pkg_dependencies p \<noteq> [] then ''dependencies = '' @ render_gas (pkg_dependencies p) @ newline else [])"

definition render_local :: "(str \<Rightarrow> str) \<Rightarrow> local_jar \<Rightarrow> str" where
  "render_local quote l =
     newline @ ''[[local]]'' @ newline @
     ''name = '' @ quoted (lj_name l) @ newline @
     ''path = '' @ quote (lj_path l) @ newline @
     ''classpath = '' @ quoted (cp_as_str (lj_classpath l)) @ newline @
     (case lj_checksum l of None \<Rightarrow> [] | Some c \<Rightarrow> ''checksum = '' @ quoted c @ newline)"

definition render_tool :: "locked_tool \<Rightarrow> str" where
  "render_tool t =
     newline @ ''[[tool]]'' @ newline @
     ''name = '' @ quoted (lt_name t) @ newline @
     ''roots = '' @ render_gas (lt_roots t) @ newline @
     concat (map (render_package ''tool.package'') (lt_packages t))"

definition lock_render :: "(str \<Rightarrow> str) \<Rightarrow> lockfile \<Rightarrow> str" where
  "lock_render quote lk =
     ''# Generated by jrs. Commit this file.'' @ newline @
     ''# It records the exact dependency graph, so the same manifest'' @ newline @
     ''# resolves to the same jars on every machine.'' @ newline @ newline @
     ''version = '' @ dec (lk_version lk) @ newline @
     ''manifest-checksum = '' @ quoted (lk_manifest_checksum lk) @ newline @
     (if lk_members lk \<noteq> [] then ''members = ['' @ join_with '', '' (map quoted (lk_members lk)) @ '']'' @ newline else []) @
     ''roots = '' @ render_gas (lk_roots lk) @ newline @
     ''test-roots = '' @ render_gas (lk_test_roots lk) @ newline @
     concat (map (render_package ''package'') (lk_packages lk)) @
     concat (map (render_local quote) (lk_local lk)) @
     concat (map render_tool (lk_tools lk))"

section \<open>Reading\<close>

definition read_gas :: "toml_table \<Rightarrow> str \<Rightarrow> ga list" where
  "read_gas t key = List.map_filter ga_parse (strings_of (toml_array t key))"

definition as_table :: "str \<Rightarrow> str \<Rightarrow> toml \<Rightarrow> toml_table result" where
  "as_table file block v = (case v of TomlTable t \<Rightarrow> Inr t | _ \<Rightarrow> Inl (ResolveErr (Msg ''must be a table'' [file, block])))"

definition lock_field :: "str \<Rightarrow> str \<Rightarrow> toml_table \<Rightarrow> str \<Rightarrow> str result" where
  "lock_field file block t name = ok_or (ResolveErr (Msg ''is missing; run jrs update to regenerate it'' [file, block, name])) (toml_str t name)"

definition read_package :: "str \<Rightarrow> toml \<Rightarrow> package result" where
  "read_package file v =
     and_then (as_table file ''package'' v) (\<lambda>t.
     and_then (lock_field file ''package'' t ''group'') (\<lambda>grp.
     and_then (lock_field file ''package'' t ''artifact'') (\<lambda>artifact.
     and_then (lock_field file ''package'' t ''version'') (\<lambda>version.
     Inr \<lparr>pkg_coord = coord_with_classifier (coord_new grp artifact version) (toml_str t ''classifier''),
          pkg_classpath = cp_parse (value_or ''compile'' (toml_str t ''classpath'')),
          pkg_packaging = value_or ''jar'' (toml_str t ''packaging''),
          pkg_depth = value_or 1 (toml_nat t ''depth''),
          pkg_direct = value_or False (toml_bool t ''direct''),
          pkg_dependencies = read_gas t ''dependencies'',
          pkg_jar = None, pkg_checksum = toml_str t ''checksum'', pkg_mediated = False,
          pkg_managed = value_or False (toml_bool t ''managed'')\<rparr>))))"

definition read_packages :: "str \<Rightarrow> toml_table \<Rightarrow> package list result" where
  "read_packages file t = collect (map (read_package file) (toml_array t ''package''))"

definition read_local_jar :: "str \<Rightarrow> toml \<Rightarrow> local_jar result" where
  "read_local_jar file v =
     and_then (as_table file ''local'' v) (\<lambda>t.
     and_then (lock_field file ''local'' t ''name'') (\<lambda>name.
     and_then (lock_field file ''local'' t ''path'') (\<lambda>p.
     Inr \<lparr>lj_name = name, lj_path = p, lj_classpath = cp_parse (value_or ''compile'' (toml_str t ''classpath'')),
          lj_checksum = toml_str t ''checksum'', lj_jar = None\<rparr>)))"

definition read_local :: "str \<Rightarrow> toml_table \<Rightarrow> local_jar list result" where
  "read_local file t = collect (map (read_local_jar file) (toml_array t ''local''))"

definition read_tool :: "str \<Rightarrow> toml \<Rightarrow> locked_tool result" where
  "read_tool file v =
     and_then (as_table file ''tool'' v) (\<lambda>t.
     and_then (lock_field file ''tool'' t ''name'') (\<lambda>name.
     and_then (read_packages file t) (\<lambda>ps.
     Inr \<lparr>lt_name = name, lt_roots = read_gas t ''roots'', lt_packages = ps\<rparr>)))"

text \<open>\<open>jrs_version\<close> is the version of the crate, from its build file.\<close>

definition lock_parse :: "(str \<Rightarrow> str + toml_table) \<Rightarrow> str \<Rightarrow> str \<Rightarrow> str \<Rightarrow> lockfile result" where
  "lock_parse from_str jrs_version text' file =
     (case from_str text' of
        Inl why \<Rightarrow> Inl (ResolveErr (Msg ''is not TOML'' [file, why]))
      | Inr t \<Rightarrow>
          let version = value_or 0 (toml_nat t ''version'') in
          if \<not> supported version
          then Inl (ResolveErr (Msg ''lockfile version is not supported'' [file, dec version, jrs_version]))
          else
            and_then (collect (map (read_tool file) (toml_array t ''tool''))) (\<lambda>tools.
            and_then (read_packages file t) (\<lambda>ps.
            and_then (read_local file t) (\<lambda>loc.
            Inr \<lparr>lk_version = version, lk_manifest_checksum = value_or [] (toml_str t ''manifest-checksum''),
                 lk_roots = read_gas t ''roots'', lk_test_roots = read_gas t ''test-roots'', lk_packages = ps,
                 lk_tools = tools, lk_local = loc, lk_members = strings_of (toml_array t ''members'')\<rparr>))))"

section \<open>The digest of a manifest\<close>

definition dep_line :: "dependency \<Rightarrow> str" where
  "dep_line d =
     (case dep_path d of Some p \<Rightarrow> dep_artifact d @ '' path='' @ p | None \<Rightarrow> dependency_display d) @
     concat (map (\<lambda>e. '' exclude='' @ exclusion_display e) (dep_exclusions d)) @
     (if dep_compile_only d then '' compile-only'' else []) @
     (if dep_runtime_only d then '' runtime-only'' else [])"

definition canonical :: "manifest \<Rightarrow> str" where
  "canonical m =
     concat (map (\<lambda>d. ''dep '' @ dep_line d @ newline) (effective_dependencies m)) @
     concat (map (\<lambda>d. ''dev '' @ dep_line d @ newline) (mf_dev_dependencies m)) @
     concat (map (\<lambda>x. (if mg_bom x then ''bom'' else ''managed'') @ '' '' @ mg_group x @ '':'' @ mg_artifact x @ '' '' @ mg_version x @ newline)
       (mf_managed m)) @
     concat (map (\<lambda>r. ''repo '' @ repo_name r @ '' '' @ repo_url r @
       (if repo_groups r \<noteq> [] then '' groups='' @ join_with '','' (repo_groups r) else []) @ newline) (mf_repositories m)) @
     concat (map (\<lambda>c. ''lang '' @ lang_key (lc_language c) @ '' '' @ lc_version c @
       (if lc_plugins c \<noteq> [] then '' plugins='' @ join_with '','' (lc_plugins c) else []) @ newline) (mf_languages m)) @
     (case mf_obfuscate m of None \<Rightarrow> [] | Some ob \<Rightarrow> ''obfuscate '' @ ob_version ob @ newline) @
     concat (map (\<lambda>t. concat (map (\<lambda>d. ''task '' @ td_name t @ '' '' @ dep_line d @ newline) (td_dependencies t))) (mf_tasks m)) @
     concat (map (\<lambda>(name, c). ''agent '' @ name @ '' '' @ coord_display c @ newline) (pinned_agents m))"

definition manifest_checksum :: "(str \<Rightarrow> str) \<Rightarrow> manifest \<Rightarrow> str" where
  "manifest_checksum sha256_hex m = ''sha256:'' @ sha256_hex (canonical m)"

definition from_resolution :: "(str \<Rightarrow> str) \<Rightarrow> manifest \<Rightarrow> resolution \<Rightarrow> lockfile" where
  "from_resolution sha256_hex m r =
     \<lparr>lk_version = lock_version, lk_manifest_checksum = manifest_checksum sha256_hex m,
      lk_roots = res_roots r, lk_test_roots = res_test_roots r, lk_packages = sorted_packages (res_packages r),
      lk_tools = [], lk_local = map (\<lambda>l. l\<lparr>lj_jar := None\<rparr>) (res_local r), lk_members = []\<rparr>"

definition obfuscator_tool :: str where "obfuscator_tool = ''obfuscator''"

definition lock_matches :: "(str \<Rightarrow> str) \<Rightarrow> lockfile \<Rightarrow> manifest \<Rightarrow> bool" where
  "lock_matches sha256_hex lk m \<longleftrightarrow>
     (let pinned = (\<lambda>name. list_ex (\<lambda>t. lt_name t = name) (lk_tools lk)) in
      supported (lk_version lk) \<and> lk_manifest_checksum lk = manifest_checksum sha256_hex m \<and>
      list_all (\<lambda>c. pinned (lang_tool_name (lc_language c))) (mf_languages m) \<and>
      list_all (\<lambda>t. pinned (task_tool_name t)) (filter (\<lambda>t. td_dependencies t \<noteq> []) (mf_tasks m)) \<and>
      (mf_obfuscate m = None \<or> pinned obfuscator_tool) \<and>
      list_all (\<lambda>(name, _). pinned name) (pinned_agents m))"

section \<open>The document\<close>

text \<open>
  The lines a lockfile is written in, the text of each, and the table they mean in TOML: a pair
  belongs to the table opened last, a header in double brackets adds a table to an array, which for a
  dotted header is one of the last table of the array before the dot. The value of
  \<open>TlCrate\<close> is written by the crate itself.
\<close>

datatype toml_line = TlBlank | TlComment str | TlPair str toml | TlCrate str str | TlHeader "str list"

fun toml_text :: "toml \<Rightarrow> str" where
  "toml_text (TomlString s) = quoted s"
| "toml_text (TomlInteger n) = (if n < 0 then CHR ''-'' # dec (nat (- n)) else dec (nat n))"
| "toml_text (TomlBoolean b) = (if b then ''true'' else ''false'')"
| "toml_text (TomlArray vs) = ''['' @ join_with '', '' (map toml_text vs) @ '']''"
| "toml_text (TomlOther s) = s"
| "toml_text (TomlFloat w) = []"
| "toml_text (TomlTable t) = []"

fun line_text :: "(str \<Rightarrow> str) \<Rightarrow> toml_line \<Rightarrow> str" where
  "line_text quote TlBlank = newline"
| "line_text quote (TlComment s) = ''# '' @ s @ newline"
| "line_text quote (TlPair k v) = k @ '' = '' @ toml_text v @ newline"
| "line_text quote (TlCrate k s) = k @ '' = '' @ quote s @ newline"
| "line_text quote (TlHeader p) = ''[['' @ join_with ''.'' p @ '']]'' @ newline"

definition doc_text :: "(str \<Rightarrow> str) \<Rightarrow> toml_line list \<Rightarrow> str" where
  "doc_text quote doc = concat (map (line_text quote) doc)"

fun at_path :: "str list \<Rightarrow> (toml_table \<Rightarrow> toml_table) \<Rightarrow> toml_table \<Rightarrow> toml_table" where
  "at_path [] f t = f t"
| "at_path (h # hs) f t =
     (case map_of t h of
        Some (TomlArray vs) \<Rightarrow>
          if vs = [] then t
          else (case last vs of
            TomlTable u \<Rightarrow> hm_put h (TomlArray (butlast vs @ [TomlTable (at_path hs f u)])) t
          | _ \<Rightarrow> t)
      | _ \<Rightarrow> t)"

definition put_array :: "str \<Rightarrow> toml list \<Rightarrow> toml_table \<Rightarrow> toml_table" where
  "put_array k vs t = (if vs = [] then t else hm_put k (TomlArray (toml_array t k @ vs)) t)"

fun doc_step :: "toml_line \<Rightarrow> str list \<times> toml_table \<Rightarrow> str list \<times> toml_table" where
  "doc_step (TlPair k v) (p, t) = (p, at_path p (\<lambda>u. u @ [(k, v)]) t)"
| "doc_step (TlCrate k s) (p, t) = (p, at_path p (\<lambda>u. u @ [(k, TomlString s)]) t)"
| "doc_step (TlHeader h) (p, t) = (h, at_path (butlast h) (put_array (last h) [TomlTable []]) t)"
| "doc_step _ pt = pt"

definition doc_table :: "toml_line list \<Rightarrow> toml_table" where
  "doc_table doc = snd (fold doc_step doc ([], []))"

definition gas_value :: "ga list \<Rightarrow> toml" where
  "gas_value gas = TomlArray (map (\<lambda>g. TomlString (ga_display g)) gas)"

definition package_table :: "package \<Rightarrow> toml_table" where
  "package_table p =
     [(''group'', TomlString (coord_group (pkg_coord p))), (''artifact'', TomlString (coord_artifact (pkg_coord p))),
      (''version'', TomlString (coord_version (pkg_coord p)))] @
     (case coord_classifier (pkg_coord p) of None \<Rightarrow> [] | Some c \<Rightarrow> [(''classifier'', TomlString c)]) @
     [(''classpath'', TomlString (cp_as_str (pkg_classpath p))), (''packaging'', TomlString (pkg_packaging p)),
      (''depth'', TomlInteger (int (pkg_depth p))), (''direct'', TomlBoolean (pkg_direct p))] @
     (if pkg_managed p then [(''managed'', TomlBoolean True)] else []) @
     (case pinned_checksum p of None \<Rightarrow> [] | Some c \<Rightarrow> [(''checksum'', TomlString c)]) @
     (if pkg_dependencies p \<noteq> [] then [(''dependencies'', gas_value (pkg_dependencies p))] else [])"

definition local_table :: "local_jar \<Rightarrow> toml_table" where
  "local_table l =
     [(''name'', TomlString (lj_name l)), (''path'', TomlString (lj_path l)), (''classpath'', TomlString (cp_as_str (lj_classpath l)))] @
     (case lj_checksum l of None \<Rightarrow> [] | Some c \<Rightarrow> [(''checksum'', TomlString c)])"

text \<open>A block: a blank line, its header and its pairs, those of \<open>by_crate\<close> written by the crate.\<close>

definition pair_line :: "str list \<Rightarrow> str \<times> toml \<Rightarrow> toml_line" where
  "pair_line by_crate = (\<lambda>(k, v). case v of
     TomlString s \<Rightarrow> if k \<in> set by_crate then TlCrate k s else TlPair k v | _ \<Rightarrow> TlPair k v)"

definition block :: "str list \<Rightarrow> str list \<Rightarrow> toml_table \<Rightarrow> toml_line list" where
  "block by_crate header kvs = TlBlank # TlHeader header # map (pair_line by_crate) kvs"

definition tool_pairs :: "locked_tool \<Rightarrow> toml_table" where
  "tool_pairs t = [(''name'', TomlString (lt_name t)), (''roots'', gas_value (lt_roots t))]"

definition tool_lines :: "locked_tool \<Rightarrow> toml_line list" where
  "tool_lines t = block [] [''tool''] (tool_pairs t) @
     concat (map (\<lambda>p. block [] [''tool'', ''package''] (package_table p)) (lt_packages t))"

definition root_table :: "lockfile \<Rightarrow> toml_table" where
  "root_table lk =
     [(''version'', TomlInteger (int (lk_version lk))), (''manifest-checksum'', TomlString (lk_manifest_checksum lk))] @
     (if lk_members lk \<noteq> [] then [(''members'', TomlArray (map TomlString (lk_members lk)))] else []) @
     [(''roots'', gas_value (lk_roots lk)), (''test-roots'', gas_value (lk_test_roots lk))]"

definition lock_doc :: "lockfile \<Rightarrow> toml_line list" where
  "lock_doc lk =
     [TlComment ''Generated by jrs. Commit this file.'',
      TlComment ''It records the exact dependency graph, so the same manifest'',
      TlComment ''resolves to the same jars on every machine.'', TlBlank] @
     map (pair_line []) (root_table lk) @
     concat (map (\<lambda>p. block [] [''package''] (package_table p)) (lk_packages lk)) @
     concat (map (\<lambda>l. block [''path''] [''local''] (local_table l)) (lk_local lk)) @
     concat (map tool_lines (lk_tools lk))"

lemma render_package_block:
  "doc_text quote (block [] h (package_table p)) = render_package (join_with ''.'' h) p"
  by (simp add: doc_text_def block_def package_table_def render_package_def pair_line_def gas_value_def render_gas_def comp_def
      split: option.split)

lemma render_local_block: "doc_text quote (block [''path''] [''local''] (local_table l)) = render_local quote l"
  by (simp add: doc_text_def block_def local_table_def render_local_def pair_line_def split: option.split)

lemma doc_text_append [simp]: "doc_text quote (a @ b) = doc_text quote a @ doc_text quote b"
  by (simp add: doc_text_def)

lemma doc_text_concat: "doc_text quote (concat (map f xs)) = concat (map (\<lambda>x. doc_text quote (f x)) xs)"
  by (induction xs) (simp_all add: doc_text_def)

lemma render_tool_lines: "doc_text quote (tool_lines t) = render_tool t"
  by (simp add: tool_lines_def render_tool_def doc_text_concat render_package_block)
    (simp add: doc_text_def block_def tool_pairs_def pair_line_def gas_value_def render_gas_def comp_def)

lemma lock_render_doc: "lock_render quote lk = doc_text quote (lock_doc lk)"
  unfolding lock_doc_def doc_text_append doc_text_concat render_package_block render_local_block render_tool_lines lock_render_def
  by (simp add: doc_text_def root_table_def pair_line_def gas_value_def render_gas_def comp_def)

section \<open>What the document means\<close>

lemma hm_put_same: "map_of t k = Some v \<Longrightarrow> hm_put k v t = t"
  by (induction t) (auto split: if_splits)

lemma hm_put_twice: "hm_put k v (hm_put k w t) = hm_put k v t"
  by (induction k v t rule: hm_put.induct) auto

lemma at_path_id: "at_path p (\<lambda>t. t) t = t"
proof (induction p arbitrary: t)
  case (Cons h p)
  have "hm_put h (TomlArray (butlast vs @ [TomlTable u])) t = t" if array: "map_of t h = Some (TomlArray vs)" "vs \<noteq> []" "last vs = TomlTable u" for vs u
  proof -
    have "butlast vs @ [TomlTable u] = vs" using array by (metis append_butlast_last_id)
    with array show ?thesis by (simp add: hm_put_same)
  qed
  with Cons show ?case by (auto split: option.split toml.split)
qed simp

lemma at_path_at_path: "at_path p f (at_path p g t) = at_path p (\<lambda>t. f (g t)) t"
  by (induction p arbitrary: t) (auto simp: map_of_hm_put hm_put_twice split: option.split toml.split)

lemma at_path_append: "at_path (p @ q) f t = at_path p (at_path q f) t"
proof (induction p arbitrary: t)
  case (Cons h p)
  have "at_path (p @ q) f = at_path p (at_path q f)" using Cons.IH by (simp add: fun_eq_iff)
  then show ?case by (simp cong: option.case_cong toml.case_cong if_cong)
qed simp

lemma toml_array_put_array: "toml_array (put_array k vs t) k' = (if k' = k then toml_array t k @ vs else toml_array t k')"
  by (auto simp: put_array_def toml_array_def map_of_hm_put)

lemma put_array_put_array: "put_array k vs (put_array k ws t) = put_array k (ws @ vs) t"
  by (auto simp: put_array_def hm_put_twice toml_array_def map_of_hm_put)

lemma at_put_array: "at_path [k] f (put_array k (vs @ [TomlTable u]) t) = put_array k (vs @ [TomlTable (f u)]) t"
  by (simp add: put_array_def map_of_hm_put hm_put_twice butlast_append)

lemma fold_pairs: "fold doc_step (map (pair_line by_crate) kvs) (p, t) = (p, at_path p (\<lambda>u. u @ kvs) t)"
proof (induction kvs arbitrary: t)
  case (Cons kv kvs)
  have "doc_step (pair_line by_crate kv) (p, t) = (p, at_path p (\<lambda>u. u @ [kv]) t)"
    by (cases kv) (auto simp: pair_line_def split: toml.split)
  with Cons show ?case by (simp add: at_path_at_path)
qed (simp add: at_path_id)

lemma fold_block:
  "fold doc_step (block by_crate (p @ [k]) kvs) (q, t) = (p @ [k], at_path p (put_array k [TomlTable kvs]) t)"
proof -
  have "at_path [k] (\<lambda>u. u @ kvs) (put_array k [TomlTable []] u) = put_array k [TomlTable kvs] u" for u
    using at_put_array [of k "\<lambda>u. u @ kvs" "[]" "[]" u] by simp
  then have "at_path [k] (\<lambda>u. u @ kvs) \<circ> put_array k [TomlTable []] = put_array k [TomlTable kvs]"
    by (simp add: fun_eq_iff)
  then show ?thesis by (simp add: block_def fold_pairs at_path_append at_path_at_path comp_def)
qed

lemma fold_blocks:
  "snd (fold doc_step (concat (map (\<lambda>x. block by_crate (p @ [k]) (f x)) xs)) (q, t)) =
   at_path p (put_array k (map (\<lambda>x. TomlTable (f x)) xs)) t"
proof (induction xs arbitrary: q t)
  case Nil
  have "put_array k [] = (\<lambda>t. t)" by (simp add: put_array_def fun_eq_iff)
  then show ?case by (simp add: at_path_id)
next
  case (Cons x xs)
  then show ?case by (simp add: fold_block at_path_at_path put_array_put_array)
qed

definition tool_table :: "locked_tool \<Rightarrow> toml_table" where
  "tool_table t = put_array ''package'' (map (\<lambda>p. TomlTable (package_table p)) (lt_packages t)) (tool_pairs t)"

lemma fold_tool: "snd (fold doc_step (tool_lines tool) (q, t)) = put_array ''tool'' [TomlTable (tool_table tool)] t"
proof -
  have "fold doc_step (block [] [''tool''] (tool_pairs tool)) (q, t) = ([''tool''], put_array ''tool'' [TomlTable (tool_pairs tool)] t)"
    using fold_block [of "[]" "[]" "''tool''"] by simp
  moreover have "snd (fold doc_step (concat (map (\<lambda>p. block [] [''tool'', ''package''] (package_table p)) (lt_packages tool))) (q', t')) =
      at_path [''tool''] (put_array ''package'' (map (\<lambda>p. TomlTable (package_table p)) (lt_packages tool))) t'" for q' t'
    using fold_blocks [of "[]" "[''tool'']" "''package''"] by simp
  ultimately show ?thesis
    using at_put_array [of "''tool''" _ "[]" "tool_pairs tool" t] unfolding tool_lines_def fold_append comp_def by (simp add: tool_table_def)
qed

lemma fold_tools:
  "snd (fold doc_step (concat (map tool_lines ts)) (q, t)) = put_array ''tool'' (map (\<lambda>x. TomlTable (tool_table x)) ts) t"
proof (induction ts arbitrary: q t)
  case (Cons tool ts)
  obtain q' t' where step: "fold doc_step (tool_lines tool) (q, t) = (q', t')" by fastforce
  then have "t' = put_array ''tool'' [TomlTable (tool_table tool)] t" using fold_tool [of tool q t] by simp
  with step Cons.IH [of q' t'] show ?case by (simp add: put_array_put_array)
qed (simp add: put_array_def)

lemma lock_doc_table:
  "doc_table (lock_doc lk) =
   put_array ''tool'' (map (\<lambda>t. TomlTable (tool_table t)) (lk_tools lk))
     (put_array ''local'' (map (\<lambda>l. TomlTable (local_table l)) (lk_local lk))
       (put_array ''package'' (map (\<lambda>p. TomlTable (package_table p)) (lk_packages lk)) (root_table lk)))"
proof -
  let ?ps = "concat (map (\<lambda>p. block [] [''package''] (package_table p)) (lk_packages lk))"
  let ?ls = "concat (map (\<lambda>l. block [''path''] [''local''] (local_table l)) (lk_local lk))"
  obtain q1 t1 where 1: "fold doc_step ?ps ([], root_table lk) = (q1, t1)" by fastforce
  obtain q2 t2 where 2: "fold doc_step ?ls (q1, t1) = (q2, t2)" by fastforce
  have "t1 = put_array ''package'' (map (\<lambda>p. TomlTable (package_table p)) (lk_packages lk)) (root_table lk)"
    using 1 fold_blocks [of "[]" "[]" "''package''" package_table "lk_packages lk" "[]" "root_table lk"] by simp
  moreover have "t2 = put_array ''local'' (map (\<lambda>l. TomlTable (local_table l)) (lk_local lk)) t1"
    using 2 fold_blocks [of "[''path'']" "[]" "''local''" local_table "lk_local lk" q1 t1] by simp
  ultimately show ?thesis
    using fold_pairs [of "[]" "root_table lk" "[]" "[]"] 1 2 fold_tools [of "lk_tools lk" q2 t2]
    by (simp add: doc_table_def lock_doc_def)
qed

section \<open>Reading it back\<close>

lemma toml_put_array [simp]:
  "k' \<noteq> k \<Longrightarrow> toml_str (put_array k vs t) k' = toml_str t k'" "k' \<noteq> k \<Longrightarrow> toml_nat (put_array k vs t) k' = toml_nat t k'"
  "k' \<noteq> k \<Longrightarrow> read_gas (put_array k vs t) k' = read_gas t k'"
  by (simp_all add: toml_str_def toml_nat_def read_gas_def toml_array_put_array) (simp_all add: put_array_def map_of_hm_put)

lemma strings_of_strings [simp]: "strings_of (map TomlString ss) = ss"
  by (induction ss) (simp_all add: strings_of_def List.map_filter_simps)

lemma gas_read: "\<forall>g \<in> set gas. ga_wf g \<Longrightarrow> List.map_filter ga_parse (map ga_display gas) = gas"
  by (induction gas) (simp_all add: List.map_filter_simps ga_parse_display)

lemma read_gas_value: "map_of t k = Some (gas_value gas) \<Longrightarrow> \<forall>g \<in> set gas. ga_wf g \<Longrightarrow> read_gas t k = gas"
  using strings_of_strings [of "map ga_display gas"] gas_read [of gas]
  by (simp add: read_gas_def toml_array_def gas_value_def comp_def)

lemma read_gas_none: "map_of t k = None \<Longrightarrow> read_gas t k = []"
  by (simp add: read_gas_def toml_array_def strings_of_def List.map_filter_simps)

text \<open>What a lockfile does not keep: where the jars are, and what the walk noted on the way.\<close>

definition locked :: "package \<Rightarrow> package" where
  "locked p = p\<lparr>pkg_jar := None, pkg_mediated := False, pkg_checksum := pinned_checksum p\<rparr>"

definition locked_form :: "lockfile \<Rightarrow> lockfile" where
  "locked_form lk = lk\<lparr>lk_packages := map locked (lk_packages lk), lk_local := map (\<lambda>l. l\<lparr>lj_jar := None\<rparr>) (lk_local lk),
     lk_tools := map (\<lambda>t. t\<lparr>lt_packages := map locked (lt_packages t)\<rparr>) (lk_tools lk)\<rparr>"

definition packages_wf :: "package list \<Rightarrow> bool" where
  "packages_wf ps \<longleftrightarrow> (\<forall>p \<in> set ps. \<forall>g \<in> set (pkg_dependencies p). ga_wf g)"

definition lock_wf :: "lockfile \<Rightarrow> bool" where
  "lock_wf lk \<longleftrightarrow> supported (lk_version lk) \<and> (\<forall>g \<in> set (lk_roots lk) \<union> set (lk_test_roots lk). ga_wf g) \<and>
     packages_wf (lk_packages lk) \<and> (\<forall>t \<in> set (lk_tools lk). packages_wf (lt_packages t) \<and> (\<forall>g \<in> set (lt_roots t). ga_wf g))"

lemma cp_parse_as_str [simp]: "cp_parse (cp_as_str c) = c"
  by (cases c) (simp_all add: cp_parse_def)

lemma package_lookups:
  "map_of (package_table p) ''group'' = Some (TomlString (coord_group (pkg_coord p)))"
  "map_of (package_table p) ''artifact'' = Some (TomlString (coord_artifact (pkg_coord p)))"
  "map_of (package_table p) ''version'' = Some (TomlString (coord_version (pkg_coord p)))"
  "map_of (package_table p) ''classifier'' = map_option TomlString (coord_classifier (pkg_coord p))"
  "map_of (package_table p) ''classpath'' = Some (TomlString (cp_as_str (pkg_classpath p)))"
  "map_of (package_table p) ''packaging'' = Some (TomlString (pkg_packaging p))"
  "map_of (package_table p) ''depth'' = Some (TomlInteger (int (pkg_depth p)))"
  "map_of (package_table p) ''direct'' = Some (TomlBoolean (pkg_direct p))"
  "map_of (package_table p) ''managed'' = (if pkg_managed p then Some (TomlBoolean True) else None)"
  "map_of (package_table p) ''checksum'' = map_option TomlString (pinned_checksum p)"
  "map_of (package_table p) ''dependencies'' = (if pkg_dependencies p \<noteq> [] then Some (gas_value (pkg_dependencies p)) else None)"
  by (simp_all add: package_table_def split: option.split)

lemma read_package_table:
  assumes "\<forall>g \<in> set (pkg_dependencies p). ga_wf g"
  shows "read_package file (TomlTable (package_table p)) = Inr (locked p)"
proof -
  have "read_gas (package_table p) ''dependencies'' = pkg_dependencies p"
    using read_gas_value [OF _ assms] by (cases "pkg_dependencies p = []") (simp_all add: package_lookups read_gas_none)
  moreover have "toml_str (package_table p) ''classifier'' = coord_classifier (pkg_coord p)"
    "toml_str (package_table p) ''checksum'' = pinned_checksum p"
    by (simp_all add: toml_str_def package_lookups split: option.split)
  ultimately show ?thesis
    by (simp add: read_package_def as_table_def lock_field_def toml_str_def toml_nat_def toml_bool_def package_lookups ok_or_def
        value_or_def locked_def coord_new_def coord_with_classifier_def)
qed

lemma read_packages_table:
  "packages_wf ps \<Longrightarrow> toml_array t ''package'' = map (\<lambda>p. TomlTable (package_table p)) ps \<Longrightarrow> read_packages file t = Inr (map locked ps)"
  by (simp add: read_packages_def collect_Inr comp_def packages_wf_def read_package_table)

lemma read_local_table: "read_local_jar file (TomlTable (local_table l)) = Inr (l\<lparr>lj_jar := None\<rparr>)"
  by (cases "lj_checksum l")
    (simp_all add: read_local_jar_def as_table_def lock_field_def local_table_def toml_str_def ok_or_def value_or_def)

lemma read_tool_table:
  assumes "packages_wf (lt_packages t)" and "\<forall>g \<in> set (lt_roots t). ga_wf g"
  shows "read_tool file (TomlTable (tool_table t)) = Inr (t\<lparr>lt_packages := map locked (lt_packages t)\<rparr>)"
proof -
  have none: "toml_array (tool_pairs t) ''package'' = []" by (simp add: tool_pairs_def toml_array_def)
  have "read_packages file (tool_table t) = Inr (map locked (lt_packages t))"
    by (rule read_packages_table [OF assms(1)]) (simp add: tool_table_def toml_array_put_array none)
  moreover have "read_gas (tool_table t) ''roots'' = lt_roots t"
    using read_gas_value [OF _ assms(2), of "tool_pairs t" "''roots''"] by (simp add: tool_table_def tool_pairs_def)
  moreover have "toml_str (tool_table t) ''name'' = Some (lt_name t)"
    by (simp add: tool_table_def) (simp add: toml_str_def tool_pairs_def)
  ultimately show ?thesis
    by (simp add: read_tool_def as_table_def lock_field_def ok_or_def)
qed

lemma root_lookups:
  "toml_nat (root_table lk) ''version'' = Some (lk_version lk)"
  "toml_str (root_table lk) ''manifest-checksum'' = Some (lk_manifest_checksum lk)"
  "strings_of (toml_array (root_table lk) ''members'') = lk_members lk"
  "map_of (root_table lk) ''roots'' = Some (gas_value (lk_roots lk))"
  "map_of (root_table lk) ''test-roots'' = Some (gas_value (lk_test_roots lk))"
  "toml_array (root_table lk) ''package'' = []" "toml_array (root_table lk) ''local'' = []" "toml_array (root_table lk) ''tool'' = []"
  by (simp_all add: root_table_def toml_nat_def toml_str_def toml_array_def)
    (simp add: strings_of_def List.map_filter_simps)

lemma lock_parse_table:
  assumes wf: "lock_wf lk" and reads: "from_str s = Inr (doc_table (lock_doc lk))"
  shows "lock_parse from_str v s file = Inr (locked_form lk)"
proof -
  let ?t = "doc_table (lock_doc lk)"
  have arrays: "toml_array ?t ''package'' = map (\<lambda>p. TomlTable (package_table p)) (lk_packages lk)"
    "toml_array ?t ''local'' = map (\<lambda>l. TomlTable (local_table l)) (lk_local lk)"
    "toml_array ?t ''tool'' = map (\<lambda>t. TomlTable (tool_table t)) (lk_tools lk)"
    "strings_of (toml_array ?t ''members'') = lk_members lk"
    by (simp_all add: lock_doc_table toml_array_put_array root_lookups)
  have "read_packages file ?t = Inr (map locked (lk_packages lk))"
    using wf arrays(1) by (simp add: lock_wf_def read_packages_table)
  moreover have "read_local file ?t = Inr (map (\<lambda>l. l\<lparr>lj_jar := None\<rparr>) (lk_local lk))"
    by (simp add: read_local_def arrays(2) collect_Inr comp_def read_local_table)
  moreover have "collect (map (read_tool file) (toml_array ?t ''tool'')) = Inr (map (\<lambda>t. t\<lparr>lt_packages := map locked (lt_packages t)\<rparr>) (lk_tools lk))"
    using wf by (simp add: arrays(3) collect_Inr comp_def lock_wf_def read_tool_table)
  moreover have "read_gas ?t ''roots'' = lk_roots lk" "read_gas ?t ''test-roots'' = lk_test_roots lk"
    using wf by (simp_all add: lock_doc_table read_gas_value root_lookups lock_wf_def)
  moreover have "toml_nat ?t ''version'' = Some (lk_version lk)" "toml_str ?t ''manifest-checksum'' = Some (lk_manifest_checksum lk)"
    by (simp_all add: lock_doc_table root_lookups)
  ultimately show ?thesis
    using wf reads by (simp add: lock_parse_def value_or_def arrays(4) lock_wf_def locked_form_def)
qed

text \<open>Strings a document may hold between double quotes as they are.\<close>

definition plain_string :: "str \<Rightarrow> bool" where
  "plain_string s \<longleftrightarrow> (\<forall>c \<in> set s. c \<noteq> CHR 0x22 \<and> c \<noteq> CHR 0x5C \<and> 32 \<le> (of_char c :: nat) \<and> of_char c \<noteq> (127 :: nat))"

fun plain_value :: "toml \<Rightarrow> bool" where
  "plain_value (TomlString s) = plain_string s"
| "plain_value (TomlInteger n) = (- (2 ^ 63) \<le> n \<and> n < 2 ^ 63)"
| "plain_value (TomlBoolean b) = True"
| "plain_value (TomlArray vs) = list_all plain_value vs"
| "plain_value _ = False"

fun plain_line :: "toml_line \<Rightarrow> bool" where
  "plain_line (TlPair k v) = plain_value v"
| "plain_line _ = True"

text \<open>
  Property C36. A lockfile is read back from the text it is written as: every package with its
  coordinate, place, depth and dependencies, every tool with its graph, local jars, roots and members,
  in their order. What is not kept is where the jars are, whether a version was mediated, and the
  checksum of a jar that differs from machine to machine. The TOML crate is relied on for this
  document only: where no string needs an escape it reads the lines as the tables they mean.
\<close>

theorem lockfile_roundtrip:
  assumes "lock_wf lk" and "list_all plain_line (lock_doc lk)"
    and crate: "list_all plain_line (lock_doc lk) \<Longrightarrow> from_str (doc_text quote (lock_doc lk)) = Inr (doc_table (lock_doc lk))"
  shows "lock_parse from_str v (lock_render quote lk) file = Inr (locked_form lk)"
  by (rule lock_parse_table [where from_str = from_str, OF assms(1)]) (simp add: lock_render_doc crate [OF assms(2)])

section \<open>The digest tells manifests apart\<close>

text \<open>
  The digested text is lines of words. Where no field holds a space, a line break or the mark it is
  separated by, every line is told from every other by its words, and the text gives the inputs back.
\<close>

definition plain_word :: "str \<Rightarrow> bool" where
  "plain_word w \<longleftrightarrow> w \<noteq> [] \<and> CHR '' '' \<notin> set w \<and> CHR 0x0A \<notin> set w"

abbreviation plain_part :: "str \<Rightarrow> bool" where
  "plain_part w \<equiv> plain_word w \<and> CHR '':'' \<notin> set w"

abbreviation plain_item :: "str \<Rightarrow> bool" where
  "plain_item w \<equiv> plain_word w \<and> CHR '','' \<notin> set w"

definition plain_dep :: "dependency \<Rightarrow> bool" where
  "plain_dep d \<longleftrightarrow>
     (case dep_path d of
        Some p \<Rightarrow> plain_word (dep_artifact d) \<and> plain_word p \<and> dep_group d = [] \<and> dep_version d = [] \<and> dep_classifier d = None
      | None \<Rightarrow> plain_part (dep_group d) \<and> plain_part (dep_artifact d) \<and>
          (case dep_classifier d of None \<Rightarrow> dep_version d = [] \<or> plain_part (dep_version d)
             | Some c \<Rightarrow> plain_part (dep_version d) \<and> plain_part c)) \<and>
     (\<forall>e \<in> set (dep_exclusions d). plain_part (ex_group e) \<and> plain_part (ex_artifact e))"

definition dep_flags :: "dependency \<Rightarrow> str list" where
  "dep_flags d = map (\<lambda>e. ''exclude='' @ exclusion_display e) (dep_exclusions d) @
     (if dep_compile_only d then [''compile-only''] else []) @ (if dep_runtime_only d then [''runtime-only''] else [])"

definition dep_words :: "dependency \<Rightarrow> str list" where
  "dep_words d = (case dep_path d of Some p \<Rightarrow> [dep_artifact d, ''path='' @ p] | None \<Rightarrow> [dependency_display d]) @ dep_flags d"

lemma join_with_words: "join_with sep (x # b) = x @ concat (map (\<lambda>w. sep @ w) b)"
  by (induction b arbitrary: x) auto

lemma dep_line_words: "dep_line d = join_with '' '' (dep_words d)"
proof -
  have "concat (map (\<lambda>w. '' '' @ w) (map (\<lambda>e. ''exclude='' @ exclusion_display e) es)) =
      concat (map (\<lambda>e. '' exclude='' @ exclusion_display e) es)" for es
    by (simp add: comp_def)
  then show ?thesis
    by (cases "dep_path d") (simp_all add: dep_line_def dep_words_def dep_flags_def join_with_words)
qed

lemma dependency_display_parts:
  assumes "plain_dep d" and "dep_path d = None"
  shows "split_on CHR '':'' (dependency_display d) =
    [dep_group d, dep_artifact d] @ (if dep_version d = [] then [] else [dep_version d]) @ (case dep_classifier d of None \<Rightarrow> [] | Some c \<Rightarrow> [c])"
  using assms
  by (auto simp: plain_dep_def dependency_display_def plain_word_def split_on_append split_on_no_sep split: option.splits)

lemma exclusion_display_inject:
  assumes "\<forall>e \<in> set es \<union> set es'. plain_part (ex_group e) \<and> plain_part (ex_artifact e)"
    and "map exclusion_display es = map exclusion_display es'"
  shows "es = es'"
proof (rule map_inj_on [OF assms(2)], rule inj_onI)
  fix e e'
  assume e: "e \<in> set es \<union> set es'" "e' \<in> set es \<union> set es'" and eq: "exclusion_display e = exclusion_display e'"
  have "split_on CHR '':'' (exclusion_display x) = [ex_group x, ex_artifact x]" if "x \<in> set es \<union> set es'" for x
    using assms(1) that by (simp add: exclusion_display_def split_on_append split_on_no_sep)
  from this [OF e(1)] this [OF e(2)] eq show "e = e'" by simp
qed

lemma flags_inject:
  assumes "map (\<lambda>e. ''exclude='' @ f e) es @ (if a then [''compile-only''] else []) @ (if b then [''runtime-only''] else []) =
    map (\<lambda>e. ''exclude='' @ f e) es' @ (if a' then [''compile-only''] else []) @ (if b' then [''runtime-only''] else [])"
    (is "?l = ?r")
  shows "map f es = map f es' \<and> a = a' \<and> b = b'"
proof (intro conjI)
  have "filter (starts_with ''exclude='') ?l = map (\<lambda>e. ''exclude='' @ f e) es"
    "filter (starts_with ''exclude='') ?r = map (\<lambda>e. ''exclude='' @ f e) es'" by (simp_all add: filter_map comp_def)
  with assms have "map (\<lambda>e. ''exclude='' @ f e) es = map (\<lambda>e. ''exclude='' @ f e) es'" by simp
  then have "map (drop 8) (map (\<lambda>e. ''exclude='' @ f e) es) = map (drop 8) (map (\<lambda>e. ''exclude='' @ f e) es')" by simp
  then show "map f es = map f es'" by (simp add: comp_def)
  have "''compile-only'' \<in> set ?l \<longleftrightarrow> a" "''compile-only'' \<in> set ?r \<longleftrightarrow> a'" by auto
  with assms show "a = a'" by simp
  have "''runtime-only'' \<in> set ?l \<longleftrightarrow> b" "''runtime-only'' \<in> set ?r \<longleftrightarrow> b'" by auto
  with assms show "b = b'" by simp
qed

lemma dependency_eqI:
  assumes "dep_group d = dep_group d'" "dep_artifact d = dep_artifact d'" "dep_version d = dep_version d'"
    "dep_classifier d = dep_classifier d'" "dep_exclusions d = dep_exclusions d'" "dep_compile_only d = dep_compile_only d'"
    "dep_runtime_only d = dep_runtime_only d'" "dep_path d = dep_path d'"
  shows "d = (d' :: dependency)"
  using assms by (cases d; cases d') simp

text \<open>A local jar's line goes on with its path, a coordinate's does not.\<close>

lemma dep_words_local: "(\<exists>w ws. dep_words d = w # (''path='' @ p) # ws) \<longleftrightarrow> dep_path d = Some p"
proof (cases "dep_path d")
  case None
  have "dep_words d \<noteq> w # (''path='' @ p) # ws" for w ws
  proof
    assume "dep_words d = w # (''path='' @ p) # ws"
    then have "''path='' @ p \<in> set (tl (dep_words d))" by simp
    then show False using None by (auto simp: dep_words_def dep_flags_def split: if_splits)
  qed
  with None show ?thesis by simp
qed (auto simp: dep_words_def)

lemma dep_words_inject:
  assumes plain: "plain_dep d" "plain_dep d'" and eq: "dep_words d = dep_words d'"
  shows "d = d'"
proof -
  have path: "dep_path d = dep_path d'"
  proof (cases "dep_path d")
    case None
    then have "dep_path d' \<noteq> Some p" for p using dep_words_local [of d p] dep_words_local [of d' p] eq by simp
    with None show ?thesis by (cases "dep_path d'") auto
  next
    case (Some p)
    then show ?thesis using dep_words_local [of d p] dep_words_local [of d' p] eq by simp
  qed
  have words: "case dep_path d of Some p \<Rightarrow> dep_artifact d = dep_artifact d' | None \<Rightarrow> dependency_display d = dependency_display d'"
    "dep_flags d = dep_flags d'"
    using eq unfolding dep_words_def path by (cases "dep_path d'"; simp)+
  note flags = flags_inject [OF words(2) [unfolded dep_flags_def]]
  have exclusions: "dep_exclusions d = dep_exclusions d'"
    using plain by (intro exclusion_display_inject) (auto simp: plain_dep_def flags)
  have coord: "dep_group d = dep_group d' \<and> dep_artifact d = dep_artifact d' \<and> dep_version d = dep_version d' \<and> dep_classifier d = dep_classifier d'"
  proof (cases "dep_path d")
    case None
    then have "split_on CHR '':'' (dependency_display d) = split_on CHR '':'' (dependency_display d')" using words(1) by simp
    then show ?thesis
      using plain None path unfolding dependency_display_parts [OF plain(1) None] dependency_display_parts [OF plain(2) None [unfolded path]]
      by (auto simp: plain_dep_def plain_word_def split: option.splits if_splits)
  next
    case (Some p)
    moreover from Some path have "dep_path d' = Some p" by simp
    ultimately show ?thesis using plain words(1) by (simp add: plain_dep_def)
  qed
  show ?thesis using coord exclusions flags path by (intro dependency_eqI) auto
qed

section \<open>The words of a manifest\<close>

definition managed_words :: "managed \<Rightarrow> str list" where
  "managed_words x = [if mg_bom x then ''bom'' else ''managed'', mg_group x @ '':'' @ mg_artifact x, mg_version x]"

definition repo_words :: "repository \<Rightarrow> str list" where
  "repo_words r = [''repo'', repo_name r, repo_url r] @ (if repo_groups r \<noteq> [] then [''groups='' @ join_with '','' (repo_groups r)] else [])"

definition lang_words :: "language_config \<Rightarrow> str list" where
  "lang_words c = [''lang'', lang_key (lc_language c), lc_version c] @
     (if lc_plugins c \<noteq> [] then [''plugins='' @ join_with '','' (lc_plugins c)] else [])"

definition task_deps :: "manifest \<Rightarrow> (str \<times> dependency) list" where
  "task_deps m = concat (map (\<lambda>t. map (\<lambda>d. (td_name t, d)) (td_dependencies t)) (mf_tasks m))"

definition canonical_words :: "manifest \<Rightarrow> str list list" where
  "canonical_words m =
     map (\<lambda>d. ''dep'' # dep_words d) (effective_dependencies m) @ map (\<lambda>d. ''dev'' # dep_words d) (mf_dev_dependencies m) @
     map managed_words (mf_managed m) @ map repo_words (mf_repositories m) @ map lang_words (mf_languages m) @
     (case mf_obfuscate m of None \<Rightarrow> [] | Some ob \<Rightarrow> [[''obfuscate'', ob_version ob]]) @
     map (\<lambda>(name, d). ''task'' # name # dep_words d) (task_deps m) @
     map (\<lambda>(name, c). [''agent'', name, coord_display c]) (pinned_agents m)"

definition words_text :: "str list list \<Rightarrow> str" where
  "words_text wss = concat (map (\<lambda>ws. join_with '' '' ws @ newline) wss)"

lemma words_text_append [simp]: "words_text (a @ b) = words_text a @ words_text b"
  by (simp add: words_text_def)

lemma dep_words_nonempty [simp]: "dep_words d \<noteq> []"
  by (simp add: dep_words_def split: option.split)

lemma canonical_text: "canonical m = words_text (canonical_words m)"
proof -
  have deps: "words_text (map (\<lambda>d. ''dep'' # dep_words d) ds) = concat (map (\<lambda>d. ''dep '' @ dep_line d @ newline) ds)"
    "words_text (map (\<lambda>d. ''dev'' # dep_words d) ds) = concat (map (\<lambda>d. ''dev '' @ dep_line d @ newline) ds)" for ds
    by (simp_all add: words_text_def comp_def join_with_Cons dep_line_words)
  have managed: "words_text (map managed_words xs) =
      concat (map (\<lambda>x. (if mg_bom x then ''bom'' else ''managed'') @ '' '' @ mg_group x @ '':'' @ mg_artifact x @ '' '' @ mg_version x @ newline) xs)"
    for xs by (simp add: words_text_def comp_def managed_words_def)
  have repos: "words_text (map repo_words rs) = concat (map (\<lambda>r. ''repo '' @ repo_name r @ '' '' @ repo_url r @
       (if repo_groups r \<noteq> [] then '' groups='' @ join_with '','' (repo_groups r) else []) @ newline) rs)" for rs
    by (induction rs) (simp_all add: words_text_def repo_words_def)
  have langs: "words_text (map lang_words cs) = concat (map (\<lambda>c. ''lang '' @ lang_key (lc_language c) @ '' '' @ lc_version c @
       (if lc_plugins c \<noteq> [] then '' plugins='' @ join_with '','' (lc_plugins c) else []) @ newline) cs)" for cs
    by (induction cs) (simp_all add: words_text_def lang_words_def)
  have tasks: "words_text (map (\<lambda>(name, d). ''task'' # name # dep_words d)
        (concat (map (\<lambda>t. map (\<lambda>d. (td_name t, d)) (td_dependencies t)) ts))) =
      concat (map (\<lambda>t. concat (map (\<lambda>d. ''task '' @ td_name t @ '' '' @ dep_line d @ newline) (td_dependencies t))) ts)" for ts :: "task_def list"
    by (induction ts) (simp_all add: words_text_def comp_def join_with_Cons dep_line_words)
  have agents: "words_text (map (\<lambda>(name, c). [''agent'', name, coord_display c]) as) =
      concat (map (\<lambda>(name, c). ''agent '' @ name @ '' '' @ coord_display c @ newline) as)" for as
    by (induction as) (auto simp: words_text_def)
  show ?thesis
    unfolding canonical_def canonical_words_def words_text_append deps managed repos langs task_deps_def tasks agents
    by (simp add: words_text_def split: option.split)
qed

text \<open>Lines of plain words are told apart by the text.\<close>

lemma words_text_inject:
  assumes plain: "\<forall>ws \<in> set a \<union> set b. ws \<noteq> [] \<and> (\<forall>w \<in> set ws. plain_word w)" and eq: "words_text a = words_text b"
  shows "a = b"
proof -
  have lines: "split_on CHR 0x0A (words_text x) = map (join_with '' '') x @ [[]]" if x: "x \<in> {a, b}" for x
  proof -
    have "CHR 0x0A \<notin> set (join_with '' '' ws)" if ws: "ws \<in> set x" for ws
    proof -
      have "\<forall>w \<in> set ws. CHR 0x0A \<notin> set w" using plain x ws unfolding plain_word_def by blast
      with set_join_with [of "'' ''" ws] show ?thesis by fastforce
    qed
    with split_lines [of "map (join_with '' '') x"] show ?thesis by (simp add: words_text_def comp_def)
  qed
  have "map (join_with '' '') a = map (join_with '' '') b" using lines [of a] lines [of b] eq by simp
  then show ?thesis
  proof (rule map_inj_on, intro inj_onI)
    fix v w
    assume vw: "v \<in> set a \<union> set b" "w \<in> set a \<union> set b" "join_with '' '' v = join_with '' '' w"
    have "split_on CHR '' '' (join_with '' '' x) = x" if x: "x \<in> set a \<union> set b" for x
    proof (rule split_on_join)
      show "x \<noteq> []" using bspec [OF plain x] by simp
      show "CHR '' '' \<notin> set w" if "w \<in> set x" for w
        using bspec [OF conjunct2 [OF bspec [OF plain x]] that] unfolding plain_word_def by simp
    qed
    from this [OF vw(1)] this [OF vw(2)] vw(3) show "v = w" by metis
  qed
qed

definition plain_manifest :: "manifest \<Rightarrow> bool" where
  "plain_manifest m \<longleftrightarrow>
     (\<forall>d \<in> set (effective_dependencies m) \<union> set (mf_dev_dependencies m) \<union> snd ` set (task_deps m). plain_dep d) \<and>
     (\<forall>x \<in> set (mf_managed m). plain_part (mg_group x) \<and> plain_part (mg_artifact x) \<and> plain_word (mg_version x)) \<and>
     (\<forall>r \<in> set (mf_repositories m). plain_word (repo_name r) \<and> plain_word (repo_url r) \<and> (\<forall>g \<in> set (repo_groups r). plain_item g)) \<and>
     (\<forall>c \<in> set (mf_languages m). plain_word (lc_version c) \<and> (\<forall>p \<in> set (lc_plugins c). plain_item p)) \<and>
     (\<forall>ob \<in> set_option (mf_obfuscate m). plain_word (ob_version ob)) \<and>
     (\<forall>n \<in> fst ` set (task_deps m). plain_word n) \<and>
     (\<forall>(n, c) \<in> set (pinned_agents m). plain_word n \<and> plain_word (coord_display c) \<and> coord_wf c)"

lemma plain_append: "plain_word a \<Longrightarrow> plain_word b \<Longrightarrow> plain_word (a @ b)"
  by (auto simp: plain_word_def)

lemma plain_literals [simp]:
  "plain_word ''dep''" "plain_word ''dev''" "plain_word ''bom''" "plain_word ''managed''" "plain_word ''repo''" "plain_word ''lang''"
  "plain_word ''obfuscate''" "plain_word ''task''" "plain_word ''agent''" "plain_word ''compile-only''" "plain_word ''runtime-only''"
  by (simp_all add: plain_word_def)

lemma dep_words_plain: "plain_dep d \<Longrightarrow> w \<in> set (dep_words d) \<Longrightarrow> plain_word w"
  by (auto simp: plain_dep_def dep_words_def dep_flags_def dependency_display_def exclusion_display_def split: option.splits if_splits)
    (auto simp: plain_word_def)

lemma plain_joined: "\<forall>g \<in> set gs. plain_item g \<Longrightarrow> plain_word k \<Longrightarrow> plain_word (k @ join_with '','' gs)"
  using set_join_with [of "'',''" gs] by (auto simp: plain_word_def)

lemma lang_key_plain: "plain_word (lang_key l)"
  by (cases l) (simp_all add: plain_word_def)

lemma canonical_words_plain:
  assumes "plain_manifest m" and "ws \<in> set (canonical_words m)"
  shows "ws \<noteq> [] \<and> (\<forall>w \<in> set ws. plain_word w)"
proof -
  consider d where "d \<in> set (effective_dependencies m) \<union> set (mf_dev_dependencies m)" "ws = ''dep'' # dep_words d \<or> ws = ''dev'' # dep_words d"
    | x where "x \<in> set (mf_managed m)" "ws = managed_words x"
    | r where "r \<in> set (mf_repositories m)" "ws = repo_words r"
    | c where "c \<in> set (mf_languages m)" "ws = lang_words c"
    | ob where "mf_obfuscate m = Some ob" "ws = [''obfuscate'', ob_version ob]"
    | n d where "(n, d) \<in> set (task_deps m)" "ws = ''task'' # n # dep_words d"
    | n c where "(n, c) \<in> set (pinned_agents m)" "ws = [''agent'', n, coord_display c]"
    using assms(2) by (cases "mf_obfuscate m") (auto simp: canonical_words_def)
  then show ?thesis
  proof cases
    case 1
    then have "plain_dep d" using assms(1) by (auto simp: plain_manifest_def)
    then show ?thesis using 1 dep_words_plain by auto
  next
    case 2
    then have "plain_part (mg_group x)" "plain_part (mg_artifact x)" "plain_word (mg_version x)"
      using assms(1) by (auto simp: plain_manifest_def)
    then show ?thesis using 2 by (auto simp: managed_words_def plain_word_def)
  next
    case 3
    then have "plain_word (repo_name r)" "plain_word (repo_url r)" "\<forall>g \<in> set (repo_groups r). plain_item g"
      using assms(1) by (auto simp: plain_manifest_def)
    then show ?thesis using 3 plain_joined [of "repo_groups r" "''groups=''"] by (simp add: repo_words_def) (simp add: plain_word_def)
  next
    case 4
    then have "plain_word (lc_version c)" "\<forall>p \<in> set (lc_plugins c). plain_item p"
      using assms(1) by (auto simp: plain_manifest_def)
    then show ?thesis
      using 4 plain_joined [of "lc_plugins c" "''plugins=''"] lang_key_plain [of "lc_language c"] by (simp add: lang_words_def) (simp add: plain_word_def)
  next
    case 5
    then show ?thesis using assms(1) by (simp add: plain_manifest_def)
  next
    case 6
    then have "d \<in> snd ` set (task_deps m)" "n \<in> fst ` set (task_deps m)" by (metis snd_conv imageI, metis fst_conv imageI)
    then have "plain_dep d" "plain_word n" using assms(1) unfolding plain_manifest_def by blast+
    then show ?thesis using 6 dep_words_plain by auto
  next
    case 7
    then have "plain_word n" "plain_word (coord_display c)" using assms(1) by (auto simp: plain_manifest_def)
    then show ?thesis using 7 by simp
  qed
qed

text \<open>The first word of a line says what it is; what comes after gives the input back.\<close>

lemma map_filter_const: "map f (filter (\<lambda>_. b) xs) = (if b then map f xs else [])"
  by simp

lemma filter_lines:
  "filter (\<lambda>ws. hd ws \<in> K) (canonical_words m) =
     (if ''dep'' \<in> K then map (\<lambda>d. ''dep'' # dep_words d) (effective_dependencies m) else []) @
     (if ''dev'' \<in> K then map (\<lambda>d. ''dev'' # dep_words d) (mf_dev_dependencies m) else []) @
     map managed_words (filter (\<lambda>x. (if mg_bom x then ''bom'' else ''managed'') \<in> K) (mf_managed m)) @
     (if ''repo'' \<in> K then map repo_words (mf_repositories m) else []) @
     (if ''lang'' \<in> K then map lang_words (mf_languages m) else []) @
     (if ''obfuscate'' \<in> K then (case mf_obfuscate m of None \<Rightarrow> [] | Some ob \<Rightarrow> [[''obfuscate'', ob_version ob]]) else []) @
     (if ''task'' \<in> K then map (\<lambda>(name, d). ''task'' # name # dep_words d) (task_deps m) else []) @
     (if ''agent'' \<in> K then map (\<lambda>(name, c). [''agent'', name, coord_display c]) (pinned_agents m) else [])"
proof -
  have heads: "(\<lambda>ws. hd ws \<in> K) \<circ> managed_words = (\<lambda>x. (if mg_bom x then ''bom'' else ''managed'') \<in> K)"
    "(\<lambda>ws. hd ws \<in> K) \<circ> repo_words = (\<lambda>_. ''repo'' \<in> K)" "(\<lambda>ws. hd ws \<in> K) \<circ> lang_words = (\<lambda>_. ''lang'' \<in> K)"
    "(\<lambda>ws. hd ws \<in> K) \<circ> (\<lambda>(name, d). ''task'' # name # dep_words d) = (\<lambda>_. ''task'' \<in> K)"
    "(\<lambda>ws. hd ws \<in> K) \<circ> (\<lambda>(name, c). [''agent'', name, coord_display c]) = (\<lambda>_. ''agent'' \<in> K)"
    "(\<lambda>ws. hd ws \<in> K) \<circ> (\<lambda>d. ''dep'' # dep_words d) = (\<lambda>_. ''dep'' \<in> K)"
    "(\<lambda>ws. hd ws \<in> K) \<circ> (\<lambda>d. ''dev'' # dep_words d) = (\<lambda>_. ''dev'' \<in> K)"
    by (auto simp: managed_words_def repo_words_def lang_words_def)
  have obfuscate: "filter (\<lambda>ws. hd ws \<in> K) (case ob of None \<Rightarrow> [] | Some ob \<Rightarrow> [[''obfuscate'', ob_version ob]]) =
      (if ''obfuscate'' \<in> K then (case ob of None \<Rightarrow> [] | Some ob \<Rightarrow> [[''obfuscate'', ob_version ob]]) else [])" for ob
    by (cases ob) auto
  then show ?thesis
    unfolding canonical_words_def filter_append filter_map heads map_filter_const obfuscate by (simp split del: if_split)
qed

lemma managed_inject: "plain_part (mg_group x) \<and> plain_part (mg_artifact x) \<Longrightarrow> plain_part (mg_group y) \<and> plain_part (mg_artifact y) \<Longrightarrow>
   managed_words x = managed_words y \<Longrightarrow> x = (y :: managed)"
proof -
  assume plain: "plain_part (mg_group x) \<and> plain_part (mg_artifact x)" "plain_part (mg_group y) \<and> plain_part (mg_artifact y)"
    and eq: "managed_words x = managed_words y"
  have parts: "split_on CHR '':'' (g @ '':'' @ a) = [g, a]" if "plain_part g \<and> plain_part a" for g a
    using that by (simp add: split_on_append split_on_no_sep)
  have "mg_group x @ '':'' @ mg_artifact x = mg_group y @ '':'' @ mg_artifact y" using eq by (simp add: managed_words_def)
  then have "[mg_group x, mg_artifact x] = [mg_group y, mg_artifact y]" unfolding parts [OF plain(1), symmetric] parts [OF plain(2), symmetric] by (rule arg_cong)
  then have "mg_group x = mg_group y" "mg_artifact x = mg_artifact y" by simp_all
  then show "x = y" using eq by (cases x; cases y) (simp add: managed_words_def split: if_splits)
qed

lemma joined_inject:
  "\<forall>g \<in> set gs. plain_item g \<Longrightarrow> \<forall>g \<in> set hs. plain_item g \<Longrightarrow>
   (if gs \<noteq> [] then [k @ join_with '','' gs] else []) = (if hs \<noteq> [] then [k @ join_with '','' hs] else []) \<Longrightarrow> gs = hs"
proof (cases "gs = [] \<or> hs = []")
  case False
  assume plain: "\<forall>g \<in> set gs. plain_item g" "\<forall>g \<in> set hs. plain_item g"
    and eq: "(if gs \<noteq> [] then [k @ join_with '','' gs] else []) = (if hs \<noteq> [] then [k @ join_with '','' hs] else [])"
  have "split_on CHR '','' (join_with '','' gs) = gs" "split_on CHR '','' (join_with '','' hs) = hs"
    using plain False by (simp_all add: split_on_join)
  moreover have "join_with '','' gs = join_with '','' hs" using False eq by simp
  ultimately show ?thesis by metis
qed (auto split: if_splits)

lemma repo_inject:
  assumes "\<forall>g \<in> set (repo_groups r). plain_item g" "\<forall>g \<in> set (repo_groups r'). plain_item g" "repo_words r = repo_words r'"
  shows "r = (r' :: repository)"
proof -
  have "repo_groups r = repo_groups r'"
    by (rule joined_inject [OF assms(1,2), of "''groups=''"]) (use assms(3) in \<open>simp add: repo_words_def\<close>)
  with assms(3) show ?thesis by (cases r; cases r') (simp add: repo_words_def)
qed

lemma lang_inject:
  assumes "\<forall>p \<in> set (lc_plugins c). plain_item p" "\<forall>p \<in> set (lc_plugins c'). plain_item p" "lang_words c = lang_words c'"
  shows "(lc_language c, lc_version c, lc_plugins c) = (lc_language c', lc_version c', lc_plugins c')"
proof -
  have "lc_plugins c = lc_plugins c'"
    by (rule joined_inject [OF assms(1,2), of "''plugins=''"]) (use assms(3) in \<open>simp add: lang_words_def\<close>)
  moreover have "lang_key a = lang_key b \<Longrightarrow> a = b" for a b by (cases a; cases b) simp_all
  ultimately show ?thesis using assms(3) by (simp add: lang_words_def)
qed

text \<open>What a resolution, and a pinned graph beside it, is made from.\<close>

definition same_inputs :: "manifest \<Rightarrow> manifest \<Rightarrow> bool" where
  "same_inputs m m' \<longleftrightarrow>
     effective_dependencies m = effective_dependencies m' \<and> mf_dev_dependencies m = mf_dev_dependencies m' \<and>
     mf_managed m = mf_managed m' \<and> mf_repositories m = mf_repositories m' \<and>
     map (\<lambda>c. (lc_language c, lc_version c, lc_plugins c)) (mf_languages m) =
       map (\<lambda>c. (lc_language c, lc_version c, lc_plugins c)) (mf_languages m') \<and>
     map_option ob_version (mf_obfuscate m) = map_option ob_version (mf_obfuscate m') \<and>
     task_deps m = task_deps m' \<and> pinned_agents m = pinned_agents m'"

lemma map_pair_inject:
  assumes "\<And>x y. x \<in> set xs \<Longrightarrow> y \<in> set ys \<Longrightarrow> f x = f y \<Longrightarrow> g x = g y" and "map f xs = map f ys"
  shows "map g xs = map g ys"
  using assms
proof (induction xs arbitrary: ys)
  case (Cons x xs)
  then obtain y ys' where "ys = y # ys'" "f x = f y" "map f xs = map f ys'" by auto
  with Cons show ?case by simp
qed simp

lemma dep_lists_inject:
  "\<forall>d \<in> set ds \<union> set ds'. plain_dep d \<Longrightarrow> map (\<lambda>d. w # dep_words d) ds = map (\<lambda>d. w # dep_words d) ds' \<Longrightarrow> ds = ds'"
  using map_pair_inject [of ds ds' "\<lambda>d. w # dep_words d" "\<lambda>d. d"] dep_words_inject by auto

lemma canonical_inject:
  assumes plain: "plain_manifest m" "plain_manifest m'" and eq: "canonical m = canonical m'"
  shows "same_inputs m m'"
proof -
  have words: "canonical_words m = canonical_words m'"
  proof (rule words_text_inject)
    show "\<forall>ws \<in> set (canonical_words m) \<union> set (canonical_words m'). ws \<noteq> [] \<and> (\<forall>w \<in> set ws. plain_word w)"
    proof
      fix ws
      assume "ws \<in> set (canonical_words m) \<union> set (canonical_words m')"
      then show "ws \<noteq> [] \<and> (\<forall>w \<in> set ws. plain_word w)"
        using canonical_words_plain [OF plain(1), of ws] canonical_words_plain [OF plain(2), of ws] by blast
    qed
    show "words_text (canonical_words m) = words_text (canonical_words m')" using eq by (simp only: canonical_text)
  qed
  have lines: "filter (\<lambda>ws. hd ws \<in> K) (canonical_words m) = filter (\<lambda>ws. hd ws \<in> K) (canonical_words m')" for K
    by (simp only: words)
  note kinds = lines [unfolded filter_lines]
  have deps: "\<forall>d \<in> set (effective_dependencies m) \<union> set (effective_dependencies m'). plain_dep d"
    "\<forall>d \<in> set (mf_dev_dependencies m) \<union> set (mf_dev_dependencies m'). plain_dep d"
    using conjunct1 [OF plain(1) [unfolded plain_manifest_def]] conjunct1 [OF plain(2) [unfolded plain_manifest_def]] by blast+
  have "effective_dependencies m = effective_dependencies m'"
    using kinds [of "{''dep''}"] by (intro dep_lists_inject [OF deps(1), of "''dep''"]) simp
  moreover have "mf_dev_dependencies m = mf_dev_dependencies m'"
    using kinds [of "{''dev''}"] by (intro dep_lists_inject [OF deps(2), of "''dev''"]) simp
  moreover have "mf_managed m = mf_managed m'"
  proof -
    have "map managed_words (mf_managed m) = map managed_words (mf_managed m')"
      using kinds [of "{''bom'', ''managed''}"] by simp
    then have "map (\<lambda>x. x) (mf_managed m) = map (\<lambda>x. x) (mf_managed m')"
      by (rule map_pair_inject [rotated]) (use plain in \<open>auto simp: plain_manifest_def intro!: managed_inject\<close>)
    then show ?thesis by simp
  qed
  moreover have "mf_repositories m = mf_repositories m'"
  proof -
    have "map repo_words (mf_repositories m) = map repo_words (mf_repositories m')"
      using kinds [of "{''repo''}"] by simp
    then have "map (\<lambda>x. x) (mf_repositories m) = map (\<lambda>x. x) (mf_repositories m')"
      by (rule map_pair_inject [rotated]) (use plain in \<open>auto simp: plain_manifest_def intro!: repo_inject\<close>)
    then show ?thesis by simp
  qed
  moreover have "map (\<lambda>c. (lc_language c, lc_version c, lc_plugins c)) (mf_languages m) =
      map (\<lambda>c. (lc_language c, lc_version c, lc_plugins c)) (mf_languages m')"
  proof (rule map_pair_inject)
    show "map lang_words (mf_languages m) = map lang_words (mf_languages m')"
      using kinds [of "{''lang''}"] by simp
    show "(lc_language c, lc_version c, lc_plugins c) = (lc_language c', lc_version c', lc_plugins c')"
      if "c \<in> set (mf_languages m)" "c' \<in> set (mf_languages m')" "lang_words c = lang_words c'" for c c'
      using plain that by (intro lang_inject) (auto simp: plain_manifest_def)
  qed
  moreover have "map_option ob_version (mf_obfuscate m) = map_option ob_version (mf_obfuscate m')"
    using kinds [of "{''obfuscate''}"] by (simp split: option.splits)
  moreover have "task_deps m = task_deps m'"
  proof -
    have "map (\<lambda>(name, d). ''task'' # name # dep_words d) (task_deps m) = map (\<lambda>(name, d). ''task'' # name # dep_words d) (task_deps m')"
      using kinds [of "{''task''}"] by simp
    then have "map (\<lambda>x. x) (task_deps m) = map (\<lambda>x. x) (task_deps m')"
    proof (rule map_pair_inject [rotated])
      fix x y
      assume xy: "x \<in> set (task_deps m)" "y \<in> set (task_deps m')"
        "(\<lambda>(name, d). ''task'' # name # dep_words d) x = (\<lambda>(name, d). ''task'' # name # dep_words d) y"
      then have "plain_dep (snd x)" "plain_dep (snd y)"
        using conjunct1 [OF plain(1) [unfolded plain_manifest_def]] conjunct1 [OF plain(2) [unfolded plain_manifest_def]] by blast+
      with xy(3) dep_words_inject show "x = y" by (cases x; cases y) auto
    qed
    then show ?thesis by simp
  qed
  moreover have "pinned_agents m = pinned_agents m'"
  proof -
    have "map (\<lambda>(name, c). [''agent'', name, coord_display c]) (pinned_agents m) = map (\<lambda>(name, c). [''agent'', name, coord_display c]) (pinned_agents m')"
      using kinds [of "{''agent''}"] by simp
    then have "map (\<lambda>x. x) (pinned_agents m) = map (\<lambda>x. x) (pinned_agents m')"
    proof (rule map_pair_inject [rotated])
      fix x y
      assume xy: "x \<in> set (pinned_agents m)" "y \<in> set (pinned_agents m')"
        "(\<lambda>(name, c). [''agent'', name, coord_display c]) x = (\<lambda>(name, c). [''agent'', name, coord_display c]) y"
      have "\<forall>(n, c) \<in> set (pinned_agents m). coord_wf c" "\<forall>(n, c) \<in> set (pinned_agents m'). coord_wf c"
        using plain by (auto simp: plain_manifest_def)
      then have "coord_wf (snd x)" "coord_wf (snd y)" using xy(1,2) by (cases x; cases y; force)+
      then have "coord_parse (coord_display (snd x)) = Inr (snd x)" "coord_parse (coord_display (snd y)) = Inr (snd y)"
        by (simp_all add: coord_parse_display)
      with xy(3) show "x = y" by (cases x; cases y) simp
    qed
    then show ?thesis by simp
  qed
  ultimately show ?thesis unfolding same_inputs_def by blast
qed

lemma canonical_inputs: "same_inputs m m' \<Longrightarrow> canonical m = canonical m'"
proof -
  assume same: "same_inputs m m'"
  have "map lang_words (mf_languages m) = map lang_words (mf_languages m')"
    by (rule map_pair_inject [where f = "\<lambda>c. (lc_language c, lc_version c, lc_plugins c)"])
      (use same in \<open>auto simp: same_inputs_def lang_words_def\<close>)
  moreover have "(case mf_obfuscate m of None \<Rightarrow> [] | Some ob \<Rightarrow> [[''obfuscate'', ob_version ob]]) =
      (case mf_obfuscate m' of None \<Rightarrow> [] | Some ob \<Rightarrow> [[''obfuscate'', ob_version ob]])"
    using same by (cases "mf_obfuscate m"; cases "mf_obfuscate m'") (simp_all add: same_inputs_def)
  ultimately show ?thesis using same unfolding canonical_text canonical_words_def same_inputs_def by (simp only:)
qed

lemma local_jars_effective:
  "local_jars m = List.map_filter (local_jar_of False) (effective_dependencies m) @ List.map_filter (local_jar_of True) (mf_dev_dependencies m)"
proof -
  have "local_jar_of False d = None" if "d \<in> fst ` set (implied_dependencies m)" for d
    using that by (auto simp: implied_dependencies_def dependency_new_def local_jar_of_def)
  then have "List.map_filter (local_jar_of False) (map fst (implied_dependencies m)) = []"
    by (auto simp: List.map_filter_def filter_empty_conv)
  then show ?thesis by (simp add: local_jars_def effective_dependencies_def List.map_filter_def)
qed

lemma resolve_inputs_same:
  assumes "same_inputs m m'"
  shows "resolve m fx = resolve m' fx"
proof -
  have eqs: "effective_dependencies m = effective_dependencies m'" "mf_dev_dependencies m = mf_dev_dependencies m'"
    "mf_managed m = mf_managed m'" using assms by (simp_all add: same_inputs_def)
  have "resolve_inputs m ef = resolve_inputs m' ef" for ef
    unfolding resolve_inputs_def managed_versions_with_def eqs ..
  moreover have "local_jars m = local_jars m'" using assms by (simp add: local_jars_effective same_inputs_def)
  ultimately show ?thesis by (simp add: resolve_def resolve_walking_def)
qed


text \<open>A managed dependency's classifier stands where another's version does.\<close>

lemma digest_ambiguous:
  "dep_line ((dependency_new g a [])\<lparr>dep_classifier := Some c\<rparr>) = dep_line (dependency_new g a c)" if "c \<noteq> []"
  using that by (simp add: dep_line_def dependency_display_def dependency_new_def)

section \<open>Examples\<close>

definition example_package :: package where
  "example_package = \<lparr>pkg_coord = coord_with_classifier (coord_new ''org.lwjgl'' ''lwjgl'' ''3.3'') (Some ''natives-linux''),
     pkg_classpath = CpRuntime, pkg_packaging = ''jar'', pkg_depth = 1, pkg_direct = True,
     pkg_dependencies = [Ga ''g'' ''a'' None, Ga ''g'' ''b'' (Some ''c'')], pkg_jar = Some ''/cache/x.jar'',
     pkg_checksum = Some ''sha256:00'', pkg_mediated = True, pkg_managed = True\<rparr>"

definition example_lock :: lockfile where
  "example_lock = \<lparr>lk_version = 3, lk_manifest_checksum = ''sha256:ff'', lk_roots = [Ga ''g'' ''a'' None], lk_test_roots = [],
     lk_packages = [example_package], lk_tools = [\<lparr>lt_name = ''kotlin-compiler'', lt_roots = [Ga ''g'' ''k'' None],
       lt_packages = [example_package, example_package\<lparr>pkg_dependencies := []\<rparr>]\<rparr>],
     lk_local = [\<lparr>lj_name = ''driver'', lj_path = ''libs/driver.jar'', lj_classpath = CpTest, lj_checksum = None, lj_jar = Some ''/p/libs/driver.jar''\<rparr>],
     lk_members = [''core'', ''app'']\<rparr>"

theorem lockfile_roundtrip_witness:
  "lock_parse (\<lambda>_. Inr (doc_table (lock_doc example_lock))) ''0.16.0'' (lock_render quoted example_lock) ''jrs.lock'' =
     Inr (locked_form example_lock)"
proof -
  have wf: "lock_wf example_lock" by code_simp
  have plain: "list_all plain_line (lock_doc example_lock)" by code_simp
  show ?thesis by (rule lockfile_roundtrip [OF wf plain]) simp
qed

definition example_locked :: manifest where
  "example_locked = (blank ''app'' ''1'' ''/app'')\<lparr>
     mf_languages := [\<lparr>lc_language = Kotlin, lc_version = ''2.1'', lc_source_dir = [], lc_test_dir = [],
       lc_compiler_args = [], lc_compiler_jvm_args = [], lc_plugins = [''spring'']\<rparr>],
     mf_dependencies := [(dependency_new ''g'' ''a'' ''1'')\<lparr>dep_exclusions := [\<lparr>ex_group = ''x'', ex_artifact = ''*''\<rparr>]\<rparr>, dependency_local ''driver'' ''d.jar''],
     mf_managed := [managed_new ''g'' ''b'' ''2'']\<rparr>"


end
