(* ===== verification/Abi.thy ===== *)
theory Abi
  imports Json "HOL-Library.Word" "HOL-Library.Monad_Syntax"
begin

unbundle bit_operations_syntax

text \<open>
  \<^verbatim>\<open>src/src/compile/abi.rs\<close>: a class file read byte by byte, what of it another unit's compiler
  can see, and the digest of that. Bytes are characters, as in \<open>Json\<close>; the reader is what is left to
  read. SHA-256 is an argument, and so are the files, read.
\<close>

section \<open>Bytes as text\<close>

text \<open>
  \<^verbatim>\<open>String::from_utf8_lossy\<close>: every longest part that cannot be the start of a valid sequence is
  replaced by U+FFFD.
\<close>

definition second_ok :: "char \<Rightarrow> char \<Rightarrow> bool" where
  "second_ok a b \<longleftrightarrow> between 0xE0 0xF4 a \<and> continuation b \<and> (code_of a = 0xE0 \<longrightarrow> 0xA0 \<le> code_of b) \<and>
     (code_of a = 0xED \<longrightarrow> code_of b \<le> 0x9F) \<and> (code_of a = 0xF0 \<longrightarrow> 0x90 \<le> code_of b) \<and> (code_of a = 0xF4 \<longrightarrow> code_of b \<le> 0x8F)"

definition utf8_broken :: "str \<Rightarrow> nat" where
  "utf8_broken s =
     (case s of
        a # b # s2 \<Rightarrow>
          if \<not> second_ok a b then 1
          else (case s2 of c # _ \<Rightarrow> if continuation c \<and> between 0xF0 0xF4 a then 3 else 2 | [] \<Rightarrow> 2)
      | _ \<Rightarrow> 1)"

function utf8_lossy :: "str \<Rightarrow> str" where
  "utf8_lossy s =
     (if s = [] then []
      else case utf8_step s of
        Some n \<Rightarrow> take n s @ utf8_lossy (drop n s)
      | None \<Rightarrow> encode_utf8 0xFFFD @ utf8_lossy (drop (utf8_broken s) s))"
  by pat_completeness auto
termination
proof (relation "measure length")
  fix s :: str
  assume "s \<noteq> []"
  moreover have "0 < utf8_broken s" by (auto simp: utf8_broken_def split: list.splits)
  ultimately show "(drop (utf8_broken s) s, s) \<in> measure length" by simp
next
  fix s :: str and n
  assume "s \<noteq> []" "utf8_step s = Some n"
  then show "(drop n s, s) \<in> measure length"
    by (cases s) (auto split: if_splits list.splits)
qed simp

declare utf8_lossy.simps [simp del]

lemma utf8_lossy_valid: "utf8_valid s \<Longrightarrow> utf8_lossy s = s"
proof (induction s rule: utf8_valid.induct)
  case (1 s)
  show ?case
  proof (cases "s = []")
    case False
    obtain n where n: "utf8_step s = Some n" using 1(2) False by (subst (asm) utf8_valid.simps) (auto split: option.splits)
    then have "utf8_valid (drop n s)" using 1(2) False by (subst (asm) utf8_valid.simps) simp
    from 1(1) [OF False n this] n False show ?thesis by (subst utf8_lossy.simps) simp
  qed (subst utf8_lossy.simps, simp)
qed

section \<open>The reader\<close>

definition rd_take :: "nat \<Rightarrow> str \<Rightarrow> (str \<times> str) option" where
  "rd_take n r = (if n \<le> length r then Some (take n r, drop n r) else None)"

definition be_word :: "str \<Rightarrow> 'a::len word" where
  "be_word bs = foldl (\<lambda>w b. push_bit 8 w OR word_of_nat (code_of b)) 0 bs"

definition rd_u1 :: "str \<Rightarrow> (char \<times> str) option" where
  "rd_u1 r = do { (b, r') \<leftarrow> rd_take 1 r; Some (hd b, r') }"

definition rd_u2 :: "str \<Rightarrow> (16 word \<times> str) option" where
  "rd_u2 r = do { (b, r') \<leftarrow> rd_take 2 r; Some (be_word b, r') }"

definition rd_u4 :: "str \<Rightarrow> (32 word \<times> str) option" where
  "rd_u4 r = do { (b, r') \<leftarrow> rd_take 4 r; Some (be_word b, r') }"

lemma rd_take_length: "rd_take n r = Some (b, r') \<Longrightarrow> length r = n + length r'"
  by (auto simp: rd_take_def split: if_splits)

lemma rd_lengths:
  "rd_u1 r = Some (c, r') \<Longrightarrow> length r = 1 + length r'" "rd_u2 r = Some (w, r') \<Longrightarrow> length r = 2 + length r'"
  "rd_u4 r = Some (v, r') \<Longrightarrow> length r = 4 + length r'"
  by (auto simp: rd_u1_def rd_u2_def rd_u4_def Option.bind_eq_Some_conv dest: rd_take_length)

text \<open>A loop of \<open>n\<close> turns, each of which may fail.\<close>

fun turns :: "nat \<Rightarrow> ('s \<Rightarrow> 's option) \<Rightarrow> 's \<Rightarrow> 's option" where
  "turns 0 f s = Some s"
| "turns (Suc n) f s = do { s' \<leftarrow> f s; turns n f s' }"

section \<open>Fields\<close>

definition put_field :: "str \<Rightarrow> str \<Rightarrow> str" where
  "put_field out bytes = out @ dec (length bytes) @ '':'' @ bytes"

definition num_field :: "str \<Rightarrow> nat \<Rightarrow> str" where
  "num_field out n = put_field out (dec n)"

definition hex_digit :: "nat \<Rightarrow> char" where
  "hex_digit d = (if d < 10 then byte_of (48 + d) else byte_of (87 + d))"

text \<open>\<^verbatim>\<open>{:08x}\<close> and \<^verbatim>\<open>{:016x}\<close>: \<open>n\<close> hexadecimal digits, which a word of \<open>4 * n\<close> bits fits in.\<close>

fun hex_pad :: "nat \<Rightarrow> nat \<Rightarrow> str" where
  "hex_pad 0 v = []"
| "hex_pad (Suc n) v = hex_pad n (v div 16) @ [hex_digit (v mod 16)]"

datatype verdict = VFine | VHidden | VOpaque | VCompilerCode

fun verdict_rank :: "verdict \<Rightarrow> nat" where
  "verdict_rank VFine = 0"
| "verdict_rank VHidden = 1"
| "verdict_rank VOpaque = 2"
| "verdict_rank VCompilerCode = 3"

definition raise_verdict :: "verdict \<Rightarrow> verdict \<Rightarrow> verdict" where
  "raise_verdict v to = (if verdict_rank v < verdict_rank to then to else v)"

section \<open>The constant pool\<close>

datatype const = COther | CUtf8 str | CInt "32 word" | CFloat "32 word" | CLong "64 word" | CDouble "64 word"
  | CClass "16 word" | CStr "16 word"

definition pool_entry :: "str \<Rightarrow> (const list \<times> str) option" where
  "pool_entry r0 = do {
     (t, r) \<leftarrow> rd_u1 r0;
     let tag = code_of t;
     if tag = 1 then do { (n, r) \<leftarrow> rd_u2 r; (b, r) \<leftarrow> rd_take (unat n) r; Some ([CUtf8 b], r) }
     else if tag = 3 then do { (v, r) \<leftarrow> rd_u4 r; Some ([CInt v], r) }
     else if tag = 4 then do { (v, r) \<leftarrow> rd_u4 r; Some ([CFloat v], r) }
     else if tag = 5 \<or> tag = 6 then do {
       (hi, r) \<leftarrow> rd_u4 r; (lo, r) \<leftarrow> rd_u4 r;
       let v = push_bit 32 (ucast hi) OR ucast lo;
       Some ([if tag = 5 then CLong v else CDouble v, COther], r) }
     else if tag = 7 then do { (i, r) \<leftarrow> rd_u2 r; Some ([CClass i], r) }
     else if tag = 8 then do { (i, r) \<leftarrow> rd_u2 r; Some ([CStr i], r) }
     else if tag = 16 \<or> tag = 19 \<or> tag = 20 then do { (_, r) \<leftarrow> rd_u2 r; Some ([COther], r) }
     else if 9 \<le> tag \<and> tag \<le> 12 \<or> tag = 17 \<or> tag = 18 then do { (_, r) \<leftarrow> rd_u4 r; Some ([COther], r) }
     else if tag = 15 then do { (_, r) \<leftarrow> rd_take 3 r; Some ([COther], r) }
     else None }"

lemma pool_entry_nonempty: "pool_entry r = Some (es, r') \<Longrightarrow> es \<noteq> []"
  by (auto simp: pool_entry_def Let_def Option.bind_eq_Some_conv split: if_splits)

function pool_loop :: "nat \<Rightarrow> const list \<Rightarrow> str \<Rightarrow> (const list \<times> str) option" where
  "pool_loop count pool r =
     (if length pool < count
      then (case pool_entry r of None \<Rightarrow> None | Some (es, r') \<Rightarrow> pool_loop count (pool @ es) r')
      else Some (pool, r))"
  by pat_completeness auto
termination
  by (relation "measure (\<lambda>(count, pool, r). count - length pool)") (auto dest!: pool_entry_nonempty [OF sym] pool_entry_nonempty simp flip: length_greater_0_conv)

declare pool_loop.simps [simp del]

definition constant_pool :: "str \<Rightarrow> (const list \<times> str) option" where
  "constant_pool r = do { (count, r) \<leftarrow> rd_u2 r; pool_loop (unat count) [COther] r }"

definition mentions :: "str \<Rightarrow> str list \<Rightarrow> bool option" where
  "mentions bytes names = do {
     (magic, r) \<leftarrow> rd_u4 bytes;
     if magic \<noteq> 0xCAFEBABE then None
     else do {
       (_, r) \<leftarrow> rd_u4 r;
       (pool, r) \<leftarrow> constant_pool r;
       Some (list_ex (\<lambda>e. case e of CUtf8 text' \<Rightarrow> utf8_valid text' \<and> text' \<in> set names | _ \<Rightarrow> False) pool) } }"

section \<open>A class\<close>

record class_ctx =
  cx_pool :: "const list"
  cx_this :: "16 word"

definition pool_at :: "class_ctx \<Rightarrow> 16 word \<Rightarrow> const option" where
  "pool_at c i = (if unat i < length (cx_pool c) then Some (cx_pool c ! unat i) else None)"

definition cx_utf8 :: "class_ctx \<Rightarrow> 16 word \<Rightarrow> str option" where
  "cx_utf8 c i = (case pool_at c i of Some (CUtf8 b) \<Rightarrow> Some b | _ \<Rightarrow> None)"

definition cx_class_name :: "class_ctx \<Rightarrow> 16 word \<Rightarrow> str option" where
  "cx_class_name c i = (case pool_at c i of Some (CClass name) \<Rightarrow> cx_utf8 c name | _ \<Rightarrow> None)"

definition cx_constant :: "class_ctx \<Rightarrow> 16 word \<Rightarrow> str \<Rightarrow> str option" where
  "cx_constant c i out = do {
     e \<leftarrow> pool_at c i;
     (case e of
        CInt v \<Rightarrow> Some (put_field out (''I'' @ dec (unat v)))
      | CFloat v \<Rightarrow> Some (put_field out (''F'' @ hex_pad 8 (unat v)))
      | CLong v \<Rightarrow> Some (put_field out (''J'' @ dec (unat v)))
      | CDouble v \<Rightarrow> Some (put_field out (''D'' @ hex_pad 16 (unat v)))
      | CUtf8 b \<Rightarrow> Some (put_field (put_field out ''U'') b)
      | CStr u \<Rightarrow> do { b \<leftarrow> cx_utf8 c u; Some (put_field (put_field out ''S'') b) }
      | CClass n \<Rightarrow> do { b \<leftarrow> cx_utf8 c n; Some (put_field (put_field out ''C'') b) }
      | COther \<Rightarrow> None) }"

text \<open>The class names in a descriptor or a signature, and in the whole pool.\<close>

definition name_end :: "str \<Rightarrow> nat option" where
  "name_end rest = position (\<lambda>b. b = CHR '';'' \<or> b = CHR ''<'') rest"

function descriptor_names :: "str \<Rightarrow> str list" where
  "descriptor_names s =
     (case s of
        [] \<Rightarrow> []
      | b # rest \<Rightarrow>
          if b \<noteq> CHR ''L'' then descriptor_names rest
          else (case name_end rest of
            Some e \<Rightarrow>
              if 0 < e \<and> \<not> list_ex (\<lambda>b. b \<in> set '':()[].>; '') (take e rest)
              then utf8_lossy (take e rest) # descriptor_names (drop (e + 1) rest)
              else descriptor_names rest
          | None \<Rightarrow> descriptor_names rest))"
  by pat_completeness auto
termination
  by (relation "measure length") auto

declare descriptor_names.simps [simp del]

definition entry_names :: "class_ctx \<Rightarrow> const \<Rightarrow> str list" where
  "entry_names c e =
     (case e of
        CClass n \<Rightarrow>
          (case cx_utf8 c n of
             Some b \<Rightarrow> if starts_with ''['' b then descriptor_names b else [utf8_lossy b]
           | None \<Rightarrow> [])
      | CUtf8 b \<Rightarrow> descriptor_names b
      | _ \<Rightarrow> [])"

text \<open>A \<^verbatim>\<open>BTreeSet\<close> of strings is the sorted list it iterates over.\<close>

definition bt_set :: "'a::linorder list \<Rightarrow> 'a list" where
  "bt_set xs = sort (remdups xs)"

definition cx_refs :: "class_ctx \<Rightarrow> str list" where
  "cx_refs c = bt_set (concat (map (entry_names c) (cx_pool c)))"

section \<open>Attributes\<close>

text \<open>
  What the recursive functions read and write: the reader they are given, the rendering, the verdict
  and the class's cells. \<open>fuel\<close> bounds how deep annotations and records nest.
\<close>

record abi_state =
  ab_rest :: str
  ab_out :: str
  ab_verdict :: verdict
  ab_source_file :: "16 word option"
  ab_nested :: bool
  ab_constant :: bool

abbreviation ab_put :: "str \<Rightarrow> abi_state \<Rightarrow> abi_state" where
  "ab_put b st \<equiv> st\<lparr>ab_out := put_field (ab_out st) b\<rparr>"

abbreviation ab_push :: "str \<Rightarrow> abi_state \<Rightarrow> abi_state" where
  "ab_push b st \<equiv> st\<lparr>ab_out := ab_out st @ b\<rparr>"

abbreviation ab_raise :: "verdict \<Rightarrow> abi_state \<Rightarrow> abi_state" where
  "ab_raise v st \<equiv> st\<lparr>ab_verdict := raise_verdict (ab_verdict st) v\<rparr>"

definition ab_take :: "nat \<Rightarrow> abi_state \<Rightarrow> (str \<times> abi_state) option" where
  "ab_take n st = do { (b, r) \<leftarrow> rd_take n (ab_rest st); Some (b, st\<lparr>ab_rest := r\<rparr>) }"

definition ab_u1 :: "abi_state \<Rightarrow> (char \<times> abi_state) option" where
  "ab_u1 st = do { (b, r) \<leftarrow> rd_u1 (ab_rest st); Some (b, st\<lparr>ab_rest := r\<rparr>) }"

definition ab_u2 :: "abi_state \<Rightarrow> (16 word \<times> abi_state) option" where
  "ab_u2 st = do { (w, r) \<leftarrow> rd_u2 (ab_rest st); Some (w, st\<lparr>ab_rest := r\<rparr>) }"

definition ab_u4 :: "abi_state \<Rightarrow> (32 word \<times> abi_state) option" where
  "ab_u4 st = do { (w, r) \<leftarrow> rd_u4 (ab_rest st); Some (w, st\<lparr>ab_rest := r\<rparr>) }"

text \<open>\<^verbatim>\<open>put(out, self.utf8(b.u2()?)?)\<close> and its like.\<close>

definition put_utf8 :: "class_ctx \<Rightarrow> abi_state \<Rightarrow> abi_state option" where
  "put_utf8 c st = do { (i, st) \<leftarrow> ab_u2 st; b \<leftarrow> cx_utf8 c i; Some (ab_put b st) }"

definition put_class :: "class_ctx \<Rightarrow> abi_state \<Rightarrow> abi_state option" where
  "put_class c st = do { (i, st) \<leftarrow> ab_u2 st; b \<leftarrow> cx_class_name c i; Some (ab_put b st) }"

definition put_constant :: "class_ctx \<Rightarrow> abi_state \<Rightarrow> abi_state option" where
  "put_constant c st = do { (i, st) \<leftarrow> ab_u2 st; out \<leftarrow> cx_constant c i (ab_out st); Some (st\<lparr>ab_out := out\<rparr>) }"

text \<open>A count of two bytes, rendered.\<close>

definition ab_count :: "abi_state \<Rightarrow> (nat \<times> abi_state) option" where
  "ab_count st = do { (n, st) \<leftarrow> ab_u2 st; Some (unat n, ab_put (dec (unat n)) st) }"

definition annotation_verdict :: "str \<Rightarrow> abi_state \<Rightarrow> abi_state" where
  "annotation_verdict kind st =
     (if kind = ''Lkotlin/Metadata;'' \<or> kind = ''Lscala/reflect/ScalaSignature;'' \<or> kind = ''Lscala/reflect/ScalaLongSignature;''
      then ab_raise VOpaque st
      else if kind = ''Lorg/codehaus/groovy/transform/GroovyASTTransformationClass;'' then ab_raise VCompilerCode st
      else st)"

fun annotation :: "class_ctx \<Rightarrow> nat \<Rightarrow> abi_state \<Rightarrow> abi_state option"
  and element_value :: "class_ctx \<Rightarrow> nat \<Rightarrow> abi_state \<Rightarrow> abi_state option" where
  "annotation c 0 st = None"
| "annotation c (Suc fuel) st = do {
     (i, st) \<leftarrow> ab_u2 st;
     kind \<leftarrow> cx_utf8 c i;
     (pairs, st) \<leftarrow> ab_count (ab_put kind (annotation_verdict kind st));
     turns pairs (\<lambda>st. do { st \<leftarrow> put_utf8 c st; element_value c fuel st }) st }"
| "element_value c 0 st = None"
| "element_value c (Suc fuel) st = do {
     (tag, st) \<leftarrow> ab_u1 st;
     let st = ab_push [tag] st;
     if tag \<in> set ''BCDFIJSZs'' then put_constant c st
     else if tag = CHR ''e'' then do { st \<leftarrow> put_utf8 c st; put_utf8 c st }
     else if tag = CHR ''c'' then put_utf8 c st
     else if tag = CHR ''@'' then annotation c fuel st
     else if tag = CHR ''['' then do { (n, st) \<leftarrow> ab_count st; turns n (element_value c fuel) st }
     else None }"

definition target_info :: "nat \<Rightarrow> abi_state \<Rightarrow> abi_state option" where
  "target_info target st =
     (if target = 0x00 \<or> target = 0x01 \<or> target = 0x16 then do { (b, st) \<leftarrow> ab_u1 st; Some (ab_push [b] st) }
      else if target = 0x10 \<or> target = 0x17 then do { (n, st) \<leftarrow> ab_u2 st; Some (ab_put (dec (unat n)) st) }
      else if target = 0x11 \<or> target = 0x12 then do { (a, st) \<leftarrow> ab_u1 st; (b, st) \<leftarrow> ab_u1 (ab_push [a] st); Some (ab_push [b] st) }
      else if 0x13 \<le> target \<and> target \<le> 0x15 then Some st
      else if target = 0x40 \<or> target = 0x41 then do { (n, st) \<leftarrow> ab_u2 st; (_, st) \<leftarrow> ab_take (unat n * 6) st; Some st }
      else if 0x42 \<le> target \<and> target \<le> 0x46 then do { (_, st) \<leftarrow> ab_u2 st; Some st }
      else if 0x47 \<le> target \<and> target \<le> 0x4B then do { (_, st) \<leftarrow> ab_u2 st; (_, st) \<leftarrow> ab_u1 st; Some st }
      else None)"

definition type_annotation :: "class_ctx \<Rightarrow> nat \<Rightarrow> abi_state \<Rightarrow> abi_state option" where
  "type_annotation c fuel st = do {
     (t, st) \<leftarrow> ab_u1 st;
     st \<leftarrow> target_info (code_of t) (ab_push [t] st);
     (steps, st) \<leftarrow> ab_u1 st;
     (path', st) \<leftarrow> ab_take (code_of steps * 2) (ab_push [steps] st);
     annotation c fuel (ab_push path' st) }"

definition ACC_PRIVATE :: "16 word" where "ACC_PRIVATE = 0x0002"
definition ACC_ABSTRACT :: "16 word" where "ACC_ABSTRACT = 0x0400"
definition ACC_SYNTHETIC :: "16 word" where "ACC_SYNTHETIC = 0x1000"
definition ACC_MODULE :: "16 word" where "ACC_MODULE = 0x8000"

definition or_empty :: "16 word \<Rightarrow> (16 word \<Rightarrow> str option) \<Rightarrow> str option" where
  "or_empty i f = (if i = 0 then Some [] else f i)"

definition inner_class :: "class_ctx \<Rightarrow> str \<Rightarrow> abi_state \<times> str list \<Rightarrow> (abi_state \<times> str list) option" where
  "inner_class c this = (\<lambda>(st, entries). do {
     (inner, st) \<leftarrow> ab_u2 st;
     (outer, st) \<leftarrow> ab_u2 st;
     (simple_name, st) \<leftarrow> ab_u2 st;
     (flags, st) \<leftarrow> ab_u2 st;
     inner_name \<leftarrow> cx_class_name c inner;
     let own = (inner_name = this);
     let st = (if own then st\<lparr>ab_nested := True\<rparr> else st);
     let st = (if own \<and> (outer = 0 \<or> flags AND ACC_PRIVATE \<noteq> 0) then ab_raise VHidden st else st);
     member \<leftarrow> (if outer = 0 then Some False
       else do { o' \<leftarrow> cx_class_name c outer; Some (o' = this \<and> flags AND (ACC_PRIVATE OR ACC_SYNTHETIC) = 0) });
     if \<not> own \<and> \<not> member then Some (st, entries)
     else do {
       outer_name \<leftarrow> or_empty outer (cx_class_name c);
       simple \<leftarrow> or_empty simple_name (cx_utf8 c);
       Some (st, entries @ [num_field (put_field (put_field (put_field [] inner_name) outer_name) simple) (unat flags)]) } })"

definition inner_classes :: "class_ctx \<Rightarrow> abi_state \<Rightarrow> abi_state option" where
  "inner_classes c st = do {
     this \<leftarrow> cx_class_name c (cx_this c);
     (n, st) \<leftarrow> ab_u2 st;
     (st, entries) \<leftarrow> turns (unat n) (inner_class c this) (st, []);
     if entries = [] then Some st
     else Some (ab_push (concat (sort entries)) (ab_put (dec (length entries)) (ab_put ''InnerClasses'' st))) }"

definition ignored_attributes :: "str list" where
  "ignored_attributes = [''Code'', ''SourceDebugExtension'', ''NestHost'', ''NestMembers'', ''BootstrapMethods'', ''EnclosingMethod'',
     ''Synthetic'', ''LineNumberTable'', ''LocalVariableTable'', ''LocalVariableTypeTable'', ''StackMapTable'']"

definition put_parameter :: "class_ctx \<Rightarrow> abi_state \<Rightarrow> abi_state option" where
  "put_parameter c st = do {
     (parameter, st) \<leftarrow> ab_u2 st;
     name \<leftarrow> or_empty parameter (cx_utf8 c);
     (flags, st) \<leftarrow> ab_u2 (ab_put name st);
     Some (ab_put (dec (unat flags)) st) }"

definition annotation_list :: "class_ctx \<Rightarrow> nat \<Rightarrow> abi_state \<Rightarrow> abi_state option" where
  "annotation_list c fuel st = do { (n, st) \<leftarrow> ab_count st; turns n (annotation c fuel) st }"

text \<open>
  One attribute. Its body is a reader of its own; an attribute read past leaves what it has not read of
  it, any other must be read to its end.
\<close>

fun attributes :: "class_ctx \<Rightarrow> nat \<Rightarrow> abi_state \<Rightarrow> abi_state option"
  and attribute :: "class_ctx \<Rightarrow> nat \<Rightarrow> abi_state \<Rightarrow> abi_state option" where
  "attributes c 0 st = None"
| "attributes c (Suc fuel) st = do { (n, st) \<leftarrow> ab_u2 st; turns (unat n) (attribute c fuel) st }"
| "attribute c 0 st = None"
| "attribute c (Suc fuel) st = do {
     (i, st) \<leftarrow> ab_u2 st;
     name \<leftarrow> cx_utf8 c i;
     (n, st) \<leftarrow> ab_u4 st;
     (body, st) \<leftarrow> ab_take (unat n) st;
     let b = st\<lparr>ab_rest := body\<rparr>;
     let past = (\<lambda>b. Some (b\<lparr>ab_rest := ab_rest st\<rparr>));
     let whole = (\<lambda>b. if ab_rest b = [] then Some (b\<lparr>ab_rest := ab_rest st\<rparr>) else None);
     if name = ''SourceFile'' then do { (i, b) \<leftarrow> ab_u2 b; past (b\<lparr>ab_source_file := Some i\<rparr>) }
     else if name \<in> set ignored_attributes then past b
     else if name = ''Deprecated'' then whole (ab_put ''Deprecated'' b)
     else if name = ''Signature'' then do { b \<leftarrow> put_utf8 c (ab_put ''Signature'' b); whole b }
     else if name = ''ConstantValue'' then do { b \<leftarrow> put_constant c (ab_put ''ConstantValue'' (b\<lparr>ab_constant := True\<rparr>)); whole b }
     else if name = ''Exceptions'' \<or> name = ''PermittedSubclasses'' then do {
       (n, b) \<leftarrow> ab_count (ab_put name b); b \<leftarrow> turns n (put_class c) b; whole b }
     else if name = ''MethodParameters'' then do {
       (n, b) \<leftarrow> ab_u1 (ab_put name b); b \<leftarrow> turns (code_of n) (put_parameter c) (ab_put (dec (code_of n)) b); whole b }
     else if name = ''RuntimeVisibleAnnotations'' \<or> name = ''RuntimeInvisibleAnnotations'' then do {
       b \<leftarrow> annotation_list c fuel (ab_put name b); whole b }
     else if name = ''RuntimeVisibleParameterAnnotations'' \<or> name = ''RuntimeInvisibleParameterAnnotations'' then do {
       (n, b) \<leftarrow> ab_u1 (ab_put name b); b \<leftarrow> turns (code_of n) (annotation_list c fuel) (ab_put (dec (code_of n)) b); whole b }
     else if name = ''RuntimeVisibleTypeAnnotations'' \<or> name = ''RuntimeInvisibleTypeAnnotations'' then do {
       (n, b) \<leftarrow> ab_count (ab_put name b); b \<leftarrow> turns n (type_annotation c fuel) b; whole b }
     else if name = ''AnnotationDefault'' then do { b \<leftarrow> element_value c fuel (ab_put name b); whole b }
     else if name = ''InnerClasses'' then do { b \<leftarrow> inner_classes c b; whole b }
     else if name = ''Record'' then do {
       (n, b) \<leftarrow> ab_count (ab_put name b);
       b \<leftarrow> turns n (\<lambda>b. do { b \<leftarrow> put_utf8 c b; b \<leftarrow> put_utf8 c b; attributes c fuel b }) b;
       whole b }
     else past (ab_raise VOpaque b) }"

section \<open>Members\<close>

record visible =
  vi_rendered :: str
  vi_plain_method :: "str option"

definition plain_name :: "str \<Rightarrow> bool" where
  "plain_name name \<longleftrightarrow> name \<noteq> [] \<and> list_all (\<lambda>b. is_ascii_alphanumeric b \<or> b = CHR ''_'' \<or> b = CHR ''$'') name"

text \<open>One member: its attributes are read with a verdict of their own, which counts if it can be seen.\<close>

definition member_entry :: "class_ctx \<Rightarrow> nat \<Rightarrow> str \<Rightarrow> abi_state \<times> visible list \<times> str list \<Rightarrow> (abi_state \<times> visible list \<times> str list) option" where
  "member_entry c fuel kind = (\<lambda>(st, ms, cs). do {
     (flags, st) \<leftarrow> ab_u2 st;
     (i, st) \<leftarrow> ab_u2 st;
     name \<leftarrow> cx_utf8 c i;
     (i, st) \<leftarrow> ab_u2 st;
     descriptor \<leftarrow> cx_utf8 c i;
     let start = put_field (put_field (num_field (put_field [] kind) (unat flags)) name) descriptor;
     own \<leftarrow> attributes c fuel (st\<lparr>ab_out := start, ab_verdict := VFine, ab_constant := False\<rparr>);
     let st' = own\<lparr>ab_out := ab_out st, ab_verdict := ab_verdict st\<rparr>;
     if flags AND (ACC_PRIVATE OR ACC_SYNTHETIC) = 0
     then Some (ab_raise (ab_verdict own) st',
        ms @ [\<lparr>vi_rendered = ab_out own,
          vi_plain_method = (if kind = ''method'' \<and> flags AND ACC_ABSTRACT = 0 \<and> plain_name name then Some name else None)\<rparr>],
        if ab_constant own then cs @ [ab_out own] else cs)
     else Some (st', ms, cs) })"

definition class_members :: "class_ctx \<Rightarrow> nat \<Rightarrow> str \<Rightarrow> abi_state \<Rightarrow> (abi_state \<times> visible list \<times> str list) option" where
  "class_members c fuel kind st = do {
     (n, st) \<leftarrow> ab_u2 st;
     (st, ms, cs) \<leftarrow> turns (unat n) (member_entry c fuel kind) (st, [], []);
     Some (st, sort_key vi_rendered ms, sort cs) }"

section \<open>A class file\<close>

record parsed =
  ps_verdict :: verdict
  ps_rendered :: str
  ps_constants :: str
  ps_name :: str
  ps_source_file :: "str option"
  ps_nested :: bool
  ps_refs :: "str list"
  ps_header :: str
  ps_members :: "visible list"
  ps_supers :: "str list"

definition put_interface :: "class_ctx \<Rightarrow> abi_state \<times> str list \<Rightarrow> (abi_state \<times> str list) option" where
  "put_interface c = (\<lambda>(st, supers). do {
     (i, st) \<leftarrow> ab_u2 st;
     name \<leftarrow> cx_class_name c i;
     Some (ab_put name st, supers @ [utf8_lossy name]) })"

text \<open>\<^verbatim>\<open>parse\<close> after the head of the file: supertypes, members, the class's own attributes.\<close>

definition parse_class :: "class_ctx \<Rightarrow> nat \<Rightarrow> 16 word \<Rightarrow> 16 word \<Rightarrow> 16 word \<Rightarrow> str \<Rightarrow> str \<Rightarrow> parsed option" where
  "parse_class c fuel major access superclass name r = do {
     super_name \<leftarrow> or_empty superclass (cx_class_name c);
     let out = put_field (put_field (num_field (num_field (put_field [] ''class'') (unat major)) (unat access)) name) super_name;
     let st = \<lparr>ab_rest = r, ab_out = out, ab_verdict = VFine, ab_source_file = None, ab_nested = False, ab_constant = False\<rparr>;
     (interfaces, st) \<leftarrow> ab_count st;
     (st, supers) \<leftarrow> turns interfaces (put_interface c) (st, if superclass = 0 then [] else [utf8_lossy super_name]);
     let start = ab_out st;
     (st, fields, field_constants) \<leftarrow> class_members c fuel ''field'' st;
     let st = ab_push (concat (map vi_rendered fields)) st;
     (st, methods, method_constants) \<leftarrow> class_members c fuel ''method'' st;
     let st = ab_push (concat (map vi_rendered methods)) st;
     let members_end = length (ab_out st);
     st \<leftarrow> attributes c fuel st;
     if ab_rest st \<noteq> [] then None
     else Some
       \<lparr>ps_verdict = (if access AND ACC_SYNTHETIC \<noteq> 0 then VHidden else ab_verdict st), ps_rendered = ab_out st,
        ps_constants = concat (field_constants @ method_constants), ps_name = name,
        ps_source_file = (case ab_source_file st of None \<Rightarrow> None | Some i \<Rightarrow> cx_utf8 c i), ps_nested = ab_nested st,
        ps_refs = cx_refs c, ps_header = start @ drop members_end (ab_out st), ps_members = fields @ methods, ps_supers = supers\<rparr> }"

definition parse_with :: "nat \<Rightarrow> str \<Rightarrow> parsed option" where
  "parse_with fuel bytes = do {
     (magic, r) \<leftarrow> rd_u4 bytes;
     if magic \<noteq> 0xCAFEBABE then None
     else do {
       (_, r) \<leftarrow> rd_u2 r;
       (major, r) \<leftarrow> rd_u2 r;
       (pool, r) \<leftarrow> constant_pool r;
       (access, r) \<leftarrow> rd_u2 r;
       (this, r) \<leftarrow> rd_u2 r;
       (superclass, r) \<leftarrow> rd_u2 r;
       let c = \<lparr>cx_pool = pool, cx_this = this\<rparr>;
       name \<leftarrow> cx_class_name c this;
       if access AND ACC_MODULE \<noteq> 0
       then Some \<lparr>ps_verdict = VOpaque, ps_rendered = [], ps_constants = [], ps_name = name, ps_source_file = None,
              ps_nested = False, ps_refs = [], ps_header = [], ps_members = [], ps_supers = []\<rparr>
       else parse_class c fuel major access superclass name r } }"

definition abi_parse :: "str \<Rightarrow> parsed option" where
  "abi_parse bytes = parse_with (Suc (length bytes)) bytes"

datatype kind = TopLevel | NestedClass | HiddenClass

record class_info =
  in_name :: str
  in_source_file :: "str option"
  in_kind :: kind
  in_api :: str
  in_constants :: str
  in_refs :: "str list"
  in_header :: str
  in_members :: "str list"
  in_supers :: "str list"

definition member_digest :: "(str \<Rightarrow> str) \<Rightarrow> visible \<Rightarrow> str" where
  "member_digest sha m =
     (let digest = take 16 (sha (vi_rendered m)) in
      case vi_plain_method m of Some name \<Rightarrow> digest @ ''.'' @ utf8_lossy name | None \<Rightarrow> digest)"

definition class_info_of :: "(str \<Rightarrow> str) \<Rightarrow> str \<Rightarrow> class_info option" where
  "class_info_of sha bytes = do {
     p \<leftarrow> abi_parse bytes;
     let kind = (case ps_verdict p of VHidden \<Rightarrow> HiddenClass | VFine \<Rightarrow> (if ps_nested p then NestedClass else TopLevel) | _ \<Rightarrow> TopLevel);
     let api = (case ps_verdict p of VFine \<Rightarrow> sha (ps_rendered p) | VHidden \<Rightarrow> ''-'' | _ \<Rightarrow> sha bytes);
     let constants = (if kind = HiddenClass \<or> ps_constants p = [] then ''-'' else sha (ps_constants p));
     let fine = (ps_verdict p = VFine);
     Some \<lparr>in_name = utf8_lossy (ps_name p), in_source_file = map_option utf8_lossy (ps_source_file p), in_kind = kind,
       in_api = api, in_constants = constants, in_refs = ps_refs p,
       in_header = (if fine then sha (ps_header p) else api),
       in_members = (if fine then sort (map (member_digest sha) (ps_members p)) else []), in_supers = ps_supers p\<rparr> }"

section \<open>The digest of a tree\<close>

datatype api = AVisible str | AHidden | AOpaque | ACompilerCode

definition api_of :: "str \<Rightarrow> api" where
  "api_of bytes =
     (case abi_parse bytes of
        None \<Rightarrow> AOpaque
      | Some p \<Rightarrow> (case ps_verdict p of VFine \<Rightarrow> AVisible (ps_rendered p) | VHidden \<Rightarrow> AHidden | VCompilerCode \<Rightarrow> ACompilerCode | VOpaque \<Rightarrow> AOpaque))"

definition compiler_services :: "str list" where
  "compiler_services = [''META-INF/services/javax.annotation.processing.Processor'',
     ''META-INF/services/org.codehaus.groovy.transform.ASTTransformation'']"

definition api_files :: "(str \<times> str) list \<Rightarrow> (str \<times> str) list" where
  "api_files files = filter (\<lambda>(relative, _). ends_with ''.class'' relative \<or> ends_with ''.tasty'' relative \<or>
     starts_with ''META-INF/services/'' relative) files"

definition digest_entry :: "(str \<Rightarrow> str) \<Rightarrow> str \<times> str \<Rightarrow> str \<times> str \<times> api" where
  "digest_entry sha = (\<lambda>(relative, bytes).
     (relative, sha bytes, if ends_with ''.class'' relative then api_of bytes else AOpaque))"

definition compiler_code :: "(str \<times> str \<times> api) list \<Rightarrow> bool" where
  "compiler_code es \<longleftrightarrow> list_ex (\<lambda>(relative, _, a). a = ACompilerCode \<or> relative \<in> set compiler_services) es"

definition entry_text :: "bool \<Rightarrow> str \<times> str \<times> api \<Rightarrow> str" where
  "entry_text compiler = (\<lambda>(relative, hash, a).
     (case (a, compiler) of
        (AVisible rendered, False) \<Rightarrow> put_field (put_field [] ''api'') relative @ rendered @ [CHR 0x0A]
      | (AHidden, False) \<Rightarrow> []
      | _ \<Rightarrow> put_field (put_field (put_field [] ''bytes'') relative) hash @ [CHR 0x0A]))"

text \<open>\<open>files\<close> are the files of the directory, by their path from it, with what they hold.\<close>

definition api_digest :: "(str \<Rightarrow> str) \<Rightarrow> (str \<times> str) list \<Rightarrow> str" where
  "api_digest sha files =
     (let es = map (digest_entry sha) (api_files files) in sha (concat (map (entry_text (compiler_code es)) es)))"

text \<open>
  The same digest, kept under the size and time of every file read (in nanoseconds, a file without a time being
  an error): \<open>memo\<close> is the file it is kept in, before and after. It is kept only when a rewrite must show.
\<close>

definition settled_stamp :: "nat \<Rightarrow> nat \<Rightarrow> bool" where
  "settled_stamp now modified \<longleftrightarrow> modified mod 10 ^ 9 \<noteq> 0 \<or> modified + 2 * 10 ^ 9 < now"

definition api_digest_remembered :: "(str \<Rightarrow> str) \<Rightarrow> nat \<Rightarrow> (str \<times> str \<times> nat) list \<Rightarrow> str option \<Rightarrow> str \<times> str option" where
  "api_digest_remembered sha now files memo =
     (let wanted = filter (\<lambda>(relative, _). ends_with ''.class'' relative \<or> ends_with ''.tasty'' relative \<or>
            starts_with ''META-INF/services/'' relative) files;
          stamp = sha (concat (map (\<lambda>(relative, bytes, modified).
            relative @ '' '' @ dec (length bytes) @ '' '' @ dec modified @ [CHR 0x0A]) wanted));
          held = (case memo of None \<Rightarrow> None | Some text' \<Rightarrow> (case split_once '' '' text' of
            Some (h, digest) \<Rightarrow> if h = stamp \<and> length digest = length stamp then Some digest else None
          | None \<Rightarrow> None))
      in case held of
           Some digest \<Rightarrow> (digest, memo)
         | None \<Rightarrow>
             let digest = api_digest sha (map (\<lambda>(relative, bytes, _). (relative, bytes)) files) in
             (digest, if list_all (\<lambda>(_, _, modified). settled_stamp now modified) wanted then Some (stamp @ '' '' @ digest) else memo))"

text \<open>Asked again, whatever the time, it gives the digest it gave: digests hold no space and are of one length.\<close>

lemma remembered_again:
  assumes "\<And>x. CHR '' '' \<notin> set (sha x)" "\<And>x y. length (sha x) = length (sha y)"
    and "api_digest_remembered sha now files None = (digest, memo)"
  shows "digest = api_digest sha (map (\<lambda>(relative, bytes, _). (relative, bytes)) files)"
    and "fst (api_digest_remembered sha now' files memo) = digest"
proof -
  show d: "digest = api_digest sha (map (\<lambda>(relative, bytes, _). (relative, bytes)) files)"
    using assms(3) by (auto simp: api_digest_remembered_def Let_def split: if_splits)
  have "split_once '' '' (w @ CHR '' '' # r) = Some (w, r)" if "CHR '' '' \<notin> set w" for w r
    using that by (induction w) auto
  then have again: "split_once '' '' (sha x @ '' '' @ sha y) = Some (sha x, sha y)" for x y using assms(1) by simp
  obtain t where "digest = sha t" unfolding d api_digest_def Let_def by blast
  then show "fst (api_digest_remembered sha now' files memo) = digest"
    using assms(3) again assms(2) by (auto simp: api_digest_remembered_def Let_def split: if_splits)
qed

section \<open>Enough fuel\<close>

text \<open>Every step reads on, so nothing nests deeper than there are bytes left.\<close>

abbreviation ab_left :: "abi_state \<Rightarrow> nat" where
  "ab_left st \<equiv> length (ab_rest st)"

lemma ab_lengths:
  "ab_u1 st = Some (b, st') \<Longrightarrow> ab_left st = 1 + ab_left st'"
  "ab_u2 st = Some (w, st') \<Longrightarrow> ab_left st = 2 + ab_left st'"
  "ab_u4 st = Some (v, st') \<Longrightarrow> ab_left st = 4 + ab_left st'"
  "ab_take n st = Some (bs, st') \<Longrightarrow> ab_left st = length bs + ab_left st'"
  "ab_count st = Some (k, st') \<Longrightarrow> ab_left st = 2 + ab_left st'"
  "put_utf8 c st = Some st' \<Longrightarrow> ab_left st = 2 + ab_left st'"
  "put_class c st = Some st' \<Longrightarrow> ab_left st = 2 + ab_left st'"
  "put_constant c st = Some st' \<Longrightarrow> ab_left st = 2 + ab_left st'"
  by (auto simp: ab_u1_def ab_u2_def ab_u4_def ab_take_def ab_count_def put_utf8_def put_class_def put_constant_def
      Option.bind_eq_Some_conv rd_take_def split: if_splits dest!: rd_lengths)

lemma turns_left:
  assumes "\<And>s s'. f s = Some s' \<Longrightarrow> m s' \<le> (m s :: nat)"
  shows "turns n f s = Some s' \<Longrightarrow> m s' \<le> m s"
proof (induction n arbitrary: s)
  case (Suc n)
  then obtain s1 where "f s = Some s1" "turns n f s1 = Some s'" by (auto simp: Option.bind_eq_Some_conv)
  with assms [of s s1] Suc.IH [of s1] show ?case by linarith
qed simp

lemma turns_cong:
  assumes "\<And>s s'. f s = Some s' \<Longrightarrow> m s' \<le> (m s :: nat)" and "\<And>s. m s \<le> k \<Longrightarrow> f s = g s"
  shows "m s \<le> k \<Longrightarrow> turns n f s = turns n g s"
proof (induction n arbitrary: s)
  case (Suc n)
  show ?case
  proof (cases "f s")
    case (Some s1)
    then have "m s1 \<le> k" using assms(1) [of s s1] Suc.prems by simp
    moreover have "g s = Some s1" using assms(2) [OF Suc.prems] Some by simp
    ultimately show ?thesis using Suc.IH [of s1] Some by simp
  next
    case None
    with assms(2) [OF Suc.prems] show ?thesis by simp
  qed
qed simp

lemma annotation_verdict_rest [simp]: "ab_rest (annotation_verdict k st) = ab_rest st"
  by (simp add: annotation_verdict_def)

definition shrinks :: "(abi_state \<Rightarrow> abi_state option) \<Rightarrow> bool" where
  "shrinks f \<longleftrightarrow> (\<forall>s s'. f s = Some s' \<longrightarrow> ab_left s' \<le> ab_left s)"

lemma shrinksD: "shrinks f \<Longrightarrow> f s = Some s' \<Longrightarrow> ab_left s' \<le> ab_left s"
  unfolding shrinks_def by blast

lemma shrinks_turns: "shrinks f \<Longrightarrow> shrinks (turns n f)"
  unfolding shrinks_def using turns_left [where m = ab_left and f = f] by blast

lemma shrinks_then: "(\<And>s s'. f s = Some s' \<Longrightarrow> ab_left s' \<le> ab_left s) \<Longrightarrow> shrinks g \<Longrightarrow> shrinks (\<lambda>s. do { s \<leftarrow> f s; g s })"
  unfolding shrinks_def Option.bind_eq_Some_conv by (meson order_trans)

lemma shrinks_put: "shrinks (put_utf8 c)" "shrinks (put_class c)" "shrinks (put_constant c)"
  unfolding shrinks_def using ab_lengths(6,7,8) by fastforce+

lemma shrinks_annotation_element: "shrinks (annotation c fuel) \<and> shrinks (element_value c fuel)"
proof (induction fuel)
  case (Suc fuel)
  have pairs: "shrinks (turns n (\<lambda>st. do { st \<leftarrow> put_utf8 c st; element_value c fuel st }))" for n
    by (rule shrinks_turns, rule shrinks_then [OF shrinksD [OF shrinks_put(1)] Suc.IH [THEN conjunct2]])
  have "shrinks (annotation c (Suc fuel))"
    unfolding shrinks_def
  proof (intro allI impI)
    fix st st'
    assume "annotation c (Suc fuel) st = Some st'"
    then obtain i st1 kind n st2 where r: "ab_u2 st = Some (i, st1)" "cx_utf8 c i = Some kind"
      "ab_count (ab_put kind (annotation_verdict kind st1)) = Some (n, st2)"
      "turns n (\<lambda>st. do { st \<leftarrow> put_utf8 c st; element_value c fuel st }) st2 = Some st'"
      by (auto simp: Option.bind_eq_Some_conv)
    from shrinksD [OF pairs r(4)] ab_lengths(2) [OF r(1)] ab_lengths(5) [OF r(3)] show "ab_left st' \<le> ab_left st" by simp
  qed
  moreover have "shrinks (element_value c (Suc fuel))"
    unfolding shrinks_def
  proof (intro allI impI)
    fix st st'
    assume r: "element_value c (Suc fuel) st = Some st'"
    then obtain tag st1 where 1: "ab_u1 st = Some (tag, st1)" by (auto simp: Option.bind_eq_Some_conv)
    let ?st = "ab_push [tag] st1"
    from r 1 consider "put_constant c ?st = Some st'" | st2 where "put_utf8 c ?st = Some st2" "put_utf8 c st2 = Some st'"
      | "put_utf8 c ?st = Some st'" | "annotation c fuel ?st = Some st'"
      | n st2 where "ab_count ?st = Some (n, st2)" "turns n (element_value c fuel) st2 = Some st'"
      by (auto simp: Option.bind_eq_Some_conv Let_def split: if_splits)
    then have "ab_left st' \<le> ab_left ?st"
    proof cases
      case 1
      then show ?thesis by (rule shrinksD [OF shrinks_put(3)])
    next
      case 2
      with ab_lengths(6) [OF 2(1)] ab_lengths(6) [OF 2(2)] show ?thesis by simp
    next
      case 3
      then show ?thesis by (rule shrinksD [OF shrinks_put(1)])
    next
      case 4
      with Suc.IH show ?thesis by (blast dest: shrinksD)
    next
      case 5
      have "ab_left st' \<le> ab_left st2" using 5(2) Suc.IH shrinks_turns shrinksD by blast
      with ab_lengths(5) [OF 5(1)] show ?thesis by simp
    qed
    with ab_lengths(1) [OF 1] show "ab_left st' \<le> ab_left st" by simp
  qed
  ultimately show ?case by (rule conjI)
qed (simp add: shrinks_def)

lemmas shrinks_annotation = shrinks_annotation_element [THEN conjunct1]
lemmas shrinks_element = shrinks_annotation_element [THEN conjunct2]

text \<open>Two readers that agree on every state with at most \<open>k\<close> bytes left agree when repeated.\<close>

lemma turns_same:
  assumes "shrinks f" "\<And>s. ab_left s \<le> k \<Longrightarrow> f s = g s" "ab_left s \<le> k"
  shows "turns n f s = turns n g s"
  by (rule turns_cong [where m = ab_left and k = k]) (use assms in \<open>auto dest: shrinksD\<close>)

lemma annotation_element_fuel:
  "ab_left st < f \<Longrightarrow> ab_left st < g \<Longrightarrow> annotation c f st = annotation c g st \<and> element_value c f st = element_value c g st"
proof (induction f arbitrary: g st)
  case (Suc f)
  then obtain g' where g: "g = Suc g'" by (cases g) auto
  define k where "k = min f g'"
  have element: "element_value c f s = element_value c g' s" and annotation: "annotation c f s = annotation c g' s"
    if "ab_left s < k" for s
    using Suc.IH [of s g'] that by (simp_all add: k_def)
  have elements: "turns n (element_value c f) s = turns n (element_value c g') s" if "ab_left s < k" for n s
    by (rule turns_same [where k = "ab_left s"]) (use shrinks_element element that in auto)
  have pairs: "turns n (\<lambda>st. do { st \<leftarrow> put_utf8 c st; element_value c f st }) s = turns n (\<lambda>st. do { st \<leftarrow> put_utf8 c st; element_value c g' st }) s"
    if "ab_left s < k" for n s
  proof (rule turns_same [where k = "ab_left s"])
    show "shrinks (\<lambda>st. do { st \<leftarrow> put_utf8 c st; element_value c f st })"
      by (rule shrinks_then [OF shrinksD [OF shrinks_put(1)] shrinks_element])
    show "do { st \<leftarrow> put_utf8 c t; element_value c f st } = do { st \<leftarrow> put_utf8 c t; element_value c g' st }" if "ab_left t \<le> ab_left s" for t
      by (rule Option.bind_cong [OF refl]) (use that \<open>ab_left s < k\<close> in \<open>auto dest: ab_lengths(6) intro!: element\<close>)
  qed simp
  have k: "ab_left st \<le> k" using Suc.prems by (simp add: g k_def)
  have "annotation c (Suc f) st = annotation c (Suc g') st"
    unfolding annotation.simps
  proof (rule Option.bind_cong [OF refl], clarsimp, rule Option.bind_cong [OF refl], rule Option.bind_cong [OF refl], clarsimp)
    fix i s1 kind n s2
    assume "ab_u2 st = Some (i, s1)" "ab_count (ab_put kind (annotation_verdict kind s1)) = Some (n, s2)"
    then have "ab_left s2 < k" using k by (auto dest!: ab_lengths(2,5))
    then show "turns n (\<lambda>st. do { st \<leftarrow> put_utf8 c st; element_value c f st }) s2 = turns n (\<lambda>st. do { st \<leftarrow> put_utf8 c st; element_value c g' st }) s2"
      by (rule pairs)
  qed
  moreover have "element_value c (Suc f) st = element_value c (Suc g') st"
  proof (cases "ab_u1 st")
    case (Some p)
    obtain tag st1 where p: "p = (tag, st1)" by (cases p)
    with Some k have left: "ab_left (ab_push t st1) < k" for t by (auto dest!: ab_lengths(1))
    have loop: "do { (n, s) \<leftarrow> ab_count (ab_push t st1); turns n (element_value c f) s } =
        do { (n, s) \<leftarrow> ab_count (ab_push t st1); turns n (element_value c g') s }" for t
      by (rule Option.bind_cong [OF refl]) (use left [of t] in \<open>auto dest: ab_lengths(5) intro!: elements\<close>)
    show ?thesis by (simp add: Some p Let_def loop annotation [OF left] cong: if_cong split del: if_split)
  qed simp
  ultimately show ?case unfolding g by blast
qed simp

lemma target_info_left: "target_info t st = Some st' \<Longrightarrow> ab_left st' \<le> ab_left st"
  by (auto simp: target_info_def Option.bind_eq_Some_conv split: if_splits dest!: ab_lengths(1,2,4))

lemma type_annotation_start:
  assumes "ab_u1 st = Some (t, s1)" "target_info (code_of t) (ab_push [t] s1) = Some s2" "ab_u1 s2 = Some (steps, s3)"
    "ab_take n (ab_push [steps] s3) = Some (bs, s4)"
  shows "ab_left s4 < ab_left st"
  using ab_lengths(1) [OF assms(1)] target_info_left [OF assms(2)] ab_lengths(1) [OF assms(3)] ab_lengths(4) [OF assms(4)] by simp

lemma shrinks_type_annotation: "shrinks (type_annotation c fuel)"
  unfolding shrinks_def
proof (intro allI impI)
  fix st st'
  assume "type_annotation c fuel st = Some st'"
  then obtain t s1 s2 steps s3 bs s4 where r: "ab_u1 st = Some (t, s1)" "target_info (code_of t) (ab_push [t] s1) = Some s2"
    "ab_u1 s2 = Some (steps, s3)" "ab_take (code_of steps * 2) (ab_push [steps] s3) = Some (bs, s4)"
    "annotation c fuel (ab_push bs s4) = Some st'"
    by (auto simp: type_annotation_def Option.bind_eq_Some_conv)
  from type_annotation_start [OF r(1-4)] shrinksD [OF shrinks_annotation r(5)] show "ab_left st' \<le> ab_left st" by simp
qed

lemma type_annotation_fuel: "ab_left st < f \<Longrightarrow> ab_left st < g \<Longrightarrow> type_annotation c f st = type_annotation c g st"
  unfolding type_annotation_def
proof (rule Option.bind_cong [OF refl], clarsimp, rule Option.bind_cong [OF refl], rule Option.bind_cong [OF refl], clarsimp,
    rule Option.bind_cong [OF refl], clarsimp)
  fix t s1 s2 steps s3 bs s4
  assume "ab_left st < f" "ab_left st < g" "ab_u1 st = Some (t, s1)" "target_info (code_of t) (ab_push [t] s1) = Some s2"
    "ab_u1 s2 = Some (steps, s3)" "ab_take (code_of steps * 2) (ab_push [steps] s3) = Some (bs, s4)"
  then show "annotation c f (ab_push bs s4) = annotation c g (ab_push bs s4)"
    using type_annotation_start annotation_element_fuel [of "ab_push bs s4" f g c] by fastforce
qed

lemma shrinks_annotation_list: "shrinks (annotation_list c fuel)"
  unfolding shrinks_def annotation_list_def
  by (auto simp: Option.bind_eq_Some_conv dest!: ab_lengths(5) shrinksD [OF shrinks_turns [OF shrinks_annotation]])

lemma annotation_list_fuel: "ab_left st < f \<Longrightarrow> ab_left st < g \<Longrightarrow> annotation_list c f st = annotation_list c g st"
  unfolding annotation_list_def
proof (rule Option.bind_cong [OF refl], clarsimp)
  fix n s
  assume "ab_left st < f" "ab_left st < g" "ab_count st = Some (n, s)"
  then have "ab_left s < f" "ab_left s < g" using ab_lengths(5) by fastforce+
  then show "turns n (annotation c f) s = turns n (annotation c g) s"
    by (intro turns_same [where k = "ab_left s"] shrinks_annotation) (use annotation_element_fuel in auto)
qed

text \<open>An attribute leaves the reader behind its body, whatever it read of it.\<close>

definition leaves :: "str \<Rightarrow> abi_state option \<Rightarrow> bool" where
  "leaves rest m \<longleftrightarrow> (\<forall>s. m = Some s \<longrightarrow> ab_rest s = rest)"

lemma leaves_intros:
  "leaves rest x \<Longrightarrow> leaves rest y \<Longrightarrow> leaves rest (if b then x else y)"
  "(\<And>a. leaves rest (f a)) \<Longrightarrow> leaves rest (m \<bind> f)"
  "(\<And>a d. leaves rest (h a d)) \<Longrightarrow> leaves rest (case p of (a, d) \<Rightarrow> h a d)"
  "leaves rest (Some (st\<lparr>ab_rest := rest\<rparr>))" "leaves rest None"
  by (auto simp: leaves_def Option.bind_eq_Some_conv split: prod.splits)

lemma attribute_left: "attribute c fuel st = Some st' \<Longrightarrow> ab_left st' \<le> ab_left st - 6"
proof (cases fuel)
  case (Suc f)
  assume r: "attribute c fuel st = Some st'"
  then obtain i s1 name n s2 body s3 where s: "ab_u2 st = Some (i, s1)" "cx_utf8 c i = Some name" "ab_u4 s1 = Some (n, s2)"
    "ab_take (unat n) s2 = Some (body, s3)"
    unfolding Suc attribute.simps by (auto simp: Option.bind_eq_Some_conv simp del: set_simps)
  have "leaves (ab_rest s3) (attribute c (Suc f) st)"
    unfolding attribute.simps s Let_def Option.bind.bind_lunit prod.case by (intro leaves_intros)
  with r Suc have "ab_rest st' = ab_rest s3" by (simp add: leaves_def del: attribute.simps)
  then show ?thesis using s by (auto dest!: ab_lengths(2,3,4))
qed simp

lemma shrinks_attribute: "shrinks (attribute c fuel)"
  unfolding shrinks_def using attribute_left by fastforce

lemma attributes_left: "attributes c fuel st = Some st' \<Longrightarrow> ab_left st' + 2 \<le> ab_left st"
  by (cases fuel) (auto simp: Option.bind_eq_Some_conv dest!: ab_lengths(2) shrinksD [OF shrinks_turns [OF shrinks_attribute]])

lemma attributes_fuel:
  "ab_left st < f \<Longrightarrow> ab_left st < g \<Longrightarrow> attributes c f st = attributes c g st \<and> attribute c f st = attribute c g st"
proof (induction f arbitrary: g st)
  case (Suc f)
  then obtain g' where g: "g = Suc g'" by (cases g) auto
  define k where "k = min f g'"
  have k: "ab_left st \<le> k" using Suc.prems by (simp add: g k_def)
  have IH: "attribute c f s = attribute c g' s" "attributes c f s = attributes c g' s" if "ab_left s < k" for s
    using Suc.IH [of s g'] that by (simp_all add: k_def)
  have fuels: "annotation c f s = annotation c g' s" "element_value c f s = element_value c g' s"
    "annotation_list c f s = annotation_list c g' s" "type_annotation c f s = type_annotation c g' s" if "ab_left s < k" for s
    using that annotation_element_fuel [of s f g' c] annotation_list_fuel [of s f g' c] type_annotation_fuel [of s f g' c]
    by (simp_all add: k_def)
  have "attributes c (Suc f) st = attributes c (Suc g') st"
    unfolding attributes.simps
  proof (rule Option.bind_cong [OF refl], clarsimp)
    fix n s
    assume "ab_u2 st = Some (n, s)"
    then have "ab_left s < k" using k by (auto dest!: ab_lengths(2))
    then show "turns (unat n) (attribute c f) s = turns (unat n) (attribute c g') s"
      by (intro turns_same [where k = "ab_left s"] shrinks_attribute) (use IH in auto)
  qed
  moreover have "attribute c (Suc f) st = attribute c (Suc g') st"
  proof (cases "do { (i, st) \<leftarrow> ab_u2 st; name \<leftarrow> cx_utf8 c i; (n, st) \<leftarrow> ab_u4 st; (body, st) \<leftarrow> ab_take (unat n) st; Some () }")
    case (Some u)
    then obtain i s1 name n s2 body s3 where r: "ab_u2 st = Some (i, s1)" "cx_utf8 c i = Some name" "ab_u4 s1 = Some (n, s2)"
      "ab_take (unat n) s2 = Some (body, s3)"
      by (auto simp: Option.bind_eq_Some_conv)
    have body: "length body < k"
      using ab_lengths(2) [OF r(1)] ab_lengths(3) [OF r(3)] ab_lengths(4) [OF r(4)] k by simp
    define b where "b = s3\<lparr>ab_rest := body\<rparr>"
    have left: "ab_left b < k" using body by (simp add: b_def)
    have lists: "do { b \<leftarrow> annotation_list c f (ab_put t b); h b } = do { b \<leftarrow> annotation_list c g' (ab_put t b); h b }"
      and elements: "do { b \<leftarrow> element_value c f (ab_put t b); h b } = do { b \<leftarrow> element_value c g' (ab_put t b); h b }"
      for t and h :: "abi_state \<Rightarrow> abi_state option"
      by (simp_all add: fuels left)
    have many: "do { (n, b) \<leftarrow> ab_u1 (ab_put t b); b \<leftarrow> turns (code_of n) (annotation_list c f) (ab_put (dec (code_of n)) b); h b } =
        do { (n, b) \<leftarrow> ab_u1 (ab_put t b); b \<leftarrow> turns (code_of n) (annotation_list c g') (ab_put (dec (code_of n)) b); h b }"
      for t and h :: "abi_state \<Rightarrow> abi_state option"
    proof (rule Option.bind_cong [OF refl], clarsimp)
      fix n s
      assume "ab_u1 (ab_put t b) = Some (n, s)"
      then have "ab_left s < k" using left by (auto dest!: ab_lengths(1))
      then have "turns (code_of n) (annotation_list c f) (ab_put (dec (code_of n)) s) = turns (code_of n) (annotation_list c g') (ab_put (dec (code_of n)) s)"
        by (intro turns_same [where k = "ab_left s"] shrinks_annotation_list) (use fuels in auto)
      then show "do { b \<leftarrow> turns (code_of n) (annotation_list c f) (ab_put (dec (code_of n)) s); h b } = do { b \<leftarrow> turns (code_of n) (annotation_list c g') (ab_put (dec (code_of n)) s); h b }"
        by simp
    qed
    have types: "do { (n, b) \<leftarrow> ab_count (ab_put t b); b \<leftarrow> turns n (type_annotation c f) b; h b } =
        do { (n, b) \<leftarrow> ab_count (ab_put t b); b \<leftarrow> turns n (type_annotation c g') b; h b }"
      for t and h :: "abi_state \<Rightarrow> abi_state option"
    proof (rule Option.bind_cong [OF refl], clarsimp)
      fix n s
      assume "ab_count (ab_put t b) = Some (n, s)"
      then have "ab_left s < k" using left by (auto dest!: ab_lengths(5))
      then have "turns n (type_annotation c f) s = turns n (type_annotation c g') s"
        by (intro turns_same [where k = "ab_left s"] shrinks_type_annotation) (use fuels in auto)
      then show "do { b \<leftarrow> turns n (type_annotation c f) s; h b } = do { b \<leftarrow> turns n (type_annotation c g') s; h b }" by simp
    qed
    have components: "do { (n, b) \<leftarrow> ab_count (ab_put t b);
          b \<leftarrow> turns n (\<lambda>b. do { b \<leftarrow> put_utf8 c b; b \<leftarrow> put_utf8 c b; attributes c f b }) b; h b } =
        do { (n, b) \<leftarrow> ab_count (ab_put t b);
          b \<leftarrow> turns n (\<lambda>b. do { b \<leftarrow> put_utf8 c b; b \<leftarrow> put_utf8 c b; attributes c g' b }) b; h b }"
      for t and h :: "abi_state \<Rightarrow> abi_state option"
    proof (rule Option.bind_cong [OF refl], clarsimp)
      fix n s
      assume "ab_count (ab_put t b) = Some (n, s)"
      then have s: "ab_left s < k" using left by (auto dest!: ab_lengths(5))
      have shrinks: "shrinks (attributes c f)" unfolding shrinks_def using attributes_left by fastforce
      have "turns n (\<lambda>b. do { b \<leftarrow> put_utf8 c b; b \<leftarrow> put_utf8 c b; attributes c f b }) s =
          turns n (\<lambda>b. do { b \<leftarrow> put_utf8 c b; b \<leftarrow> put_utf8 c b; attributes c g' b }) s"
      proof (rule turns_same [where k = "ab_left s"])
        show "shrinks (\<lambda>b. do { b \<leftarrow> put_utf8 c b; b \<leftarrow> put_utf8 c b; attributes c f b })"
          by (intro shrinks_then shrinks shrinksD [OF shrinks_put(1)])
        show "do { b \<leftarrow> put_utf8 c x; b \<leftarrow> put_utf8 c b; attributes c f b } = do { b \<leftarrow> put_utf8 c x; b \<leftarrow> put_utf8 c b; attributes c g' b }"
          if "ab_left x \<le> ab_left s" for x
          by (rule Option.bind_cong [OF refl], rule Option.bind_cong [OF refl], rule IH(2))
            (use that s in \<open>auto dest!: ab_lengths(6)\<close>)
      qed simp
      then show "do { b \<leftarrow> turns n (\<lambda>b. do { b \<leftarrow> put_utf8 c b; b \<leftarrow> put_utf8 c b; attributes c f b }) s; h b } =
          do { b \<leftarrow> turns n (\<lambda>b. do { b \<leftarrow> put_utf8 c b; b \<leftarrow> put_utf8 c b; attributes c g' b }) s; h b }" by simp
    qed
    show ?thesis
      unfolding attribute.simps Let_def r Option.bind.bind_lunit prod.case b_def [symmetric]
      by (intro if_cong refl lists elements many types components)
  next
    case None
    show ?thesis
      unfolding attribute.simps
      by (rule Option.bind_cong [OF refl], clarsimp, rule Option.bind_cong [OF refl], rule Option.bind_cong [OF refl], clarsimp,
          rule Option.bind_cong [OF refl]) (use None in simp)
  qed
  ultimately show ?case unfolding g by blast
qed simp

lemma member_entry_left: "member_entry c fuel kind x = Some y \<Longrightarrow> ab_left (fst y) \<le> ab_left (fst x)"
  by (cases x) (auto simp: member_entry_def Let_def Option.bind_eq_Some_conv split: if_splits dest!: ab_lengths(2) attributes_left)

lemma bind_pair_cong: "(\<And>a b. x = Some (a, b) \<Longrightarrow> f a b = g a b) \<Longrightarrow> (x \<bind> (\<lambda>(a, b). f a b)) = (x \<bind> (\<lambda>(a, b). g a b))"
  by (rule Option.bind_cong) auto

lemma bind_triple_cong:
  "x = y \<Longrightarrow> (\<And>a b c. y = Some (a, b, c) \<Longrightarrow> f a b c = g a b c) \<Longrightarrow> (x \<bind> (\<lambda>(a, b, c). f a b c)) = (y \<bind> (\<lambda>(a, b, c). g a b c))"
  by (rule Option.bind_cong) auto

lemma member_entry_fuel:
  assumes "ab_left (fst x) < f" "ab_left (fst x) < g"
  shows "member_entry c f kind x = member_entry c g kind x"
proof (cases x)
  case (fields st ms cs)
  show ?thesis
    unfolding member_entry_def fields prod.case Let_def
  proof (rule bind_pair_cong, rule bind_pair_cong, rule Option.bind_cong [OF refl], rule bind_pair_cong,
      rule Option.bind_cong [OF refl], rule Option.bind_cong)
    fix flags s1 i s2 name j s3 descriptor
    assume r: "ab_u2 st = Some (flags, s1)" "ab_u2 s1 = Some (i, s2)" "ab_u2 s2 = Some (j, s3)"
    let ?s = "s3\<lparr>ab_out := put_field (put_field (num_field (put_field [] kind) (unat flags)) name) descriptor,
      ab_verdict := VFine, ab_constant := False\<rparr>"
    have "ab_left ?s < f" "ab_left ?s < g"
      using assms fields ab_lengths(2) [OF r(1)] ab_lengths(2) [OF r(2)] ab_lengths(2) [OF r(3)] by simp_all
    then show "attributes c f ?s = attributes c g ?s" using attributes_fuel by blast
  qed simp
qed

lemma class_members_left: "class_members c fuel kind st = Some (st', ms, cs) \<Longrightarrow> ab_left st' \<le> ab_left st"
  by (auto simp: class_members_def Option.bind_eq_Some_conv dest!: ab_lengths(2)
      turns_left [where m = "\<lambda>x. ab_left (fst x)" and f = "member_entry c fuel kind", OF member_entry_left, rotated])

lemma class_members_fuel:
  assumes "ab_left st < f" "ab_left st < g"
  shows "class_members c f kind st = class_members c g kind st"
  unfolding class_members_def
proof (rule bind_pair_cong, rule Option.bind_cong)
  fix n s
  assume r: "ab_u2 st = Some (n, s)"
  show "turns (unat n) (member_entry c f kind) (s, [], []) = turns (unat n) (member_entry c g kind) (s, [], [])"
    by (rule turns_cong [where m = "\<lambda>x. ab_left (fst x)" and k = "ab_left s"])
      (use ab_lengths(2) [OF r] assms in \<open>auto intro!: member_entry_fuel dest: member_entry_left\<close>)
qed simp

lemma pool_entry_left: "pool_entry r = Some (es, r') \<Longrightarrow> length r' < length r"
  by (auto simp: pool_entry_def Let_def Option.bind_eq_Some_conv split: if_splits dest!: rd_lengths rd_take_length)

lemma pool_loop_left: "pool_loop count pool r = Some (pool', r') \<Longrightarrow> length r' \<le> length r"
proof (induction count pool r rule: pool_loop.induct)
  case (1 count pool r)
  show ?case
  proof (cases "length pool < count")
    case True
    with 1(2) obtain es r1 where e: "pool_entry r = Some (es, r1)" "pool_loop count (pool @ es) r1 = Some (pool', r')"
      by (subst (asm) pool_loop.simps) (auto split: option.splits)
    from 1(1) [OF True e(1) refl e(2)] pool_entry_left [OF e(1)] show ?thesis by simp
  qed (use 1(2) in \<open>subst (asm) pool_loop.simps, simp\<close>)
qed

lemma constant_pool_left: "constant_pool r = Some (pool, r') \<Longrightarrow> length r' \<le> length r"
  by (auto simp: constant_pool_def Option.bind_eq_Some_conv dest!: rd_lengths pool_loop_left)

lemma put_interface_left: "put_interface c x = Some y \<Longrightarrow> ab_left (fst y) \<le> ab_left (fst x)"
  by (cases x) (auto simp: put_interface_def Option.bind_eq_Some_conv dest!: ab_lengths(2))

lemma parse_class_fuel:
  assumes "length r < f" "length r < g"
  shows "parse_class c f major access superclass name r = parse_class c g major access superclass name r"
  unfolding parse_class_def Let_def
proof (rule Option.bind_cong [OF refl], rule bind_pair_cong, rule bind_pair_cong, rule bind_triple_cong)
  fix super_name n s1 s2 supers
  assume r: "ab_count \<lparr>ab_rest = r, ab_out = put_field (put_field (num_field (num_field (put_field [] ''class'') (unat major)) (unat access)) name) super_name,
      ab_verdict = VFine, ab_source_file = None, ab_nested = False, ab_constant = False\<rparr> = Some (n, s1)"
    and "turns n (put_interface c) (s1, if superclass = 0 then [] else [utf8_lossy super_name]) = Some (s2, supers)"
  then have s2: "ab_left s2 < f" "ab_left s2 < g"
    using turns_left [where m = "\<lambda>x. ab_left (fst x)" and f = "put_interface c", OF put_interface_left] ab_lengths(5) [OF r] assms
    by fastforce+
  then show "class_members c f ''field'' s2 = class_members c g ''field'' s2" by (rule class_members_fuel)
  fix s3 fields cs
  assume "class_members c g ''field'' s2 = Some (s3, fields, cs)"
  then have s3: "ab_left s3 < f" "ab_left s3 < g" using s2 by (auto dest!: class_members_left)
  have meths: "class_members c f ''method'' (ab_push x s3) = class_members c g ''method'' (ab_push x s3)" for x
    by (rule class_members_fuel) (use s3 in simp_all)
  have own: "attributes c f (ab_push x s4) = attributes c g (ab_push x s4)"
    if "class_members c g ''method'' (ab_push y s3) = Some (s4, methods, ds)" for x y s4 methods ds
    using s3 class_members_left [OF that] attributes_fuel [of "ab_push x s4" f g c] by simp
  show "(class_members c f ''method'' (ab_push (concat (map vi_rendered fields)) s3) \<bind>
      (\<lambda>(st, methods, method_constants). attributes c f (ab_push (concat (map vi_rendered methods)) st) \<bind> h st methods method_constants)) =
    (class_members c g ''method'' (ab_push (concat (map vi_rendered fields)) s3) \<bind>
      (\<lambda>(st, methods, method_constants). attributes c g (ab_push (concat (map vi_rendered methods)) st) \<bind> h st methods method_constants))" for h
    by (rule bind_triple_cong [OF meths]) (simp add: own)
qed

text \<open>
  Property C40. The parser of class files ends for every file: nothing nests deeper than there are bytes,
  so any more fuel gives the same reading, and a file refused is refused for what it holds.
\<close>

theorem parse_ends: "length bytes < fuel \<Longrightarrow> parse_with fuel bytes = abi_parse bytes"
  unfolding abi_parse_def parse_with_def
  by (rule bind_pair_cong, rule if_cong, rule refl, rule refl, rule bind_pair_cong, rule bind_pair_cong, rule bind_pair_cong)
    (auto intro!: Option.bind_cong bind_pair_cong parse_class_fuel simp: Let_def dest!: rd_lengths constant_pool_left)

section \<open>What a rendering says\<close>

abbreviation field :: "str \<Rightarrow> str" where
  "field b \<equiv> dec (length b) @ '':'' @ b"

lemma put_field_append: "put_field out b = out @ field b"
  by (simp add: put_field_def)

lemma digits_then_inject:
  assumes "\<forall>x \<in> set a. is_ascii_digit x" "\<forall>x \<in> set b. is_ascii_digit x" "\<not> is_ascii_digit c" "a @ c # r = b @ c # s"
  shows "a = b \<and> r = s"
  using assms
proof (induction a arbitrary: b)
  case Nil
  then show ?case by (cases b) auto
next
  case (Cons x a)
  then show ?case by (cases b) auto
qed

lemma field_inject: "field a @ r = field b @ s \<longleftrightarrow> a = b \<and> r = s"
proof
  assume eq: "field a @ r = field b @ s"
  have "\<not> is_ascii_digit (CHR '':'')" by (simp add: is_ascii_digit_def digits_ascii_def)
  from digits_then_inject [OF dec_digits dec_digits this, of "length a" "a @ r" "length b" "b @ s"] eq
  have "dec (length a) = dec (length b)" "a @ r = b @ s" by (simp_all only: append_assoc append_Cons append_Nil)
  then show "a = b \<and> r = s" using append_eq_append_conv [of a b r s] by (simp_all only: dec_inject simp_thms)
qed simp

text \<open>
  No two renderings run together: from fields put one behind the other the fields can be read
  back, so two sequences of fields render alike only if they are the same.
\<close>

lemma fields_framed: "foldl put_field [] xs = foldl put_field [] ys \<longleftrightarrow> xs = ys"
proof -
  have render: "foldl put_field out zs = out @ concat (map field zs)" for out zs
    by (induction zs arbitrary: out) (simp_all add: put_field_append)
  have nonempty: "field z @ r \<noteq> []" for z r by simp
  have "concat (map field xs) = concat (map field ys) \<Longrightarrow> xs = ys"
  proof (induction xs arbitrary: ys)
    case Nil
    then show ?case by (cases ys) simp_all
  next
    case (Cons x xs)
    then obtain y zs where ys: "ys = y # zs" by (cases ys) simp_all
    with Cons.prems have "field x @ concat (map field xs) = field y @ concat (map field zs)" by simp
    then have "x = y" "concat (map field xs) = concat (map field zs)" unfolding field_inject by blast+
    with Cons.IH ys show ?case by simp
  qed
  then show ?thesis unfolding render by auto
qed

text \<open>The attributes that are no API are read past: the reader is behind them, nothing else is changed.\<close>

lemma ignored_attribute:
  assumes "ab_u2 st = Some (i, s1)" "cx_utf8 c i = Some name" "name \<in> set ignored_attributes" "ab_u4 s1 = Some (n, s2)"
    "ab_take (unat n) s2 = Some (body, s3)"
  shows "attribute c (Suc fuel) st = Some s3" "s3 = st\<lparr>ab_rest := ab_rest s3\<rparr>"
proof -
  have "name \<noteq> ''SourceFile''" using assms(3) by (auto simp: ignored_attributes_def)
  with assms show "attribute c (Suc fuel) st = Some s3" by (simp add: Let_def)
  show "s3 = st\<lparr>ab_rest := ab_rest s3\<rparr>"
    using assms(1,4,5) by (auto simp: ab_u2_def ab_u4_def ab_take_def Option.bind_eq_Some_conv)
qed

text \<open>Nor does a private or synthetic member leave a trace in what has been rendered.\<close>

lemma hidden_member:
  assumes "member_entry c fuel kind (st, ms, cs) = Some (st', ms', cs')" "ab_u2 st = Some (flags, s1)"
    "flags AND (ACC_PRIVATE OR ACC_SYNTHETIC) \<noteq> 0"
  shows "ms' = ms \<and> cs' = cs \<and> ab_out st' = ab_out st \<and> ab_verdict st' = ab_verdict st"
proof -
  have "ab_out s' = ab_out s \<and> ab_verdict s' = ab_verdict s" if "ab_u2 s = Some (w, s')" for s s' w
    using that by (auto simp: ab_u2_def Option.bind_eq_Some_conv)
  with assms show ?thesis unfolding member_entry_def Let_def by (fastforce simp: Option.bind_eq_Some_conv)
qed

section \<open>What the digest of a tree depends on\<close>

datatype seen = SeenApi str str | SeenBytes str str

text \<open>What the digest tells apart of a file: nothing of a hidden class, only the API of a visible one.\<close>

definition file_view :: "str \<times> str \<Rightarrow> seen list" where
  "file_view = (\<lambda>(relative, bytes).
     if ends_with ''.class'' relative
     then (case api_of bytes of AVisible rendered \<Rightarrow> [SeenApi relative rendered] | AHidden \<Rightarrow> [] | _ \<Rightarrow> [SeenBytes relative bytes])
     else [SeenBytes relative bytes])"

definition runs_code :: "str \<times> str \<Rightarrow> bool" where
  "runs_code = (\<lambda>(relative, bytes). relative \<in> set compiler_services \<or> ends_with ''.class'' relative \<and> api_of bytes = ACompilerCode)"

fun view_text :: "(str \<Rightarrow> str) \<Rightarrow> seen \<Rightarrow> str" where
  "view_text sha (SeenApi relative rendered) = put_field (put_field [] ''api'') relative @ rendered @ [CHR 0x0A]"
| "view_text sha (SeenBytes relative bytes) = put_field (put_field (put_field [] ''bytes'') relative) (sha bytes) @ [CHR 0x0A]"

lemma entry_view: "entry_text False (digest_entry sha f) = concat (map (view_text sha) (file_view f))"
  by (cases f) (auto simp: entry_text_def digest_entry_def file_view_def split: api.splits)

lemma compiler_code_runs: "compiler_code (map (digest_entry sha) fs) \<longleftrightarrow> list_ex runs_code fs"
proof -
  have "(case digest_entry sha f of (relative, _, a) \<Rightarrow> a = ACompilerCode \<or> relative \<in> set compiler_services) \<longleftrightarrow> runs_code f" for f
    by (cases f) (auto simp: digest_entry_def runs_code_def)
  then show ?thesis by (simp add: compiler_code_def list_ex_iff)
qed

lemma api_digest_view:
  assumes "\<not> list_ex runs_code (api_files fs)"
  shows "api_digest sha fs = sha (concat (map (view_text sha) (concat (map file_view (api_files fs)))))"
proof -
  have "concat (map (entry_text False) (map (digest_entry sha) gs)) = concat (map (view_text sha) (concat (map file_view gs)))" for gs
    by (induction gs) (simp_all add: entry_view)
  with assms show ?thesis by (simp only: api_digest_def Let_def compiler_code_runs simp_thms)
qed


section \<open>Descriptors\<close>

text \<open>The JVM's descriptors (JVMS 4.3), and the classes they name.\<close>

datatype jtype = JBase char | JArray jtype | JClass str

fun jtype_text :: "jtype \<Rightarrow> str" where
  "jtype_text (JBase b) = [b]"
| "jtype_text (JArray t) = CHR ''['' # jtype_text t"
| "jtype_text (JClass n) = ''L'' @ n @ '';''"

fun jtype_ok :: "jtype \<Rightarrow> bool" where
  "jtype_ok (JBase b) \<longleftrightarrow> b \<in> set ''BCDFIJSZV''"
| "jtype_ok (JArray t) \<longleftrightarrow> jtype_ok t"
| "jtype_ok (JClass n) \<longleftrightarrow> n \<noteq> [] \<and> utf8_valid n \<and> list_all (\<lambda>b. b \<notin> set '':()[].>;<'') n \<and> CHR '' '' \<notin> set n"

fun jtype_classes :: "jtype \<Rightarrow> str list" where
  "jtype_classes (JBase b) = []"
| "jtype_classes (JArray t) = jtype_classes t"
| "jtype_classes (JClass n) = [n]"

definition method_text :: "jtype list \<Rightarrow> jtype \<Rightarrow> str" where
  "method_text ps r = ''('' @ concat (map jtype_text ps) @ '')'' @ jtype_text r"

lemma descriptor_names_skip: "b \<noteq> CHR ''L'' \<Longrightarrow> descriptor_names (b # r) = descriptor_names r"
  by (subst descriptor_names.simps) simp

lemma position_append: "\<forall>x \<in> set a. \<not> p x \<Longrightarrow> p c \<Longrightarrow> position p (a @ c # r) = Some (length a)"
  by (induction a) auto

lemma descriptor_names_type:
  "jtype_ok t \<Longrightarrow> descriptor_names (jtype_text t @ r) = jtype_classes t @ descriptor_names r"
proof (induction t)
  case (JClass n)
  have plain: "\<forall>x \<in> set n. \<not> (x = CHR '';'' \<or> x = CHR ''<'')" and bad: "\<not> list_ex (\<lambda>b. b \<in> set '':()[].>; '') n"
    using JClass by (auto simp: list_all_iff list_ex_iff)
  have e: "name_end (n @ CHR '';'' # r) = Some (length n)" unfolding name_end_def by (rule position_append [OF plain]) simp
  have "utf8_lossy n = n" "n \<noteq> []" using JClass by (simp_all add: utf8_lossy_valid)
  then show ?case by (subst descriptor_names.simps) (use bad in \<open>simp add: e\<close>)
qed (auto simp: descriptor_names_skip)

lemma descriptor_names_types:
  "list_all jtype_ok ts \<Longrightarrow> descriptor_names (concat (map jtype_text ts) @ r) = concat (map jtype_classes ts) @ descriptor_names r"
  by (induction ts) (simp_all add: descriptor_names_type)

text \<open>
  In the descriptor of a method exactly the classes of its parameters and of its result are
  found, in their order: no dependency by a signature is missed and none is made up.
\<close>

theorem descriptor_names_exact:
  assumes "list_all jtype_ok ps" "jtype_ok r"
  shows "descriptor_names (method_text ps r) = concat (map jtype_classes ps) @ jtype_classes r"
proof -
  have nil: "descriptor_names [] = []" by (subst descriptor_names.simps) simp
  have "descriptor_names (CHR '')'' # jtype_text r) = jtype_classes r"
    using descriptor_names_type [OF assms(2), of "[]"] nil by (simp add: descriptor_names_skip)
  then show ?thesis
    unfolding method_text_def using descriptor_names_types [OF assms(1), of "'')'' @ jtype_text r"]
    by (simp add: descriptor_names_skip)
qed

section \<open>Concrete inputs\<close>

text \<open>The class \<^verbatim>\<open>A\<close> without a superclass or a member, and the same with its constants in another order.\<close>

definition tiny_class :: str where
  "tiny_class = map byte_of ([0xCA, 0xFE, 0xBA, 0xBE, 0, 0, 0, 52, 0, 3] @ [1, 0, 1, 65] @ [7, 0, 1] @
     [0, 33, 0, 2, 0, 0, 0, 0, 0, 0, 0, 0, 0, 0])"

definition tiny_class' :: str where
  "tiny_class' = map byte_of ([0xCA, 0xFE, 0xBA, 0xBE, 0, 0, 0, 52, 0, 3] @ [7, 0, 2] @ [1, 0, 1, 65] @
     [0, 33, 0, 1, 0, 0, 0, 0, 0, 0, 0, 0, 0, 0])"

lemma parse_ends_witness: "length tiny_class < 40 \<and> parse_with 40 tiny_class = abi_parse tiny_class \<and> map_option ps_name (abi_parse tiny_class) = Some ''A''"
proof -
  have "length tiny_class < 40" by code_simp
  moreover have "map_option ps_name (abi_parse tiny_class) = Some ''A''" by code_simp
  ultimately show ?thesis using parse_ends [of tiny_class 40] by simp
qed


lemma descriptor_names_exact_witness:
  "descriptor_names (method_text [JBase (CHR ''I''), JArray (JClass ''a/B'')] (JClass ''c/D'')) = [''a/B'', ''c/D'']"
  using descriptor_names_exact [of "[JBase (CHR ''I''), JArray (JClass ''a/B'')]" "JClass ''c/D''"] by code_simp

end
