(* ===== verification/Index.thy ===== *)
theory Index
  imports Abi Lines
begin

text \<open>
  \<^verbatim>\<open>src/src/compile/incremental.rs\<close>, the index: what every source of a unit compiled to, the text
  it is kept as under \<^verbatim>\<open>target/.jrs\<close> and how that is read, and what changed from one build of a class to
  the next. A \<^verbatim>\<open>BTreeSet\<close> of names is the sorted list it iterates over; a path is its text.
\<close>

section \<open>The index\<close>

record class_entry =
  ce_name :: str
  ce_kind :: kind
  ce_api :: str
  ce_constants :: str
  ce_header :: str
  ce_members :: "str list"
  ce_supers :: "str list"

record source_entry =
  se_path :: str
  se_size :: nat
  se_modified :: nat
  se_hash :: str
  se_classes :: "class_entry list"
  se_deps :: "str list"
  se_ext :: "str list"

record index =
  ix_settings :: str
  ix_upstream :: str
  ix_sources :: "source_entry list"
  ix_seen :: "class_entry list"

definition class_new :: "class_info \<Rightarrow> class_entry" where
  "class_new info = \<lparr>ce_name = in_name info, ce_kind = in_kind info, ce_api = in_api info, ce_constants = in_constants info,
     ce_header = in_header info, ce_members = in_members info, ce_supers = in_supers info\<rparr>"

section \<open>Its text\<close>

definition index_header :: str where "index_header = ''jrs compile index 3''"

fun kind_text :: "kind \<Rightarrow> str" where
  "kind_text TopLevel = ''top''"
| "kind_text NestedClass = ''nested''"
| "kind_text HiddenClass = ''hidden''"

definition kind_parse :: "str \<Rightarrow> kind option" where
  "kind_parse s =
     (if s = ''top'' then Some TopLevel else if s = ''nested'' then Some NestedClass
      else if s = ''hidden'' then Some HiddenClass else None)"

definition class_parse :: "str \<Rightarrow> class_entry option" where
  "class_parse rest =
     (case splitn 5 CHR '' '' rest of
        k # fs \<Rightarrow>
          (case kind_parse k of
             None \<Rightarrow> None
           | Some kind \<Rightarrow>
               (case fs of
                  [api, constants, header, name] \<Rightarrow>
                    Some \<lparr>ce_name = name, ce_kind = kind, ce_api = api, ce_constants = constants, ce_header = header,
                      ce_members = [], ce_supers = []\<rparr>
                | _ \<Rightarrow> None))
      | [] \<Rightarrow> None)"

definition class_lines :: "str \<Rightarrow> class_entry \<Rightarrow> str list" where
  "class_lines key c =
     [key @ '' '' @ kind_text (ce_kind c) @ '' '' @ ce_api c @ '' '' @ ce_constants c @ '' '' @ ce_header c @ '' '' @ ce_name c] @
     (if ce_members c \<noteq> [] then [''members '' @ join_with '' '' (ce_members c)] else []) @
     map (\<lambda>n. ''super '' @ n) (ce_supers c)"

definition source_lines :: "source_entry \<Rightarrow> str list" where
  "source_lines s =
     [''source '' @ dec (se_size s) @ '' '' @ dec (se_modified s) @ '' '' @ (if se_hash s = [] then ''-'' else se_hash s) @ '' '' @ se_path s] @
     concat (map (class_lines ''class'') (se_classes s)) @
     map (\<lambda>d. ''dep '' @ d) (se_deps s) @ map (\<lambda>e. ''ext '' @ e) (se_ext s)"

definition index_lines :: "index \<Rightarrow> str list" where
  "index_lines ix = [index_header, ''settings '' @ ix_settings ix, ''upstream '' @ ix_upstream ix] @
     concat (map source_lines (ix_sources ix)) @ concat (map (class_lines ''seen'') (ix_seen ix))"

definition index_render :: "index \<Rightarrow> str" where
  "index_render ix = concat (map (\<lambda>l. l @ newline) (index_lines ix))"

text \<open>\<^verbatim>\<open>last_mut()?\<close>\<close>

definition on_last :: "('a \<Rightarrow> 'a option) \<Rightarrow> 'a list \<Rightarrow> 'a list option" where
  "on_last f xs = (if xs = [] then None else map_option (\<lambda>x. butlast xs @ [x]) (f (last xs)))"

type_synonym index_state = "source_entry list \<times> class_entry list"

definition source_parse :: "str \<Rightarrow> source_entry option" where
  "source_parse rest =
     (case splitn 4 CHR '' '' rest of
        s # m # fs \<Rightarrow> do {
          size \<leftarrow> parse_uint 64 s;
          modified \<leftarrow> parse_uint 128 m;
          (case fs of
             [hash, file] \<Rightarrow> Some \<lparr>se_path = file, se_size = size, se_modified = modified, se_hash = (if hash = ''-'' then [] else hash),
               se_classes = [], se_deps = [], se_ext = []\<rparr>
           | _ \<Rightarrow> None) }
      | _ \<Rightarrow> None)"

text \<open>\<^verbatim>\<open>members\<close> and \<^verbatim>\<open>super\<close> belong to the class read last, wherever that was.\<close>

definition class_detail :: "(class_entry \<Rightarrow> class_entry) \<Rightarrow> index_state \<Rightarrow> index_state option" where
  "class_detail f = (\<lambda>(sources, seen).
     if seen \<noteq> [] then map_option (\<lambda>s. (sources, s)) (on_last (\<lambda>c. Some (f c)) seen)
     else map_option (\<lambda>s. (s, seen))
       (on_last (\<lambda>s. map_option (\<lambda>cs. s\<lparr>se_classes := cs\<rparr>) (on_last (\<lambda>c. Some (f c)) (se_classes s))) sources))"

definition index_line :: "str \<Rightarrow> index_state \<Rightarrow> index_state option" where
  "index_line line = (\<lambda>(sources, seen). do {
     (key, rest) \<leftarrow> split_once '' '' line;
     if key = ''source'' \<and> seen = [] then map_option (\<lambda>s. (sources @ [s], seen)) (source_parse rest)
     else if key = ''class'' \<and> seen = [] then do {
       c \<leftarrow> class_parse rest;
       sources \<leftarrow> on_last (\<lambda>s. Some (s\<lparr>se_classes := se_classes s @ [c]\<rparr>)) sources;
       Some (sources, seen) }
     else if key = ''seen'' then map_option (\<lambda>c. (sources, seen @ [c])) (class_parse rest)
     else if key = ''members'' then class_detail (\<lambda>c. c\<lparr>ce_members := split_on CHR '' '' rest\<rparr>) (sources, seen)
     else if key = ''super'' then class_detail (\<lambda>c. c\<lparr>ce_supers := ce_supers c @ [rest]\<rparr>) (sources, seen)
     else if key = ''dep'' \<and> seen = [] then
       map_option (\<lambda>s. (s, seen)) (on_last (\<lambda>s. Some (s\<lparr>se_deps := List.insort_insert rest (se_deps s)\<rparr>)) sources)
     else if key = ''ext'' \<and> seen = [] then
       map_option (\<lambda>s. (s, seen)) (on_last (\<lambda>s. Some (s\<lparr>se_ext := List.insort_insert rest (se_ext s)\<rparr>)) sources)
     else None })"

fun index_body :: "str list \<Rightarrow> index_state \<Rightarrow> index_state option" where
  "index_body [] st = Some st"
| "index_body (l # ls) st = do { st \<leftarrow> index_line l st; index_body ls st }"

definition index_parse :: "str \<Rightarrow> index option" where
  "index_parse text' =
     (case text_lines text' of
        header # settings # upstream # ls \<Rightarrow> if header \<noteq> index_header then None else do {
          settings \<leftarrow> strip_prefix ''settings '' settings;
          upstream \<leftarrow> strip_prefix ''upstream '' upstream;
          (sources, seen) \<leftarrow> index_body ls ([], []);
          Some \<lparr>ix_settings = settings, ix_upstream = upstream, ix_sources = sources, ix_seen = seen\<rparr> }
      | _ \<Rightarrow> None)"

section \<open>The text is read back\<close>

definition class_writable :: "class_entry \<Rightarrow> bool" where
  "class_writable c \<longleftrightarrow> one_word (ce_api c) \<and> one_word (ce_constants c) \<and> one_word (ce_header c) \<and> one_line (ce_name c) \<and>
     list_all one_word (ce_members c) \<and> list_all one_line (ce_supers c)"

definition source_writable :: "source_entry \<Rightarrow> bool" where
  "source_writable s \<longleftrightarrow> se_size s < 2 ^ 64 \<and> se_modified s < 2 ^ 128 \<and> one_word (se_hash s) \<and> se_hash s \<noteq> ''-'' \<and>
     one_line (se_path s) \<and> list_all class_writable (se_classes s) \<and>
     sorted (se_deps s) \<and> distinct (se_deps s) \<and> list_all one_line (se_deps s) \<and>
     sorted (se_ext s) \<and> distinct (se_ext s) \<and> list_all one_line (se_ext s)"

definition index_writable :: "index \<Rightarrow> bool" where
  "index_writable ix \<longleftrightarrow> one_line (ix_settings ix) \<and> one_line (ix_upstream ix) \<and>
     list_all source_writable (ix_sources ix) \<and> list_all class_writable (ix_seen ix)"

lemma index_body_append: "index_body (a @ b) st = do { st \<leftarrow> index_body a st; index_body b st }"
proof (induction a arbitrary: st)
  case (Cons l a)
  then show ?case by (cases "index_line l st") simp_all
qed simp

lemma splitn_space: "CHR '' '' \<notin> set w \<Longrightarrow> splitn (Suc (Suc n)) CHR '' '' (w @ CHR '' '' # s) = w # splitn (Suc n) CHR '' '' s"
  using splitn_append [of "CHR '' ''" w "Suc (Suc n)" s] by simp

lemma splitn_last: "splitn (Suc 0) CHR '' '' s = [s]"
  using splitn_one by simp

lemma index_line_key: "CHR '' '' \<notin> set key \<Longrightarrow> split_once '' '' (key @ CHR '' '' # rest) = Some (key, rest)"
  by (rule split_once_space)

lemma kind_parse_text: "kind_parse (kind_text k) = Some k"
  by (cases k) (simp_all add: kind_parse_def)

lemma kind_text_word: "CHR '' '' \<notin> set (kind_text k)" "one_line (kind_text k)"
  by (cases k; simp)+

definition class_head :: "class_entry \<Rightarrow> str" where
  "class_head c = kind_text (ce_kind c) @ '' '' @ ce_api c @ '' '' @ ce_constants c @ '' '' @ ce_header c @ '' '' @ ce_name c"

lemma class_parse_head:
  assumes "class_writable c"
  shows "class_parse (class_head c) = Some (c\<lparr>ce_members := [], ce_supers := []\<rparr>)"
  using assms
  by (simp add: class_parse_def class_head_def class_writable_def eval_nat_numeral splitn_space splitn_last kind_text_word one_word_no_space
      kind_parse_text)

lemma on_last_append [simp]: "on_last f (xs @ [x]) = map_option (\<lambda>y. xs @ [y]) (f x)"
  by (simp add: on_last_def)

lemma class_detail_source [simp]:
  "class_detail f (ss @ [s\<lparr>se_classes := cs @ [c]\<rparr>], []) = Some (ss @ [s\<lparr>se_classes := cs @ [f c]\<rparr>], [])"
  by (simp add: class_detail_def)

lemma class_detail_seen [simp]: "class_detail f (ss, seen @ [c]) = Some (ss, seen @ [f c])"
  by (simp add: class_detail_def)

text \<open>The lines of a class put it behind the classes of the last source, or of the tracked ones.\<close>

lemma class_members_text:
  assumes "class_writable c" "ce_members c \<noteq> []"
  shows "split_on CHR '' '' (join_with '' '' (ce_members c)) = ce_members c"
  using assms by (intro split_on_join) (auto simp: class_writable_def list_all_iff one_word_def)

lemma class_lines_read:
  assumes c: "class_writable c" and key: "CHR '' '' \<notin> set key"
    and head: "\<And>l. l = key @ '' '' @ class_head c \<Longrightarrow> index_line l st = Some (at [c\<lparr>ce_members := [], ce_supers := []\<rparr>])"
    and detail: "\<And>f x. class_detail f (at [x]) = Some (at [f x])"
  shows "index_body (class_lines key c) st = Some (at [c])"
proof -
  have super: "index_body (map (\<lambda>n. ''super '' @ n) ns) (at [x]) = Some (at [x\<lparr>ce_supers := ce_supers x @ ns\<rparr>])" for ns and x :: class_entry
  proof (induction ns arbitrary: x)
    case (Cons n ns)
    have "split_once '' '' (''super '' @ n) = Some (''super'', n)" using split_once_space [of "''super''" n] by simp
    then have "index_line (''super '' @ n) (at [x]) = Some (at [x\<lparr>ce_supers := ce_supers x @ [n]\<rparr>])"
      by (cases "at [x]") (use detail [of _ x] in \<open>simp add: index_line_def\<close>)
    with Cons.IH show ?case by simp
  qed simp
  let ?c0 = "c\<lparr>ce_members := [], ce_supers := []\<rparr>"
  have "split_once '' '' (''members '' @ n) = Some (''members'', n)" for n using split_once_space [of "''members''" n] by simp
  then have members: "index_body (if ce_members c \<noteq> [] then [''members '' @ join_with '' '' (ce_members c)] else []) (at [?c0]) =
      Some (at [c\<lparr>ce_supers := []\<rparr>])"
  proof (cases "ce_members c = []")
    case True
    then have "?c0 = c\<lparr>ce_supers := []\<rparr>" by (cases c) simp
    with True show ?thesis by (simp only: if_False if_True simp_thms index_body.simps)
  next
    case False
    with \<open>\<And>n. split_once '' '' (''members '' @ n) = Some (''members'', n)\<close> class_members_text [OF c False]
    show ?thesis by (cases "at [?c0]") (use detail [of _ ?c0] in \<open>auto simp: index_line_def\<close>)
  qed
  have first: "index_body [key @ '' '' @ class_head c] st = Some (at [?c0])" using head [OF refl] by simp
  have last: "index_body (map (\<lambda>n. ''super '' @ n) (ce_supers c)) (at [c\<lparr>ce_supers := []\<rparr>]) = Some (at [c])"
    using super [of "ce_supers c" "c\<lparr>ce_supers := []\<rparr>"] by simp
  show ?thesis
    unfolding class_lines_def class_head_def [symmetric] index_body_append first members last Option.bind.bind_lunit by (rule refl)
qed

lemma class_line_read:
  assumes "class_writable c"
  shows "index_body (class_lines ''class'' c) (ss @ [s], []) = Some (ss @ [s\<lparr>se_classes := se_classes s @ [c]\<rparr>], [])"
    and "index_body (class_lines ''seen'' c) (ss, seen) = Some (ss, seen @ [c])"
proof -
  have "split_once '' '' (''class '' @ n) = Some (''class'', n)" "split_once '' '' (''seen '' @ n) = Some (''seen'', n)" for n
    using split_once_space [of "''class''" n] split_once_space [of "''seen''" n] by simp_all
  note keys = this
  show "index_body (class_lines ''class'' c) (ss @ [s], []) = Some (ss @ [s\<lparr>se_classes := se_classes s @ [c]\<rparr>], [])"
    by (rule class_lines_read [OF assms, where at = "\<lambda>xs. (ss @ [s\<lparr>se_classes := se_classes s @ xs\<rparr>], [])"])
      (simp_all add: index_line_def keys class_parse_head assms)
  show "index_body (class_lines ''seen'' c) (ss, seen) = Some (ss, seen @ [c])"
    by (rule class_lines_read [OF assms, where at = "\<lambda>xs. (ss, seen @ xs)"])
      (simp_all add: index_line_def keys class_parse_head assms)
qed

lemma classes_read:
  "list_all class_writable cs \<Longrightarrow>
    index_body (concat (map (class_lines ''class'') cs)) (ss @ [s], []) = Some (ss @ [s\<lparr>se_classes := se_classes s @ cs\<rparr>], [])"
  "list_all class_writable cs \<Longrightarrow> index_body (concat (map (class_lines ''seen'') cs)) (ss, seen) = Some (ss, seen @ cs)"
  by (induction cs arbitrary: s seen) (simp_all add: index_body_append class_line_read)

lemma insort_insert_last: "sorted (xs @ [x]) \<Longrightarrow> distinct (xs @ [x]) \<Longrightarrow> List.insort_insert x xs = xs @ [x :: 'a::linorder]"
  by (induction xs) (auto simp: insort_insert_key_def)

lemma names_read:
  "sorted (se_deps s @ ds) \<Longrightarrow> distinct (se_deps s @ ds) \<Longrightarrow>
    index_body (map (\<lambda>d. ''dep '' @ d) ds) (ss @ [s], []) = Some (ss @ [s\<lparr>se_deps := se_deps s @ ds\<rparr>], [])"
  "sorted (se_ext s @ ds) \<Longrightarrow> distinct (se_ext s @ ds) \<Longrightarrow>
    index_body (map (\<lambda>d. ''ext '' @ d) ds) (ss @ [s], []) = Some (ss @ [s\<lparr>se_ext := se_ext s @ ds\<rparr>], [])"
proof (induction ds arbitrary: s)
  case (Cons d ds)
  have keys: "split_once '' '' (''dep '' @ n) = Some (''dep'', n)" "split_once '' '' (''ext '' @ n) = Some (''ext'', n)" for n
    using split_once_space [of "''dep''" n] split_once_space [of "''ext''" n] by simp_all
  { case 1
    then have "List.insort_insert d (se_deps s) = se_deps s @ [d]" by (intro insort_insert_last) (auto simp: sorted_append)
    with Cons(1) [of "s\<lparr>se_deps := se_deps s @ [d]\<rparr>"] 1 show ?case by (simp add: index_line_def keys) }
  { case 2
    then have "List.insort_insert d (se_ext s) = se_ext s @ [d]" by (intro insort_insert_last) (auto simp: sorted_append)
    with Cons(2) [of "s\<lparr>se_ext := se_ext s @ [d]\<rparr>"] 2 show ?case by (simp add: index_line_def keys) }
qed simp_all

lemma source_parse_line:
  assumes "source_writable s"
  shows "source_parse (dec (se_size s) @ '' '' @ dec (se_modified s) @ '' '' @ (if se_hash s = [] then ''-'' else se_hash s) @ '' '' @ se_path s) =
    Some (s\<lparr>se_classes := [], se_deps := [], se_ext := []\<rparr>)"
proof -
  have w: "CHR '' '' \<notin> set (dec n)" for n using one_word_no_space [OF one_word_dec] .
  show ?thesis using assms
    by (auto simp: source_parse_def source_writable_def eval_nat_numeral splitn_space splitn_last w one_word_no_space
        parse_uint_dec simp del: power_Suc power_numeral)
qed

lemma source_lines_read:
  assumes "source_writable s"
  shows "index_body (source_lines s) (ss, []) = Some (ss @ [s], [])"
proof -
  let ?s = "s\<lparr>se_classes := [], se_deps := [], se_ext := []\<rparr>"
  have key: "split_once '' '' (''source '' @ n) = Some (''source'', n)" for n using split_once_space [of "''source''" n] by simp
  have "index_body [''source '' @ dec (se_size s) @ '' '' @ dec (se_modified s) @ '' '' @ (if se_hash s = [] then ''-'' else se_hash s) @ '' '' @ se_path s] (ss, []) =
      Some (ss @ [?s], [])"
    using source_parse_line [OF assms] by (simp add: index_line_def key)
  moreover have "index_body (concat (map (class_lines ''class'') (se_classes s))) (ss @ [?s], []) =
      Some (ss @ [s\<lparr>se_deps := [], se_ext := []\<rparr>], [])"
    using classes_read(1) [of "se_classes s" ss ?s] assms by (simp add: source_writable_def)
  moreover have "index_body (map (\<lambda>d. ''dep '' @ d) (se_deps s)) (ss @ [s\<lparr>se_deps := [], se_ext := []\<rparr>], []) =
      Some (ss @ [s\<lparr>se_ext := []\<rparr>], [])"
    using names_read(1) [of "s\<lparr>se_deps := [], se_ext := []\<rparr>" "se_deps s" ss] assms by (simp add: source_writable_def)
  moreover have "index_body (map (\<lambda>d. ''ext '' @ d) (se_ext s)) (ss @ [s\<lparr>se_ext := []\<rparr>], []) = Some (ss @ [s], [])"
    using names_read(2) [of "s\<lparr>se_ext := []\<rparr>" "se_ext s" ss] assms by (simp add: source_writable_def)
  ultimately show ?thesis unfolding source_lines_def by (simp only: index_body_append Option.bind.bind_lunit)
qed

lemma sources_read: "list_all source_writable ss' \<Longrightarrow> index_body (concat (map source_lines ss')) (ss, []) = Some (ss @ ss', [])"
  by (induction ss' arbitrary: ss) (simp_all add: index_body_append source_lines_read)

lemma class_lines_one_line: "class_writable c \<Longrightarrow> one_line key \<Longrightarrow> \<forall>l \<in> set (class_lines key c). one_line l"
  using set_join_with [of "'' ''" "ce_members c"] kind_text_word(2) [of "ce_kind c"]
  by (auto simp: class_lines_def class_writable_def kind_text_word one_word_def list_all_iff one_line_def)

lemma source_lines_one_line: "source_writable s \<Longrightarrow> \<forall>l \<in> set (source_lines s). one_line l"
  using class_lines_one_line [of _ "''class''"]
  by (auto simp: source_lines_def source_writable_def list_all_iff one_wordD [OF one_word_dec])

text \<open>
  Property C38. The index that is written is the index that is read: every source with its size, time, digest,
  classes and references, and every tracked class, as long as no field holds what separates fields.
\<close>

theorem index_roundtrip:
  assumes "index_writable ix"
  shows "index_parse (index_render ix) = Some ix"
proof -
  have "\<forall>l \<in> set (index_lines ix). one_line l"
    using assms source_lines_one_line class_lines_one_line [of _ "''seen''"]
    by (auto simp: index_lines_def index_writable_def index_header_def list_all_iff)
  then have lines: "text_lines (index_render ix) = index_lines ix" unfolding index_render_def by (rule text_lines_written)
  have "index_body (concat (map source_lines (ix_sources ix)) @ concat (map (class_lines ''seen'') (ix_seen ix))) ([], []) =
      Some (ix_sources ix, ix_seen ix)"
    using sources_read [of "ix_sources ix" "[]"] classes_read(2) [of "ix_seen ix" "ix_sources ix" "[]"] assms
    by (simp add: index_body_append index_writable_def)
  moreover have "strip_prefix ''settings '' (''settings '' @ ix_settings ix) = Some (ix_settings ix)"
    "strip_prefix ''upstream '' (''upstream '' @ ix_upstream ix) = Some (ix_upstream ix)"
    by (simp_all only: strip_prefix_Some)
  ultimately show ?thesis unfolding index_parse_def lines index_lines_def by simp
qed

section \<open>A concrete index\<close>

definition demo_class :: class_entry where
  "demo_class = \<lparr>ce_name = ''a/B'', ce_kind = TopLevel, ce_api = ''f0'', ce_constants = ''-'', ce_header = ''f1'',
     ce_members = [''f2'', ''f3.run''], ce_supers = [''a/C'', ''a/D'']\<rparr>"

definition demo_index :: index where
  "demo_index = \<lparr>ix_settings = ''e0'', ix_upstream = ''-'',
     ix_sources = [\<lparr>se_path = ''src/a/B x.java'', se_size = 10, se_modified = 17, se_hash = [], se_classes = [demo_class],
       se_deps = [''a/C'', ''a/D''], se_ext = []\<rparr>],
     ix_seen = [demo_class]\<rparr>"

lemma index_roundtrip_witness: "index_parse (index_render demo_index) = Some demo_index"
proof (rule index_roundtrip)
  show "index_writable demo_index"
    by (simp add: index_writable_def source_writable_def class_writable_def one_word_def one_line_def demo_index_def demo_class_def)
qed

end
