(* ===== verification/Reach.thy ===== *)
theory Reach
  imports Prelude
begin

text \<open>
  The loops of the program that follow references with a queue and a set of what has been met: the
  subtypes of a class, the sources that depend on one (\<^verbatim>\<open>src/src/compile/incremental.rs\<close>), the classes a
  test reaches (\<^verbatim>\<open>src/src/compile/impact.rs\<close>). Each is a function of its own theory; here is what they
  share. A queue is a list whose head is the end \<^verbatim>\<open>pop\<close> takes from. \<open>marking\<close> is one turn: what it puts on
  the queue is new and is marked, so turns and queue together use up the nodes there are. \<open>worklist\<close>
  adds the loop and shows that it marks exactly what can be reached.
\<close>

locale marking =
  fixes visit :: "'n \<Rightarrow> 'st \<times> 'n list \<Rightarrow> 'st \<times> 'n list" and marked :: "'st \<Rightarrow> 'n set" and univ :: "'n set"
  assumes finite_univ: "finite univ"
    and pushes: "visit n (st, q) = (st', q') \<Longrightarrow>
      \<exists>ps. q' = ps @ q \<and> distinct ps \<and> set ps \<inter> marked st = {} \<and> set ps \<subseteq> univ \<and> marked st' = marked st \<union> set ps"
begin

definition room :: "'st \<Rightarrow> nat" where
  "room st = card (univ - marked st)"

lemma room_used: "visit n (st, q) = (st', q') \<Longrightarrow> room st' + length q' = room st + length q"
proof -
  assume "visit n (st, q) = (st', q')"
  then obtain ps where ps: "q' = ps @ q" "distinct ps" "set ps \<inter> marked st = {}" "set ps \<subseteq> univ" "marked st' = marked st \<union> set ps"
    using pushes by blast
  have "card (univ - marked st) = card (univ - marked st') + card (set ps)"
  proof -
    have "univ - marked st = (univ - marked st') \<union> set ps" using ps(3-5) by blast
    moreover have "(univ - marked st') \<inter> set ps = {}" using ps(5) by blast
    ultimately show ?thesis using finite_univ by (simp add: card_Un_disjoint)
  qed
  moreover have "length q' = card (set ps) + length q" using ps(1,2) by (simp add: distinct_card)
  ultimately show ?thesis unfolding room_def by linarith
qed

end

locale worklist = marking visit marked univ
  for visit :: "'n \<Rightarrow> 'st \<times> 'n list \<Rightarrow> 'st \<times> 'n list" and marked :: "'st \<Rightarrow> 'n set" and univ :: "'n set" +
  fixes succ :: "'n \<Rightarrow> 'n set" and inv :: "'st \<Rightarrow> bool" and settled :: "'st \<Rightarrow> 'n \<Rightarrow> bool"
    and loop :: "'st \<Rightarrow> 'n list \<Rightarrow> 'st"
  assumes visits: "inv st \<Longrightarrow> visit n (st, q) = (st', q') \<Longrightarrow> n \<in> marked st \<Longrightarrow>
      inv st' \<and> settled st' n \<and> marked st' \<subseteq> marked st \<union> succ n"
    and settled_stays: "settled st m \<Longrightarrow> visit n (st, q) = (st', q') \<Longrightarrow> settled st' m"
    and settled_succ: "inv st \<Longrightarrow> settled st n \<Longrightarrow> succ n \<subseteq> marked st"
    and loop_Nil: "loop st [] = st"
    and loop_Cons: "loop st (n # q) = (case visit n (st, q) of (st', q') \<Rightarrow> loop st' q')"
begin

abbreviation edges :: "('n \<times> 'n) set" where
  "edges \<equiv> {(a, b). b \<in> succ a}"

lemma loop_marks:
  assumes "inv st" "set q \<subseteq> marked st" "\<And>n. n \<in> marked st \<Longrightarrow> n \<notin> set q \<Longrightarrow> settled st n"
  shows "inv (loop st q) \<and> marked (loop st q) = edges\<^sup>* `` marked st \<and> (\<forall>n \<in> marked (loop st q). settled (loop st q) n)"
  using assms
proof (induction "room st + length q" arbitrary: st q rule: less_induct)
  case less
  show ?case
  proof (cases q)
    case Nil
    have "b \<in> marked st" if "(a, b) \<in> edges\<^sup>*" "a \<in> marked st" for a b
      using that
    proof (induction rule: rtrancl_induct)
      case (step y z)
      from settled_succ [OF less.prems(1) less.prems(3) [of y]] step Nil show ?case by auto
    qed
    then have "edges\<^sup>* `` marked st = marked st" by blast
    with Nil less.prems(1,3) show ?thesis by (simp add: loop_Nil)
  next
    case (Cons n r)
    obtain st' q' where v: "visit n (st, r) = (st', q')" by fastforce
    obtain ps where ps: "q' = ps @ r" "marked st' = marked st \<union> set ps" using pushes [OF v] by blast
    have n: "n \<in> marked st" using less.prems(2) Cons by simp
    have st': "inv st'" "settled st' n" "marked st' \<subseteq> marked st \<union> succ n" using visits [OF less.prems(1) v n] by auto
    have "room st' + length q' < room st + length q" using room_used [OF v] Cons by simp
    moreover have "set q' \<subseteq> marked st'" using ps Cons less.prems(2) by auto
    moreover have "settled st' m" if "m \<in> marked st'" "m \<notin> set q'" for m
    proof (cases "m = n")
      case False
      with that ps Cons have "m \<in> marked st" "m \<notin> set q" by auto
      with less.prems(3) settled_stays [OF _ v] show ?thesis by blast
    qed (use st'(2) in simp)
    ultimately have IH: "inv (loop st' q') \<and> marked (loop st' q') = edges\<^sup>* `` marked st' \<and>
        (\<forall>n \<in> marked (loop st' q'). settled (loop st' q') n)"
      using less.hyps st'(1) by blast
    have "edges\<^sup>* `` marked st' = edges\<^sup>* `` marked st"
    proof
      show "edges\<^sup>* `` marked st \<subseteq> edges\<^sup>* `` marked st'" using ps(2) by blast
      have "marked st' \<subseteq> edges\<^sup>* `` marked st" using st'(3) n by blast
      then show "edges\<^sup>* `` marked st' \<subseteq> edges\<^sup>* `` marked st" by (blast intro: rtrancl_trans)
    qed
    with IH show ?thesis by (simp add: Cons loop_Cons v)
  qed
qed

end

text \<open>A turn that goes through a list and pushes what it has not met.\<close>

lemma fold_pushes:
  assumes push: "\<And>x st q. push x (st, q) = (if x \<in> marked st then (st, q) else (mark x st, x # q))"
    and mark: "\<And>x st. x \<notin> marked st \<Longrightarrow> marked (mark x st) = insert x (marked st)"
  shows "fold push xs (st, q) = (st', q') \<Longrightarrow>
    \<exists>ps. q' = ps @ q \<and> distinct ps \<and> set ps \<inter> marked st = {} \<and> set ps \<subseteq> set xs \<and> marked st' = marked st \<union> set ps \<and>
      set xs \<subseteq> marked st'"
proof (induction xs arbitrary: st q)
  case (Cons x xs)
  show ?case
  proof (cases "x \<in> marked st")
    case True
    with Cons.prems have "fold push xs (st, q) = (st', q')" by (simp add: push)
    from Cons.IH [OF this] True show ?thesis by auto
  next
    case False
    with Cons.prems have "fold push xs (mark x st, x # q) = (st', q')" by (simp add: push)
    from Cons.IH [OF this] obtain ps where ps: "q' = ps @ x # q" "distinct ps" "set ps \<inter> insert x (marked st) = {}"
      "set ps \<subseteq> set xs" "marked st' = insert x (marked st) \<union> set ps" "set xs \<subseteq> marked st'"
      by (auto simp: mark [OF False])
    then show ?thesis using False by (intro exI [of _ "ps @ [x]"]) auto
  qed
qed simp

text \<open>Turns made of several such loops.\<close>

definition pushed :: "('st \<Rightarrow> 'n set) \<Rightarrow> 'n set \<Rightarrow> 'st \<times> 'n list \<Rightarrow> 'st \<times> 'n list \<Rightarrow> bool" where
  "pushed marked u a b \<longleftrightarrow> (\<exists>ps. snd b = ps @ snd a \<and> distinct ps \<and> set ps \<inter> marked (fst a) = {} \<and> set ps \<subseteq> u \<and>
     marked (fst b) = marked (fst a) \<union> set ps)"

lemma pushed_refl: "pushed marked u a a"
  by (auto simp: pushed_def)

lemma pushed_trans:
  assumes "pushed marked u a b" "pushed marked u b c"
  shows "pushed marked u a c"
proof -
  obtain ps qs where p: "snd b = ps @ snd a" "distinct ps" "set ps \<inter> marked (fst a) = {}" "set ps \<subseteq> u"
      "marked (fst b) = marked (fst a) \<union> set ps"
    and q: "snd c = qs @ snd b" "distinct qs" "set qs \<inter> marked (fst b) = {}" "set qs \<subseteq> u" "marked (fst c) = marked (fst b) \<union> set qs"
    using assms unfolding pushed_def by blast
  have "snd c = (qs @ ps) @ snd a" "distinct (qs @ ps)" "set (qs @ ps) \<inter> marked (fst a) = {}" "set (qs @ ps) \<subseteq> u"
    "marked (fst c) = marked (fst a) \<union> set (qs @ ps)"
    using p q by auto
  then show ?thesis unfolding pushed_def by blast
qed

lemma pushed_fold:
  assumes "\<And>x s. x \<in> set xs \<Longrightarrow> pushed marked u s (f x s)"
  shows "pushed marked u s (fold f xs s)"
  using assms
proof (induction xs arbitrary: s)
  case (Cons x xs)
  have "pushed marked u s (f x s)" by (rule Cons.prems) simp
  moreover have "pushed marked u (f x s) (fold f xs (f x s))" by (rule Cons.IH) (rule Cons.prems, simp)
  ultimately show ?case by (simp add: pushed_trans)
qed (simp add: pushed_refl)

text \<open>\<^verbatim>\<open>HashMap::entry(k).or_default().push(v)\<close>: the values of each key in the order they were pushed.\<close>

definition group_push :: "('k \<times> 'v) list \<Rightarrow> 'k \<Rightarrow> 'v list" where
  "group_push ps k = map snd (filter (\<lambda>p. fst p = k) ps)"

lemma set_group_push: "set (group_push ps k) = {v. (k, v) \<in> set ps}"
  by (force simp: group_push_def)

end
