(* ===== verification/Paths.thy ===== *)
theory Paths
  imports Manifest
begin

text \<open>
  \<^verbatim>\<open>std::path\<close> on Unix, as far as the modelled code uses it: the components of a path, what compares
  by them, and absolute paths. A path is the text it is displayed as. Also a loop that
  stops at the first error.
\<close>

section \<open>Loops\<close>

fun for_each :: "('a \<Rightarrow> 'e + unit) \<Rightarrow> 'a list \<Rightarrow> 'e + unit" where
  "for_each f [] = Inr ()"
| "for_each f (x # xs) = and_then (f x) (\<lambda>_. for_each f xs)"

lemma for_each_Inr: "for_each f xs = Inr u \<longleftrightarrow> (\<forall>x \<in> set xs. f x = Inr ())"
  by (induction xs) (auto simp: and_then_Inr)

definition ensure :: "bool \<Rightarrow> 'e \<Rightarrow> 'e + unit" where
  "ensure ok e = (if ok then Inr () else Inl e)"

lemma ensure_eq_simps [simp]: "ensure b e = Inr u \<longleftrightarrow> b" "ensure b e = Inl e' \<longleftrightarrow> \<not> b \<and> e' = e"
  by (auto simp: ensure_def)

section \<open>Components\<close>

datatype path_component = RootDir | CurDir | ParentDir | Normal str

text \<open>Empty parts and every \<^verbatim>\<open>.\<close> but a leading one are nothing.\<close>

definition components :: "str \<Rightarrow> path_component list" where
  "components p =
     (let parts = split_on CHR ''/'' p;
          rest = map (\<lambda>s. if s = ''..'' then ParentDir else Normal s) (filter (\<lambda>s. s \<noteq> [] \<and> s \<noteq> ''.'') parts)
      in if starts_with ''/'' p then RootDir # rest
         else if hd parts = ''.'' then CurDir # rest
         else rest)"

definition path_starts_with :: "str \<Rightarrow> str \<Rightarrow> bool" where
  "path_starts_with p base \<longleftrightarrow> take (length (components base)) (components p) = components base"

definition path_eq :: "str \<Rightarrow> str \<Rightarrow> bool" where
  "path_eq p q \<longleftrightarrow> components p = components q"

lemma path_starts_with_refl [simp]: "path_starts_with p p"
  by (simp add: path_starts_with_def)

definition part_component :: "str \<Rightarrow> path_component" where
  "part_component s = (if s = ''..'' then ParentDir else Normal s)"

lemma components_parts:
  "set (components p) \<supseteq> part_component ` {s \<in> set (split_on CHR ''/'' p). s \<noteq> [] \<and> s \<noteq> ''.''}"
  "ParentDir \<in> set (components p) \<longleftrightarrow> ''..'' \<in> set (split_on CHR ''/'' p)"
  by (auto simp: components_def Let_def part_component_def)

lemma parent_dir_join:
  assumes "ParentDir \<in> set (components base)" and "\<not> starts_with ''/'' p"
  shows "ParentDir \<in> set (components (path_join base p))"
proof -
  have dots: "''..'' \<in> set (split_on CHR ''/'' base)" using assms(1) by (simp add: components_parts(2))
  then have "base \<noteq> []" by auto
  show ?thesis
  proof (cases "ends_with ''/'' base")
    case True
    then obtain b where b: "base = b @ ''/''" by (auto simp: ends_with_iff)
    with dots have "''..'' \<in> set (split_on CHR ''/'' b)" by (simp add: split_on_append2)
    with b True assms(2) \<open>base \<noteq> []\<close> show ?thesis by (simp add: path_join_def components_parts(2) split_on_append2)
  next
    case False
    with dots assms(2) \<open>base \<noteq> []\<close> show ?thesis by (simp add: path_join_def components_parts(2) split_on_append2)
  qed
qed

lemma path_starts_with_set: "path_starts_with p base \<Longrightarrow> set (components base) \<subseteq> set (components p)"
  unfolding path_starts_with_def by (metis set_take_subset)

fun component_str :: "path_component \<Rightarrow> str" where
  "component_str RootDir = ''/''"
| "component_str CurDir = ''.''"
| "component_str ParentDir = ''..''"
| "component_str (Normal s) = s"

text \<open>\<^verbatim>\<open>PathBuf::pop\<close> on components: the root and the empty path stay.\<close>

definition pop_component :: "path_component list \<Rightarrow> path_component list" where
  "pop_component cs = (if cs = [] \<or> last cs = RootDir then cs else butlast cs)"

text \<open>A path of components, as collecting them into a \<^verbatim>\<open>PathBuf\<close> displays it.\<close>

definition from_components :: "path_component list \<Rightarrow> str" where
  "from_components cs = fold (\<lambda>c p. path_join p (component_str c)) cs []"

text \<open>
  \<^verbatim>\<open>std::path::absolute\<close> in a working directory: no part of the path is looked up. It fails on the
  empty path only.
\<close>

definition absolute :: "str \<Rightarrow> str \<Rightarrow> str option" where
  "absolute cwd p =
     (if p = [] then None
      else let names = map component_str (filter (\<lambda>c. c \<noteq> RootDir \<and> c \<noteq> CurDir) (components p));
               start = (if starts_with ''//'' p \<and> \<not> starts_with ''///'' p then ''//''
                        else if starts_with ''/'' p then ''/'' else cwd);
               path = fold (\<lambda>s acc. path_join acc s) names start
           in Some (if ends_with ''/'' p \<and> \<not> ends_with ''/'' path then path @ ''/'' else path))"

end
