(* ===== verification/Changes.thy ===== *)
theory Changes
  imports Index Reach Paths
begin

text \<open>
  \<^verbatim>\<open>src/src/compile/incremental.rs\<close>, what one build's classes are compared with the last build's for, and
  who has to be compiled again: what changed in a class, its subtypes, the sources that refer to it, directly
  or through others, and those a new method can be felt by. Class files are read by a function.
\<close>

section \<open>Class files\<close>

text \<open>\<^verbatim>\<open>rsplit_once\<close>\<close>

definition rsplit_once :: "char \<Rightarrow> str \<Rightarrow> (str \<times> str) option" where
  "rsplit_once c s = (let ps = split_on c s in if length ps < 2 then None else Some (join_with [c] (butlast ps), last ps))"

text \<open>\<^verbatim>\<open>Path::set_extension("class")\<close> of a file name.\<close>

definition with_class_extension :: "str \<Rightarrow> str" where
  "with_class_extension f =
     (case rsplit_once CHR ''.'' f of Some (stem, _) \<Rightarrow> (if stem = [] then f else stem) | None \<Rightarrow> f) @ ''.class''"

text \<open>
  The path of a class from the directory it is in: the parts of its name, joined one by one, and the extension.
  \<^const>\<open>None\<close> for a name that leaves the directory or is the directory.
\<close>

definition class_path :: "str \<Rightarrow> str option" where
  "class_path name =
     (let parts = filter (\<lambda>p. p \<noteq> [] \<and> p \<noteq> ''.'') (split_on CHR ''/'' name) in
      if parts = [] \<or> ''..'' \<in> set parts then None
      else Some (join_with ''/'' (butlast parts @ [with_class_extension (last parts)])))"

section \<open>What changed in a class\<close>

record changes =
  ch_added :: "str list"
  ch_broken :: "str list"
  ch_methods :: "str list"
  ch_wide :: bool

abbreviation bt_add :: "'a::linorder \<Rightarrow> 'a list \<Rightarrow> 'a list" where
  "bt_add \<equiv> List.insort_insert"

abbreviation bt_extend :: "'a::linorder list \<Rightarrow> 'a list \<Rightarrow> 'a list" where
  "bt_extend xs s \<equiv> fold bt_add xs s"

lemma set_bt_add [simp]: "set (bt_add x xs) = insert x (set xs)"
  by (auto simp: insort_insert_key_def set_insort_key insert_absorb)

lemma set_bt_extend [simp]: "set (bt_extend xs s) = set xs \<union> set s"
  by (induction xs arbitrary: s) auto

definition no_changes :: changes where
  "no_changes = \<lparr>ch_added = [], ch_broken = [], ch_methods = [], ch_wide = False\<rparr>"

definition ch_is_empty :: "changes \<Rightarrow> bool" where
  "ch_is_empty ch \<longleftrightarrow> ch_added ch = [] \<and> ch_broken ch = []"

definition ch_all :: "changes \<Rightarrow> str list" where
  "ch_all ch = bt_extend (ch_broken ch) (ch_added ch)"

text \<open>\<^verbatim>\<open>binary_search\<close> on members, which are sorted, finds exactly the members.\<close>

definition only_adds_to :: "class_entry \<Rightarrow> class_entry \<Rightarrow> bool" where
  "only_adds_to after before \<longleftrightarrow> ce_kind after = ce_kind before \<and> ce_header after = ce_header before \<and>
     list_all (\<lambda>m. m \<in> set (ce_members after)) (ce_members before)"

definition gained_member :: "str \<Rightarrow> changes \<Rightarrow> changes" where
  "gained_member m ch =
     (case split_once ''.'' m of
        Some (_, name) \<Rightarrow> ch\<lparr>ch_methods := bt_add name (ch_methods ch)\<rparr>
      | None \<Rightarrow> ch\<lparr>ch_wide := True\<rparr>)"

definition gained :: "class_entry \<Rightarrow> class_entry \<Rightarrow> changes \<Rightarrow> changes" where
  "gained before after ch =
     (let new = filter (\<lambda>m. m \<notin> set (ce_members before)) (ce_members after);
          ch' = fold gained_member new (ch\<lparr>ch_added := bt_add (ce_name before) (ch_added ch)\<rparr>)
      in ch'\<lparr>ch_wide := ch_wide ch' \<or> new = []\<rparr>)"

definition appeared :: "class_entry \<Rightarrow> changes \<Rightarrow> changes" where
  "appeared c ch = ch\<lparr>ch_added := bt_add (ce_name c) (ch_added ch), ch_wide := True\<rparr>"

definition by_name :: "changes \<Rightarrow> bool" where
  "by_name ch \<longleftrightarrow> \<not> ch_wide ch \<and> ch_methods ch \<noteq> []"

definition break_class :: "str \<Rightarrow> changes \<Rightarrow> changes" where
  "break_class name ch = ch\<lparr>ch_broken := bt_add name (ch_broken ch)\<rparr>"

fun max_visibility :: "kind \<Rightarrow> kind \<Rightarrow> kind" where
  "max_visibility a b = (if a = TopLevel \<or> b = TopLevel then TopLevel else a)"

text \<open>\<^const>\<open>None\<close> is \<^verbatim>\<open>false\<close>: only compiling the whole unit is safe.\<close>

definition compare_old :: "class_entry list \<Rightarrow> class_entry \<Rightarrow> changes \<Rightarrow> changes option" where
  "compare_old new before ch =
     (case find (\<lambda>c. ce_name c = ce_name before) new of
        Some after \<Rightarrow>
          if ce_constants after \<noteq> ce_constants before \<or>
             (ce_kind after \<noteq> ce_kind before \<and> max_visibility (ce_kind after) (ce_kind before) = TopLevel) then None
          else if ce_api after \<noteq> ce_api before \<or> ce_kind after \<noteq> ce_kind before then
            Some (if only_adds_to after before then gained before after ch else break_class (ce_name before) ch)
          else Some ch
      | None \<Rightarrow>
          if ce_kind before = TopLevel \<or> ce_constants before \<noteq> ''-'' then None
          else Some (if ce_kind before \<noteq> HiddenClass then break_class (ce_name before) ch else ch))"

definition compare_new :: "class_entry list \<Rightarrow> class_entry \<Rightarrow> changes \<Rightarrow> changes option" where
  "compare_new old after ch =
     (if list_ex (\<lambda>c. ce_name c = ce_name after) old then Some ch
      else if ce_kind after = TopLevel then None
      else Some (if ce_kind after \<noteq> HiddenClass then appeared after ch else ch))"

fun fold_option :: "('a \<Rightarrow> 's \<Rightarrow> 's option) \<Rightarrow> 'a list \<Rightarrow> 's \<Rightarrow> 's option" where
  "fold_option f [] s = Some s"
| "fold_option f (x # xs) s = (case f x s of None \<Rightarrow> None | Some s' \<Rightarrow> fold_option f xs s')"

definition compare :: "class_entry list \<Rightarrow> class_entry list \<Rightarrow> changes \<Rightarrow> changes option" where
  "compare old new ch = do {
     ch \<leftarrow> fold_option (compare_old new) old ch;
     fold_option (compare_new old) new ch }"

section \<open>Subtypes\<close>

definition super_pairs :: "class_entry list \<Rightarrow> (str \<times> str) list" where
  "super_pairs cs = concat (map (\<lambda>c. map (\<lambda>s. (s, ce_name c)) (ce_supers c)) cs)"

definition inherit_push :: "str list \<Rightarrow> str \<Rightarrow> str list \<times> str list \<Rightarrow> str list \<times> str list" where
  "inherit_push changed sub = (\<lambda>(reached, queue).
     if sub \<notin> set changed \<and> sub \<notin> set reached then (bt_add sub reached, sub # queue) else (reached, queue))"

definition inherit_turn :: "class_entry list \<Rightarrow> str list \<Rightarrow> str \<Rightarrow> str list \<times> str list \<Rightarrow> str list \<times> str list" where
  "inherit_turn cs changed name = fold (inherit_push changed) (group_push (super_pairs cs) name)"

lemma inherit_fold:
  assumes "fold (inherit_push changed) xs (st, q) = (st', q')"
  shows "\<exists>ps. q' = ps @ q \<and> distinct ps \<and> set ps \<inter> (set changed \<union> set st) = {} \<and> set ps \<subseteq> set xs \<and>
    set changed \<union> set st' = set changed \<union> set st \<union> set ps \<and> set xs \<subseteq> set changed \<union> set st'"
  by (rule fold_pushes [where marked = "\<lambda>st. set changed \<union> set st" and mark = bt_add, OF _ _ assms])
    (auto simp: inherit_push_def)

interpretation inherit: marking "inherit_turn cs changed" "\<lambda>st. set changed \<union> set st" "set (map ce_name cs)" for cs changed
proof unfold_locales
  fix n st q st' q'
  assume "inherit_turn cs changed n (st, q) = (st', q')"
  moreover have "set (group_push (super_pairs cs) n) \<subseteq> set (map ce_name cs)"
    by (auto simp: set_group_push super_pairs_def)
  ultimately show "\<exists>ps. q' = ps @ q \<and> distinct ps \<and> set ps \<inter> (set changed \<union> set st) = {} \<and> set ps \<subseteq> set (map ce_name cs) \<and>
      set changed \<union> set st' = set changed \<union> set st \<union> set ps"
    using inherit_fold [of changed "group_push (super_pairs cs) n" st q st' q'] unfolding inherit_turn_def by blast
qed simp

function inherit_loop :: "class_entry list \<Rightarrow> str list \<Rightarrow> str list \<Rightarrow> str list \<Rightarrow> str list" where
  "inherit_loop cs changed reached [] = reached"
| "inherit_loop cs changed reached (name # queue) =
     (case inherit_turn cs changed name (reached, queue) of (reached', queue') \<Rightarrow> inherit_loop cs changed reached' queue')"
  by pat_completeness auto
termination
proof (relation "measure (\<lambda>(cs, changed, reached, queue). inherit.room changed cs reached + length queue)")
  fix cs :: "class_entry list" and changed reached :: "str list" and name :: str and queue :: "str list" and reached' queue'
  assume "(reached', queue') = inherit_turn cs changed name (reached, queue)"
  then have "inherit_turn cs changed name (reached, queue) = (reached', queue')" by simp
  from inherit.room_used [OF this]
  show "((cs, changed, reached', queue'), cs, changed, reached, name # queue) \<in>
      measure (\<lambda>(cs, changed, reached, queue). inherit.room changed cs reached + length queue)"
    by (simp only: in_measure prod.case list.size)
qed simp

definition inheriting :: "class_entry list \<Rightarrow> str list \<Rightarrow> str list" where
  "inheriting cs changed = inherit_loop cs changed [] (rev changed)"

definition index_classes :: "index \<Rightarrow> class_entry list" where
  "index_classes ix = concat (map se_classes (ix_sources ix))"

definition subtypes :: "index \<Rightarrow> str list \<Rightarrow> str list" where
  "subtypes ix changed = bt_extend changed (inheriting (index_classes ix) changed)"

text \<open>The relation of direct subtypes.\<close>

definition direct_subtype :: "class_entry list \<Rightarrow> (str \<times> str) set" where
  "direct_subtype cs = {(s, ce_name c) | s c. c \<in> set cs \<and> s \<in> set (ce_supers c)}"

interpretation inherit: worklist "inherit_turn cs changed" "\<lambda>st. set changed \<union> set st" "set (map ce_name cs)"
    "\<lambda>n. direct_subtype cs `` {n}" "\<lambda>st. set changed \<inter> set st = {}" "\<lambda>st n. direct_subtype cs `` {n} \<subseteq> set changed \<union> set st" "inherit_loop cs changed"
  for cs changed
proof unfold_locales
  have subs: "set (group_push (super_pairs cs) n) = direct_subtype cs `` {n}" for n
    by (auto simp: set_group_push super_pairs_def direct_subtype_def)
  fix st n q st' q' m
  assume turn: "inherit_turn cs changed n (st, q) = (st', q')"
  from inherit_fold [OF turn [unfolded inherit_turn_def]]
  obtain ps where ps: "set ps \<inter> (set changed \<union> set st) = {}" "set ps \<subseteq> direct_subtype cs `` {n}"
    "set changed \<union> set st' = set changed \<union> set st \<union> set ps" "direct_subtype cs `` {n} \<subseteq> set changed \<union> set st'"
    unfolding subs by blast
  { assume "direct_subtype cs `` {m} \<subseteq> set changed \<union> set st"
    then show "direct_subtype cs `` {m} \<subseteq> set changed \<union> set st'" using ps(3) by blast }
  assume "set changed \<inter> set st = {}"
  then have "set changed \<inter> set (fst (fold (inherit_push changed) xs (st, q))) = {}" for xs
    by (intro fold_invariant [where Q = "\<lambda>x. True" and P = "\<lambda>s. set changed \<inter> set (fst s) = {}"])
      (auto simp: inherit_push_def split: prod.splits if_splits)
  then have "set changed \<inter> set st' = {}" using turn unfolding inherit_turn_def by (metis fst_conv)
  then show "set changed \<inter> set st' = {} \<and> direct_subtype cs `` {n} \<subseteq> set changed \<union> set st' \<and>
      set changed \<union> set st' \<subseteq> set changed \<union> set st \<union> direct_subtype cs `` {n}"
    using ps by blast
qed simp_all

lemma inheriting_exact: "set (inheriting cs changed) = (direct_subtype cs)\<^sup>* `` set changed - set changed"
proof -
  have "{(a, b). b \<in> direct_subtype cs `` {a}} = direct_subtype cs" by auto
  with inherit.loop_marks [of changed "[]" "rev changed" cs]
  have "set changed \<inter> set (inheriting cs changed) = {}" "set changed \<union> set (inheriting cs changed) = (direct_subtype cs)\<^sup>* `` set changed"
    by (auto simp: inheriting_def)
  then show ?thesis by blast
qed

text \<open>What counts as changed with a class is the class and exactly its subtypes in the unit, at any depth.\<close>

lemma subtypes_iff: "set (subtypes ix changed) = (direct_subtype (index_classes ix))\<^sup>* `` set changed"
  by (auto simp: subtypes_def inheriting_exact)

section \<open>Sources that depend on a class\<close>

definition user_pairs :: "index \<Rightarrow> (str \<times> nat) list" where
  "user_pairs ix = concat (map (\<lambda>(i, s). map (\<lambda>d. (d, i)) (se_deps s)) (enumerate 0 (ix_sources ix)))"

type_synonym depend_state = "str list \<times> nat list"

definition depend_push :: "str \<Rightarrow> depend_state \<times> str list \<Rightarrow> depend_state \<times> str list" where
  "depend_push c = (\<lambda>((seen, reached), queue).
     if c \<in> set seen then ((seen, reached), queue) else ((c # seen, reached), c # queue))"

definition depend_user :: "index \<Rightarrow> nat \<Rightarrow> depend_state \<times> str list \<Rightarrow> depend_state \<times> str list" where
  "depend_user ix i = (\<lambda>((seen, reached), queue).
     if i \<in> set reached then ((seen, reached), queue)
     else fold depend_push (map ce_name (se_classes (ix_sources ix ! i))) ((seen, bt_add i reached), queue))"

definition depend_turn :: "index \<Rightarrow> str \<Rightarrow> depend_state \<times> str list \<Rightarrow> depend_state \<times> str list" where
  "depend_turn ix name = fold (depend_user ix) (group_push (user_pairs ix) name)"

abbreviation class_names :: "index \<Rightarrow> nat \<Rightarrow> str set" where
  "class_names ix i \<equiv> ce_name ` set (se_classes (ix_sources ix ! i))"

abbreviation deps_of :: "index \<Rightarrow> nat \<Rightarrow> str set" where
  "deps_of ix i \<equiv> set (se_deps (ix_sources ix ! i))"

lemma user_pairs_iff: "(d, i) \<in> set (user_pairs ix) \<longleftrightarrow> i < length (ix_sources ix) \<and> d \<in> deps_of ix i"
proof
  assume "(d, i) \<in> set (user_pairs ix)"
  then obtain s where "(i, s) \<in> set (enumerate 0 (ix_sources ix))" "d \<in> set (se_deps s)" by (auto simp: user_pairs_def)
  then show "i < length (ix_sources ix) \<and> d \<in> deps_of ix i" by (auto simp: in_set_enumerate_eq)
next
  assume "i < length (ix_sources ix) \<and> d \<in> deps_of ix i"
  then have "(i, ix_sources ix ! i) \<in> set (enumerate 0 (ix_sources ix))" by (auto simp: in_set_enumerate_eq)
  with \<open>i < length (ix_sources ix) \<and> d \<in> deps_of ix i\<close> show "(d, i) \<in> set (user_pairs ix)" unfolding user_pairs_def by force
qed

lemma set_users: "set (group_push (user_pairs ix) n) = {i. i < length (ix_sources ix) \<and> n \<in> deps_of ix i}"
  by (simp add: set_group_push user_pairs_iff)

lemma depend_fold:
  assumes "fold depend_push xs ((seen, reached), q) = ((seen', reached'), q')"
  shows "reached' = reached \<and> (\<exists>ps. q' = ps @ q \<and> distinct ps \<and> set ps \<inter> set seen = {} \<and> set ps \<subseteq> set xs \<and>
    set seen' = set seen \<union> set ps \<and> set xs \<subseteq> set seen')"
proof -
  have "snd (fst (fold depend_push ys ((a, reached), b))) = reached" for ys a b
    by (rule fold_invariant [where Q = "\<lambda>x. True" and P = "\<lambda>s. snd (fst s) = reached"]) (auto simp: depend_push_def split: prod.splits if_splits)
  with assms have "reached' = reached" by (metis fst_conv snd_conv)
  moreover have "\<exists>ps. q' = ps @ q \<and> distinct ps \<and> set ps \<inter> set (fst (seen, reached)) = {} \<and> set ps \<subseteq> set xs \<and>
      set (fst (seen', reached')) = set (fst (seen, reached)) \<union> set ps \<and> set xs \<subseteq> set (fst (seen', reached'))"
    by (rule fold_pushes [where marked = "\<lambda>st. set (fst st)" and mark = "\<lambda>c (seen, reached). (c # seen, reached)", OF _ _ assms])
      (auto simp: depend_push_def)
  ultimately show ?thesis by simp
qed

lemma depend_user_step:
  assumes "depend_user ix i ((seen, reached), q) = ((seen', reached'), q')"
  shows "pushed (\<lambda>st. set (fst st)) (class_names ix i) ((seen, reached), q) ((seen', reached'), q')"
    and "set reached' = insert i (set reached)"
    and "(i \<in> set reached \<longrightarrow> class_names ix i \<subseteq> set seen) \<Longrightarrow> set seen' = set seen \<union> class_names ix i"
proof -
  have new: "reached' = bt_add i reached \<and> (\<exists>ps. q' = ps @ q \<and> distinct ps \<and> set ps \<inter> set seen = {} \<and> set ps \<subseteq> class_names ix i \<and>
      set seen' = set seen \<union> set ps \<and> class_names ix i \<subseteq> set seen')" if "i \<notin> set reached"
  proof -
    from that assms have "fold depend_push (map ce_name (se_classes (ix_sources ix ! i))) ((seen, bt_add i reached), q) = ((seen', reached'), q')"
      by (simp add: depend_user_def)
    from depend_fold [OF this] show ?thesis unfolding set_map .
  qed
  have old: "seen' = seen" "reached' = reached" "q' = q" if "i \<in> set reached" using that assms by (auto simp: depend_user_def)
  show "pushed (\<lambda>st. set (fst st)) (class_names ix i) ((seen, reached), q) ((seen', reached'), q')"
    using new old by (cases "i \<in> set reached") (auto simp: pushed_def)
  show "set reached' = insert i (set reached)" using new old by (cases "i \<in> set reached") auto
  show "set seen' = set seen \<union> class_names ix i" if "i \<in> set reached \<longrightarrow> class_names ix i \<subseteq> set seen"
    using new old that by (cases "i \<in> set reached") auto
qed

lemma pushed_mono: "pushed marked u a b \<Longrightarrow> u \<subseteq> v \<Longrightarrow> pushed marked v a b"
  unfolding pushed_def by blast

definition all_names :: "index \<Rightarrow> str set" where
  "all_names ix = (\<Union>i < length (ix_sources ix). class_names ix i)"

lemma depend_turn_pushes: "pushed (\<lambda>st. set (fst st)) (all_names ix) ((seen, reached), q) (depend_turn ix n ((seen, reached), q))"
  unfolding depend_turn_def
proof (rule pushed_fold)
  fix i and s :: "depend_state \<times> str list"
  assume "i \<in> set (group_push (user_pairs ix) n)"
  then have "class_names ix i \<subseteq> all_names ix" unfolding set_users all_names_def by auto
  moreover obtain seen reached q where s: "s = ((seen, reached), q)" by (metis surj_pair)
  moreover obtain seen' reached' q' where u: "depend_user ix i s = ((seen', reached'), q')" by (metis surj_pair)
  ultimately show "pushed (\<lambda>st. set (fst st)) (all_names ix) s (depend_user ix i s)"
    using depend_user_step(1) [of ix i seen reached q seen' reached' q'] pushed_mono by metis
qed

interpretation depend: marking "depend_turn ix" "\<lambda>st. set (fst st)" "all_names ix" for ix
proof unfold_locales
  show "finite (all_names ix)" by (simp add: all_names_def)
  fix n and st st' :: depend_state and q q'
  assume "depend_turn ix n (st, q) = (st', q')"
  then show "\<exists>ps. q' = ps @ q \<and> distinct ps \<and> set ps \<inter> set (fst st) = {} \<and> set ps \<subseteq> all_names ix \<and> set (fst st') = set (fst st) \<union> set ps"
    using depend_turn_pushes [of ix "fst st" "snd st" q n] by (auto simp: pushed_def)
qed

function depend_loop :: "index \<Rightarrow> depend_state \<Rightarrow> str list \<Rightarrow> depend_state" where
  "depend_loop ix st [] = st"
| "depend_loop ix st (name # queue) = (case depend_turn ix name (st, queue) of (st', queue') \<Rightarrow> depend_loop ix st' queue')"
  by pat_completeness auto
termination
proof (relation "measure (\<lambda>(ix, st, queue). depend.room ix st + length queue)")
  fix ix and st st' :: depend_state and name queue queue'
  assume "(st', queue') = depend_turn ix name (st, queue)"
  then have "depend_turn ix name (st, queue) = (st', queue')" by simp
  from depend.room_used [OF this]
  show "((ix, st', queue'), ix, st, name # queue) \<in> measure (\<lambda>(ix, st, queue). depend.room ix st + length queue)"
    by (simp only: in_measure prod.case list.size)
qed simp

definition dependents :: "index \<Rightarrow> str list \<Rightarrow> nat list \<Rightarrow> nat list" where
  "dependents ix changed compiled =
     (case depend_loop ix (changed, []) (rev changed) of (_, reached) \<Rightarrow> filter (\<lambda>i. i \<notin> set compiled) reached)"

text \<open>The sources that refer to one of some classes, and those that refer to one of theirs.\<close>

inductive refers :: "index \<Rightarrow> str set \<Rightarrow> nat \<Rightarrow> bool" for ix changed where
  direct: "i < length (ix_sources ix) \<Longrightarrow> d \<in> deps_of ix i \<Longrightarrow> d \<in> changed \<Longrightarrow> refers ix changed i"
| through: "refers ix changed j \<Longrightarrow> c \<in> class_names ix j \<Longrightarrow> i < length (ix_sources ix) \<Longrightarrow> c \<in> deps_of ix i \<Longrightarrow> refers ix changed i"

definition passes_on :: "index \<Rightarrow> str \<Rightarrow> str set" where
  "passes_on ix d = (\<Union>i \<in> {i. i < length (ix_sources ix) \<and> d \<in> deps_of ix i}. class_names ix i)"

definition depend_inv :: "index \<Rightarrow> depend_state \<Rightarrow> bool" where
  "depend_inv ix st \<longleftrightarrow> (\<forall>i \<in> set (snd st). i < length (ix_sources ix) \<and> class_names ix i \<subseteq> set (fst st) \<and> deps_of ix i \<inter> set (fst st) \<noteq> {})"

lemma depend_users_step:
  assumes "\<forall>i \<in> set reached. class_names ix i \<subseteq> set seen" "fold (depend_user ix) is ((seen, reached), q) = ((seen', reached'), q')"
  shows "set reached' = set is \<union> set reached \<and> set seen' = set seen \<union> (\<Union>i \<in> set is. class_names ix i)"
  using assms
proof (induction "is" arbitrary: seen reached q)
  case (Cons i "is")
  obtain s1 r1 q1 where u: "depend_user ix i ((seen, reached), q) = ((s1, r1), q1)" by (metis surj_pair)
  have 1: "set r1 = insert i (set reached)" "set s1 = set seen \<union> class_names ix i"
    using depend_user_step(2,3) [OF u] Cons.prems(1) by auto
  have "\<forall>i \<in> set r1. class_names ix i \<subseteq> set s1" using Cons.prems(1) unfolding 1 by blast
  from Cons.IH [OF this, of q1] u Cons.prems(2) 1 show ?case by auto
qed simp

interpretation depend: worklist "depend_turn ix" "\<lambda>st. set (fst st)" "all_names ix" "passes_on ix" "depend_inv ix"
    "\<lambda>st n. {i. i < length (ix_sources ix) \<and> n \<in> deps_of ix i} \<subseteq> set (snd st)" "depend_loop ix" for ix
proof unfold_locales
  fix n and st st' :: depend_state and q q' m
  assume turn: "depend_turn ix n (st, q) = (st', q')"
  let ?us = "group_push (user_pairs ix) n"
  obtain seen reached seen' reached' where st: "st = (seen, reached)" "st' = (seen', reached')" by (metis surj_pair)
  { assume i: "depend_inv ix st" "n \<in> set (fst st)"
    then have "\<forall>i \<in> set reached. class_names ix i \<subseteq> set seen" by (auto simp: depend_inv_def st)
    from depend_users_step [OF this turn [unfolded depend_turn_def st]]
    have s: "set reached' = set ?us \<union> set reached" "set seen' = set seen \<union> passes_on ix n"
      unfolding set_users passes_on_def by blast+
    have "depend_inv ix st'"
      unfolding depend_inv_def st fst_conv snd_conv s
    proof (rule ballI, elim UnE)
      fix j
      assume "j \<in> set ?us"
      then have "j < length (ix_sources ix)" "n \<in> deps_of ix j" unfolding set_users by simp_all
      then show "j < length (ix_sources ix) \<and> class_names ix j \<subseteq> set seen \<union> passes_on ix n \<and> deps_of ix j \<inter> (set seen \<union> passes_on ix n) \<noteq> {}"
        using i(2) unfolding st fst_conv passes_on_def by blast
    next
      fix j
      assume "j \<in> set reached"
      then show "j < length (ix_sources ix) \<and> class_names ix j \<subseteq> set seen \<union> passes_on ix n \<and> deps_of ix j \<inter> (set seen \<union> passes_on ix n) \<noteq> {}"
        using i(1) unfolding depend_inv_def st fst_conv snd_conv by blast
    qed
    with s show "depend_inv ix st' \<and> {i. i < length (ix_sources ix) \<and> n \<in> deps_of ix i} \<subseteq> set (snd st') \<and>
        set (fst st') \<subseteq> set (fst st) \<union> passes_on ix n"
      unfolding st set_users by auto }
  { assume "{i. i < length (ix_sources ix) \<and> m \<in> deps_of ix i} \<subseteq> set (snd st)"
    moreover have "set reached \<subseteq> set (snd (fst (fold (depend_user ix) us ((a, b), q))))" if "set reached \<subseteq> set b" for us a b
    proof (rule fold_invariant [where Q = "\<lambda>x. True" and P = "\<lambda>s. set reached \<subseteq> set (snd (fst s))"])
      fix i and s :: "depend_state \<times> str list"
      assume "set reached \<subseteq> set (snd (fst s))"
      moreover obtain a b c a' b' c' where "s = ((a, b), c)" "depend_user ix i s = ((a', b'), c')" by (metis surj_pair)
      ultimately show "set reached \<subseteq> set (snd (fst (depend_user ix i s)))"
        using depend_user_step(2) [of ix i a b c a' b' c'] by auto
    qed (use that in simp_all)
    ultimately show "{i. i < length (ix_sources ix) \<and> m \<in> deps_of ix i} \<subseteq> set (snd st')"
      using turn unfolding depend_turn_def st by (metis (no_types, lifting) fst_conv order_trans snd_conv order_refl) }
next
  fix n and st :: depend_state
  assume "depend_inv ix st" "{i. i < length (ix_sources ix) \<and> n \<in> deps_of ix i} \<subseteq> set (snd st)"
  then show "passes_on ix n \<subseteq> set (fst st)" unfolding depend_inv_def passes_on_def by blast
qed simp_all

lemma refers_iff:
  "refers ix changed i \<longleftrightarrow> i < length (ix_sources ix) \<and> deps_of ix i \<inter> {(a, b). b \<in> passes_on ix a}\<^sup>* `` changed \<noteq> {}"
proof
  show "i < length (ix_sources ix) \<and> deps_of ix i \<inter> {(a, b). b \<in> passes_on ix a}\<^sup>* `` changed \<noteq> {}" if "refers ix changed i"
    using that
  proof (induction rule: refers.induct)
    case (direct i d)
    then show ?case by blast
  next
    case (through j c i)
    then obtain a d where a: "a \<in> changed" "(a, d) \<in> {(a, b). b \<in> passes_on ix a}\<^sup>*" "d \<in> deps_of ix j" "j < length (ix_sources ix)" by blast
    have "(d, c) \<in> {(a, b). b \<in> passes_on ix a}" using a(3,4) through(2) by (auto simp: passes_on_def)
    with a(2) have "(a, c) \<in> {(a, b). b \<in> passes_on ix a}\<^sup>*" by (rule rtrancl_into_rtrancl)
    with a(1) through(3,4) show ?case by blast
  qed
next
  assume r: "i < length (ix_sources ix) \<and> deps_of ix i \<inter> {(a, b). b \<in> passes_on ix a}\<^sup>* `` changed \<noteq> {}"
  then obtain a d where a: "a \<in> changed" "(a, d) \<in> {(a, b). b \<in> passes_on ix a}\<^sup>*" "d \<in> deps_of ix i" by blast
  have "i < length (ix_sources ix) \<Longrightarrow> d \<in> deps_of ix i \<Longrightarrow> refers ix changed i" for i
    using a(2)
  proof (induction arbitrary: i rule: rtrancl_induct)
    case base
    with a(1) show ?case by (blast intro: refers.direct)
  next
    case (step y z)
    then obtain j where "j < length (ix_sources ix)" "y \<in> deps_of ix j" "z \<in> class_names ix j" by (auto simp: passes_on_def)
    with step.IH step.prems show ?case by (blast intro: refers.through)
  qed
  with r a(3) show "refers ix changed i" by blast
qed

lemma dependents_iff: "i \<in> set (dependents ix changed compiled) \<longleftrightarrow> refers ix (set changed) i \<and> i \<notin> set compiled"
proof -
  obtain seen reached where r: "depend_loop ix (changed, []) (rev changed) = (seen, reached)" by fastforce
  have "depend_inv ix (changed, [])" by (simp add: depend_inv_def)
  from depend.loop_marks [OF this, of "rev changed"] r
  have l: "depend_inv ix (seen, reached)" "set seen = {(a, b). b \<in> passes_on ix a}\<^sup>* `` set changed"
    "\<forall>n \<in> set seen. {i. i < length (ix_sources ix) \<and> n \<in> deps_of ix i} \<subseteq> set reached"
    by auto
  have "i \<in> set reached \<longleftrightarrow> i < length (ix_sources ix) \<and> deps_of ix i \<inter> set seen \<noteq> {}"
    using l(1,3) unfolding depend_inv_def by auto
  then show ?thesis by (auto simp: dependents_def r refers_iff l(2))
qed

text \<open>
  Property C25. What a breaking change recompiles is exactly what refers to a changed class or a subtype of one,
  directly or through the classes of other sources, less what was compiled against the new classes already.
\<close>

theorem dependents_exact:
  "set (dependents ix (subtypes ix changed) compiled) =
    {i. refers ix ((direct_subtype (index_classes ix))\<^sup>* `` set changed) i} - set compiled"
  by (auto simp: dependents_iff subtypes_iff)

section \<open>Who feels a change\<close>

text \<open>\<open>read\<close> is the class file of a name in the output directory.\<close>

definition feels_new_methods :: "(str \<Rightarrow> str option) \<Rightarrow> source_entry \<Rightarrow> str list \<Rightarrow> str list \<Rightarrow> bool" where
  "feels_new_methods read source reached names =
     list_ex (\<lambda>c. ce_name c \<in> set reached \<or> list_ex (\<lambda>n. n \<in> set reached) (ce_supers c) \<or>
       (case read (ce_name c) of
          None \<Rightarrow> True
        | Some bytes \<Rightarrow> (case mentions bytes names of None \<Rightarrow> True | Some b \<Rightarrow> b))) (se_classes source)"

definition users_of_addition :: "(str \<Rightarrow> str option) \<Rightarrow> index \<Rightarrow> nat list \<Rightarrow> str list \<Rightarrow> changes \<Rightarrow> nat list" where
  "users_of_addition read ix users reached ch =
     (if \<not> by_name ch \<or> users = [] then users
      else filter (\<lambda>i. feels_new_methods read (ix_sources ix ! i) reached (ch_methods ch)) users)"

definition direct_users :: "index \<Rightarrow> str list \<Rightarrow> nat list" where
  "direct_users ix changed = filter (\<lambda>i. list_ex (\<lambda>d. d \<in> set changed) (se_deps (ix_sources ix ! i))) [0..<length (ix_sources ix)]"

definition source_class_names :: "index \<Rightarrow> nat list \<Rightarrow> str list" where
  "source_class_names ix srcs = bt_extend (concat (map (\<lambda>i. map ce_name (se_classes (ix_sources ix ! i))) srcs)) []"

definition is_named :: "index \<Rightarrow> nat list \<Rightarrow> bool" where
  "is_named ix srcs = list_ex (\<lambda>i. i \<notin> set srcs) (direct_users ix (source_class_names ix srcs))"

definition reached_from_upstream :: "(str \<Rightarrow> str option) \<Rightarrow> index \<Rightarrow> changes \<Rightarrow> nat list" where
  "reached_from_upstream read ix upstream =
     (let refers_to = (\<lambda>i classes. list_ex (\<lambda>c. c \<in> set (se_ext (ix_sources ix ! i))) classes);
          users = filter (\<lambda>i. refers_to i (ch_added upstream) \<or> refers_to i (ch_broken upstream)) [0..<length (ix_sources ix)];
          (broken, added) = partition (\<lambda>i. refers_to i (ch_broken upstream)) users;
          added = users_of_addition read ix added (ch_added upstream) upstream;
          broken_classes = source_class_names ix broken
      in bt_extend (dependents ix broken_classes []) (bt_extend added broken))"

text \<open>
  A change in the tracked directories reaches every source that refers to a broken class and
  whatever depends on one of those; of the sources that refer to a class that only gained members it
  leaves out those alone that hold no subtype and none of the new names.
\<close>

lemma reached_from_upstream_exact:
  "i \<in> set (reached_from_upstream read ix up) \<longleftrightarrow>
    (i < length (ix_sources ix) \<and> set (se_ext (ix_sources ix ! i)) \<inter> set (ch_broken up) \<noteq> {}) \<or>
    refers ix {c. \<exists>j < length (ix_sources ix). set (se_ext (ix_sources ix ! j)) \<inter> set (ch_broken up) \<noteq> {} \<and> c \<in> class_names ix j} i \<or>
    (i < length (ix_sources ix) \<and> set (se_ext (ix_sources ix ! i)) \<inter> set (ch_added up) \<noteq> {} \<and>
      \<not> (by_name up \<and> \<not> feels_new_methods read (ix_sources ix ! i) (ch_added up) (ch_methods up)))"
proof -
  let ?refers = "\<lambda>i classes. list_ex (\<lambda>c. c \<in> set (se_ext (ix_sources ix ! i))) classes"
  define users where "users = filter (\<lambda>i. ?refers i (ch_added up) \<or> ?refers i (ch_broken up)) [0..<length (ix_sources ix)]"
  define b where "b = filter (\<lambda>i. ?refers i (ch_broken up)) users"
  define a where "a = filter (Not \<circ> (\<lambda>i. ?refers i (ch_broken up))) users"
  have parts: "reached_from_upstream read ix up =
      bt_extend (dependents ix (source_class_names ix b) []) (bt_extend (users_of_addition read ix a (ch_added up) up) b)"
    unfolding reached_from_upstream_def Let_def partition_filter_conv prod.case users_def a_def b_def by (rule refl)
  have ex: "?refers i ys \<longleftrightarrow> set (se_ext (ix_sources ix ! i)) \<inter> set ys \<noteq> {}" for i ys by (auto simp: list_ex_iff)
  have set_b: "set b = {i. i < length (ix_sources ix) \<and> set (se_ext (ix_sources ix ! i)) \<inter> set (ch_broken up) \<noteq> {}}"
    and set_a: "set a = {i. i < length (ix_sources ix) \<and> set (se_ext (ix_sources ix ! i)) \<inter> set (ch_added up) \<noteq> {} \<and>
      set (se_ext (ix_sources ix ! i)) \<inter> set (ch_broken up) = {}}"
    unfolding a_def b_def users_def ex by auto
  have names: "set (source_class_names ix b) =
      {c. \<exists>j < length (ix_sources ix). set (se_ext (ix_sources ix ! j)) \<inter> set (ch_broken up) \<noteq> {} \<and> c \<in> class_names ix j}"
    by (auto simp: source_class_names_def set_b)
  have "i \<in> set (users_of_addition read ix a (ch_added up) up) \<longleftrightarrow>
      i \<in> set a \<and> \<not> (by_name up \<and> \<not> feels_new_methods read (ix_sources ix ! i) (ch_added up) (ch_methods up))"
    by (auto simp: users_of_addition_def)
  then show ?thesis
    unfolding parts set_bt_extend Un_iff dependents_iff names set_b set_a by auto
qed

section \<open>What a comparison finds\<close>

definition ch_le :: "changes \<Rightarrow> changes \<Rightarrow> bool" where
  "ch_le a b \<longleftrightarrow> set (ch_added a) \<subseteq> set (ch_added b) \<and> set (ch_broken a) \<subseteq> set (ch_broken b) \<and>
     set (ch_methods a) \<subseteq> set (ch_methods b) \<and> (ch_wide a \<longrightarrow> ch_wide b)"

lemma ch_le_refl: "ch_le a a" by (simp add: ch_le_def)

lemma ch_le_trans: "ch_le a b \<Longrightarrow> ch_le b c \<Longrightarrow> ch_le a c" unfolding ch_le_def by blast

lemma fold_option_each:
  assumes step: "\<And>x s s'. f x s = Some s' \<Longrightarrow> ch_le s s' \<and> Q x s'"
    and stays: "\<And>x s s'. Q x s \<Longrightarrow> ch_le s s' \<Longrightarrow> Q x s'"
  shows "fold_option f xs s = Some s' \<Longrightarrow> ch_le s s' \<and> (\<forall>x \<in> set xs. Q x s')"
proof (induction xs arbitrary: s)
  case (Cons x xs)
  then obtain s1 where s1: "f x s = Some s1" "fold_option f xs s1 = Some s'" by (auto split: option.splits)
  from Cons.IH [OF s1(2)] step [OF s1(1)] show ?case using stays ch_le_trans by auto
qed (simp add: ch_le_refl)

text \<open>What a member that is new is recorded as.\<close>

definition member_recorded :: "changes \<Rightarrow> str \<Rightarrow> bool" where
  "member_recorded ch m \<longleftrightarrow> (case split_once ''.'' m of Some (_, name) \<Rightarrow> name \<in> set (ch_methods ch) | None \<Rightarrow> ch_wide ch)"

definition gain_recorded :: "changes \<Rightarrow> class_entry \<Rightarrow> class_entry \<Rightarrow> bool" where
  "gain_recorded ch before after \<longleftrightarrow> ce_name before \<in> set (ch_added ch) \<and> only_adds_to after before \<and>
     (\<forall>m \<in> set (ce_members after) - set (ce_members before). member_recorded ch m) \<and>
     (set (ce_members after) \<subseteq> set (ce_members before) \<longrightarrow> ch_wide ch)"

lemma member_recorded_mono: "member_recorded a m \<Longrightarrow> ch_le a b \<Longrightarrow> member_recorded b m"
  by (auto simp: member_recorded_def ch_le_def split: option.splits)

lemma gain_recorded_mono: "gain_recorded a x y \<Longrightarrow> ch_le a b \<Longrightarrow> gain_recorded b x y"
  using member_recorded_mono unfolding gain_recorded_def ch_le_def by blast

lemma gained_records:
  "ch_le ch (gained before after ch)" "only_adds_to after before \<Longrightarrow> gain_recorded (gained before after ch) before after"
proof -
  have step: "ch_le c (gained_member m c) \<and> member_recorded (gained_member m c) m \<and> ch_added (gained_member m c) = ch_added c" for m c
    by (auto simp: gained_member_def member_recorded_def ch_le_def split: option.splits)
  have fold: "ch_le c (fold gained_member ms c) \<and> (\<forall>m \<in> set ms. member_recorded (fold gained_member ms c) m) \<and>
      ch_added (fold gained_member ms c) = ch_added c" for ms c
  proof (induction ms arbitrary: c)
    case (Cons m ms)
    with step [of c m] show ?case using ch_le_trans member_recorded_mono by fastforce
  qed (simp add: ch_le_refl)
  let ?new = "filter (\<lambda>m. m \<notin> set (ce_members before)) (ce_members after)"
  let ?ch = "fold gained_member ?new (ch\<lparr>ch_added := bt_add (ce_name before) (ch_added ch)\<rparr>)"
  have g: "gained before after ch = ?ch\<lparr>ch_wide := ch_wide ?ch \<or> ?new = []\<rparr>" by (simp add: gained_def Let_def)
  have le: "ch_le ?ch (gained before after ch)" unfolding g by (simp add: ch_le_def)
  have "ch_le ch (ch\<lparr>ch_added := bt_add (ce_name before) (ch_added ch)\<rparr>)" by (auto simp: ch_le_def)
  then show "ch_le ch (gained before after ch)" using fold le ch_le_trans by blast
  have "\<forall>m \<in> set ?new. member_recorded (gained before after ch) m" using fold le member_recorded_mono by blast
  moreover have "ce_name before \<in> set (ch_added (gained before after ch))" unfolding g using fold by simp
  moreover have "set (ce_members after) \<subseteq> set (ce_members before) \<longrightarrow> ch_wide (gained before after ch)"
    unfolding g by (auto simp: filter_empty_conv)
  ultimately show "only_adds_to after before \<Longrightarrow> gain_recorded (gained before after ch) before after"
    unfolding gain_recorded_def by auto
qed

text \<open>What has become of a class.\<close>

definition old_recorded :: "class_entry list \<Rightarrow> class_entry \<Rightarrow> changes \<Rightarrow> bool" where
  "old_recorded new before ch =
     (case find (\<lambda>c. ce_name c = ce_name before) new of
        Some after \<Rightarrow> ce_constants after = ce_constants before \<and>
          (ce_kind after = ce_kind before \<or> ce_kind after \<noteq> TopLevel \<and> ce_kind before \<noteq> TopLevel) \<and>
          (ce_api after = ce_api before \<and> ce_kind after = ce_kind before \<or> ce_name before \<in> set (ch_broken ch) \<or>
           gain_recorded ch before after)
      | None \<Rightarrow> ce_kind before \<noteq> TopLevel \<and> ce_constants before = ''-'' \<and>
          (ce_kind before = HiddenClass \<or> ce_name before \<in> set (ch_broken ch)))"

definition new_recorded :: "class_entry list \<Rightarrow> class_entry \<Rightarrow> changes \<Rightarrow> bool" where
  "new_recorded old after ch \<longleftrightarrow> ce_name after \<in> ce_name ` set old \<or> ce_kind after = HiddenClass \<or>
     ce_kind after = NestedClass \<and> ce_name after \<in> set (ch_added ch) \<and> ch_wide ch"

lemma old_recorded_mono: "old_recorded new c a \<Longrightarrow> ch_le a b \<Longrightarrow> old_recorded new c b"
  using gain_recorded_mono unfolding old_recorded_def by (fastforce simp: ch_le_def split: option.splits)

lemma compare_old_records: "compare_old new before ch = Some ch' \<Longrightarrow> ch_le ch ch' \<and> old_recorded new before ch'"
  using gained_records [where ch = ch and before = before]
  by (auto simp: compare_old_def old_recorded_def break_class_def ch_le_def split: option.splits if_splits)

lemma compare_new_records: "compare_new old after ch = Some ch' \<Longrightarrow> ch_le ch ch' \<and> new_recorded old after ch'"
proof -
  assume c: "compare_new old after ch = Some ch'"
  have "list_ex (\<lambda>c. ce_name c = ce_name after) old \<longleftrightarrow> ce_name after \<in> ce_name ` set old" by (metis (mono_tags, lifting) image_iff list_ex_iff)
  with c show ?thesis
    by (cases "ce_kind after") (auto simp: compare_new_def new_recorded_def appeared_def ch_le_def split: if_splits)
qed

text \<open>
  A comparison that does not ask for the whole unit has recorded every class whose API moved:
  no class that is part of the meaning of a simple name came or went, no constant is another one; a
  class is as it was, is broken, or only gained members, all of whose names are recorded unless the change counts
  for everyone.
\<close>

theorem compare_complete:
  assumes "compare old new ch = Some ch'"
  shows "(\<forall>c \<in> set old. old_recorded new c ch') \<and> (\<forall>c \<in> set new. new_recorded old c ch') \<and> ch_le ch ch'"
proof -
  obtain ch1 where c: "fold_option (compare_old new) old ch = Some ch1" "fold_option (compare_new old) new ch1 = Some ch'"
    using assms by (auto simp: compare_def Option.bind_eq_Some_conv)
  have "ch_le ch ch1 \<and> (\<forall>c \<in> set old. old_recorded new c ch1)"
    by (rule fold_option_each [OF compare_old_records old_recorded_mono c(1)])
  moreover have "ch_le ch1 ch' \<and> (\<forall>c \<in> set new. new_recorded old c ch')"
    by (rule fold_option_each [OF compare_new_records _ c(2)]) (auto simp: new_recorded_def ch_le_def)
  ultimately show ?thesis using old_recorded_mono ch_le_trans by blast
qed

text \<open>A class that gained a method with a body: found by its name.\<close>

definition grown_class :: class_entry where
  "grown_class = \<lparr>ce_name = ''a/B'', ce_kind = TopLevel, ce_api = ''e1'', ce_constants = ''-'', ce_header = ''f1'',
     ce_members = [''f2'', ''f3.run'', ''f4.stop''], ce_supers = [''a/C'', ''a/D'']\<rparr>"

lemma compare_complete_witness:
  "old_recorded [grown_class] demo_class \<lparr>ch_added = [''a/B''], ch_broken = [], ch_methods = [''stop''], ch_wide = False\<rparr>"
proof -
  have "compare [demo_class] [grown_class] no_changes =
      Some \<lparr>ch_added = [''a/B''], ch_broken = [], ch_methods = [''stop''], ch_wide = False\<rparr>"
    by code_simp
  from compare_complete [OF this] show ?thesis by simp
qed

end
