(* ===== verification/Incremental.thy ===== *)
theory Incremental
  imports Changes
begin

text \<open>
  \<^verbatim>\<open>src/src/compile/incremental.rs\<close>, one compile of a unit that may go file by file: what is followed,
  how the classes in the output directory are tied to their sources again, and the rounds of \<^verbatim>\<open>javac\<close> a change
  takes. The compiler is an argument: a run over some sources leaves other class files and a later clock.
  SHA-256 and the file system's answers are arguments too. A directory is the list of its files by their path from
  it, with what they hold. Which JVM a run uses, the timings and what is printed are left out.
\<close>

section \<open>The unit\<close>

type_synonym directory = "(str \<times> str) list"

record unit_input =
  un_sources :: "str list"
  un_foreign :: bool
  un_args :: "str list"
  un_classpath :: "str list"
  un_output :: str
  un_tracked :: "directory list"

text \<open>\<^verbatim>\<open>Path::file_name\<close> and \<^verbatim>\<open>Path::ends_with\<close>\<close>

definition path_file_name :: "str \<Rightarrow> str option" where
  "path_file_name p =
     (let cs = components p in if cs = [] then None else case last cs of Normal f \<Rightarrow> Some f | _ \<Rightarrow> None)"

definition path_ends_with :: "str \<Rightarrow> str \<Rightarrow> bool" where
  "path_ends_with p q =
     (let cs = components p; ds = components q in length ds \<le> length cs \<and> drop (length cs - length ds) cs = ds)"

definition processors :: str where
  "processors = ''META-INF/services/javax.annotation.processing.Processor''"

definition ast_transformations :: str where
  "ast_transformations = ''META-INF/services/org.codehaus.groovy.transform.ASTTransformation''"

text \<open>\<open>registers\<close>: a jar or a directory on the classpath holds the service file of annotation processors.\<close>

definition allowed :: "(str \<Rightarrow> bool) \<Rightarrow> unit_input \<Rightarrow> bool" where
  "allowed registers u \<longleftrightarrow>
     \<not> un_foreign u \<and>
     \<not> list_ex (\<lambda>s. path_file_name s = Some ''module-info.java'') (un_sources u) \<and>
     \<not> list_ex (\<lambda>a. starts_with ''-processor'' a \<or> starts_with ''--processor'' a \<or> starts_with ''-Xplugin'' a \<or> a = ''-proc:only'') (un_args u) \<and>
     (''-proc:none'' \<in> set (un_args u) \<or> \<not> list_ex registers (un_classpath u @ [un_output u]))"

definition tracked_dirs :: "unit_input \<Rightarrow> directory list" where
  "tracked_dirs u =
     (if list_ex (\<lambda>d. processors \<in> fst ` set d \<or> ast_transformations \<in> fst ` set d) (un_tracked u) then [] else un_tracked u)"

definition is_class_file :: "str \<Rightarrow> bool" where
  "is_class_file p = (case path_file_name p of None \<Rightarrow> False
     | Some f \<Rightarrow> (case rsplit_once CHR ''.'' f of Some (stem, e) \<Rightarrow> stem \<noteq> [] \<and> e = ''class'' | None \<Rightarrow> False))"

definition top_level_digest :: "(str \<Rightarrow> str) \<Rightarrow> directory list \<Rightarrow> str" where
  "top_level_digest sha dirs =
     sha (concat (map (\<lambda>d. ''dir'' @ newline @
       concat (map (\<lambda>n. n @ newline) (sort (filter (\<lambda>n. CHR ''$'' \<notin> set n) (filter is_class_file (map fst d)))))) dirs))"

record current =
  cu_path :: str
  cu_size :: nat
  cu_modified :: nat
  cu_hash :: str

record tracker =
  tk_settings :: str
  tk_current :: "current list"
  tk_previous :: "index option"
  tk_tracked :: "directory list"
  tk_upstream :: str

text \<open>The last source an index holds for a path: the map is built in order.\<close>

definition known_source :: "index option \<Rightarrow> str \<Rightarrow> source_entry option" where
  "known_source previous p =
     (case previous of None \<Rightarrow> None | Some ix \<Rightarrow> map_of (rev (map (\<lambda>s. (se_path s, s)) (ix_sources ix))) p)"

definition current_source :: "(str \<Rightarrow> str) \<Rightarrow> (str \<Rightarrow> (nat \<times> nat) option) \<Rightarrow> (str \<Rightarrow> str) \<Rightarrow> index option \<Rightarrow> str \<Rightarrow> current" where
  "current_source sha stat content previous p =
     (let (size, modified) = (case stat p of Some sm \<Rightarrow> sm | None \<Rightarrow> (0, 0));
          hash = (case known_source previous p of
            Some s \<Rightarrow> if se_hash s \<noteq> [] \<and> (se_size s, se_modified s) = (size, modified) then se_hash s else sha (content p)
          | None \<Rightarrow> sha (content p))
      in \<lparr>cu_path = p, cu_size = size, cu_modified = modified, cu_hash = hash\<rparr>)"

text \<open>\<open>settings_with\<close> is the unit's settings as text, \<open>saved\<close> its index file, \<open>output_exists\<close> its output directory.\<close>

definition tracker_new ::
    "(str \<Rightarrow> str) \<Rightarrow> (str \<Rightarrow> bool) \<Rightarrow> (bool \<Rightarrow> str) \<Rightarrow> (str \<Rightarrow> (nat \<times> nat) option) \<Rightarrow> (str \<Rightarrow> str) \<Rightarrow> str option \<Rightarrow> bool \<Rightarrow> unit_input \<Rightarrow> tracker option" where
  "tracker_new sha registers settings_with stat content saved output_exists u =
     (if \<not> allowed registers u then None
      else
        let tracked = tracked_dirs u;
            settings = sha (settings_with (tracked = []));
            upstream = (if tracked = [] then ''-'' else top_level_digest sha tracked);
            previous = (case saved of None \<Rightarrow> None | Some t \<Rightarrow> (case index_parse t of None \<Rightarrow> None
              | Some ix \<Rightarrow> if ix_settings ix = settings \<and> (ix_upstream ix = ''-'') = (tracked = []) \<and> output_exists then Some ix else None))
        in Some \<lparr>tk_settings = settings, tk_current = map (current_source sha stat content previous) (un_sources u),
             tk_previous = previous, tk_tracked = tracked, tk_upstream = upstream\<rparr>)"

text \<open>\<^verbatim>\<open>Index::holds\<close>\<close>

definition holds :: "(str \<Rightarrow> str) \<Rightarrow> (str \<Rightarrow> (nat \<times> nat) option) \<Rightarrow> (str \<Rightarrow> str option) \<Rightarrow> index \<Rightarrow> str list \<Rightarrow> bool" where
  "holds sha stat content ix srcs \<longleftrightarrow>
     length (ix_sources ix) = length srcs \<and>
     list_all (\<lambda>p. case known_source (Some ix) p of
         None \<Rightarrow> False
       | Some s \<Rightarrow> se_hash s \<noteq> [] \<and>
           (stat p = Some (se_size s, se_modified s) \<or> (case content p of None \<Rightarrow> False | Some b \<Rightarrow> sha b = se_hash s))) srcs"

text \<open>\<^verbatim>\<open>known_hashes\<close>: the digests of the sources that are as the index has them; a later source of a path counts.\<close>

definition known_hashes :: "(str \<Rightarrow> (nat \<times> nat) option) \<Rightarrow> str option \<Rightarrow> (str \<times> str) list" where
  "known_hashes stat saved =
     (case saved of None \<Rightarrow> []
      | Some t \<Rightarrow> (case index_parse t of None \<Rightarrow> []
        | Some ix \<Rightarrow> fold (\<lambda>s. hm_put (se_path s) (se_hash s))
            (filter (\<lambda>s. se_hash s \<noteq> [] \<and> stat (se_path s) = Some (se_size s, se_modified s)) (ix_sources ix)) []))"

section \<open>Classes and their sources\<close>

text \<open>A class file in the output directory: its path from there, what it holds and when it was written, in nanoseconds.\<close>

type_synonym out_dir = "(str \<times> str \<times> nat) list"

definition written_before :: "nat \<Rightarrow> nat \<Rightarrow> bool" where
  "written_before modified time =
     (let slack = (if modified mod 10 ^ 9 = 0 then 2 * 10 ^ 9 else 100 * 10 ^ 6) in modified + slack < time)"

definition read_class :: "out_dir \<Rightarrow> str \<Rightarrow> str option" where
  "read_class out name = (case class_path name of None \<Rightarrow> None | Some p \<Rightarrow> map_option fst (map_of out p))"

fun first_some :: "('a \<Rightarrow> 'b option) \<Rightarrow> 'a list \<Rightarrow> 'b option" where
  "first_some f [] = None"
| "first_some f (x # xs) = (case f x of Some y \<Rightarrow> Some y | None \<Rightarrow> first_some f xs)"

definition find_tracked :: "directory list \<Rightarrow> str \<Rightarrow> str option" where
  "find_tracked dirs name = (case class_path name of None \<Rightarrow> None | Some p \<Rightarrow> first_some (\<lambda>d. map_of d p) dirs)"

definition owner :: "current list \<Rightarrow> class_info \<Rightarrow> nat option" where
  "owner cs info =
     (case in_source_file info of
        None \<Rightarrow> None
      | Some source_file \<Rightarrow>
          let candidates = filter (\<lambda>i. path_file_name (cu_path (cs ! i)) = Some source_file) [0..<length cs] in
          (case candidates of
             [one] \<Rightarrow> Some one
           | _ \<Rightarrow>
             let package = (case rsplit_once CHR ''/'' (in_name info) of Some (p, _) \<Rightarrow> p | None \<Rightarrow> []);
                 expected = path_join package source_file
             in (case filter (\<lambda>i. path_ends_with (cu_path (cs ! i)) expected) candidates of [one] \<Rightarrow> Some one | _ \<Rightarrow> None)))"

datatype dir_entry = Kept nat class_entry | ReadFile str str

text \<open>\<open>kept\<close>: an index, the sources just compiled and the time their run started.\<close>

type_synonym kept = "(index \<times> nat list \<times> nat) option"

definition reusable :: "tracker \<Rightarrow> kept \<Rightarrow> (str \<times> nat \<times> class_entry) list" where
  "reusable tk k =
     (case k of
        None \<Rightarrow> []
      | Some (base, round, _) \<Rightarrow>
          if length (ix_sources base) \<noteq> length (tk_current tk) then []
          else rev (concat (map (\<lambda>(i, s). if i \<in> set round then []
            else List.map_filter (\<lambda>c. map_option (\<lambda>p. (p, i, c)) (class_path (ce_name c))) (se_classes s)) (enumerate 0 (ix_sources base)))))"

definition entries :: "tracker \<Rightarrow> out_dir \<Rightarrow> kept \<Rightarrow> dir_entry list" where
  "entries tk out k =
     map (\<lambda>(file, bytes, modified).
       case map_of (reusable tk k) file of
         Some (i, c) \<Rightarrow> (case k of Some (_, _, time) \<Rightarrow> if written_before modified time then Kept i c else ReadFile file bytes | None \<Rightarrow> ReadFile file bytes)
       | None \<Rightarrow> ReadFile file bytes) out"

record gathered =
  ga_classes :: "class_entry list list"
  ga_refs :: "str list list"
  ga_names :: "str list"
  ga_referring :: "nat list"

abbreviation at_index :: "nat \<Rightarrow> ('a \<Rightarrow> 'a) \<Rightarrow> 'a list \<Rightarrow> 'a list" where
  "at_index i f xs \<equiv> xs[i := f (xs ! i)]"

definition gather :: "(str \<Rightarrow> str) \<Rightarrow> tracker \<Rightarrow> kept \<Rightarrow> dir_entry \<Rightarrow> gathered \<Rightarrow> gathered option" where
  "gather sha tk k e g =
     (case e of
        Kept i c \<Rightarrow>
          let g' = g\<lparr>ga_names := ce_name c # ga_names g, ga_classes := at_index i (\<lambda>cs. cs @ [c]) (ga_classes g)\<rparr> in
          Some (case k of
            Some (base, _, _) \<Rightarrow>
              if i \<in> set (ga_referring g) then g'
              else let source = ix_sources base ! i in
                g'\<lparr>ga_referring := i # ga_referring g, ga_refs := at_index i (bt_extend (se_deps source @ se_ext source)) (ga_refs g)\<rparr>
          | None \<Rightarrow> g')
      | ReadFile file bytes \<Rightarrow>
          (case class_info_of sha bytes of
             None \<Rightarrow> None
           | Some info \<Rightarrow>
               if class_path (in_name info) \<noteq> Some file then None
               else (case owner (tk_current tk) info of
                  None \<Rightarrow> None
                | Some i \<Rightarrow> Some (g\<lparr>ga_names := in_name info # ga_names g,
                    ga_classes := at_index i (\<lambda>cs. cs @ [class_new info]) (ga_classes g),
                    ga_refs := at_index i (bt_extend (in_refs info)) (ga_refs g)\<rparr>))))"

section \<open>The tracked classes that are referred to\<close>

definition tracked_supers :: "(str \<Rightarrow> str) \<Rightarrow> directory list \<Rightarrow> str set" where
  "tracked_supers sha dirs = (\<Union>d \<in> set dirs. \<Union>(p, bytes) \<in> set d. case class_info_of sha bytes of None \<Rightarrow> {} | Some info \<Rightarrow> set (in_supers info))"

lemma find_tracked_file: "find_tracked dirs name = Some bytes \<Longrightarrow> \<exists>d \<in> set dirs. \<exists>p. (p, bytes) \<in> set d"
proof -
  have "first_some f xs = Some y \<Longrightarrow> \<exists>x \<in> set xs. f x = Some y" for f and xs :: "directory list" and y :: str
    by (induction xs) (auto split: option.splits)
  then show "find_tracked dirs name = Some bytes \<Longrightarrow> \<exists>d \<in> set dirs. \<exists>p. (p, bytes) \<in> set d"
    unfolding find_tracked_def by (fastforce split: option.splits dest: map_of_SomeD)
qed

lemma tracked_supers_info:
  "find_tracked dirs name = Some bytes \<Longrightarrow> class_info_of sha bytes = Some info \<Longrightarrow> set (in_supers info) \<subseteq> tracked_supers sha dirs"
  using find_tracked_file [of dirs name bytes] unfolding tracked_supers_def by fastforce

lemma finite_tracked_supers: "finite (tracked_supers sha dirs)"
  unfolding tracked_supers_def by (auto split: option.splits)

function seen_loop :: "(str \<Rightarrow> str) \<Rightarrow> directory list \<Rightarrow> str list \<Rightarrow> str list \<Rightarrow> (str \<times> class_entry) list \<Rightarrow> (str \<times> class_entry) list option" where
  "seen_loop sha dirs visited [] found = Some found"
| "seen_loop sha dirs visited (name # queue) found =
     (if name \<in> set visited then seen_loop sha dirs visited queue found
      else case find_tracked dirs name of
        None \<Rightarrow> seen_loop sha dirs (name # visited) queue found
      | Some bytes \<Rightarrow>
          (case class_info_of sha bytes of
             None \<Rightarrow> None
           | Some info \<Rightarrow> seen_loop sha dirs (name # visited) (rev (in_supers info) @ queue) (bt_put name (class_new info) found)))"
  by pat_completeness auto
termination
proof (relation "measures [\<lambda>(sha, dirs, visited, queue, found). card (tracked_supers sha dirs \<union> set queue - set visited),
    \<lambda>(sha, dirs, visited, queue, found). length queue]")
  fix sha dirs visited and name :: str and queue found
  { assume "name \<in> set visited"
    have "card (tracked_supers sha dirs \<union> set queue - set visited) \<le> card (tracked_supers sha dirs \<union> set (name # queue) - set visited)"
      by (rule card_mono) (auto simp: finite_tracked_supers)
    then show "((sha, dirs, visited, queue, found), sha, dirs, visited, name # queue, found) \<in> measures
        [\<lambda>(sha, dirs, visited, queue, found). card (tracked_supers sha dirs \<union> set queue - set visited),
         \<lambda>(sha, dirs, visited, queue, found). length queue]" by auto }
  assume new: "name \<notin> set visited"
  have less: "card (tracked_supers sha dirs \<union> set queue' - set (name # visited)) < card (tracked_supers sha dirs \<union> set (name # queue) - set visited)"
    if "set queue' \<subseteq> tracked_supers sha dirs \<union> set queue" for queue'
    by (rule psubset_card_mono) (use that new in \<open>auto simp: finite_tracked_supers\<close>)
  { from less [of queue] show "((sha, dirs, name # visited, queue, found), sha, dirs, visited, name # queue, found) \<in> measures
        [\<lambda>(sha, dirs, visited, queue, found). card (tracked_supers sha dirs \<union> set queue - set visited),
         \<lambda>(sha, dirs, visited, queue, found). length queue]" by simp }
  { fix bytes info
    assume "find_tracked dirs name = Some bytes" "class_info_of sha bytes = Some info"
    from tracked_supers_info [OF this]
    have "set (rev (in_supers info) @ queue) \<subseteq> tracked_supers sha dirs \<union> set queue" by auto
    from less [OF this] show "((sha, dirs, name # visited, rev (in_supers info) @ queue, bt_put name (class_new info) found),
        sha, dirs, visited, name # queue, found) \<in> measures
        [\<lambda>(sha, dirs, visited, queue, found). card (tracked_supers sha dirs \<union> set queue - set visited),
         \<lambda>(sha, dirs, visited, queue, found). length queue]" by simp }
qed simp

definition seen_classes :: "(str \<Rightarrow> str) \<Rightarrow> tracker \<Rightarrow> str list list \<Rightarrow> str list \<Rightarrow> (str \<times> class_entry) list option" where
  "seen_classes sha tk refs unit_classes =
     (if tk_tracked tk = [] then Some []
      else seen_loop sha (tk_tracked tk) [] (rev (filter (\<lambda>r. r \<notin> set unit_classes) (concat refs))) [])"

section \<open>The index of what is there\<close>

definition source_recorded :: "str list \<Rightarrow> (str \<times> class_entry) list \<Rightarrow> current \<Rightarrow> class_entry list \<Rightarrow> str list \<Rightarrow> source_entry" where
  "source_recorded unit_classes seen now classes refs =
     (let own = map ce_name classes in
      \<lparr>se_path = cu_path now, se_size = cu_size now, se_modified = cu_modified now, se_hash = cu_hash now, se_classes = classes,
       se_deps = filter (\<lambda>r. r \<in> set unit_classes \<and> r \<notin> set own) refs,
       se_ext = filter (\<lambda>r. r \<in> fst ` set seen) refs\<rparr>)"

definition record_over :: "(str \<Rightarrow> str) \<Rightarrow> tracker \<Rightarrow> out_dir \<Rightarrow> kept \<Rightarrow> index option" where
  "record_over sha tk out k =
     (let n = length (tk_current tk);
          start = \<lparr>ga_classes = replicate n [], ga_refs = replicate n [], ga_names = [], ga_referring = []\<rparr>
      in do {
        g \<leftarrow> fold_option (gather sha tk k) (entries tk out k) start;
        seen \<leftarrow> seen_classes sha tk (ga_refs g) (ga_names g);
        Some \<lparr>ix_settings = tk_settings tk, ix_upstream = tk_upstream tk,
          ix_sources = map (\<lambda>(now, classes, refs). source_recorded (ga_names g) seen now classes refs)
            (zip (tk_current tk) (zip (ga_classes g) (ga_refs g))),
          ix_seen = map snd seen\<rparr> })"

definition upstream_step :: "(str \<Rightarrow> str) \<Rightarrow> directory list \<Rightarrow> class_entry \<Rightarrow> changes \<times> class_entry list \<Rightarrow> (changes \<times> class_entry list) option" where
  "upstream_step sha dirs before = (\<lambda>(ch, now).
     (case find_tracked dirs (ce_name before) of
        None \<Rightarrow> Some (break_class (ce_name before) ch, now)
      | Some bytes \<Rightarrow>
          (case class_info_of sha bytes of
             None \<Rightarrow> None
           | Some info \<Rightarrow>
               let after = class_new info in
               if ce_constants after \<noteq> ce_constants before then None
               else Some
                 (if ce_api after \<noteq> ce_api before \<or> ce_kind after \<noteq> ce_kind before
                  then (if only_adds_to after before then gained before after ch else break_class (ce_name before) ch)
                  else ch, now @ [after]))))"

text \<open>A change goes on to what inherits it.\<close>

definition inherit_changes :: "class_entry list \<Rightarrow> changes \<Rightarrow> changes" where
  "inherit_changes classes ch =
     ch\<lparr>ch_added := bt_extend (inheriting classes (ch_added ch)) (ch_added ch),
        ch_broken := bt_extend (inheriting classes (ch_broken ch)) (ch_broken ch)\<rparr>"

definition upstream_changes :: "(str \<Rightarrow> str) \<Rightarrow> tracker \<Rightarrow> index \<Rightarrow> changes option" where
  "upstream_changes sha tk previous =
     (if tk_tracked tk = [] then Some no_changes
      else do {
        (ch, now) \<leftarrow> fold_option (upstream_step sha (tk_tracked tk)) (ix_seen previous) (no_changes, []);
        Some (inherit_changes now ch) })"

section \<open>One recompile\<close>

record build =
  bd_out :: out_dir
  bd_index :: "str option"
  bd_fingerprint :: bool
  bd_clock :: nat

text \<open>
  What a step of a recompile comes to: \<open>Failed\<close> is the compiler's error, \<open>Whole\<close> is \<^verbatim>\<open>Ok(None)\<close>, which
  asks for the whole unit.
\<close>

datatype 'a outcome = Failed | Whole | Finished 'a

type_synonym javac = "str list \<Rightarrow> out_dir \<Rightarrow> nat \<Rightarrow> bool \<times> out_dir \<times> nat"

definition save_index :: "index \<Rightarrow> build \<Rightarrow> build" where
  "save_index ix b = b\<lparr>bd_index := Some (index_render ix)\<rparr>"

definition source_paths :: "tracker \<Rightarrow> nat list \<Rightarrow> str list" where
  "source_paths tk srcs = map (\<lambda>i. cu_path (tk_current tk ! i)) srcs"

definition unhash :: "nat list \<Rightarrow> index \<Rightarrow> index" where
  "unhash compiled ix = ix\<lparr>ix_sources := fold (\<lambda>i. at_index i (\<lambda>s. s\<lparr>se_hash := []\<rparr>)) compiled (ix_sources ix)\<rparr>"

definition run_javac :: "javac \<Rightarrow> tracker \<Rightarrow> index \<Rightarrow> nat list \<Rightarrow> nat list \<Rightarrow> build \<Rightarrow> nat outcome \<times> build" where
  "run_javac javac tk previous srcs compiled b =
     (let since = bd_clock b;
          (ok, out, clock) = javac (source_paths tk srcs) (bd_out b) (bd_clock b);
          b' = b\<lparr>bd_out := out, bd_clock := clock\<rparr>
      in if ok then (Finished since, b')
         else (Failed, (save_index (unhash compiled previous) b')\<lparr>bd_fingerprint := False\<rparr>))"

definition sweep :: "index \<Rightarrow> nat list \<Rightarrow> build \<Rightarrow> build" where
  "sweep ix dirty b =
     (let keep = concat (map (\<lambda>(i, s). if i \<in> set dirty then [] else List.map_filter (\<lambda>c. class_path (ce_name c)) (se_classes s))
        (enumerate 0 (ix_sources ix)))
      in b\<lparr>bd_out := filter (\<lambda>(file, _). file \<in> set keep) (bd_out b)\<rparr>)"

definition remove_classes :: "index \<Rightarrow> nat list \<Rightarrow> build \<Rightarrow> build" where
  "remove_classes ix srcs b =
     (let gone = concat (map (\<lambda>i. List.map_filter (\<lambda>c. class_path (ce_name c)) (se_classes (ix_sources ix ! i))) srcs)
      in b\<lparr>bd_out := filter (\<lambda>(file, _). file \<notin> set gone) (bd_out b)\<rparr>)"

text \<open>A \<^verbatim>\<open>javac\<close> run over \<open>round\<close> and the index after it, over \<open>base\<close>.\<close>

definition compile_round :: "(str \<Rightarrow> str) \<Rightarrow> javac \<Rightarrow> tracker \<Rightarrow> index \<Rightarrow> index \<Rightarrow> nat list \<Rightarrow> nat list \<Rightarrow> build \<Rightarrow> index outcome \<times> build" where
  "compile_round sha javac tk previous base round compiled b =
     (case run_javac javac tk previous round compiled b of
        (Failed, b') \<Rightarrow> (Failed, b')
      | (Whole, b') \<Rightarrow> (Whole, b')
      | (Finished since, b') \<Rightarrow>
          (case record_over sha tk (bd_out b') (Some (base, round, since)) of None \<Rightarrow> (Whole, b') | Some ix \<Rightarrow> (Finished ix, b')))"

definition compare_round :: "index \<Rightarrow> index \<Rightarrow> nat list \<Rightarrow> changes option" where
  "compare_round old new round =
     fold_option (\<lambda>i. compare (se_classes (ix_sources old ! i)) (se_classes (ix_sources new ! i))) round no_changes"

definition ROUNDS :: nat where "ROUNDS = 4"

text \<open>Whatever a change that breaks reaches, and what an addition does: not the sources compiled along with it.\<close>

definition rest_of :: "index \<Rightarrow> changes \<Rightarrow> nat list \<Rightarrow> nat list" where
  "rest_of after ch just = dependents after (subtypes after (ch_all ch)) just"

definition next_of :: "out_dir \<Rightarrow> index \<Rightarrow> changes \<Rightarrow> nat list \<Rightarrow> nat list" where
  "next_of out after ch just =
     (let reached = subtypes after (ch_added ch);
          users = filter (\<lambda>i. i \<notin> set just) (direct_users after reached)
      in users_of_addition (read_class out) after users reached ch)"

text \<open>The rounds after the first: what is there now, what changed in the last round, which sources it compiled.\<close>

function follow :: "(str \<Rightarrow> str) \<Rightarrow> javac \<Rightarrow> tracker \<Rightarrow> index \<Rightarrow> nat \<Rightarrow> index \<Rightarrow> changes \<Rightarrow> nat list \<Rightarrow> nat list \<Rightarrow> build \<Rightarrow>
    (index \<times> nat list) outcome \<times> build" where
  "follow sha javac tk previous rounds after ch round compiled b =
     (if ch_is_empty ch then (Finished (after, compiled), b)
      else if ch_broken ch \<noteq> [] \<or> ROUNDS \<le> rounds then
        let rest = rest_of after ch round in
        if rest = [] then (Finished (after, compiled), b)
        else (case compile_round sha javac tk previous after rest (bt_extend rest compiled) (remove_classes after rest b) of
            (Failed, b') \<Rightarrow> (Failed, b')
          | (Whole, b') \<Rightarrow> (Whole, b')
          | (Finished next, b') \<Rightarrow> (Finished (next, bt_extend rest compiled), b'))
      else
        let next = next_of (bd_out b) after ch round in
        if next = [] then (Finished (after, compiled), b)
        else (case compile_round sha javac tk previous after next (bt_extend next compiled) (remove_classes after next b) of
            (Failed, b') \<Rightarrow> (Failed, b')
          | (Whole, b') \<Rightarrow> (Whole, b')
          | (Finished recorded, b') \<Rightarrow>
              (case compare_round after recorded next of
                 None \<Rightarrow> (Whole, b')
               | Some ch' \<Rightarrow> follow sha javac tk previous (Suc rounds) recorded ch' next (bt_extend next compiled) b')))"
  by pat_completeness auto
termination
  by (relation "measure (\<lambda>(sha, javac, tk, previous, rounds, after, ch, round, compiled, b). ROUNDS - rounds)") auto

declare follow.simps [simp del]

text \<open>The first round, and what a class here inherits from a changed tracked one.\<close>

definition with_upstream_changes :: "index \<Rightarrow> changes \<Rightarrow> changes \<Rightarrow> changes" where
  "with_upstream_changes after upstream ch =
     (let added = inheriting (index_classes after) (ch_added upstream);
          broken = inheriting (index_classes after) (ch_broken upstream);
          ch = (if added \<noteq> [] then ch\<lparr>ch_methods := bt_extend (ch_methods upstream) (ch_methods ch),
                ch_wide := ch_wide ch \<or> ch_wide upstream\<rparr> else ch)
      in ch\<lparr>ch_added := bt_extend added (ch_added ch), ch_broken := bt_extend broken (ch_broken ch)\<rparr>)"

definition compile_changed :: "(str \<Rightarrow> str) \<Rightarrow> javac \<Rightarrow> tracker \<Rightarrow> index \<Rightarrow> changes \<Rightarrow> nat list \<Rightarrow> build \<Rightarrow> nat list outcome \<times> build" where
  "compile_changed sha javac tk previous upstream first b =
     (case compile_round sha javac tk previous previous first first (sweep previous first b) of
        (Failed, b') \<Rightarrow> (Failed, b')
      | (Whole, b') \<Rightarrow> (Whole, b')
      | (Finished after, b') \<Rightarrow>
          (case compare_round previous after first of
             None \<Rightarrow> (Whole, b')
           | Some ch \<Rightarrow>
               (case follow sha javac tk previous 1 after (with_upstream_changes after upstream ch) first first b' of
                  (Failed, b'') \<Rightarrow> (Failed, b'')
                | (Whole, b'') \<Rightarrow> (Whole, b'')
                | (Finished (final, compiled), b'') \<Rightarrow> (Finished compiled, save_index final b''))))"

definition touched :: "tracker \<Rightarrow> index \<Rightarrow> index" where
  "touched tk ix = ix\<lparr>ix_sources := map (\<lambda>(s, now). s\<lparr>se_size := cu_size now, se_modified := cu_modified now\<rparr>)
     (zip (ix_sources ix) (tk_current tk))\<rparr>"

definition changed_sources :: "tracker \<Rightarrow> index \<Rightarrow> nat list" where
  "changed_sources tk previous =
     filter (\<lambda>i. se_hash (ix_sources previous ! i) \<noteq> cu_hash (tk_current tk ! i)) [0..<length (tk_current tk)]"

text \<open>The sources that were compiled, of which the code reports the number.\<close>

definition recompile :: "(str \<Rightarrow> str) \<Rightarrow> javac \<Rightarrow> tracker \<Rightarrow> build \<Rightarrow> nat list outcome \<times> build" where
  "recompile sha javac tk b =
     (case tk_previous tk of
        None \<Rightarrow> (Whole, b)
      | Some previous \<Rightarrow>
          if length (ix_sources previous) \<noteq> length (tk_current tk) \<or>
             list_ex (\<lambda>(p, c). \<not> path_eq (se_path p) (cu_path c)) (zip (ix_sources previous) (tk_current tk)) \<or>
             ix_upstream previous \<noteq> tk_upstream tk then (Whole, b)
          else (case upstream_changes sha tk previous of
             None \<Rightarrow> (Whole, b)
           | Some upstream \<Rightarrow>
               if changed_sources tk previous = [] \<and> ch_is_empty upstream then (Finished [], save_index (touched tk previous) b)
               else
                 let first = bt_extend (reached_from_upstream (read_class (bd_out b)) previous upstream) (changed_sources tk previous) in
                 if first = [] then
                   (case record_over sha tk (bd_out b) (Some (previous, [], bd_clock b)) of
                      None \<Rightarrow> (Whole, b)
                    | Some after \<Rightarrow> (Finished [], save_index after b))
                 else compile_changed sha javac tk previous upstream first b))"

text \<open>After a whole compile: \<^verbatim>\<open>record_all\<close>.\<close>

definition record_all :: "(str \<Rightarrow> str) \<Rightarrow> tracker \<Rightarrow> build \<Rightarrow> build" where
  "record_all sha tk b =
     (case record_over sha tk (bd_out b) None of Some ix \<Rightarrow> save_index ix b | None \<Rightarrow> b\<lparr>bd_index := None\<rparr>)"

section \<open>A failed build\<close>

lemma at_index_nth: "i < length xs \<Longrightarrow> (at_index a f xs) ! i = (if a = i then f (xs ! i) else xs ! i)"
  by (cases "a < length xs") (auto simp: nth_list_update)

lemma unhash_source:
  "length (ix_sources (unhash compiled ix)) = length (ix_sources ix)"
  "i < length (ix_sources ix) \<Longrightarrow> ix_sources (unhash compiled ix) ! i =
    (if i \<in> set compiled then (ix_sources ix ! i)\<lparr>se_hash := []\<rparr> else ix_sources ix ! i)"
proof -
  have f: "length (fold (\<lambda>i. at_index i (\<lambda>s. s\<lparr>se_hash := []\<rparr>)) js xs) = length xs \<and>
      (i < length xs \<longrightarrow> fold (\<lambda>i. at_index i (\<lambda>s. s\<lparr>se_hash := []\<rparr>)) js xs ! i =
        (if i \<in> set js then (xs ! i)\<lparr>se_hash := []\<rparr> else xs ! i))" for js and xs :: "source_entry list"
    by (induction js arbitrary: xs) (auto simp: at_index_nth)
  show "length (ix_sources (unhash compiled ix)) = length (ix_sources ix)"
    "i < length (ix_sources ix) \<Longrightarrow> ix_sources (unhash compiled ix) ! i =
      (if i \<in> set compiled then (ix_sources ix ! i)\<lparr>se_hash := []\<rparr> else ix_sources ix ! i)"
    using f [of compiled "ix_sources ix"] by (simp_all add: unhash_def)
qed

text \<open>What a failed step leaves behind, for the sources compiled so far.\<close>

definition marked_failed :: "index \<Rightarrow> nat list \<Rightarrow> build \<Rightarrow> bool" where
  "marked_failed previous compiled b \<longleftrightarrow>
     (\<exists>all. set compiled \<subseteq> set all \<and> bd_index b = Some (index_render (unhash all previous)) \<and> \<not> bd_fingerprint b)"

lemma marked_failed_mono: "marked_failed previous all b \<Longrightarrow> set compiled \<subseteq> set all \<Longrightarrow> marked_failed previous compiled b"
  unfolding marked_failed_def by blast

lemma compile_round_failed:
  "compile_round sha javac tk previous base round compiled b = (Failed, b') \<Longrightarrow> marked_failed previous compiled b'"
  by (auto simp: compile_round_def run_javac_def Let_def save_index_def marked_failed_def split: outcome.splits prod.splits option.splits if_splits)

text \<open>One turn of the loop of rounds.\<close>

lemma follow_cases:
  assumes "follow sha javac tk previous rounds after ch round compiled b = (r, b')"
  obtains (settled) "r = Finished (after, compiled)" "b' = b" "ch_broken ch = [] \<Longrightarrow> ch_added ch \<noteq> [] \<Longrightarrow> rounds < ROUNDS \<Longrightarrow> next_of (bd_out b) after ch round = []"
      "ch_broken ch \<noteq> [] \<or> ch_added ch \<noteq> [] \<and> ROUNDS \<le> rounds \<Longrightarrow> rest_of after ch round = []"
    | (widest) res where "ch_broken ch \<noteq> [] \<or> ROUNDS \<le> rounds" "rest_of after ch round \<noteq> []"
      "compile_round sha javac tk previous after (rest_of after ch round) (bt_extend (rest_of after ch round) compiled)
        (remove_classes after (rest_of after ch round) b) = (res, b')"
      "r = (case res of Failed \<Rightarrow> Failed | Whole \<Rightarrow> Whole | Finished next \<Rightarrow> Finished (next, bt_extend (rest_of after ch round) compiled))"
    | (ended) res where "ch_broken ch = []" "rounds < ROUNDS" "next_of (bd_out b) after ch round \<noteq> []"
      "compile_round sha javac tk previous after (next_of (bd_out b) after ch round) (bt_extend (next_of (bd_out b) after ch round) compiled)
        (remove_classes after (next_of (bd_out b) after ch round) b) = (res, b')" "r = Whole \<or> r = Failed \<and> res = Failed"
    | (turn) recorded b1 ch' where "ch_broken ch = []" "rounds < ROUNDS" "next_of (bd_out b) after ch round \<noteq> []"
      "compile_round sha javac tk previous after (next_of (bd_out b) after ch round) (bt_extend (next_of (bd_out b) after ch round) compiled)
        (remove_classes after (next_of (bd_out b) after ch round) b) = (Finished recorded, b1)"
      "compare_round after recorded (next_of (bd_out b) after ch round) = Some ch'"
      "follow sha javac tk previous (Suc rounds) recorded ch' (next_of (bd_out b) after ch round)
        (bt_extend (next_of (bd_out b) after ch round) compiled) b1 = (r, b')"
proof -
  let ?rest = "rest_of after ch round"
  let ?next = "next_of (bd_out b) after ch round"
  note f = assms [unfolded follow.simps [of sha javac tk previous rounds] Let_def]
  consider "ch_is_empty ch" | "\<not> ch_is_empty ch" "ch_broken ch \<noteq> [] \<or> ROUNDS \<le> rounds" "?rest = []"
    | "\<not> ch_is_empty ch" "ch_broken ch \<noteq> [] \<or> ROUNDS \<le> rounds" "?rest \<noteq> []"
    | "\<not> ch_is_empty ch" "\<not> (ch_broken ch \<noteq> [] \<or> ROUNDS \<le> rounds)" "?next = []"
    | "\<not> ch_is_empty ch" "\<not> (ch_broken ch \<noteq> [] \<or> ROUNDS \<le> rounds)" "?next \<noteq> []" by blast
  then show thesis
  proof cases
    case 1
    with f settled show thesis by (simp add: ch_is_empty_def)
  next
    case 2
    with f settled show thesis by auto
  next
    case 3
    obtain res b1 where c: "compile_round sha javac tk previous after ?rest (bt_extend ?rest compiled) (remove_classes after ?rest b) = (res, b1)"
      by fastforce
    with f 3 have "b1 = b'" "r = (case res of Failed \<Rightarrow> Failed | Whole \<Rightarrow> Whole | Finished next \<Rightarrow> Finished (next, bt_extend ?rest compiled))"
      by (cases res; simp)+
    with widest [OF 3(2,3)] c show thesis by simp
  next
    case 4
    with f settled show thesis by auto
  next
    case 5
    obtain res b1 where c: "compile_round sha javac tk previous after ?next (bt_extend ?next compiled) (remove_classes after ?next b) = (res, b1)"
      by fastforce
    note n = 5(2) 5(3)
    show thesis
    proof (cases res)
      case (Finished recorded)
      show thesis
      proof (cases "compare_round after recorded ?next")
        case None
        with f 5 c Finished have "r = Whole" "b1 = b'" by simp_all
        with ended [of res] n c show thesis by simp
      next
        case (Some ch')
        with f 5 c Finished have "follow sha javac tk previous (Suc rounds) recorded ch' ?next (bt_extend ?next compiled) b1 = (r, b')" by simp
        with turn [of recorded b1 ch'] n c Finished Some show thesis by simp
      qed
    next
      case Failed
      with f 5 c have "r = Failed" "b1 = b'" by simp_all
      with ended [of res] n c Failed show thesis by simp
    next
      case Whole
      with f 5 c have "r = Whole" "b1 = b'" by simp_all
      with ended [of res] n c show thesis by simp
    qed
  qed
qed

lemma follow_failed:
  "follow sha javac tk previous rounds after ch round compiled b = (Failed, b') \<Longrightarrow> marked_failed previous compiled b'"
proof (induction "ROUNDS - rounds" arbitrary: rounds after ch round compiled b rule: less_induct)
  case less
  from less.prems show ?case
  proof (cases rule: follow_cases)
    case (widest res)
    then have "res = Failed" by (cases res) auto
    with widest(3) have "marked_failed previous (bt_extend (rest_of after ch round) compiled) b'" using compile_round_failed by blast
    then show ?thesis by (rule marked_failed_mono) simp
  next
    case (ended res)
    then have "marked_failed previous (bt_extend (next_of (bd_out b) after ch round) compiled) b'" using compile_round_failed by blast
    then show ?thesis by (rule marked_failed_mono) simp
  next
    case (turn recorded b1 ch')
    then have "ROUNDS - Suc rounds < ROUNDS - rounds" by simp
    from less.hyps [OF this turn(6)] show ?thesis by (rule marked_failed_mono) simp
  qed simp
qed

text \<open>The ways out of a recompile.\<close>

lemma recompile_cases:
  assumes "recompile sha javac tk b = (r, b')"
  obtains (refused) "r = Whole" "b' = b"
    | (same) previous upstream where "tk_previous tk = Some previous" "upstream_changes sha tk previous = Some upstream"
      "changed_sources tk previous = []" "ch_is_empty upstream" "r = Finished []" "b' = save_index (touched tk previous) b"
    | (unused) previous upstream after where "tk_previous tk = Some previous" "upstream_changes sha tk previous = Some upstream"
      "changed_sources tk previous = []" "reached_from_upstream (read_class (bd_out b)) previous upstream = []"
      "record_over sha tk (bd_out b) (Some (previous, [], bd_clock b)) = Some after" "r = Finished []" "b' = save_index after b"
    | (compiled) previous upstream first where "tk_previous tk = Some previous" "upstream_changes sha tk previous = Some upstream"
      "set first = set (reached_from_upstream (read_class (bd_out b)) previous upstream) \<union> set (changed_sources tk previous)"
      "compile_changed sha javac tk previous upstream first b = (r, b')"
proof (cases "tk_previous tk")
  case None
  with assms refused show thesis by (simp add: recompile_def)
next
  case (Some previous)
  note f = assms [unfolded recompile_def Some option.case Let_def]
  show thesis
  proof (cases "length (ix_sources previous) \<noteq> length (tk_current tk) \<or>
      list_ex (\<lambda>(p, c). \<not> path_eq (se_path p) (cu_path c)) (zip (ix_sources previous) (tk_current tk)) \<or>
      ix_upstream previous \<noteq> tk_upstream tk")
    case True
    then have "r = Whole" "b' = b" using f by (simp_all only: if_True prod.inject simp_thms)
    then show thesis by (rule refused)
  next
    case False
    note f = f [unfolded if_not_P [OF False]]
    show thesis
    proof (cases "upstream_changes sha tk previous")
      case None
      with f refused show thesis by simp
    next
      case up: (Some upstream)
      let ?first = "bt_extend (reached_from_upstream (read_class (bd_out b)) previous upstream) (changed_sources tk previous)"
      note f = f [unfolded up option.case]
      consider "changed_sources tk previous = [] \<and> ch_is_empty upstream"
        | "\<not> (changed_sources tk previous = [] \<and> ch_is_empty upstream)" "?first = []"
        | "\<not> (changed_sources tk previous = [] \<and> ch_is_empty upstream)" "?first \<noteq> []" by blast
      then show thesis
      proof cases
        case 1
        with f same [OF Some up] show thesis by simp
      next
        case 2
        then have "set ?first = {}" by (simp only: list.set(1))
        then have "changed_sources tk previous = []" "reached_from_upstream (read_class (bd_out b)) previous upstream = []" by simp_all
        with f 2 refused unused [OF Some up] show thesis
          by (cases "record_over sha tk (bd_out b) (Some (previous, [], bd_clock b))") simp_all
      next
        case 3
        then have "compile_changed sha javac tk previous upstream ?first b = (r, b')" using f by (simp only: if_False)
        from compiled [OF Some up _ this] show thesis by simp
      qed
    qed
  qed
qed


section \<open>What is compiled\<close>

lemma follow_compiled:
  "follow sha javac tk previous rounds after ch round compiled b = (Finished (final, all), b') \<Longrightarrow> set compiled \<subseteq> set all"
proof (induction "ROUNDS - rounds" arbitrary: rounds after ch round compiled b rule: less_induct)
  case less
  from less.prems show ?case
  proof (cases rule: follow_cases)
    case (widest res)
    then show ?thesis by (cases res) auto
  next
    case (turn recorded b1 ch')
    then have "ROUNDS - Suc rounds < ROUNDS - rounds" by simp
    from less.hyps [OF this turn(6)] show ?thesis by simp
  qed auto
qed

text \<open>
  What a change must reach: everything that refers to what it breaks, and of the sources that refer to what only
  gained members all but those that cannot feel a new method.
\<close>

definition reaches_all :: "out_dir \<Rightarrow> index \<Rightarrow> changes \<Rightarrow> nat list \<Rightarrow> nat set \<Rightarrow> bool" where
  "reaches_all out after ch just all \<longleftrightarrow>
     (ch_broken ch \<noteq> [] \<longrightarrow>
       (\<forall>i. refers after ((direct_subtype (index_classes after))\<^sup>* `` (set (ch_added ch) \<union> set (ch_broken ch))) i \<longrightarrow> i \<in> set just \<or> i \<in> all)) \<and>
     (ch_broken ch = [] \<longrightarrow>
       (\<forall>i < length (ix_sources after). deps_of after i \<inter> (direct_subtype (index_classes after))\<^sup>* `` set (ch_added ch) \<noteq> {} \<longrightarrow>
         i \<in> set just \<or> i \<in> all \<or>
         by_name ch \<and> \<not> feels_new_methods (read_class out) (ix_sources after ! i) (subtypes after (ch_added ch)) (ch_methods ch)))"

lemma set_ch_all: "set (ch_all ch) = set (ch_added ch) \<union> set (ch_broken ch)"
  by (auto simp: ch_all_def)

lemma rest_of_iff:
  "i \<in> set (rest_of after ch just) \<longleftrightarrow>
    refers after ((direct_subtype (index_classes after))\<^sup>* `` (set (ch_added ch) \<union> set (ch_broken ch))) i \<and> i \<notin> set just"
  by (simp add: rest_of_def dependents_iff subtypes_iff set_ch_all)

lemma users_of_addition_iff:
  "i \<in> set (users_of_addition read ix users reached ch) \<longleftrightarrow>
    i \<in> set users \<and> \<not> (by_name ch \<and> \<not> feels_new_methods read (ix_sources ix ! i) reached (ch_methods ch))"
  by (auto simp: users_of_addition_def)

lemma next_of_iff:
  "i \<in> set (next_of out after ch just) \<longleftrightarrow> i < length (ix_sources after) \<and>
    deps_of after i \<inter> (direct_subtype (index_classes after))\<^sup>* `` set (ch_added ch) \<noteq> {} \<and> i \<notin> set just \<and>
    \<not> (by_name ch \<and> \<not> feels_new_methods (read_class out) (ix_sources after ! i) (subtypes after (ch_added ch)) (ch_methods ch))"
proof -
  have "list_ex (\<lambda>d. d \<in> set xs) ds \<longleftrightarrow> set ds \<inter> set xs \<noteq> {}" for xs ds :: "str list" by (auto simp: list_ex_iff)
  then show ?thesis by (auto simp: next_of_def users_of_addition_iff direct_users_def Let_def subtypes_iff)
qed

lemma direct_refers:
  "i < length (ix_sources after) \<Longrightarrow> deps_of after i \<inter> changed \<noteq> {} \<Longrightarrow> changed \<subseteq> changed' \<Longrightarrow> refers after changed' i"
  by (blast intro: refers.direct)

lemma follow_reaches:
  assumes f: "follow sha javac tk previous rounds after ch just compiled b = (Finished (final, all), b')"
  shows "reaches_all (bd_out b) after ch just (set all)"
  using f
proof (cases rule: follow_cases)
  case settled
  note s = this
  show ?thesis
    unfolding reaches_all_def
  proof (intro conjI impI allI)
    fix i
    assume "ch_broken ch \<noteq> []" "refers after ((direct_subtype (index_classes after))\<^sup>* `` (set (ch_added ch) \<union> set (ch_broken ch))) i"
    with s(4) rest_of_iff [of i after ch just] show "i \<in> set just \<or> i \<in> set all" by auto
  next
    fix i
    assume b: "ch_broken ch = []" and i: "i < length (ix_sources after)"
      "deps_of after i \<inter> (direct_subtype (index_classes after))\<^sup>* `` set (ch_added ch) \<noteq> {}"
    then have a: "ch_added ch \<noteq> []" by auto
    show "i \<in> set just \<or> i \<in> set all \<or>
        by_name ch \<and> \<not> feels_new_methods (read_class (bd_out b)) (ix_sources after ! i) (subtypes after (ch_added ch)) (ch_methods ch)"
    proof (cases "rounds < ROUNDS")
      case True
      with s(3) a b next_of_iff [of i "bd_out b" after ch just] i show ?thesis by auto
    next
      case False
      have "refers after ((direct_subtype (index_classes after))\<^sup>* `` (set (ch_added ch) \<union> set (ch_broken ch))) i"
        using direct_refers [OF i] by (simp add: b)
      with False s(4) a rest_of_iff [of i after ch just] show ?thesis by auto
    qed
  qed
next
  case (widest res)
  then have all: "set (rest_of after ch just) \<subseteq> set all" by (cases res) auto
  show ?thesis
    unfolding reaches_all_def
  proof (intro conjI impI allI)
    fix i
    assume "refers after ((direct_subtype (index_classes after))\<^sup>* `` (set (ch_added ch) \<union> set (ch_broken ch))) i"
    with all rest_of_iff [of i after ch just] show "i \<in> set just \<or> i \<in> set all" by blast
  next
    fix i
    assume "ch_broken ch = []" and i: "i < length (ix_sources after)"
      "deps_of after i \<inter> (direct_subtype (index_classes after))\<^sup>* `` set (ch_added ch) \<noteq> {}"
    then have "refers after ((direct_subtype (index_classes after))\<^sup>* `` (set (ch_added ch) \<union> set (ch_broken ch))) i"
      using direct_refers [OF i] by simp
    with all rest_of_iff [of i after ch just] show "i \<in> set just \<or> i \<in> set all \<or>
        by_name ch \<and> \<not> feels_new_methods (read_class (bd_out b)) (ix_sources after ! i) (subtypes after (ch_added ch)) (ch_methods ch)" by blast
  qed
next
  case (turn recorded b1 ch')
  have "set (next_of (bd_out b) after ch just) \<subseteq> set all" using follow_compiled [OF turn(6)] by simp
  then show ?thesis unfolding reaches_all_def using turn(1) next_of_iff [of _ "bd_out b" after ch just] by blast
qed simp

text \<open>
  Property C21. A recompile that is enough has compiled every source whose contents changed and every source a
  change in the tracked directories reaches; and when the classes of these came out with another API it has gone
  on to everything that refers to what broke, through any number of sources and subtypes, or, if all
  classes only gained members, to every source that refers to one and can feel it.
\<close>

theorem recompile_reaches:
  assumes "recompile sha javac tk b = (Finished all, b')"
  shows "\<exists>previous upstream. tk_previous tk = Some previous \<and> upstream_changes sha tk previous = Some upstream \<and>
    (ch_is_empty upstream \<or> set (reached_from_upstream (read_class (bd_out b)) previous upstream) \<subseteq> set all) \<and>
    set (changed_sources tk previous) \<subseteq> set all \<and>
    (all = [] \<or> (\<exists>first after ch b1.
      compile_round sha javac tk previous previous first first (sweep previous first b) = (Finished after, b1) \<and>
      compare_round previous after first = Some ch \<and> set first \<subseteq> set all \<and>
      reaches_all (bd_out b1) after (with_upstream_changes after upstream ch) first (set all)))"
  using assms
proof (cases rule: recompile_cases)
  case (compiled previous upstream first)
  from compiled(4) obtain after b1 ch final b2 where
    r: "compile_round sha javac tk previous previous first first (sweep previous first b) = (Finished after, b1)"
      "compare_round previous after first = Some ch"
      "follow sha javac tk previous 1 after (with_upstream_changes after upstream ch) first first b1 = (Finished (final, all), b2)"
    by (auto simp: compile_changed_def split: outcome.splits prod.splits option.splits)
  have "set first \<subseteq> set all" by (rule follow_compiled [OF r(3)])
  moreover have "reaches_all (bd_out b1) after (with_upstream_changes after upstream ch) first (set all)" by (rule follow_reaches [OF r(3)])
  ultimately show ?thesis using compiled(1-3) r(1,2) by (intro exI conjI disjI2) auto
qed auto

text \<open>
  A unit whose sources are not the ones the index was written for, or whose tracked directories hold
  other top-level classes, is left to a compile of the whole unit, with nothing touched.
\<close>

lemma other_sources_compile_whole:
  assumes "tk_previous tk = Some previous"
    and "length (ix_sources previous) \<noteq> length (tk_current tk) \<or> ix_upstream previous \<noteq> tk_upstream tk \<or>
      list_ex (\<lambda>(p, c). \<not> path_eq (se_path p) (cu_path c)) (zip (ix_sources previous) (tk_current tk))"
  shows "recompile sha javac tk b = (Whole, b)"
  using assms by (auto simp: recompile_def)

section \<open>How long it takes\<close>

text \<open>No run of the compiler takes longer than \<open>T\<close>.\<close>

definition javac_within :: "nat \<Rightarrow> javac \<Rightarrow> bool" where
  "javac_within T javac \<longleftrightarrow> (\<forall>ps out t. snd (snd (javac ps out t)) \<le> t + T)"

lemma compile_round_clock:
  assumes "javac_within T javac" "compile_round sha javac tk previous base round compiled b = (r, b')"
  shows "bd_clock b' \<le> bd_clock b + T"
proof -
  obtain ok out' t' where j: "javac (source_paths tk round) (bd_out b) (bd_clock b) = (ok, out', t')" by (metis surj_pair)
  have "bd_clock b' = t'"
    using assms(2) by (auto simp: compile_round_def run_javac_def Let_def j save_index_def split: outcome.splits if_splits option.splits)
  moreover have "t' \<le> bd_clock b + T" using assms(1) j unfolding javac_within_def by (metis snd_conv)
  ultimately show ?thesis by simp
qed

lemma follow_clock:
  assumes "javac_within T javac"
  shows "follow sha javac tk previous rounds after ch round compiled b = (r, b') \<Longrightarrow> bd_clock b' \<le> bd_clock b + (Suc (ROUNDS - rounds)) * T"
proof (induction "ROUNDS - rounds" arbitrary: rounds after ch round compiled b rule: less_induct)
  case less
  have gone: "bd_clock (remove_classes after srcs b) = bd_clock b" for srcs by (simp add: remove_classes_def Let_def)
  from less.prems show ?case
  proof (cases rule: follow_cases)
    case (widest res)
    from compile_round_clock [OF assms widest(3)] show ?thesis by (simp add: gone trans_le_add1)
  next
    case (ended res)
    from compile_round_clock [OF assms ended(4)] show ?thesis by (simp add: gone trans_le_add1)
  next
    case (turn recorded b1 ch')
    then have l: "ROUNDS - Suc rounds < ROUNDS - rounds" and s: "ROUNDS - rounds = Suc (ROUNDS - Suc rounds)" by simp_all
    from compile_round_clock [OF assms turn(4)] less.hyps [OF l turn(6)] show ?thesis by (simp add: gone s)
  qed simp
qed

lemma compile_changed_clock:
  assumes "javac_within T javac" "compile_changed sha javac tk previous upstream first b = (r, b')"
  shows "bd_clock b' \<le> bd_clock b + 5 * T"
proof -
  obtain res b1 where c: "compile_round sha javac tk previous previous first first (sweep previous first b) = (res, b1)" by fastforce
  have b1: "bd_clock b1 \<le> bd_clock b + T" using compile_round_clock [OF assms(1) c] by (simp add: sweep_def Let_def)
  have stop: "bd_clock b1 \<le> bd_clock b + 5 * T" using b1 by simp
  show ?thesis
  proof (cases res)
    case (Finished after)
    show ?thesis
    proof (cases "compare_round previous after first")
      case (Some ch)
      obtain res2 b2 where f: "follow sha javac tk previous 1 after (with_upstream_changes after upstream ch) first first b1 = (res2, b2)" by fastforce
      have "bd_clock b' = bd_clock b2"
        using assms(2) by (cases res2) (auto simp: compile_changed_def c Finished Some f save_index_def simp del: One_nat_def)
      with follow_clock [OF assms(1) f] b1 show ?thesis by (simp add: ROUNDS_def)
    qed (use stop assms(2) in \<open>simp add: compile_changed_def c Finished\<close>)
  qed (use stop assms(2) in \<open>simp_all add: compile_changed_def c\<close>)
qed

text \<open>
  Property C39. However far a change reaches, a recompile runs the compiler at most five times: if no run takes
  longer than \<open>T\<close>, it takes no longer than five times that.
\<close>

theorem recompile_bounded:
  assumes "javac_within T javac"
  shows "bd_clock (snd (recompile sha javac tk b)) \<le> bd_clock b + 5 * T"
proof -
  obtain r b' where r: "recompile sha javac tk b = (r, b')" by fastforce
  then show ?thesis
  proof (cases rule: recompile_cases)
    case (compiled previous upstream first)
    from compile_changed_clock [OF assms compiled(4)] r show ?thesis by simp
  qed (use r in \<open>simp_all add: save_index_def\<close>)
qed

section \<open>The tracked classes an index has seen\<close>

definition tracked_info :: "(str \<Rightarrow> str) \<Rightarrow> directory list \<Rightarrow> str \<Rightarrow> class_info option" where
  "tracked_info sha dirs name = (case find_tracked dirs name of None \<Rightarrow> None | Some bytes \<Rightarrow> class_info_of sha bytes)"

text \<open>The names a search for tracked classes comes upon: those referred to, and the supertypes of those found.\<close>

inductive_set mentioned :: "(str \<Rightarrow> str) \<Rightarrow> directory list \<Rightarrow> str set \<Rightarrow> str set" for sha dirs names where
  named: "n \<in> names \<Longrightarrow> n \<in> mentioned sha dirs names"
| super: "n \<in> mentioned sha dirs names \<Longrightarrow> tracked_info sha dirs n = Some info \<Longrightarrow> m \<in> set (in_supers info) \<Longrightarrow> m \<in> mentioned sha dirs names"

lemma seen_loop_marks:
  assumes "seen_loop sha dirs visited queue found = Some found'"
    and "bt_inv found" "set visited \<union> set queue \<subseteq> mentioned sha dirs names" "names \<subseteq> set visited \<union> set queue"
    and "\<And>n info. n \<in> set visited \<Longrightarrow> tracked_info sha dirs n = Some info \<Longrightarrow> set (in_supers info) \<subseteq> set visited \<union> set queue"
    and "\<And>n. map_of found n = (if n \<in> set visited then map_option class_new (tracked_info sha dirs n) else None)"
  shows "bt_inv found' \<and> (\<forall>n. map_of found' n = (if n \<in> mentioned sha dirs names then map_option class_new (tracked_info sha dirs n) else None))"
  using assms
proof (induction sha dirs visited queue found rule: seen_loop.induct)
  case (1 sha dirs visited found)
  have "n \<in> set visited" if "n \<in> mentioned sha dirs names" for n
    using that
  proof (induction rule: mentioned.induct)
    case (super n info m)
    from "1.prems"(5) [OF super(4) super(2)] super(3) show ?case by auto
  qed (use "1.prems"(4) in auto)
  with 1 have "set visited = mentioned sha dirs names" by auto
  with 1 show ?case by auto
next
  case (2 sha dirs visited name queue found)
  show ?case
  proof (cases "name \<in> set visited")
    case True
    show ?thesis by (rule "2.IH"(1)) (use True 2(4-) in \<open>auto\<close>)
  next
    case False
    show ?thesis
    proof (cases "find_tracked dirs name")
      case None
      then have n: "tracked_info sha dirs name = None" by (simp add: tracked_info_def)
      show ?thesis
        by (rule "2.IH"(2) [OF False None]) (use False None n 2(4-) in \<open>auto simp: tracked_info_def split: if_splits\<close>)
    next
      case (Some bytes)
      show ?thesis
      proof (cases "class_info_of sha bytes")
        case None
        with False Some 2(4) show ?thesis by simp
      next
        case (Some info)
        note bytes = \<open>find_tracked dirs name = Some bytes\<close>
        have n: "tracked_info sha dirs name = Some info" using bytes Some by (simp add: tracked_info_def)
        have "name \<in> mentioned sha dirs names" using 2(6) by simp
        then have supers: "set (in_supers info) \<subseteq> mentioned sha dirs names" using mentioned.super [OF _ n] by blast
        show ?thesis
        proof (rule "2.IH"(3) [OF False bytes Some])
          show "bt_inv (bt_put name (class_new info) found)" using 2(5) by (rule bt_inv_bt_put)
          show "map_of (bt_put name (class_new info) found) m =
              (if m \<in> set (name # visited) then map_option class_new (tracked_info sha dirs m) else None)" for m
            using 2(9) [of m] n 2(5) by (simp add: map_of_bt_put)
          show "seen_loop sha dirs (name # visited) (rev (in_supers info) @ queue) (bt_put name (class_new info) found) = Some found'"
            using 2(4) False bytes Some by simp
          show "set (name # visited) \<union> set (rev (in_supers info) @ queue) \<subseteq> mentioned sha dirs names" using 2(6) supers by auto
          show "names \<subseteq> set (name # visited) \<union> set (rev (in_supers info) @ queue)" using 2(7) by auto
          show "set (in_supers i) \<subseteq> set (name # visited) \<union> set (rev (in_supers info) @ queue)"
            if "m \<in> set (name # visited)" "tracked_info sha dirs m = Some i" for m i
          proof (cases "m = name")
            case True
            with that n show ?thesis by auto
          next
            case False
            with that 2(8) [of m i] show ?thesis by auto
          qed
        qed
      qed
    qed
  qed
qed

text \<open>
  The tracked classes an index records are exactly the ones its sources refer to and their supertypes
  at any depth, each as it is read now, each once.
\<close>

lemma seen_classes_exact:
  assumes "seen_classes sha tk refs unit_classes = Some seen" "tk_tracked tk \<noteq> []"
  shows "bt_inv seen \<and> (\<forall>n. map_of seen n =
    (if n \<in> mentioned sha (tk_tracked tk) (set (concat refs) - set unit_classes)
     then map_option class_new (tracked_info sha (tk_tracked tk) n) else None))"
proof (rule seen_loop_marks)
  show "seen_loop sha (tk_tracked tk) [] (rev (filter (\<lambda>r. r \<notin> set unit_classes) (concat refs))) [] = Some seen"
    using assms by (simp add: seen_classes_def)
qed (auto intro: mentioned.named)

section \<open>Every class has its source\<close>

lemma owner_bound: "owner cs info = Some i \<Longrightarrow> i < length cs"
  by (auto simp: owner_def Let_def filter_eq_Cons_iff split: option.splits list.splits if_splits dest!: arg_cong [where f = set] intro: ccontr)

lemma gather_all:
  assumes "fold_option (gather sha tk None) (map (\<lambda>(file, bytes, modified). ReadFile file bytes) out) g = Some g'"
    and "length (ga_classes g) = length (tk_current tk)" "length (ga_refs g) = length (tk_current tk)"
  shows "\<exists>infos. map (\<lambda>(file, bytes, modified). class_info_of sha bytes) out = map Some infos \<and>
    map (\<lambda>f. Some (fst f)) out = map (\<lambda>info. class_path (in_name info)) infos \<and>
    (\<forall>info \<in> set infos. owner (tk_current tk) info \<noteq> None) \<and>
    set (ga_names g') = in_name ` set infos \<union> set (ga_names g) \<and>
    length (ga_classes g') = length (tk_current tk) \<and> length (ga_refs g') = length (tk_current tk) \<and>
    (\<forall>i < length (tk_current tk). ga_classes g' ! i = ga_classes g ! i @ map class_new (filter (\<lambda>info. owner (tk_current tk) info = Some i) infos) \<and>
      set (ga_refs g' ! i) = set (ga_refs g ! i) \<union> (\<Union>info \<in> {x \<in> set infos. owner (tk_current tk) x = Some i}. set (in_refs info)))"
  using assms
proof (induction out arbitrary: g)
  case (Cons f out)
  obtain p bytes modified where f: "f = (p, bytes, modified)" by (metis surj_pair)
  obtain g1 where g1: "gather sha tk None (ReadFile p bytes) g = Some g1"
    and rest: "fold_option (gather sha tk None) (map (\<lambda>(file, bytes, modified). ReadFile file bytes) out) g1 = Some g'"
    using Cons.prems(1) by (auto simp: f split: option.splits)
  from g1 obtain info i where info: "class_info_of sha bytes = Some info" "class_path (in_name info) = Some p" "owner (tk_current tk) info = Some i"
    and g1': "g1 = g\<lparr>ga_names := in_name info # ga_names g, ga_classes := at_index i (\<lambda>cs. cs @ [class_new info]) (ga_classes g),
         ga_refs := at_index i (bt_extend (in_refs info)) (ga_refs g)\<rparr>"
    by (auto simp: gather_def split: option.splits if_splits)
  have "length (ga_classes g1) = length (tk_current tk)" "length (ga_refs g1) = length (tk_current tk)" using Cons.prems(2,3) by (simp_all add: g1')
  from Cons.IH [OF rest this] obtain infos where i:
    "map (\<lambda>(file, bytes, modified). class_info_of sha bytes) out = map Some infos"
    "map (\<lambda>f. Some (fst f)) out = map (\<lambda>info. class_path (in_name info)) infos"
    "\<forall>info \<in> set infos. owner (tk_current tk) info \<noteq> None"
    "set (ga_names g') = in_name ` set infos \<union> set (ga_names g1)"
    "length (ga_classes g') = length (tk_current tk)" "length (ga_refs g') = length (tk_current tk)"
    "\<forall>j < length (tk_current tk). ga_classes g' ! j = ga_classes g1 ! j @ map class_new (filter (\<lambda>x. owner (tk_current tk) x = Some j) infos) \<and>
      set (ga_refs g' ! j) = set (ga_refs g1 ! j) \<union> (\<Union>x \<in> {x \<in> set infos. owner (tk_current tk) x = Some j}. set (in_refs x))"
    by blast
  show ?case
  proof (intro exI [of _ "info # infos"] conjI allI impI)
    fix j
    assume j: "j < length (tk_current tk)"
    with i(7) have "ga_classes g' ! j = ga_classes g1 ! j @ map class_new (filter (\<lambda>x. owner (tk_current tk) x = Some j) infos)" by blast
    then show "ga_classes g' ! j = ga_classes g ! j @ map class_new (filter (\<lambda>x. owner (tk_current tk) x = Some j) (info # infos))"
      using j Cons.prems(2) info(3) by (simp add: g1' at_index_nth)
    from i(7) j have "set (ga_refs g' ! j) = set (ga_refs g1 ! j) \<union>
        (\<Union>x \<in> {x \<in> set infos. owner (tk_current tk) x = Some j}. set (in_refs x))" by blast
    then show "set (ga_refs g' ! j) = set (ga_refs g ! j) \<union> (\<Union>x \<in> {x \<in> set (info # infos). owner (tk_current tk) x = Some j}. set (in_refs x))"
      using j Cons.prems(3) info(3) by (auto simp: g1' at_index_nth)
  qed (use i info f g1' in auto)
qed auto

text \<open>
  Property C26. The index of a whole compile ties every class file to one source: each file parses as the class
  its path says and has exactly one owner, every source holds the classes it owns in the order of the
  files, and refers to exactly the unit's other classes those mention.
\<close>

theorem record_places_classes:
  assumes "record_over sha tk out None = Some ix"
  shows "\<exists>infos. map (\<lambda>(file, bytes, modified). class_info_of sha bytes) out = map Some infos \<and>
    map (\<lambda>f. Some (fst f)) out = map (\<lambda>info. class_path (in_name info)) infos \<and>
    (\<forall>info \<in> set infos. \<exists>i < length (tk_current tk). owner (tk_current tk) info = Some i) \<and>
    length (ix_sources ix) = length (tk_current tk) \<and>
    (\<forall>i < length (tk_current tk).
      se_path (ix_sources ix ! i) = cu_path (tk_current tk ! i) \<and> se_hash (ix_sources ix ! i) = cu_hash (tk_current tk ! i) \<and>
      se_classes (ix_sources ix ! i) = map class_new (filter (\<lambda>info. owner (tk_current tk) info = Some i) infos) \<and>
      deps_of ix i = (\<Union>info \<in> {x \<in> set infos. owner (tk_current tk) x = Some i}. set (in_refs info)) \<inter> in_name ` set infos - class_names ix i)"
proof -
  let ?n = "length (tk_current tk)"
  let ?start = "\<lparr>ga_classes = replicate ?n [], ga_refs = replicate ?n [], ga_names = [], ga_referring = []\<rparr>"
  have es: "entries tk out None = map (\<lambda>(file, bytes, modified). ReadFile file bytes) out"
    by (simp add: entries_def reusable_def case_prod_unfold)
  obtain g seen where g: "fold_option (gather sha tk None) (entries tk out None) ?start = Some g"
    and ix: "ix = \<lparr>ix_settings = tk_settings tk, ix_upstream = tk_upstream tk,
      ix_sources = map (\<lambda>(now, classes, refs). source_recorded (ga_names g) seen now classes refs)
        (zip (tk_current tk) (zip (ga_classes g) (ga_refs g))), ix_seen = map snd seen\<rparr>"
    using assms by (auto simp: record_over_def Let_def Option.bind_eq_Some_conv)
  from gather_all [OF g [unfolded es]] obtain infos where i:
    "map (\<lambda>(file, bytes, modified). class_info_of sha bytes) out = map Some infos"
    "map (\<lambda>f. Some (fst f)) out = map (\<lambda>info. class_path (in_name info)) infos"
    "\<forall>info \<in> set infos. owner (tk_current tk) info \<noteq> None" "set (ga_names g) = in_name ` set infos"
    "length (ga_classes g) = ?n" "length (ga_refs g) = ?n"
    "\<forall>j < ?n. ga_classes g ! j = map class_new (filter (\<lambda>x. owner (tk_current tk) x = Some j) infos) \<and>
      set (ga_refs g ! j) = (\<Union>x \<in> {x \<in> set infos. owner (tk_current tk) x = Some j}. set (in_refs x))"
    by auto
  have source: "ix_sources ix ! j = source_recorded (ga_names g) seen (tk_current tk ! j) (ga_classes g ! j) (ga_refs g ! j)" if "j < ?n" for j
    using that i(5,6) by (simp add: ix)
  have "length (ix_sources ix) = ?n" using i(5,6) by (simp add: ix)
  moreover have "\<exists>j < ?n. owner (tk_current tk) info = Some j" if "info \<in> set infos" for info
    using that i(3) owner_bound by blast
  moreover have "se_path (ix_sources ix ! j) = cu_path (tk_current tk ! j) \<and> se_hash (ix_sources ix ! j) = cu_hash (tk_current tk ! j) \<and>
      se_classes (ix_sources ix ! j) = map class_new (filter (\<lambda>info. owner (tk_current tk) info = Some j) infos) \<and>
      deps_of ix j = (\<Union>info \<in> {x \<in> set infos. owner (tk_current tk) x = Some j}. set (in_refs info)) \<inter> in_name ` set infos - class_names ix j"
    if "j < ?n" for j
    using source [OF that] i(4) i(7) that by (auto simp: source_recorded_def Let_def)
  ultimately show ?thesis using i(1,2) by blast
qed

section \<open>Concrete inputs\<close>

text \<open>
  A unit of one source, \<^verbatim>\<open>A.java\<close>, edited since its last build; its class \<^verbatim>\<open>A\<close> names its source. One compiler
  writes the class, one fails.
\<close>

definition source_class :: str where
  "source_class = map byte_of ([0xCA, 0xFE, 0xBA, 0xBE, 0, 0, 0, 52, 0, 5] @ [1, 0, 1, 65] @ [7, 0, 1] @
     [1, 0, 10, 83, 111, 117, 114, 99, 101, 70, 105, 108, 101] @ [1, 0, 6, 65, 46, 106, 97, 118, 97] @
     [0, 33, 0, 2, 0, 0, 0, 0, 0, 0, 0, 0, 0, 1, 0, 3, 0, 0, 0, 2, 0, 4])"

definition demo_tracker :: tracker where
  "demo_tracker = \<lparr>tk_settings = ''s'', tk_current = [\<lparr>cu_path = ''src/A.java'', cu_size = 2, cu_modified = 2, cu_hash = ''b''\<rparr>],
     tk_previous = Some \<lparr>ix_settings = ''s'', ix_upstream = ''-'',
       ix_sources = [\<lparr>se_path = ''src/A.java'', se_size = 1, se_modified = 1, se_hash = ''a'',
         se_classes = (case class_info_of (\<lambda>b. b) source_class of Some info \<Rightarrow> [class_new info] | None \<Rightarrow> []), se_deps = [], se_ext = []\<rparr>],
       ix_seen = []\<rparr>,
     tk_tracked = [], tk_upstream = ''-''\<rparr>"

definition demo_build :: build where
  "demo_build = \<lparr>bd_out = [(''A.class'', source_class, 1)], bd_index = None, bd_fingerprint = True, bd_clock = 7\<rparr>"

definition demo_javac :: javac where
  "demo_javac paths out clock = (True, (''A.class'', source_class, clock + 1) # out, clock + 2)"

definition broken_javac :: javac where
  "broken_javac paths out clock = (False, out, clock + 2)"

lemma recompile_reaches_witness:
  "fst (recompile (\<lambda>b. b) demo_javac demo_tracker demo_build) = Finished [0] \<and>
    (\<exists>previous. tk_previous demo_tracker = Some previous \<and> set (changed_sources demo_tracker previous) \<subseteq> {0})"
proof (rule conjI)
  show f: "fst (recompile (\<lambda>b. b) demo_javac demo_tracker demo_build) = Finished [0]" by code_simp
  have "recompile (\<lambda>b. b) demo_javac demo_tracker demo_build = (Finished [0], snd (recompile (\<lambda>b. b) demo_javac demo_tracker demo_build))"
    unfolding f [symmetric] by simp
  from recompile_reaches [OF this]
  show "\<exists>previous. tk_previous demo_tracker = Some previous \<and> set (changed_sources demo_tracker previous) \<subseteq> {0}" by auto
qed


lemma recompile_bounded_witness: "bd_clock (snd (recompile (\<lambda>b. b) demo_javac demo_tracker demo_build)) \<le> 17"
  using recompile_bounded [of 2 demo_javac "\<lambda>b. b" demo_tracker demo_build]
  by (simp add: javac_within_def demo_javac_def demo_build_def)

lemma record_places_classes_witness:
  "\<exists>ix. record_over (\<lambda>b. b) demo_tracker (bd_out demo_build) None = Some ix \<and> length (ix_sources ix) = 1"
proof -
  have "record_over (\<lambda>b. b) demo_tracker (bd_out demo_build) None \<noteq> None" by code_simp
  then obtain ix where ix: "record_over (\<lambda>b. b) demo_tracker (bd_out demo_build) None = Some ix" by blast
  from record_places_classes [OF ix] ix show ?thesis by (auto simp: demo_tracker_def)
qed

end
