(* ===== verification/Impact.thy ===== *)
theory Impact
  imports Incremental
begin

text \<open>
  \<^verbatim>\<open>src/src/compile/impact.rs\<close>: which test classes a change can reach. The snapshot of the class
  directories, the text it is kept as, what changed since the last run, and the selection. The files of the class
  directories are given with what the file system says of them; SHA-256 is an argument.
\<close>

section \<open>The snapshot\<close>

record file_entry =
  fe_path :: str
  fe_size :: nat
  fe_modified :: nat
  fe_hash :: str

record snapshot =
  sn_settings :: str
  sn_files :: "file_entry list"
  sn_pending :: "str list"

definition snapshot_header :: str where "snapshot_header = ''jrs test impact 1''"

definition snapshot_line :: "str \<Rightarrow> snapshot \<Rightarrow> snapshot option" where
  "snapshot_line line sn = do {
     (key, rest) \<leftarrow> split_once '' '' line;
     if key = ''pending'' then Some (sn\<lparr>sn_pending := bt_add rest (sn_pending sn)\<rparr>)
     else if key = ''file'' then
       (case splitn 4 CHR '' '' rest of
          s # m # fs \<Rightarrow> do {
            size \<leftarrow> parse_uint 64 s;
            modified \<leftarrow> parse_uint 128 m;
            (case fs of
               [hash, p] \<Rightarrow> Some (sn\<lparr>sn_files := sn_files sn @ [\<lparr>fe_path = p, fe_size = size, fe_modified = modified, fe_hash = hash\<rparr>]\<rparr>)
             | _ \<Rightarrow> None) }
        | _ \<Rightarrow> None)
     else None }"

definition snapshot_parse :: "str \<Rightarrow> snapshot option" where
  "snapshot_parse text' =
     (case text_lines text' of
        header # settings # ls \<Rightarrow> if header \<noteq> snapshot_header then None else do {
          settings \<leftarrow> strip_prefix ''settings '' settings;
          fold_option snapshot_line ls \<lparr>sn_settings = settings, sn_files = [], sn_pending = []\<rparr> }
      | _ \<Rightarrow> None)"

definition file_line :: "file_entry \<Rightarrow> str" where
  "file_line f = ''file '' @ dec (fe_size f) @ '' '' @ dec (fe_modified f) @ '' '' @ fe_hash f @ '' '' @ fe_path f"

definition snapshot_lines :: "snapshot \<Rightarrow> str list" where
  "snapshot_lines sn = [snapshot_header, ''settings '' @ sn_settings sn] @
     map (\<lambda>c. ''pending '' @ c) (sn_pending sn) @ map file_line (sn_files sn)"

definition snapshot_render :: "snapshot \<Rightarrow> str" where
  "snapshot_render sn = concat (map (\<lambda>l. l @ newline) (snapshot_lines sn))"

text \<open>\<^verbatim>\<open>Snapshot::record\<close>: the text written, with the tests that failed.\<close>

definition snapshot_record :: "snapshot \<Rightarrow> str list \<Rightarrow> str" where
  "snapshot_record sn failed = snapshot_render (sn\<lparr>sn_pending := bt_extend failed []\<rparr>)"

section \<open>The graph of classes\<close>

type_synonym class_map = "(str \<times> class_info) list"

definition walk_push :: "str \<Rightarrow> str list \<times> str list \<Rightarrow> str list \<times> str list" where
  "walk_push n = (\<lambda>(seen, queue). if n \<in> set seen then (seen, queue) else (bt_add n seen, n # queue))"

definition walk_turn :: "(str \<times> str) list \<Rightarrow> str \<Rightarrow> str list \<times> str list \<Rightarrow> str list \<times> str list" where
  "walk_turn pairs c = fold walk_push (group_push pairs c)"

lemma walk_fold:
  assumes "fold walk_push xs (st, q) = (st', q')"
  shows "\<exists>ps. q' = ps @ q \<and> distinct ps \<and> set ps \<inter> set st = {} \<and> set ps \<subseteq> set xs \<and> set st' = set st \<union> set ps \<and> set xs \<subseteq> set st'"
  by (rule fold_pushes [where marked = set and mark = bt_add, OF _ _ assms]) (auto simp: walk_push_def)

interpretation classes: marking "walk_turn pairs" set "snd ` set pairs" for pairs
proof unfold_locales
  fix n st q st' q'
  assume "walk_turn pairs n (st, q) = (st', q')"
  moreover have "set (group_push pairs n) \<subseteq> snd ` set pairs" by (force simp: set_group_push)
  ultimately show "\<exists>ps. q' = ps @ q \<and> distinct ps \<and> set ps \<inter> set st = {} \<and> set ps \<subseteq> snd ` set pairs \<and> set st' = set st \<union> set ps"
    using walk_fold [of "group_push pairs n" st q st' q'] unfolding walk_turn_def by blast
qed simp

function class_loop :: "(str \<times> str) list \<Rightarrow> str list \<Rightarrow> str list \<Rightarrow> str list" where
  "class_loop pairs seen [] = seen"
| "class_loop pairs seen (c # queue) = (case walk_turn pairs c (seen, queue) of (seen', queue') \<Rightarrow> class_loop pairs seen' queue')"
  by pat_completeness auto
termination
proof (relation "measure (\<lambda>(pairs, seen, queue). classes.room pairs seen + length queue)")
  fix pairs :: "(str \<times> str) list" and seen and c :: str and queue seen' queue'
  assume "(seen', queue') = walk_turn pairs c (seen, queue)"
  then have "walk_turn pairs c (seen, queue) = (seen', queue')" by simp
  from classes.room_used [OF this]
  show "((pairs, seen', queue'), pairs, seen, c # queue) \<in> measure (\<lambda>(pairs, seen, queue). classes.room pairs seen + length queue)"
    by (simp only: in_measure prod.case list.size)
qed simp

text \<open>What \<open>next\<close> gives for a class is what the pairs give for it.\<close>

definition class_walk :: "(str \<times> str) list \<Rightarrow> str \<Rightarrow> str list" where
  "class_walk pairs start = class_loop pairs [start] [start]"

interpretation classes: worklist "walk_turn pairs" set "snd ` set pairs" "\<lambda>n. set pairs `` {n}" "\<lambda>st. True"
    "\<lambda>st n. set pairs `` {n} \<subseteq> set st" "class_loop pairs" for pairs
proof unfold_locales
  have next_of: "set (group_push pairs n) = set pairs `` {n}" for n by (auto simp: set_group_push)
  fix n st q st' q' m
  assume turn: "walk_turn pairs n (st, q) = (st', q')"
  from walk_fold [OF turn [unfolded walk_turn_def]]
  obtain ps where ps: "set ps \<subseteq> set pairs `` {n}" "set st' = set st \<union> set ps" "set pairs `` {n} \<subseteq> set st'"
    unfolding next_of by blast
  { assume "set pairs `` {m} \<subseteq> set st"
    then show "set pairs `` {m} \<subseteq> set st'" using ps(2) by blast }
  show "True \<and> set pairs `` {n} \<subseteq> set st' \<and> set st' \<subseteq> set st \<union> set pairs `` {n}" using ps by blast
qed simp_all

lemma class_walk_exact: "set (class_walk pairs start) = (set pairs)\<^sup>* `` {start}"
proof -
  have "{(a, b). b \<in> set pairs `` {a}} = set pairs" by auto
  with classes.loop_marks [of "[start]" "[start]" pairs] show ?thesis by (simp add: class_walk_def)
qed

section \<open>The selection\<close>

datatype selection = SelectAll str | SelectOnly "str list"

definition dynamic_prefixes :: "str list" where
  "dynamic_prefixes = [''org/springframework/boot/test/'', ''org/springframework/test/'', ''io/micronaut/test/'', ''io/quarkus/test/'',
     ''io/ktor/server/testing/'', ''org/junit/platform/suite/'', ''io/cucumber/'', ''com/tngtech/archunit/'', ''org/reflections/'',
     ''io/github/classgraph/'', ''java/util/ServiceLoader'', ''java/lang/reflect/'']"

text \<open>\<^verbatim>\<open>com/example/FooTest$Inner\<close> is run with \<^verbatim>\<open>com.example.FooTest\<close>.\<close>

definition top_level_name :: "str \<Rightarrow> str" where
  "top_level_name internal =
     (let (package, simple) = (case rsplit_once CHR ''/'' internal of Some ps \<Rightarrow> ps | None \<Rightarrow> ([], internal));
          simple = hd (split_on CHR ''$'' simple)
      in if package = [] then simple else replace_all ''/'' ''.'' package @ ''.'' @ simple)"

definition added_or_removed :: "str \<Rightarrow> selection" where
  "added_or_removed p =
     (if is_class_file p then SelectAll ''a class was added or removed'' else SelectAll (''a resource changed: '' @ p))"

text \<open>The files that are not as they were; \<open>Inl\<close> is an early return.\<close>

fun changed_files :: "(str \<times> str) list \<Rightarrow> file_entry list \<Rightarrow> selection + str list" where
  "changed_files before [] = Inr []"
| "changed_files before (e # es) =
     (case map_of before (fe_path e) of
        None \<Rightarrow> Inl (added_or_removed (fe_path e))
      | Some hash \<Rightarrow> and_then (changed_files before es) (\<lambda>ps. Inr (if hash \<noteq> fe_hash e then fe_path e # ps else ps)))"

record class_reading =
  cr_classes :: class_map
  cr_by_path :: "(str \<times> str) list"
  cr_tests :: "str list"

fun read_classes :: "(str \<Rightarrow> str) \<Rightarrow> (str \<Rightarrow> str) \<Rightarrow> str \<Rightarrow> str list \<Rightarrow> class_reading \<Rightarrow> selection + class_reading" where
  "read_classes sha content scan_dir [] r = Inr r"
| "read_classes sha content scan_dir (p # ps) r =
     (case class_info_of sha (content p) of
        None \<Rightarrow> Inl (SelectAll (''a class could not be read: '' @ p))
      | Some info \<Rightarrow>
          if (case in_source_file info of Some s \<Rightarrow> ends_with ''.groovy'' s | None \<Rightarrow> False)
          then Inl (SelectAll ''Groovy classes are called by name at run time'')
          else read_classes sha content scan_dir ps
            \<lparr>cr_classes = bt_put (in_name info) info (cr_classes r), cr_by_path = hm_put p (in_name info) (cr_by_path r),
             cr_tests = (if path_starts_with p scan_dir then bt_add (in_name info) (cr_tests r) else cr_tests r)\<rparr>)"

text \<open>Who uses a class, and what a class uses, among the project's own.\<close>

definition used_by :: "class_map \<Rightarrow> (str \<times> str) list" where
  "used_by classes = concat (map (\<lambda>(name, info). map (\<lambda>target. (target, name))
     (filter (\<lambda>target. target \<noteq> name \<and> target \<in> fst ` set classes) (in_refs info))) classes)"

definition uses :: "class_map \<Rightarrow> (str \<times> str) list" where
  "uses classes = concat (map (\<lambda>(name, info). map (\<lambda>target. (name, target))
     (filter (\<lambda>target. target \<in> fst ` set classes) (in_refs info))) classes)"

definition finds_classes :: "class_map \<Rightarrow> str \<Rightarrow> bool" where
  "finds_classes classes c =
     (case map_of classes c of None \<Rightarrow> False
      | Some info \<Rightarrow> list_ex (\<lambda>r. list_ex (\<lambda>d. starts_with d r) dynamic_prefixes) (in_refs info))"

fun finding_classes :: "class_map \<Rightarrow> str list \<Rightarrow> str list \<Rightarrow> str list" where
  "finding_classes classes [] out = out"
| "finding_classes classes (test # tests) out =
     finding_classes classes tests
       (if top_level_name test \<in> set out then out
        else if list_ex (finds_classes classes) (class_walk (uses classes) test) then bt_add (top_level_name test) out
        else out)"

fun reached_classes :: "(str \<times> str) list \<Rightarrow> str list \<Rightarrow> str list \<Rightarrow> str list \<Rightarrow> selection + str list" where
  "reached_classes pairs tests [] reached = Inr reached"
| "reached_classes pairs tests (c # cs) reached =
     (let from_here = class_walk pairs c in
      if \<not> list_ex (\<lambda>t. t \<in> set tests) from_here
      then Inl (SelectAll (''`'' @ replace_all ''/'' ''.'' c @ ''` changed, and no test class refers to it''))
      else reached_classes pairs tests cs (bt_extend from_here reached))"

definition hash_map :: "(str \<times> str) list \<Rightarrow> (str \<times> str) list" where
  "hash_map kvs = fold (\<lambda>(k, v). hm_put k v) kvs []"


definition selection_among :: "snapshot \<Rightarrow> class_reading \<Rightarrow> str list \<Rightarrow> selection" where
  "selection_among previous r changed =
     (let names = bt_extend (List.map_filter (map_of (cr_by_path r)) changed) [] in
      case reached_classes (used_by (cr_classes r)) (cr_tests r) names [] of
        Inl s \<Rightarrow> s
      | Inr reached \<Rightarrow>
          let selected = bt_extend (map top_level_name (filter (\<lambda>c. c \<in> set (cr_tests r)) reached)) [];
              selected = (if names \<noteq> [] then bt_extend (finding_classes (cr_classes r) (cr_tests r) []) selected else selected);
              present = map top_level_name (cr_tests r)
          in SelectOnly (bt_extend (filter (\<lambda>p. p \<in> set present) (sn_pending previous)) selected))"

definition select_compare :: "(str \<Rightarrow> str) \<Rightarrow> (str \<Rightarrow> str) \<Rightarrow> str \<Rightarrow> snapshot \<Rightarrow> snapshot \<Rightarrow> selection" where
  "select_compare sha content scan_dir previous now =
     (let before = hash_map (map (\<lambda>e. (fe_path e, fe_hash e)) (sn_files previous)) in
      case changed_files before (sn_files now) of
        Inl s \<Rightarrow> s
      | Inr changed \<Rightarrow>
          if length before \<noteq> length (sn_files now) then SelectAll ''a file was removed from the classes''
          else (case find (\<lambda>p. \<not> is_class_file p) changed of
             Some resource \<Rightarrow> SelectAll (''a resource changed: '' @ resource)
           | None \<Rightarrow>
               (case read_classes sha content scan_dir (filter is_class_file (map fe_path (sn_files now)))
                  \<lparr>cr_classes = [], cr_by_path = [], cr_tests = []\<rparr> of
                  Inl s \<Rightarrow> s
                | Inr r \<Rightarrow> selection_among previous r changed)))"

text \<open>A file of the class directories: its path, size, time and contents.\<close>

type_synonym dir_file = "str \<times> nat \<times> nat \<times> str"

definition snapshot_file :: "(str \<Rightarrow> str) \<Rightarrow> file_entry list \<Rightarrow> dir_file \<Rightarrow> file_entry" where
  "snapshot_file sha known = (\<lambda>(p, size, modified, content).
     \<lparr>fe_path = p, fe_size = size, fe_modified = modified,
      fe_hash = (case map_of (rev (map (\<lambda>e. (fe_path e, e)) known)) p of
        Some e \<Rightarrow> if (fe_size e, fe_modified e) = (size, modified) then fe_hash e else sha content
      | None \<Rightarrow> sha content)\<rparr>)"

definition select_tests :: "(str \<Rightarrow> str) \<Rightarrow> str option \<Rightarrow> str \<Rightarrow> dir_file list \<Rightarrow> str \<Rightarrow> selection \<times> snapshot" where
  "select_tests sha state settings files scan_dir =
     (let previous = (case state of None \<Rightarrow> None | Some t \<Rightarrow> snapshot_parse t);
          settings = sha settings;
          known = (case previous of None \<Rightarrow> [] | Some sn \<Rightarrow> sn_files sn);
          now = \<lparr>sn_settings = settings, sn_files = map (snapshot_file sha known) files, sn_pending = []\<rparr>;
          content = (\<lambda>p. case map_of (map (\<lambda>(p, _, _, c). (p, c)) files) p of Some c \<Rightarrow> c | None \<Rightarrow> [])
      in (case previous of
            None \<Rightarrow> SelectAll ''there is no earlier run to compare with''
          | Some sn \<Rightarrow>
              if sn_settings sn \<noteq> settings then SelectAll ''the test classpath or JVM settings changed''
              else select_compare sha content scan_dir sn now, now))"

section \<open>The selection is exact\<close>

text \<open>One class of the project refers to another.\<close>

definition class_refs :: "class_map \<Rightarrow> (str \<times> str) set" where
  "class_refs classes = {(a, b). \<exists>info. map_of classes a = Some info \<and> b \<in> set (in_refs info) \<and> b \<in> dom (map_of classes)}"

lemma uses_iff: "(a, b) \<in> set (uses classes) \<longleftrightarrow> (\<exists>info. (a, info) \<in> set classes \<and> b \<in> set (in_refs info) \<and> b \<in> fst ` set classes)"
proof -
  have "(a, b) \<in> set (uses classes) \<longleftrightarrow>
      (\<exists>p \<in> set classes. (a, b) \<in> set (map (\<lambda>target. (fst p, target)) (filter (\<lambda>target. target \<in> fst ` set classes) (in_refs (snd p)))))"
    by (simp add: uses_def case_prod_unfold)
  also have "\<dots> \<longleftrightarrow> (\<exists>p \<in> set classes. a = fst p \<and> b \<in> set (in_refs (snd p)) \<and> b \<in> fst ` set classes)"
    unfolding set_map set_filter by blast
  finally show ?thesis by (metis fst_conv snd_conv prod.collapse)
qed

lemma used_by_iff:
  "(b, a) \<in> set (used_by classes) \<longleftrightarrow> (\<exists>info. (a, info) \<in> set classes \<and> b \<in> set (in_refs info) \<and> b \<in> fst ` set classes) \<and> b \<noteq> a"
proof -
  have "(b, a) \<in> set (used_by classes) \<longleftrightarrow>
      (\<exists>p \<in> set classes. (b, a) \<in> set (map (\<lambda>target. (target, fst p)) (filter (\<lambda>target. target \<noteq> fst p \<and> target \<in> fst ` set classes) (in_refs (snd p)))))"
    by (simp add: used_by_def case_prod_unfold)
  also have "\<dots> \<longleftrightarrow> (\<exists>p \<in> set classes. a = fst p \<and> b \<in> set (in_refs (snd p)) \<and> b \<in> fst ` set classes) \<and> b \<noteq> a"
    unfolding set_map set_filter by blast
  finally show ?thesis by (metis fst_conv snd_conv prod.collapse)
qed

lemma uses_refs: "bt_inv classes \<Longrightarrow> set (uses classes) = class_refs classes"
proof -
  assume "bt_inv classes"
  then have "map_of classes a = Some info \<longleftrightarrow> (a, info) \<in> set classes" for a info by (simp add: bt_inv_distinct map_of_eq_Some_iff)
  then have "(a, b) \<in> set (uses classes) \<longleftrightarrow> (a, b) \<in> class_refs classes" for a b
    by (simp only: uses_iff class_refs_def dom_map_of_conv_image_fst mem_Collect_eq prod.case)
  then show ?thesis by auto
qed

lemma used_by_refs: "bt_inv classes \<Longrightarrow> (set (used_by classes))\<^sup>* = ((class_refs classes)\<^sup>*)\<inverse>"
proof -
  assume inv: "bt_inv classes"
  have "set (used_by classes) = (set (uses classes))\<inverse> - Id" by (auto simp: used_by_iff uses_iff)
  then show ?thesis unfolding uses_refs [OF inv] by (simp add: rtrancl_converse rtrancl_r_diff_Id)
qed

lemma reached_classes_Inr:
  "reached_classes pairs tests cs reached = Inr out \<Longrightarrow>
    set out = set reached \<union> (set pairs)\<^sup>* `` set cs \<and> (\<forall>c \<in> set cs. \<exists>t \<in> set tests. (c, t) \<in> (set pairs)\<^sup>*)"
proof (induction cs arbitrary: reached)
  case (Cons c cs)
  then have t: "list_ex (\<lambda>t. t \<in> set tests) (class_walk pairs c)"
    and r: "reached_classes pairs tests cs (bt_extend (class_walk pairs c) reached) = Inr out" by (simp_all add: Let_def split: if_splits)
  from t have "\<exists>t \<in> set tests. (c, t) \<in> (set pairs)\<^sup>*" by (auto simp: list_ex_iff class_walk_exact)
  with Cons.IH [OF r] show ?case by (auto simp: class_walk_exact)
qed simp

lemma finding_classes_set:
  "set (finding_classes classes tests out) = set out \<union>
    top_level_name ` {t \<in> set tests. \<exists>c. (t, c) \<in> (set (uses classes))\<^sup>* \<and> finds_classes classes c}"
proof (induction tests arbitrary: out)
  case (Cons t tests)
  have "list_ex (finds_classes classes) (class_walk (uses classes) t) \<longleftrightarrow> (\<exists>c. (t, c) \<in> (set (uses classes))\<^sup>* \<and> finds_classes classes c)"
    by (auto simp: list_ex_iff class_walk_exact)
  with Cons.IH show ?case by auto
qed simp

lemma read_classes_inv: "read_classes sha content scan_dir ps r = Inr r' \<Longrightarrow> bt_inv (cr_classes r) \<Longrightarrow> bt_inv (cr_classes r')"
  by (induction sha content scan_dir ps r rule: read_classes.induct) (auto simp: bt_inv_bt_put split: option.splits if_splits)

text \<open>
  What was read: the class of each file by its name, the name by the path, the names of the tests.
  \<open>names\<close> is what every file's class is called.
\<close>

lemma read_classes_result:
  assumes "read_classes sha content scan_dir ps r = Inr r'" "bt_inv (cr_classes r)" "hm_inv (cr_by_path r)"
  shows "\<exists>infos. map (\<lambda>p. class_info_of sha (content p)) ps = map Some infos \<and> bt_inv (cr_classes r') \<and>
    dom (map_of (cr_classes r')) = dom (map_of (cr_classes r)) \<union> in_name ` set infos \<and>
    (\<forall>p. map_of (cr_by_path r') p = (if p \<in> set ps then map_option in_name (class_info_of sha (content p)) else map_of (cr_by_path r) p)) \<and>
    set (cr_tests r') = set (cr_tests r) \<union> {n. \<exists>p \<in> set ps. path_starts_with p scan_dir \<and> map_option in_name (class_info_of sha (content p)) = Some n}"
  using assms
proof (induction ps arbitrary: r)
  case (Cons p ps)
  obtain info where info: "class_info_of sha (content p) = Some info" using Cons.prems(1) by (auto split: option.splits)
  let ?r = "\<lparr>cr_classes = bt_put (in_name info) info (cr_classes r), cr_by_path = hm_put p (in_name info) (cr_by_path r),
     cr_tests = (if path_starts_with p scan_dir then bt_add (in_name info) (cr_tests r) else cr_tests r)\<rparr>"
  have rest: "read_classes sha content scan_dir ps ?r = Inr r'" using Cons.prems(1) info by (auto split: if_splits option.splits)
  have "bt_inv (cr_classes ?r)" "hm_inv (cr_by_path ?r)" using Cons.prems(2,3) by (simp_all add: bt_inv_bt_put hm_inv_hm_put)
  from Cons.IH [OF rest this] obtain infos where i: "map (\<lambda>p. class_info_of sha (content p)) ps = map Some infos" "bt_inv (cr_classes r')"
    "dom (map_of (cr_classes r')) = dom (map_of (cr_classes ?r)) \<union> in_name ` set infos"
    "\<forall>q. map_of (cr_by_path r') q = (if q \<in> set ps then map_option in_name (class_info_of sha (content q)) else map_of (cr_by_path ?r) q)"
    "set (cr_tests r') = set (cr_tests ?r) \<union> {n. \<exists>p \<in> set ps. path_starts_with p scan_dir \<and> map_option in_name (class_info_of sha (content p)) = Some n}"
    by blast
  have "dom (map_of (cr_classes ?r)) = insert (in_name info) (dom (map_of (cr_classes r)))"
    using Cons.prems(2) by (auto simp: map_of_bt_put split: if_splits)
  moreover have "map_of (cr_by_path ?r) q = (if q = p then Some (in_name info) else map_of (cr_by_path r) q)" for q
    by (simp add: map_of_hm_put)
  ultimately show ?case using i info by (intro exI [of _ "info # infos"]) auto
qed simp

definition previous_hash :: "snapshot \<Rightarrow> str \<Rightarrow> str option" where
  "previous_hash previous p = map_of (hash_map (map (\<lambda>e. (fe_path e, fe_hash e)) (sn_files previous))) p"

text \<open>Every early return runs all tests.\<close>

lemma early_returns:
  "changed_files before es = Inl s \<Longrightarrow> \<exists>m. s = SelectAll m"
  "read_classes sha content scan_dir ps r = Inl s \<Longrightarrow> \<exists>m. s = SelectAll m"
  "reached_classes pairs tests cs reached = Inl s \<Longrightarrow> \<exists>m. s = SelectAll m"
proof -
  show "changed_files before es = Inl s \<Longrightarrow> \<exists>m. s = SelectAll m"
    by (induction es) (auto simp: and_then_Inl added_or_removed_def split: option.splits)
  show "read_classes sha content scan_dir ps r = Inl s \<Longrightarrow> \<exists>m. s = SelectAll m"
    by (induction ps arbitrary: r) (auto split: option.splits if_splits)
  show "reached_classes pairs tests cs reached = Inl s \<Longrightarrow> \<exists>m. s = SelectAll m"
    by (induction cs arbitrary: reached) (auto simp: Let_def split: if_splits)
qed

lemma changed_files_Inr:
  "changed_files before es = Inr ps \<Longrightarrow> (\<forall>e \<in> set es. map_of before (fe_path e) \<noteq> None) \<and>
    ps = map fe_path (filter (\<lambda>e. map_of before (fe_path e) \<noteq> Some (fe_hash e)) es)"
  by (induction es arbitrary: ps) (auto simp: and_then_Inr split: option.splits)

text \<open>The names of the classes whose files are not what they were.\<close>

definition changed_names :: "(str \<Rightarrow> str) \<Rightarrow> (str \<Rightarrow> str) \<Rightarrow> snapshot \<Rightarrow> snapshot \<Rightarrow> str set" where
  "changed_names sha content previous now =
     {n. \<exists>e \<in> set (sn_files now). previous_hash previous (fe_path e) \<noteq> Some (fe_hash e) \<and>
        map_option in_name (class_info_of sha (content (fe_path e))) = Some n}"

lemma selection_among_exact:
  assumes "selection_among previous r changed = SelectOnly sel" "bt_inv (cr_classes r)"
  shows "let names = {n. \<exists>p \<in> set changed. map_of (cr_by_path r) p = Some n}; refs = (class_refs (cr_classes r))\<^sup>* in
    set sel = top_level_name ` {t \<in> set (cr_tests r). \<exists>c \<in> names. (t, c) \<in> refs} \<union>
      (if names = {} then {} else top_level_name ` {t \<in> set (cr_tests r). \<exists>c. (t, c) \<in> refs \<and> finds_classes (cr_classes r) c}) \<union>
      {p \<in> set (sn_pending previous). p \<in> top_level_name ` set (cr_tests r)} \<and>
    (\<forall>c \<in> names. \<exists>t \<in> set (cr_tests r). (t, c) \<in> refs)"
proof -
  let ?names = "bt_extend (List.map_filter (map_of (cr_by_path r)) changed) []"
  have names: "set ?names = {n. \<exists>p \<in> set changed. map_of (cr_by_path r) p = Some n}"
    by (auto simp: map_filter_def) force
  have empty: "?names \<noteq> [] \<longleftrightarrow> set ?names \<noteq> {}" by (simp only: set_empty)
  obtain reached where reached: "reached_classes (used_by (cr_classes r)) (cr_tests r) ?names [] = Inr reached"
    and sel: "sel = bt_extend (filter (\<lambda>p. p \<in> set (map top_level_name (cr_tests r))) (sn_pending previous))
      (if ?names \<noteq> [] then bt_extend (finding_classes (cr_classes r) (cr_tests r) [])
          (bt_extend (map top_level_name (filter (\<lambda>c. c \<in> set (cr_tests r)) reached)) [])
       else bt_extend (map top_level_name (filter (\<lambda>c. c \<in> set (cr_tests r)) reached)) [])"
    using assms(1) by (auto simp: selection_among_def Let_def split: sum.splits dest: early_returns(3) simp del: fold_simps)
  have backwards: "(c, t) \<in> (set (used_by (cr_classes r)))\<^sup>* \<longleftrightarrow> (t, c) \<in> (class_refs (cr_classes r))\<^sup>*" for c t
    by (simp add: used_by_refs [OF assms(2)])
  from reached_classes_Inr [OF reached]
  have set_reached: "set reached = {t. \<exists>c \<in> set ?names. (t, c) \<in> (class_refs (cr_classes r))\<^sup>*}"
    and all: "\<forall>c \<in> set ?names. \<exists>t \<in> set (cr_tests r). (t, c) \<in> (class_refs (cr_classes r))\<^sup>*"
    unfolding backwards [symmetric] by auto
  have found: "set (finding_classes (cr_classes r) (cr_tests r) []) =
      top_level_name ` {t \<in> set (cr_tests r). \<exists>c. (t, c) \<in> (class_refs (cr_classes r))\<^sup>* \<and> finds_classes (cr_classes r) c}"
    by (simp add: finding_classes_set uses_refs [OF assms(2)])
  have first: "set (bt_extend (map top_level_name (filter (\<lambda>c. c \<in> set (cr_tests r)) reached)) []) =
      top_level_name ` {t \<in> set (cr_tests r). \<exists>c \<in> set ?names. (t, c) \<in> (class_refs (cr_classes r))\<^sup>*}"
    unfolding set_bt_extend set_map set_filter set_reached by auto
  have "set sel = top_level_name ` {t \<in> set (cr_tests r). \<exists>c \<in> set ?names. (t, c) \<in> (class_refs (cr_classes r))\<^sup>*} \<union>
      (if set ?names = {} then {} else top_level_name ` {t \<in> set (cr_tests r). \<exists>c. (t, c) \<in> (class_refs (cr_classes r))\<^sup>* \<and> finds_classes (cr_classes r) c}) \<union>
      {p \<in> set (sn_pending previous). p \<in> top_level_name ` set (cr_tests r)}"
  proof (cases "?names = []")
    case True
    then have n: "set ?names = {}" by (simp only: list.set(1))
    have nobody: "set (bt_extend (map top_level_name (filter (\<lambda>c. c \<in> set (cr_tests r)) reached)) []) = {}"
      unfolding first n by simp
    show ?thesis unfolding sel set_bt_extend [of "filter _ _"] n True if_not_P [OF not_not [THEN iffD2, OF refl]] nobody by auto
  next
    case False
    then have "set ?names \<noteq> {}" by (simp only: set_empty not_False_eq_True)
    with False show ?thesis unfolding sel if_P [OF False] set_bt_extend [of "finding_classes _ _ _"] set_bt_extend [of "filter _ _"] first found by auto
  qed
  with all show ?thesis unfolding Let_def names by blast
qed

text \<open>
  Property C24. The tests that are selected are exactly the ones a change can reach: those from which, through
  the references of the project's classes, a changed class can be reached; when anything changed, those that reach
  something that finds classes by itself; and those that failed before and are still there. And a
  selection is made only if every changed file is a class some test reaches.
\<close>

theorem selection_exact:
  assumes "select_compare sha content scan_dir previous now = SelectOnly sel"
  shows "\<exists>r. read_classes sha content scan_dir (filter is_class_file (map fe_path (sn_files now)))
      \<lparr>cr_classes = [], cr_by_path = [], cr_tests = []\<rparr> = Inr r \<and>
    (\<forall>e \<in> set (sn_files now). previous_hash previous (fe_path e) = Some (fe_hash e) \<or>
      previous_hash previous (fe_path e) \<noteq> None \<and> is_class_file (fe_path e)) \<and>
    (let names = changed_names sha content previous now; refs = (class_refs (cr_classes r))\<^sup>* in
      set sel = top_level_name ` {t \<in> set (cr_tests r). \<exists>c \<in> names. (t, c) \<in> refs} \<union>
        (if names = {} then {} else top_level_name ` {t \<in> set (cr_tests r). \<exists>c. (t, c) \<in> refs \<and> finds_classes (cr_classes r) c}) \<union>
        {p \<in> set (sn_pending previous). p \<in> top_level_name ` set (cr_tests r)} \<and>
      (\<forall>c \<in> names. \<exists>t \<in> set (cr_tests r). (t, c) \<in> refs))"
proof -
  let ?before = "hash_map (map (\<lambda>e. (fe_path e, fe_hash e)) (sn_files previous))"
  let ?files = "filter is_class_file (map fe_path (sn_files now))"
  let ?start = "\<lparr>cr_classes = [], cr_by_path = [], cr_tests = []\<rparr> :: class_reading"
  obtain changed r where changed: "changed_files ?before (sn_files now) = Inr changed"
    and classes: "find (\<lambda>p. \<not> is_class_file p) changed = None"
    and r: "read_classes sha content scan_dir ?files ?start = Inr r"
    and sel: "selection_among previous r changed = SelectOnly sel"
    using assms unfolding select_compare_def Let_def added_or_removed_def
    by (auto split: sum.splits if_splits option.splits dest: early_returns)
  from changed_files_Inr [OF changed] have known: "\<forall>e \<in> set (sn_files now). previous_hash previous (fe_path e) \<noteq> None"
    and c: "set changed = {fe_path e | e. e \<in> set (sn_files now) \<and> previous_hash previous (fe_path e) \<noteq> Some (fe_hash e)}"
    unfolding previous_hash_def by auto
  have is_class: "\<forall>p \<in> set changed. is_class_file p" using classes by (auto simp: find_None_iff)
  from read_classes_result [OF r] have inv: "bt_inv (cr_classes r)"
    and by_path: "\<forall>p. map_of (cr_by_path r) p = (if p \<in> set ?files then map_option in_name (class_info_of sha (content p)) else None)"
    by auto
  have "{n. \<exists>p \<in> set changed. map_of (cr_by_path r) p = Some n} = changed_names sha content previous now"
  proof -
    have "p \<in> set ?files" if "p \<in> set changed" for p using that is_class c by auto
    then have "{n. \<exists>p \<in> set changed. map_of (cr_by_path r) p = Some n} =
        {n. \<exists>p \<in> set changed. map_option in_name (class_info_of sha (content p)) = Some n}"
      using by_path by auto
    also have "\<dots> = changed_names sha content previous now" unfolding c changed_names_def by blast
    finally show ?thesis .
  qed
  with selection_among_exact [OF sel inv] have "let names = changed_names sha content previous now; refs = (class_refs (cr_classes r))\<^sup>* in
      set sel = top_level_name ` {t \<in> set (cr_tests r). \<exists>c \<in> names. (t, c) \<in> refs} \<union>
        (if names = {} then {} else top_level_name ` {t \<in> set (cr_tests r). \<exists>c. (t, c) \<in> refs \<and> finds_classes (cr_classes r) c}) \<union>
        {p \<in> set (sn_pending previous). p \<in> top_level_name ` set (cr_tests r)} \<and>
      (\<forall>c \<in> names. \<exists>t \<in> set (cr_tests r). (t, c) \<in> refs)"
    by (simp only:)
  moreover have "\<forall>e \<in> set (sn_files now). previous_hash previous (fe_path e) = Some (fe_hash e) \<or>
      previous_hash previous (fe_path e) \<noteq> None \<and> is_class_file (fe_path e)"
    using known is_class c by auto
  ultimately show ?thesis using r by blast
qed

section \<open>The snapshot is read back\<close>

definition snapshot_writable :: "snapshot \<Rightarrow> bool" where
  "snapshot_writable sn \<longleftrightarrow> one_line (sn_settings sn) \<and> sorted (sn_pending sn) \<and> distinct (sn_pending sn) \<and>
     list_all one_line (sn_pending sn) \<and>
     list_all (\<lambda>f. fe_size f < 2 ^ 64 \<and> fe_modified f < 2 ^ 128 \<and> one_word (fe_hash f) \<and> one_line (fe_path f)) (sn_files sn)"

lemma fold_option_append: "fold_option f (a @ b) s = (case fold_option f a s of None \<Rightarrow> None | Some s' \<Rightarrow> fold_option f b s')"
  by (induction a arbitrary: s) (auto split: option.splits)

lemma pending_read:
  "sorted (sn_pending sn @ cs) \<Longrightarrow> distinct (sn_pending sn @ cs) \<Longrightarrow>
    fold_option snapshot_line (map (\<lambda>c. ''pending '' @ c) cs) sn = Some (sn\<lparr>sn_pending := sn_pending sn @ cs\<rparr>)"
proof (induction cs arbitrary: sn)
  case (Cons c cs)
  have key: "split_once '' '' (''pending '' @ c) = Some (''pending'', c)" using split_once_space [of "''pending''" c] by simp
  have "bt_add c (sn_pending sn) = sn_pending sn @ [c]" using Cons.prems by (intro insort_insert_last) (auto simp: sorted_append)
  with Cons.IH [of "sn\<lparr>sn_pending := sn_pending sn @ [c]\<rparr>"] Cons.prems key show ?case by (simp add: snapshot_line_def)
qed simp

lemma files_read:
  "list_all (\<lambda>f. fe_size f < 2 ^ 64 \<and> fe_modified f < 2 ^ 128 \<and> one_word (fe_hash f) \<and> one_line (fe_path f)) fs \<Longrightarrow>
    fold_option snapshot_line (map file_line fs) sn = Some (sn\<lparr>sn_files := sn_files sn @ fs\<rparr>)"
proof (induction fs arbitrary: sn)
  case (Cons f fs)
  have w: "CHR '' '' \<notin> set (dec n)" for n using one_word_no_space [OF one_word_dec] .
  have key: "split_once '' '' (''file '' @ r) = Some (''file'', r)" for r using split_once_space [of "''file''" r] by simp
  have "snapshot_line (file_line f) sn = Some (sn\<lparr>sn_files := sn_files sn @ [f]\<rparr>)"
    using Cons.prems key
    by (auto simp: snapshot_line_def file_line_def eval_nat_numeral splitn_space splitn_last w one_word_no_space parse_uint_dec
        simp del: power_Suc power_numeral)
  with Cons.IH [of "sn\<lparr>sn_files := sn_files sn @ [f]\<rparr>"] Cons.prems show ?case by simp
qed simp

lemma snapshot_roundtrip:
  assumes "snapshot_writable sn"
  shows "snapshot_parse (snapshot_render sn) = Some sn"
proof -
  have "\<forall>l \<in> set (snapshot_lines sn). one_line l"
    using assms by (auto simp: snapshot_lines_def snapshot_writable_def snapshot_header_def file_line_def list_all_iff one_wordD [OF one_word_dec] one_word_def)
  then have lines: "text_lines (snapshot_render sn) = snapshot_lines sn" unfolding snapshot_render_def by (rule text_lines_written)
  let ?start = "\<lparr>sn_settings = sn_settings sn, sn_files = [], sn_pending = []\<rparr>"
  have "fold_option snapshot_line (map (\<lambda>c. ''pending '' @ c) (sn_pending sn) @ map file_line (sn_files sn)) ?start = Some sn"
  proof -
    have p: "fold_option snapshot_line (map (\<lambda>c. ''pending '' @ c) (sn_pending sn)) ?start = Some (?start\<lparr>sn_pending := sn_pending sn\<rparr>)"
      using pending_read [of ?start "sn_pending sn"] assms by (simp add: snapshot_writable_def)
    have f: "fold_option snapshot_line (map file_line (sn_files sn)) (?start\<lparr>sn_pending := sn_pending sn\<rparr>) = Some sn"
      using files_read [of "sn_files sn" "?start\<lparr>sn_pending := sn_pending sn\<rparr>"] assms by (simp add: snapshot_writable_def)
    show ?thesis by (simp only: fold_option_append p option.case f)
  qed
  moreover have "strip_prefix ''settings '' (''settings '' @ sn_settings sn) = Some (sn_settings sn)" by (simp only: strip_prefix_Some)
  moreover have "snapshot_lines sn = snapshot_header # (''settings '' @ sn_settings sn) #
      (map (\<lambda>c. ''pending '' @ c) (sn_pending sn) @ map file_line (sn_files sn))"
    by (simp add: snapshot_lines_def)
  ultimately show ?thesis unfolding snapshot_parse_def lines by (simp del: append_Cons append.simps)
qed

section \<open>Concrete inputs\<close>

text \<open>A test class \<^verbatim>\<open>T\<close> that refers to \<^verbatim>\<open>A\<close>: the second entry of its pool but one is the name of a class.\<close>

definition test_class :: str where
  "test_class = map byte_of ([0xCA, 0xFE, 0xBA, 0xBE, 0, 0, 0, 52, 0, 5] @ [1, 0, 1, 84] @ [7, 0, 1] @ [1, 0, 1, 65] @ [7, 0, 3] @
     [0, 33, 0, 2, 0, 0, 0, 0, 0, 0, 0, 0, 0, 0])"

definition demo_content :: "str \<Rightarrow> str" where
  "demo_content p = (if p = ''c/A.class'' then tiny_class else test_class)"

definition demo_before :: snapshot where
  "demo_before = \<lparr>sn_settings = ''s'', sn_files = [\<lparr>fe_path = ''c/A.class'', fe_size = 1, fe_modified = 1, fe_hash = ''1''\<rparr>,
     \<lparr>fe_path = ''t/T.class'', fe_size = 1, fe_modified = 1, fe_hash = ''2''\<rparr>], sn_pending = []\<rparr>"

definition demo_now :: snapshot where
  "demo_now = \<lparr>sn_settings = ''s'', sn_files = [\<lparr>fe_path = ''c/A.class'', fe_size = 1, fe_modified = 2, fe_hash = ''3''\<rparr>,
     \<lparr>fe_path = ''t/T.class'', fe_size = 1, fe_modified = 1, fe_hash = ''2''\<rparr>], sn_pending = []\<rparr>"

lemma selection_exact_witness:
  "\<exists>r. read_classes (\<lambda>b. b) demo_content ''t'' (filter is_class_file (map fe_path (sn_files demo_now)))
      \<lparr>cr_classes = [], cr_by_path = [], cr_tests = []\<rparr> = Inr r \<and>
    top_level_name ` {t \<in> set (cr_tests r). \<exists>c \<in> changed_names (\<lambda>b. b) demo_content demo_before demo_now. (t, c) \<in> (class_refs (cr_classes r))\<^sup>*} \<subseteq> {''T''}"
proof -
  have "select_compare (\<lambda>b. b) demo_content ''t'' demo_before demo_now = SelectOnly [''T'']" by code_simp
  from selection_exact [OF this] obtain r where r: "read_classes (\<lambda>b. b) demo_content ''t'' (filter is_class_file (map fe_path (sn_files demo_now)))
      \<lparr>cr_classes = [], cr_by_path = [], cr_tests = []\<rparr> = Inr r"
    and sel: "let names = changed_names (\<lambda>b. b) demo_content demo_before demo_now; refs = (class_refs (cr_classes r))\<^sup>* in
      set [''T''] = top_level_name ` {t \<in> set (cr_tests r). \<exists>c \<in> names. (t, c) \<in> refs} \<union>
        (if names = {} then {} else top_level_name ` {t \<in> set (cr_tests r). \<exists>c. (t, c) \<in> refs \<and> finds_classes (cr_classes r) c}) \<union>
        {p \<in> set (sn_pending demo_before). p \<in> top_level_name ` set (cr_tests r)} \<and>
      (\<forall>c \<in> names. \<exists>t \<in> set (cr_tests r). (t, c) \<in> refs)"
    by blast
  have "set [''T''] = {''T''}" by simp
  with sel have "top_level_name ` {t \<in> set (cr_tests r). \<exists>c \<in> changed_names (\<lambda>b. b) demo_content demo_before demo_now. (t, c) \<in> (class_refs (cr_classes r))\<^sup>*} \<subseteq> {''T''}"
    unfolding Let_def by blast
  with r show ?thesis by blast
qed

end
