(* ===== verification/Validate.thy ===== *)
theory Validate
  imports Paths Toml
begin

text \<open>
  \<^verbatim>\<open>src/src/manifest/validate.rs\<close>: the checks a manifest's values pass beyond their types, with the
  arguments Groovy's \<^verbatim>\<open>javac\<close> can be handed (\<^verbatim>\<open>compile/lang.rs\<close>) and the names a resource may use
  (\<^verbatim>\<open>expand.rs\<close>). What Unicode counts as alphanumeric beyond ASCII is an argument, \<open>alnum\<close>, on the UTF-8
  encoding of a character.
\<close>

section \<open>Characters\<close>

text \<open>The characters of a string, each as its bytes: a byte that continues a character goes with the one before.\<close>

definition continues :: "char \<Rightarrow> bool" where
  "continues c \<longleftrightarrow> of_char c div 64 = (2 :: nat)"

function chars :: "str \<Rightarrow> str list" where
  "chars [] = []"
| "chars (c # cs) = (c # takeWhile continues cs) # chars (dropWhile continues cs)"
  by pat_completeness auto
termination
  by (relation "measure length") (auto simp: le_imp_less_Suc length_dropWhile_le)

definition is_alphanumeric :: "(str \<Rightarrow> bool) \<Rightarrow> str \<Rightarrow> bool" where
  "is_alphanumeric alnum ch = (case ch of [c] \<Rightarrow> is_ascii_alphanumeric c | _ \<Rightarrow> alnum ch)"

definition is_ascii_lowercase :: "char \<Rightarrow> bool" where
  "is_ascii_lowercase c \<longleftrightarrow> c \<in> set lower_ascii"

definition is_ascii_alphabetic :: "char \<Rightarrow> bool" where
  "is_ascii_alphabetic c \<longleftrightarrow> c \<in> set upper_ascii \<or> c \<in> set lower_ascii"

definition to_upper :: "char \<Rightarrow> char" where
  "to_upper c = (case map_of (zip lower_ascii upper_ascii) c of None \<Rightarrow> c | Some u \<Rightarrow> u)"

definition to_ascii_uppercase :: "str \<Rightarrow> str" where
  "to_ascii_uppercase s = map to_upper s"

definition eq_ignore_ascii_case :: "str \<Rightarrow> str \<Rightarrow> bool" where
  "eq_ignore_ascii_case a b \<longleftrightarrow> to_ascii_lowercase a = to_ascii_lowercase b"

definition replace_char :: "char \<Rightarrow> char \<Rightarrow> str \<Rightarrow> str" where
  "replace_char a b s = map (\<lambda>c. if c = a then b else c) s"

text \<open>A message inside another one.\<close>

fun within :: "str \<Rightarrow> str list \<Rightarrow> message \<Rightarrow> message" where
  "within t vs (Msg s ws) = Msg (t @ '': '' @ s) (vs @ ws)"

abbreviation mf_err :: "str \<Rightarrow> str list \<Rightarrow> jrs_error" where
  "mf_err s vs \<equiv> ManifestErr (Msg s vs)"

section \<open>Names\<close>

definition valid_group_pattern :: "str \<Rightarrow> bool" where
  "valid_group_pattern pattern \<longleftrightarrow>
     (let base = value_or pattern (strip_suffix ''.*'' pattern) in
      base \<noteq> [] \<and> \<not> starts_with ''.'' base \<and> \<not> ends_with ''.'' base \<and> \<not> contains ''..'' base \<and>
      list_all (\<lambda>c. is_ascii_alphanumeric c \<or> c = CHR ''.'' \<or> c = CHR ''-'' \<or> c = CHR ''_'') base)"

definition check_project_group :: "str \<Rightarrow> str \<Rightarrow> unit result" where
  "check_project_group grp key =
     ensure (valid_group_pattern grp \<and> \<not> ends_with ''.*'' grp) (mf_err ''is not a Maven group'' [key, grp])"

definition well_formed_name :: "str \<Rightarrow> bool" where
  "well_formed_name name \<longleftrightarrow> (case name of [] \<Rightarrow> False | c # _ \<Rightarrow> is_ascii_lowercase c) \<and>
     list_all (\<lambda>c. is_ascii_lowercase c \<or> is_ascii_digit c \<or> c = CHR ''-'') name"

definition validate_task_name :: "str \<Rightarrow> unit result" where
  "validate_task_name name =
     and_then (ensure (well_formed_name name) (mf_err ''a task name is lowercase letters, digits and -'' [name])) (\<lambda>_.
     ensure (name \<notin> set reserved_task_names) (mf_err ''is a jrs command, so it cannot be a task name'' [name]))"

definition validate_name :: "str \<Rightarrow> unit result" where
  "validate_name name =
     and_then (ensure (trim name \<noteq> []) (mf_err ''project.name must not be empty'' [])) (\<lambda>_.
     ensure (\<not> (list_ex (\<lambda>c. c \<in> {CHR ''/'', CHR 0x5C, CHR '':'', CHR 0x00}) name \<or> name = ''.'' \<or> name = ''..''))
       (mf_err ''project.name must be a valid file name'' [name]))"

definition validate_class_name :: "(str \<Rightarrow> bool) \<Rightarrow> str \<Rightarrow> str \<Rightarrow> unit result" where
  "validate_class_name alnum cls key =
     ensure (cls \<noteq> [] \<and> \<not> starts_with ''.'' cls \<and> \<not> ends_with ''.'' cls \<and> \<not> contains ''..'' cls \<and>
         list_all (\<lambda>ch. is_alphanumeric alnum ch \<or> ch = ''.'' \<or> ch = ''_'' \<or> ch = ''$'') (chars cls))
       (mf_err ''must be a fully-qualified class name'' [key, cls])"

definition package_segment :: "str \<Rightarrow> bool" where
  "package_segment s \<longleftrightarrow>
     (case s of [] \<Rightarrow> False | c # _ \<Rightarrow> is_ascii_alphabetic c \<or> c = CHR ''_'' \<or> c = CHR ''$'') \<and>
     list_all (\<lambda>c. is_ascii_alphanumeric c \<or> c = CHR ''_'' \<or> c = CHR ''$'') s"

definition validate_package_name :: "str \<Rightarrow> str \<Rightarrow> unit result" where
  "validate_package_name name key =
     ensure (name \<noteq> [] \<and> list_all package_segment (split_on CHR ''.'' name))
       (mf_err ''is not a package name'' [key, name])"

definition validate_attribute_name :: "str \<Rightarrow> message + unit" where
  "validate_attribute_name name =
     (case name of
        [] \<Rightarrow> Inl (Msg ''an attribute name is an ASCII letter or digit, then letters, digits, - and _'' [])
      | c # cs \<Rightarrow>
          if \<not> is_ascii_alphanumeric c \<or> \<not> list_all (\<lambda>d. is_ascii_alphanumeric d \<or> d = CHR ''-'' \<or> d = CHR ''_'') cs
          then Inl (Msg ''an attribute name is an ASCII letter or digit, then letters, digits, - and _'' [])
          else if 70 < length name then Inl (Msg ''an attribute name is at most 70 bytes'' [dec (length name)])
          else Inr ())"

definition valid_property_name :: "(str \<Rightarrow> bool) \<Rightarrow> str \<Rightarrow> bool" where
  "valid_property_name alnum name \<longleftrightarrow> name \<noteq> [] \<and>
     list_all (\<lambda>ch. is_alphanumeric alnum ch \<or> ch = ''.'' \<or> ch = ''-'' \<or> ch = ''_'') (chars name)"

section \<open>The version of jrs\<close>

definition cargo_pkg_version :: str where "cargo_pkg_version = ''0.16.0''"

definition release_part :: "str \<Rightarrow> nat option" where
  "release_part p = (if p \<noteq> [] \<and> list_all is_ascii_digit p then parse_uint 64 p else None)"

definition release_parts :: "str \<Rightarrow> nat list option" where
  "release_parts version =
     (let parts = split_on CHR ''.'' version in
      if length parts < 2 \<or> 3 < length parts then None
      else if list_ex (\<lambda>p. release_part p = None) parts then None
      else Some (map (\<lambda>p. the (release_part p)) parts @ replicate (3 - length parts) 0))"

fun release_le :: "nat list \<Rightarrow> nat list \<Rightarrow> bool" where
  "release_le (a # as) (b # bs) \<longleftrightarrow> a < b \<or> a = b \<and> release_le as bs"
| "release_le [] _ \<longleftrightarrow> True"
| "release_le (_ # _) [] \<longleftrightarrow> False"

definition check_jrs_version :: "str \<Rightarrow> str \<Rightarrow> str \<Rightarrow> unit result" where
  "check_jrs_version required running p =
     (let numeric = takeWhile (\<lambda>c. c \<noteq> CHR ''-'' \<and> c \<noteq> CHR ''+'') running in
      case (release_parts required, release_parts numeric) of
        (Some needed, Some have) \<Rightarrow>
          ensure (release_le needed have)
            (mf_err ''needs a newer jrs (project.jrs-version)'' [p, required, running, join_with ''.'' (map dec needed)])
      | _ \<Rightarrow> Inr ())"

section \<open>Placeholders\<close>

text \<open>Where a path is meant there is no classpath, no port and no argfile.\<close>

definition check_path_templates :: "task_def \<Rightarrow> str \<Rightarrow> unit result" where
  "check_path_templates task section' =
     for_each (\<lambda>(key, t).
       and_then (case find is_classpath (placeholders t) of
           Some p \<Rightarrow> Inl (mf_err ''is a classpath, not a path'' [section', key, placeholder_name p])
         | None \<Rightarrow> Inr ()) (\<lambda>_.
       and_then (ensure (\<not> has_free_port t) (mf_err ''free-port is a port, not a path'' [section', key])) (\<lambda>_.
       ensure (PhSourcesArgfile \<notin> set (placeholders t)) (mf_err ''sources-argfile is written when the task runs'' [section', key]))))
     (path_templates task @ (case td_cwd task of None \<Rightarrow> [] | Some t \<Rightarrow> [(''cwd'', t)]))"

fun task_only :: "placeholder \<Rightarrow> str option" where
  "task_only PhJar = Some ''jrs run and jrs test do not package, so there is no jar''"
| "task_only PhClasspathArgfile = Some ''the argfile is a task's own; use a classpath''"
| "task_only PhSourcesArgfile = Some ''the argfile is a task's own''"
| "task_only _ = None"

definition refuse_task_placeholders :: "template \<Rightarrow> str \<Rightarrow> unit result" where
  "refuse_task_placeholders t key =
     for_each (\<lambda>p. case task_only p of
         Some why \<Rightarrow> Inl (mf_err (''has no value here: '' @ why) [key, placeholder_name p])
       | None \<Rightarrow> Inr ()) (placeholders t)"

section \<open>Dependencies\<close>

definition check_classifier :: "dependency \<Rightarrow> str \<Rightarrow> str \<Rightarrow> unit result" where
  "check_classifier d section' key =
     (case dep_classifier d of
        None \<Rightarrow> Inr ()
      | Some c \<Rightarrow>
          ensure (\<not> list_ex (\<lambda>x. x = CHR ''{'' \<or> x = CHR ''}'') (replace_all os_classifier [] c))
            (mf_err ''the classifier holds a placeholder jrs does not know'' [section', key, c]))"

definition check_versionless :: "dependency list \<Rightarrow> dependency list \<Rightarrow> managed list \<Rightarrow> unit result" where
  "check_versionless ds devs ms =
     (if list_ex mg_bom ms then Inr ()
      else for_each (\<lambda>(section', d).
          ensure (\<not> (is_managed d \<and> \<not> list_ex (\<lambda>m. mg_group m = dep_group d \<and> mg_artifact m = dep_artifact d) ms))
            (mf_err (''has no version, and '' @ (if ms = [] then ''there is no [managed] table'' else ''[managed] does not name it''))
              [section', dep_key d, dep_group d, dep_artifact d]))
        (map (\<lambda>d. (''dependencies'', d)) ds @ map (\<lambda>d. (''dev-dependencies'', d)) devs))"

definition check_one_classpath :: "dependency \<Rightarrow> str \<Rightarrow> unit result" where
  "check_one_classpath d section' =
     ensure (\<not> (dep_compile_only d \<and> dep_runtime_only d)) (mf_err ''is both compile-only and runtime-only'' [section', dep_key d])"

section \<open>Languages\<close>

definition javac_value_options :: "str list" where
  "javac_value_options =
     [''-classpath'', ''-cp'', ''--class-path'', ''-bootclasspath'', ''--boot-class-path'', ''-d'', ''-s'', ''-h'', ''-encoding'',
      ''-source'', ''--source'', ''-target'', ''--target'', ''--release'', ''-processor'', ''-processorpath'', ''--processor-path'',
      ''--processor-module-path'', ''-sourcepath'', ''--source-path'', ''-extdirs'', ''-endorseddirs'', ''-p'', ''--module-path'',
      ''--upgrade-module-path'', ''--system'', ''--add-modules'', ''--limit-modules'', ''--add-exports'', ''--add-reads'',
      ''--patch-module'', ''-m'', ''--module'', ''--module-source-path'', ''--module-version'', ''--default-module-for-created-files'',
      ''-Xmaxerrs'', ''-Xmaxwarns'', ''-Xstdout'']"

fun groovy_javac_args :: "str list \<Rightarrow> message + str list" where
  "groovy_javac_args [] = Inr []"
| "groovy_javac_args (arg # args) =
     (if arg \<in> set javac_value_options then
        (case args of
           [] \<Rightarrow> Inl (Msg ''needs a value after it, to be handed to Groovy's joint javac'' [arg])
         | v # rest \<Rightarrow>
             let name = drop 1 arg in
             and_then (groovy_javac_args rest) (\<lambda>out.
               Inr (((if starts_with ''-'' name then ''-F='' else ''-J='') @ name @ ''='' @ v) # out)))
      else case strip_prefix ''-'' arg of
        Some (c # flag) \<Rightarrow> and_then (groovy_javac_args args) (\<lambda>out. Inr ((''-F='' @ c # flag) # out))
      | _ \<Rightarrow> Inl (Msg ''is not a flag, nor the value of one jrs knows to take a value'' [arg]))"

definition encoding_warnings :: "manifest \<Rightarrow> message list" where
  "encoding_warnings m =
     (let encoding = replace_char CHR ''_'' CHR ''-'' (to_ascii_uppercase (jc_encoding (mf_java m))) in
      if encoding \<noteq> ''UTF-8'' \<and> encoding \<noteq> ''UTF8'' then [Msg ''kotlinc reads sources as UTF-8 only'' [jc_encoding (mf_java m)]] else [])"

definition library_warnings :: "manifest \<Rightarrow> language_config \<Rightarrow> message list" where
  "library_warnings m config = concat (map (\<lambda>(grp, artifact).
     case find (\<lambda>d. dep_group d = grp \<and> dep_artifact d = artifact \<and> dep_classifier d = None) (mf_dependencies m @ mf_dev_dependencies m) of
       Some d \<Rightarrow> if dep_version d \<noteq> lc_version config
         then [Msg ''is declared at another version than the compiler; keep the two in step'' [grp, artifact, dep_version d, lang_key (lc_language config), lc_version config]]
         else []
     | None \<Rightarrow> []) (runtime_libraries (lc_language config) (lc_version config)))"

definition check_language :: "manifest \<Rightarrow> language_config \<Rightarrow> message list result" where
  "check_language m config =
     and_then (case lc_language config of
         Groovy \<Rightarrow> (case groovy_javac_args (jc_javac_args (mf_java m)) of
             Inl e \<Rightarrow> Inl (ManifestErr (within ''java.javac-args, which groovyc hands to javac'' [] e))
           | Inr _ \<Rightarrow> Inr [])
       | Kotlin \<Rightarrow> Inr (encoding_warnings m)
       | _ \<Rightarrow> Inr []) (\<lambda>ws. Inr (ws @ library_warnings m config))"

definition check_languages :: "manifest \<Rightarrow> message list result" where
  "check_languages m = and_then (collect (map (check_language m) (mf_languages m))) (\<lambda>wss. Inr (concat wss))"

end
