(* ===== verification/Graphs.thy ===== *)
theory Graphs
  imports Prelude
begin

text \<open>
  Depth-first walks. jrs walks three graphs looking for a cycle (the tasks of a manifest, the
  members of a workspace, the tasks across members), each with its own bookkeeping. The locale
  says what the three have in common: a visit skips what is finished, reports what is open as
  a cycle, and otherwise opens a node, visits what it points at and finishes it. Its lemmas are
  what such a walk is worth: a reported cycle is one, a node that is finished reaches none, and
  the walk ends.
\<close>

text \<open>A node from which every path ends.\<close>

inductive grounded :: "('s \<Rightarrow> 'n) \<Rightarrow> ('n \<Rightarrow> 's list) \<Rightarrow> 'n \<Rightarrow> bool"
  for node :: "'s \<Rightarrow> 'n" and succ :: "'n \<Rightarrow> 's list" where
  "(\<And>s. s \<in> set (succ n) \<Longrightarrow> grounded node succ (node s)) \<Longrightarrow> grounded node succ n"

inductive_cases groundedE: "grounded node succ n"

text \<open>A path: each step is one the node of the step before points at.\<close>

fun walks :: "('s \<Rightarrow> 'n) \<Rightarrow> ('n \<Rightarrow> 's list) \<Rightarrow> 's list \<Rightarrow> bool" where
  "walks node succ (s # t # path) \<longleftrightarrow> t \<in> set (succ (node s)) \<and> walks node succ (t # path)"
| "walks node succ _ \<longleftrightarrow> True"

definition is_cycle :: "('s \<Rightarrow> 'n) \<Rightarrow> ('n \<Rightarrow> 's list) \<Rightarrow> 's list \<Rightarrow> bool" where
  "is_cycle node succ c \<longleftrightarrow> 2 \<le> length c \<and> walks node succ c \<and> node (hd c) = node (last c)"

lemma walks_append1:
  "walks node succ (path @ [s]) \<longleftrightarrow> walks node succ path \<and> (path \<noteq> [] \<longrightarrow> s \<in> set (succ (node (last path))))"
  by (induction node succ path rule: walks.induct) auto

lemma walks_drop: "walks node succ path \<Longrightarrow> walks node succ (drop k path)"
proof (induction node succ path arbitrary: k rule: walks.induct)
  case (1 node succ s t path)
  then show ?case by (cases k) auto
qed (simp_all add: drop_Cons' split: nat.splits)

definition points_at :: "('s \<Rightarrow> 'n) \<Rightarrow> ('n \<Rightarrow> 's list) \<Rightarrow> ('n \<times> 'n) set" where
  "points_at node succ = {(n, node s) |n s. s \<in> set (succ n)}"

lemma points_atI: "s \<in> set (succ n) \<Longrightarrow> (n, node s) \<in> points_at node succ"
  by (auto simp: points_at_def)

lemma grounded_acyclic: "grounded node succ n \<Longrightarrow> (n, n) \<notin> (points_at node succ)\<^sup>+"
proof (induction rule: grounded.induct)
  case (1 n)
  show ?case
  proof
    assume "(n, n) \<in> (points_at node succ)\<^sup>+"
    then obtain m where m: "(n, m) \<in> points_at node succ" "(m, n) \<in> (points_at node succ)\<^sup>*"
      by (meson tranclD)
    then have "(m, m) \<in> (points_at node succ)\<^sup>+" by (meson rtrancl_into_trancl1)
    with 1 m(1) show False by (auto simp: points_at_def)
  qed
qed

lemma walks_trancl: "walks node succ (s # path) \<Longrightarrow> path \<noteq> [] \<Longrightarrow> (node s, node (last path)) \<in> (points_at node succ)\<^sup>+"
proof (induction path arbitrary: s)
  case (Cons t path)
  then have "(node s, node t) \<in> points_at node succ" by (auto intro: points_atI)
  with Cons show ?case by (cases "path = []") (auto intro: trancl_into_trancl2)
qed simp

text \<open>A cycle is one for ever: none of its nodes is grounded.\<close>

lemma cycle_not_grounded:
  assumes "is_cycle node succ c"
  shows "\<not> grounded node succ (node (hd c))"
proof -
  obtain s path where c: "c = s # path" "path \<noteq> []"
    using assms by (cases c; cases "tl c") (auto simp: is_cycle_def)
  with assms walks_trancl [of node succ s path] have "(node s, node s) \<in> (points_at node succ)\<^sup>+"
    by (simp add: is_cycle_def)
  with grounded_acyclic c show ?thesis by fastforce
qed

lemma cycle_at:
  assumes "walks node succ (path @ [s])" and "position (\<lambda>t. node t = node s) path = Some i"
  shows "is_cycle node succ (drop i path @ [s])"
proof -
  have i: "i < length path" "node (path ! i) = node s" using assms(2) by (auto simp: position_Some)
  then have "drop i path @ [s] = drop i (path @ [s])" by simp
  with walks_drop [OF assms(1)] have "walks node succ (drop i path @ [s])" by metis
  moreover have "hd (drop i path @ [s]) = path ! i" using i(1) by (simp add: hd_append hd_drop_conv_nth)
  ultimately show ?thesis using i by (simp add: is_cycle_def)
qed

section \<open>The walk\<close>

locale depth_first =
  fixes node :: "'s \<Rightarrow> 'n" and succ :: "'n \<Rightarrow> 's list"
    and finished :: "'st \<Rightarrow> 'n set" and ok :: "'st \<Rightarrow> 's list \<Rightarrow> bool"
    and enter :: "'n \<Rightarrow> 'st \<Rightarrow> 'st" and leave :: "'n \<Rightarrow> 'st \<Rightarrow> 'st"
    and visit :: "nat \<Rightarrow> 's \<Rightarrow> 'st \<Rightarrow> 's list \<Rightarrow> ('s list + 'st) option"
    and visit_all :: "nat \<Rightarrow> 's list \<Rightarrow> 'st \<Rightarrow> 's list \<Rightarrow> ('s list + 'st) option"
  assumes visit_0: "visit 0 s st path = None"
    and visit_finished: "ok st path \<Longrightarrow> node s \<in> finished st \<Longrightarrow> visit (Suc n) s st path = Some (Inr st)"
    and visit_open: "ok st path \<Longrightarrow> node s \<notin> finished st \<Longrightarrow> position (\<lambda>t. node t = node s) path = Some i \<Longrightarrow>
      visit (Suc n) s st path = Some (Inl (drop i path @ [s]))"
    and visit_new: "ok st path \<Longrightarrow> node s \<notin> finished st \<Longrightarrow> position (\<lambda>t. node t = node s) path = None \<Longrightarrow>
      visit (Suc n) s st path =
        (case visit_all n (succ (node s)) (enter (node s) st) (path @ [s]) of
           None \<Rightarrow> None | Some (Inl c) \<Rightarrow> Some (Inl c) | Some (Inr st') \<Rightarrow> Some (Inr (leave (node s) st')))"
    and visit_all_Nil: "visit_all n [] st path = Some (Inr st)"
    and visit_all_Cons: "visit_all n (s # ss) st path =
      (case visit n s st path of
         None \<Rightarrow> None | Some (Inl c) \<Rightarrow> Some (Inl c) | Some (Inr st') \<Rightarrow> visit_all n ss st' path)"
    and ok_enter: "ok st path \<Longrightarrow> node s \<notin> finished st \<Longrightarrow> node s \<notin> node ` set path \<Longrightarrow> ok (enter (node s) st) (path @ [s])"
    and finished_enter: "node s \<notin> finished st \<Longrightarrow> finished (enter (node s) st) = finished st"
    and ok_leave: "ok st (path @ [s]) \<Longrightarrow> ok (leave (node s) st) path"
    and finished_leave: "finished (leave k st) = insert k (finished st)"
begin

definition sound :: "'st \<Rightarrow> 'n set \<Rightarrow> 's list \<Rightarrow> 's list + 'st \<Rightarrow> bool" where
  "sound st ns path r = (case r of
     Inl c \<Rightarrow> is_cycle node succ c
   | Inr st' \<Rightarrow> ok st' path \<and> finished st \<union> ns \<subseteq> finished st' \<and> (\<forall>n \<in> finished st'. grounded node succ n))"

lemma sound_both:
  "(\<forall>s st path r. visit n s st path = Some r \<longrightarrow> ok st path \<longrightarrow> walks node succ (path @ [s]) \<longrightarrow>
      (\<forall>n \<in> finished st. grounded node succ n) \<longrightarrow> sound st {node s} path r) \<and>
   (\<forall>st path r. visit_all n ss st path = Some r \<longrightarrow> ok st path \<longrightarrow> (\<forall>s \<in> set ss. walks node succ (path @ [s])) \<longrightarrow>
      (\<forall>n \<in> finished st. grounded node succ n) \<longrightarrow> sound st (node ` set ss) path r)"
proof (induction n arbitrary: ss)
  case 0
  show ?case by (cases ss) (auto simp: visit_0 visit_all_Nil visit_all_Cons sound_def)
next
  case (Suc n)
  have one: "sound st {node s} path r"
    if v: "visit (Suc n) s st path = Some r" and ok: "ok st path" and w: "walks node succ (path @ [s])"
      and g: "\<forall>n \<in> finished st. grounded node succ n" for s st path r
  proof (cases "node s \<in> finished st")
    case True
    with v visit_finished [OF ok] ok g show ?thesis by (auto simp: sound_def)
  next
    case False
    show ?thesis
    proof (cases "position (\<lambda>t. node t = node s) path")
      case (Some i)
      with v visit_open [OF ok False Some] cycle_at [OF w Some] show ?thesis by (auto simp: sound_def)
    next
      case None
      then have fresh: "node s \<notin> node ` set path" by (auto simp: position_None)
      let ?r = "visit_all n (succ (node s)) (enter (node s) st) (path @ [s])"
      obtain q where q: "?r = Some q" using v visit_new [OF ok False None] by (cases ?r) auto
      have "\<forall>t \<in> set (succ (node s)). walks node succ ((path @ [s]) @ [t])"
        using w by (subst walks_append1) simp
      then have sq: "sound (enter (node s) st) (node ` set (succ (node s))) (path @ [s]) q"
        using Suc.IH [of "succ (node s)"] q ok_enter [OF ok False fresh] finished_enter [OF False] g by blast
      show ?thesis
      proof (cases q)
        case (Inl c)
        with sq q v visit_new [OF ok False None] show ?thesis by (auto simp: sound_def)
      next
        case (Inr st')
        with q v visit_new [OF ok False None] have r: "r = Inr (leave (node s) st')" by simp
        from sq Inr have st': "ok st' (path @ [s])" "finished st \<union> node ` set (succ (node s)) \<subseteq> finished st'"
          "\<forall>n \<in> finished st'. grounded node succ n" by (auto simp: sound_def finished_enter [OF False])
        have "grounded node succ (node s)"
        proof (rule grounded.intros)
          fix t
          assume "t \<in> set (succ (node s))"
          with st'(2) have "node t \<in> finished st'" by blast
          with st'(3) show "grounded node succ (node t)" by blast
        qed
        with st' show ?thesis by (auto simp: r sound_def finished_leave ok_leave)
      qed
    qed
  qed
  have "sound st (node ` set ss) path r"
    if "visit_all (Suc n) ss st path = Some r" "ok st path" "\<forall>s \<in> set ss. walks node succ (path @ [s])"
      "\<forall>n \<in> finished st. grounded node succ n" for st path r
    using that
  proof (induction ss arbitrary: st)
    case Nil
    then have "r = Inr st" by (simp add: visit_all_Nil)
    with Nil show ?case by (simp add: sound_def)
  next
    case (Cons s ss)
    obtain q where q: "visit (Suc n) s st path = Some q"
      using Cons.prems(1) by (auto simp: visit_all_Cons split: option.splits)
    have sq: "sound st {node s} path q" using one [OF q Cons.prems(2) _ Cons.prems(4)] Cons.prems(3) by simp
    show ?case
    proof (cases q)
      case (Inl c)
      with q sq Cons.prems(1) show ?thesis by (auto simp: visit_all_Cons sound_def)
    next
      case (Inr st')
      with q Cons.prems(1) have "visit_all (Suc n) ss st' path = Some r" by (simp add: visit_all_Cons)
      with Cons.IH [of st'] sq Inr Cons.prems(3) have "sound st' (node ` set ss) path r" by (simp add: sound_def)
      with sq Inr show ?thesis by (auto simp: sound_def split: sum.splits)
    qed
  qed
  with one show ?case by blast
qed

text \<open>A walk over finitely many nodes with successors ends when the fuel covers the ones not open.\<close>

lemma visit_returns:
  assumes "finite U" and "\<And>n. succ n \<noteq> [] \<Longrightarrow> n \<in> U"
  shows "(\<forall>s st path. ok st path \<longrightarrow> (\<forall>n \<in> finished st. grounded node succ n) \<longrightarrow> walks node succ (path @ [s]) \<longrightarrow>
      card (U - node ` set path) < n \<longrightarrow> visit n s st path \<noteq> None) \<and>
    (\<forall>st path. ok st path \<longrightarrow> (\<forall>n \<in> finished st. grounded node succ n) \<longrightarrow> (\<forall>s \<in> set ss. walks node succ (path @ [s])) \<longrightarrow>
      card (U - node ` set path) < n \<or> ss = [] \<longrightarrow> visit_all n ss st path \<noteq> None)"
proof (induction n arbitrary: ss)
  case 0
  show ?case by (auto simp: visit_all_Nil)
next
  case (Suc n)
  have one: "visit (Suc n) s st path \<noteq> None"
    if ok: "ok st path" and g: "\<forall>n \<in> finished st. grounded node succ n" and w: "walks node succ (path @ [s])"
      and c: "card (U - node ` set path) < Suc n" for s st path
  proof (cases "node s \<in> finished st")
    case True
    with visit_finished [OF ok] show ?thesis by simp
  next
    case False
    show ?thesis
    proof (cases "position (\<lambda>t. node t = node s) path")
      case (Some i)
      with visit_open [OF ok False] show ?thesis by simp
    next
      case None
      then have fresh: "node s \<notin> node ` set path" by (auto simp: position_None)
      have "succ (node s) = [] \<or> card (U - node ` set (path @ [s])) < n"
      proof (cases "node s \<in> U")
        case True
        then have "U - node ` set (path @ [s]) \<subset> U - node ` set path" using fresh by auto
        with assms(1) have "card (U - node ` set (path @ [s])) < card (U - node ` set path)"
          by (intro psubset_card_mono) auto
        with c show ?thesis by simp
      qed (use assms(2) in blast)
      moreover have "\<forall>t \<in> set (succ (node s)). walks node succ ((path @ [s]) @ [t])"
        using w by (subst walks_append1) simp
      ultimately have "visit_all n (succ (node s)) (enter (node s) st) (path @ [s]) \<noteq> None"
        using Suc.IH [of "succ (node s)"] ok_enter [OF ok False fresh] finished_enter [OF False] g by blast
      with visit_new [OF ok False None] show ?thesis by (auto split: sum.splits)
    qed
  qed
  have "visit_all (Suc n) ss st path \<noteq> None"
    if "ok st path" "\<forall>n \<in> finished st. grounded node succ n" "\<forall>s \<in> set ss. walks node succ (path @ [s])"
      "card (U - node ` set path) < Suc n \<or> ss = []" for st path
    using that
  proof (induction ss arbitrary: st)
    case (Cons s ss)
    then obtain q where q: "visit (Suc n) s st path = Some q" using one [of st path s] by auto
    have sq: "sound st {node s} path q" using sound_both q Cons.prems by simp
    show ?case
    proof (cases q)
      case (Inl c)
      with q show ?thesis by (simp add: visit_all_Cons)
    next
      case (Inr st')
      with sq Cons.IH [of st'] Cons.prems have "visit_all (Suc n) ss st' path \<noteq> None" by (simp add: sound_def)
      with q Inr show ?thesis by (simp add: visit_all_Cons)
    qed
  qed (simp add: visit_all_Nil)
  with one show ?case by blast
qed

text \<open>A whole search: every root in turn, with an empty path.\<close>

lemma search:
  assumes "finite U" and "\<And>n. succ n \<noteq> [] \<Longrightarrow> n \<in> U" and "ok st []" and "finished st = {}" and "card U < n"
  shows "\<exists>r. visit_all n ss st [] = Some r \<and> (case r of
    Inl c \<Rightarrow> is_cycle node succ c | Inr st' \<Rightarrow> \<forall>s \<in> set ss. grounded node succ (node s))"
proof -
  obtain r where r: "visit_all n ss st [] = Some r"
    using visit_returns [OF assms(1,2), of n ss] assms(3-5) by fastforce
  then have "sound st (node ` set ss) [] r" using sound_both [of n ss] assms(3,4) by simp
  with r show ?thesis by (auto simp: sound_def split: sum.splits)
qed

end

end
