(* ===== verification/Tasks.thy ===== *)
theory Tasks
  imports Paths Graphs
begin

text \<open>
  \<^verbatim>\<open>src/src/task.rs\<close>: the checks of \<^verbatim>\<open>[tasks]\<close> and \<^verbatim>\<open>[hooks]\<close> that need the whole manifest, the order
  tasks run in, and the paths and placeholders that depend on nothing but the manifest. The
  cycle check is a \<open>depth_first\<close> walk; the lemmas show that it finds a cycle exactly where
  there is one to fear, and that after it a plan runs everything a task needs before the task.
\<close>

section \<open>The graph of tasks\<close>

type_synonym task_step = "task_ref \<times> hook option"

definition task_edges :: "manifest \<Rightarrow> task_ref \<Rightarrow> task_step list" where
  "task_edges m r =
     (case r of
        RefTask name \<Rightarrow> (case find_task m name of None \<Rightarrow> [] | Some t \<Rightarrow> map (\<lambda>d. (d, None)) (td_depends_on t))
      | RefMember _ _ \<Rightarrow> []
      | RefBuiltin b \<Rightarrow> concat (map (\<lambda>h. map (\<lambda>n. (RefTask n, Some h)) (hook_tasks (mf_hooks m) h)) (builtin_hooks b)))"

datatype visit_state = StOpen | StDone

type_synonym visit_states = "(task_ref \<times> visit_state) list"

text \<open>
  \<^verbatim>\<open>find_cycle\<close>'s walk. \<open>None\<close> stands for a walk that is not through when its fuel is; \<open>Inl\<close> is a
  cycle and \<open>Inr\<close> the states after a walk that found none.
\<close>

fun cycle_walk :: "manifest \<Rightarrow> nat \<Rightarrow> task_step \<Rightarrow> visit_states \<Rightarrow> task_step list \<Rightarrow> (task_step list + visit_states) option"
  and cycle_walk_all :: "manifest \<Rightarrow> nat \<Rightarrow> task_step list \<Rightarrow> visit_states \<Rightarrow> task_step list \<Rightarrow>
    (task_step list + visit_states) option" where
  "cycle_walk m 0 step states path = None"
| "cycle_walk m (Suc n) step states path =
     (case map_of states (fst step) of
        Some StDone \<Rightarrow> Some (Inr states)
      | Some StOpen \<Rightarrow>
          (case position (\<lambda>s. fst s = fst step) path of
             None \<Rightarrow> Some (Inr states)
           | Some start \<Rightarrow> Some (Inl (drop start path @ [step])))
      | None \<Rightarrow>
          (case cycle_walk_all m n (task_edges m (fst step)) (hm_put (fst step) StOpen states) (path @ [step]) of
             None \<Rightarrow> None
           | Some (Inl cyc) \<Rightarrow> Some (Inl cyc)
           | Some (Inr states') \<Rightarrow> Some (Inr (hm_put (fst step) StDone states'))))"
| "cycle_walk_all m n [] states path = Some (Inr states)"
| "cycle_walk_all m n (step # steps) states path =
     (case cycle_walk m n step states path of
        None \<Rightarrow> None
      | Some (Inl cyc) \<Rightarrow> Some (Inl cyc)
      | Some (Inr states') \<Rightarrow> cycle_walk_all m n steps states' path)"

text \<open>Every task and the four commands can be open at once.\<close>

definition task_fuel :: "manifest \<Rightarrow> nat" where
  "task_fuel m = length (mf_tasks m) + 5"

definition find_cycle :: "manifest \<Rightarrow> task_step list option" where
  "find_cycle m =
     (case cycle_walk_all m (task_fuel m) (map (\<lambda>t. (RefTask (td_name t), None)) (mf_tasks m)) [] [] of
        Some (Inl cyc) \<Rightarrow> Some cyc
      | _ \<Rightarrow> None)"

fun cycle_notes :: "task_step list \<Rightarrow> str list" where
  "cycle_notes ((RefBuiltin b, x) # (t, Some h) # steps) =
     [builtin_name b, hook_name h, task_ref_display t] @ cycle_notes ((t, Some h) # steps)"
| "cycle_notes (_ # s # steps) = cycle_notes (s # steps)"
| "cycle_notes _ = []"

definition describe_cycle :: "task_step list \<Rightarrow> message" where
  "describe_cycle cyc = Msg ''the tasks depend on each other in a cycle''
     (map (\<lambda>(n, _). task_ref_display n) cyc @ cycle_notes cyc)"

section \<open>The order tasks run in\<close>

text \<open>\<^verbatim>\<open>plan\<close>: what has been seen, and what is to run so far.\<close>

definition plan_needs :: "manifest \<Rightarrow> task_ref \<Rightarrow> task_ref list" where
  "plan_needs m r =
     (case r of
        RefTask name \<Rightarrow> (case find_task m name of None \<Rightarrow> [] | Some t \<Rightarrow> td_depends_on t)
      | _ \<Rightarrow> [])"

fun plan_visit :: "manifest \<Rightarrow> nat \<Rightarrow> task_ref \<Rightarrow> task_ref list \<times> task_ref list \<Rightarrow> (task_ref list \<times> task_ref list) option"
  and plan_visit_all :: "manifest \<Rightarrow> nat \<Rightarrow> task_ref list \<Rightarrow> task_ref list \<times> task_ref list \<Rightarrow>
    (task_ref list \<times> task_ref list) option" where
  "plan_visit m 0 r so = None"
| "plan_visit m (Suc n) r so =
     (if r \<in> set (fst so) then Some so
      else case plan_visit_all m n (plan_needs m r) (r # fst so, snd so) of
        None \<Rightarrow> None
      | Some (seen, out) \<Rightarrow> Some (seen, out @ [r]))"
| "plan_visit_all m n [] so = Some so"
| "plan_visit_all m n (r # rs) so =
     (case plan_visit m n r so of None \<Rightarrow> None | Some so' \<Rightarrow> plan_visit_all m n rs so')"

definition plan :: "manifest \<Rightarrow> task_ref list \<Rightarrow> task_ref list" where
  "plan m roots = (case plan_visit_all m (task_fuel m) roots ([], []) of None \<Rightarrow> [] | Some (_, out) \<Rightarrow> out)"

definition reached_from :: "manifest \<Rightarrow> hook \<Rightarrow> task_def list" where
  "reached_from m h = List.map_filter (\<lambda>r. case r of RefTask name \<Rightarrow> find_task m name | _ \<Rightarrow> None)
     (plan m (map RefTask (hook_tasks (mf_hooks m) h)))"

definition task_depends_on :: "manifest \<Rightarrow> task_def \<Rightarrow> builtin \<Rightarrow> bool" where
  "task_depends_on m t b \<longleftrightarrow> RefBuiltin b \<in> set (plan m [RefTask (td_name t)])"

section \<open>Paths and placeholders\<close>

text \<open>
  The working directory of the process is \<open>cwd\<close>, and \<open>port\<close> is what a name's free port is; a
  path's template has none.
\<close>

definition static_root :: "str \<Rightarrow> manifest \<Rightarrow> str" where
  "static_root cwd m = (case absolute cwd (mf_root m) of None \<Rightarrow> mf_root m | Some p \<Rightarrow> p)"

definition static_target :: "str \<Rightarrow> manifest \<Rightarrow> str" where
  "static_target cwd m = path_join (static_root cwd m) (mf_target_dir m)"

definition static_value :: "str \<Rightarrow> manifest \<Rightarrow> placeholder \<Rightarrow> str result" where
  "static_value cwd m p =
     (let target = static_target cwd m in
      case p of
        PhRoot \<Rightarrow> Inr (static_root cwd m)
      | PhTarget \<Rightarrow> Inr target
      | PhProjectName \<Rightarrow> Inr (mf_name m)
      | PhProjectVersion \<Rightarrow> Inr (mf_version m)
      | PhClasses \<Rightarrow> Inr (path_join target ''classes'')
      | PhTestClasses \<Rightarrow> Inr (path_join target ''test-classes'')
      | PhJar \<Rightarrow> Inr (path_join target (jar_name m))
      | PhSourcesArgfile \<Rightarrow> Inl (ManifestErr (Msg ''{sources-argfile} is an argument'' []))
      | classpath \<Rightarrow> Inl (BuildErr (Msg ''has no value until dependencies are resolved'' [placeholder_name classpath])))"

definition static_path :: "str \<Rightarrow> (str \<Rightarrow> nat result) \<Rightarrow> manifest \<Rightarrow> template \<Rightarrow> str result" where
  "static_path cwd port m t =
     and_then (template_expand (static_value cwd m) port t) (\<lambda>expanded. Inr (path_join (static_root cwd m) expanded))"

definition normalize_step :: "path_component \<Rightarrow> path_component list \<Rightarrow> path_component list" where
  "normalize_step c out = (case c of CurDir \<Rightarrow> out | ParentDir \<Rightarrow> pop_component out | other \<Rightarrow> out @ [other])"

definition task_normalize :: "str \<Rightarrow> str" where
  "task_normalize p = from_components (fold normalize_step (components p) [])"

definition classpath_variables :: "str list" where
  "classpath_variables = [''JRS_CLASSPATH'', ''JRS_RUNTIME_CLASSPATH'']"

definition needs_classpath :: "task_def \<Rightarrow> bool" where
  "needs_classpath t \<longleftrightarrow> list_ex (\<lambda>(_, x). list_ex is_classpath (placeholders x)) (templates t) \<or>
     (case td_action t of Some (ActShell script) \<Rightarrow> list_ex (\<lambda>v. contains v script) classpath_variables | _ \<Rightarrow> False)"

record generated_dirs =
  gen_sources :: "str list"
  gen_resources :: "str list"

fun generated_loop :: "str \<Rightarrow> (str \<Rightarrow> nat result) \<Rightarrow> manifest \<Rightarrow> str list \<Rightarrow> task_def list \<Rightarrow> generated_dirs \<Rightarrow>
    generated_dirs result" where
  "generated_loop cwd port m main [] out = Inr out"
| "generated_loop cwd port m main (t # ts) out =
     (if td_name t \<in> set main then generated_loop cwd port m main ts out
      else and_then (collect (map (static_path cwd port m) (td_source_outputs t))) (\<lambda>ss.
           and_then (collect (map (static_path cwd port m) (td_resource_outputs t))) (\<lambda>rs.
             generated_loop cwd port m main ts
               \<lparr>gen_sources = gen_sources out @ ss, gen_resources = gen_resources out @ rs\<rparr>)))"

definition generated :: "str \<Rightarrow> (str \<Rightarrow> nat result) \<Rightarrow> manifest \<Rightarrow> hook \<Rightarrow> generated_dirs result" where
  "generated cwd port m h =
     (let main = (if h = PreCompile then [] else map td_name (reached_from m PreCompile)) in
      generated_loop cwd port m main (reached_from m h) \<lparr>gen_sources = [], gen_resources = []\<rparr>)"

definition watched_inputs :: "str \<Rightarrow> (str \<Rightarrow> nat result) \<Rightarrow> manifest \<Rightarrow> str list" where
  "watched_inputs cwd port m =
     (let target = static_target cwd m in
      filter (\<lambda>p. \<not> path_starts_with p target)
        (List.map_filter (\<lambda>t. case static_path cwd port m t of Inl _ \<Rightarrow> None | Inr p \<Rightarrow> Some p)
          (concat (map td_inputs (mf_tasks m)))))"

section \<open>The checks\<close>

definition check_references :: "manifest \<Rightarrow> unit result" where
  "check_references m = for_each (\<lambda>t. for_each (\<lambda>d. case d of
       RefTask name \<Rightarrow> ensure (find_task m name \<noteq> None)
         (ManifestErr (Msg ''depends-on names what is not a task'' [td_name t, name]))
     | _ \<Rightarrow> Inr ()) (td_depends_on t)) (mf_tasks m)"

definition check_hooks :: "manifest \<Rightarrow> unit result" where
  "check_hooks m = for_each (\<lambda>(h, names). for_each (\<lambda>name.
       ensure (find_task m name \<noteq> None)
         (ManifestErr (Msg (if name \<in> set reserved_task_names then ''a hook names a jrs command'' else ''a hook names what is not a task'')
           [hook_name h, name]))) names) (mf_hooks m)"

text \<open>A hook before there is a jar runs no task that needs one.\<close>

definition check_jar :: "manifest \<Rightarrow> unit result" where
  "check_jar m = for_each (\<lambda>h. for_each (\<lambda>t.
       ensure (\<not> (task_uses t PhJar \<and> \<not> task_depends_on m t PackageCommand))
         (ManifestErr (Msg ''uses {jar} before there is a jar'' [td_name t, hook_name h])))
       (reached_from m h)) (filter (\<lambda>h. h \<noteq> PostPackage) all_hooks)"

definition generated_templates :: "task_def \<Rightarrow> (str \<times> template) list" where
  "generated_templates t = map (\<lambda>x. (''source-outputs'', x)) (td_source_outputs t) @
     map (\<lambda>x. (''resource-outputs'', x)) (td_resource_outputs t)"

definition check_generated :: "str \<Rightarrow> (str \<Rightarrow> nat result) \<Rightarrow> manifest \<Rightarrow> unit result" where
  "check_generated cwd port m = for_each (\<lambda>t. for_each (\<lambda>(key, x).
       and_then (static_path cwd port m x) (\<lambda>p.
         let target = static_target cwd m;
             escapes = ParentDir \<in> set (components p)
         in ensure (\<not> (escapes \<or> path_eq p target \<or> \<not> path_starts_with p target))
              (ManifestErr (Msg ''is not inside project.target-dir'' [td_name t, key, tpl_raw x, target]))))
       (generated_templates t)) (mf_tasks m)"

definition refuse_cached :: "task_def \<Rightarrow> str \<Rightarrow> str list \<Rightarrow> jrs_error" where
  "refuse_cached t why vals = ManifestErr (Msg why (td_name t # vals))"

definition check_cached_output :: "str \<Rightarrow> (str \<Rightarrow> nat result) \<Rightarrow> manifest \<Rightarrow> task_def \<Rightarrow> template \<Rightarrow> unit result" where
  "check_cached_output cwd port m t x =
     and_then (static_path cwd port m x) (\<lambda>raw.
       let p = task_normalize raw; root = static_root cwd m; target = static_target cwd m in
       if path_eq p root \<or> path_eq p target
       then Inl (refuse_cached t ''the output is the whole of the project root or of project.target-dir'' [tpl_raw x])
       else if path_starts_with p root then Inr ()
       else Inl (refuse_cached t ''the output is not inside the project root'' [tpl_raw x]))"

definition check_cached_task :: "str \<Rightarrow> (str \<Rightarrow> nat result) \<Rightarrow> manifest \<Rightarrow> str list \<Rightarrow> task_def \<Rightarrow> unit result" where
  "check_cached_task cwd port m side_effects t =
     and_then (for_each (\<lambda>(key, xs). ensure (xs \<noteq> []) (refuse_cached t ''a cached task needs both'' [key]))
       [(''inputs'', td_inputs t), (''outputs'', td_outputs t)]) (\<lambda>_.
     and_then (ensure (\<not> task_uses t PhJar) (refuse_cached t ''a task that uses {jar} is never cached'' [])) (\<lambda>_.
     and_then (ensure (td_name t \<notin> set side_effects)
       (refuse_cached t ''a task the post-package or pre-run hook runs is never cached'' [])) (\<lambda>_.
     for_each (check_cached_output cwd port m t) (td_outputs t))))"

definition check_cached :: "str \<Rightarrow> (str \<Rightarrow> nat result) \<Rightarrow> manifest \<Rightarrow> unit result" where
  "check_cached cwd port m =
     (let side_effects = concat (map (\<lambda>h. map td_name (reached_from m h)) [PostPackage, PreRun]) in
      for_each (check_cached_task cwd port m side_effects) (filter td_cache (mf_tasks m)))"

definition generated_warnings :: "manifest \<Rightarrow> message list" where
  "generated_warnings m =
     (let generators = map td_name (reached_from m PreCompile @ reached_from m PreTest) in
      concat (map (\<lambda>t. List.map_filter (\<lambda>(key, xs).
          if xs \<noteq> [] then Some (Msg ''is ignored: no hook that feeds a compilation runs it'' [td_name t, key]) else None)
        [(''source-outputs'', td_source_outputs t), (''resource-outputs'', td_resource_outputs t)])
        (filter (\<lambda>t. td_name t \<notin> set generators) (mf_tasks m))))"

definition check_tasks :: "str \<Rightarrow> (str \<Rightarrow> nat result) \<Rightarrow> manifest \<Rightarrow> message list result" where
  "check_tasks cwd port m =
     and_then (check_references m) (\<lambda>_.
     and_then (check_hooks m) (\<lambda>_.
     and_then (case find_cycle m of Some cyc \<Rightarrow> Inl (ManifestErr (describe_cycle cyc)) | None \<Rightarrow> Inr ()) (\<lambda>_.
     and_then (check_jar m) (\<lambda>_.
     and_then (check_generated cwd port m) (\<lambda>_.
     and_then (check_cached cwd port m) (\<lambda>_. Inr (generated_warnings m)))))))"

section \<open>No cycle\<close>

definition states_ok :: "visit_states \<Rightarrow> task_step list \<Rightarrow> bool" where
  "states_ok states path \<longleftrightarrow> (\<forall>r. map_of states r = Some StOpen \<longleftrightarrow> r \<in> fst ` set path) \<and> distinct (map fst path)"

definition states_done :: "visit_states \<Rightarrow> task_ref set" where
  "states_done states = {r. map_of states r = Some StDone}"

interpretation tasks: depth_first fst "task_edges m" states_done states_ok
  "\<lambda>r. hm_put r StOpen" "\<lambda>r. hm_put r StDone" "cycle_walk m" "cycle_walk_all m" for m
proof unfold_locales
  fix st path and s :: task_step and n
  assume ok: "states_ok st path"
  show "fst s \<in> states_done st \<Longrightarrow> cycle_walk m (Suc n) s st path = Some (Inr st)"
    by (simp add: states_done_def)
  assume new: "fst s \<notin> states_done st"
  show "cycle_walk m (Suc n) s st path = Some (Inl (drop i path @ [s]))"
    if at: "position (\<lambda>t. fst t = fst s) path = Some i" for i
  proof -
    have "i < length path" "fst (path ! i) = fst s" using at by (simp_all add: position_Some)
    then have "fst s \<in> fst ` set path" by (metis image_eqI nth_mem)
    then have "map_of st (fst s) = Some StOpen" using ok by (simp add: states_ok_def)
    with at show ?thesis by simp
  qed
  show "cycle_walk m (Suc n) s st path =
      (case cycle_walk_all m n (task_edges m (fst s)) (hm_put (fst s) StOpen st) (path @ [s]) of None \<Rightarrow> None
       | Some (Inl c) \<Rightarrow> Some (Inl c) | Some (Inr st') \<Rightarrow> Some (Inr (hm_put (fst s) StDone st')))"
    if none: "position (\<lambda>t. fst t = fst s) path = None"
  proof -
    have "fst s \<notin> fst ` set path" using none by (auto simp: position_None)
    then have "map_of st (fst s) \<noteq> Some StOpen" using ok by (simp add: states_ok_def)
    with new have "map_of st (fst s) = None"
      by (cases "map_of st (fst s)"; cases "the (map_of st (fst s))") (auto simp: states_done_def)
    then show ?thesis by simp
  qed
  show "fst s \<notin> fst ` set path \<Longrightarrow> states_ok (hm_put (fst s) StOpen st) (path @ [s])"
    using ok by (auto simp: states_ok_def map_of_hm_put)
qed (auto simp: states_ok_def states_done_def map_of_hm_put)

definition task_nodes :: "manifest \<Rightarrow> task_ref set" where
  "task_nodes m = (\<lambda>t. RefTask (td_name t)) ` set (mf_tasks m) \<union> RefBuiltin ` {BuildCommand, TestCommand, PackageCommand, DocCommand}"

lemma task_nodes_finite: "finite (task_nodes m)" and task_nodes_card: "card (task_nodes m) < task_fuel m"
proof -
  show "finite (task_nodes m)" by (simp add: task_nodes_def)
  have "card ((\<lambda>t. RefTask (td_name t)) ` set (mf_tasks m)) \<le> length (mf_tasks m)"
    using card_image_le card_length le_trans by blast
  moreover have "card (RefBuiltin ` {BuildCommand, TestCommand, PackageCommand, DocCommand}) \<le> 4"
    using card_image_le [of "{BuildCommand, TestCommand, PackageCommand, DocCommand}" RefBuiltin] by (simp add: card_insert_if)
  ultimately show "card (task_nodes m) < task_fuel m"
    using card_Un_le [of "(\<lambda>t. RefTask (td_name t)) ` set (mf_tasks m)" "RefBuiltin ` {BuildCommand, TestCommand, PackageCommand, DocCommand}"]
    by (simp only: task_nodes_def task_fuel_def)
qed

lemma task_edges_nodes: "task_edges m r \<noteq> [] \<Longrightarrow> r \<in> task_nodes m"
proof (cases r)
  case (RefTask name)
  assume "task_edges m r \<noteq> []"
  with RefTask obtain t where "find_task m name = Some t" by (cases "find_task m name") (auto simp: task_edges_def)
  then have "t \<in> set (mf_tasks m)" "td_name t = name" by (auto simp: find_task_def find_Some_iff)
  with RefTask show ?thesis by (auto simp: task_nodes_def)
next
  case (RefBuiltin b)
  then show ?thesis by (cases b) (auto simp: task_nodes_def)
qed (simp add: task_edges_def)

abbreviation task_grounded :: "manifest \<Rightarrow> task_ref \<Rightarrow> bool" where
  "task_grounded m \<equiv> grounded fst (task_edges m)"

lemma find_cycle_search:
  "(case find_cycle m of
      Some cyc \<Rightarrow> is_cycle fst (task_edges m) cyc
    | None \<Rightarrow> \<forall>t \<in> set (mf_tasks m). task_grounded m (RefTask (td_name t))) \<and>
   cycle_walk_all m (task_fuel m) (map (\<lambda>t. (RefTask (td_name t), None)) (mf_tasks m)) [] [] \<noteq> None"
proof -
  let ?starts = "map (\<lambda>t. (RefTask (td_name t), None :: hook option)) (mf_tasks m)"
  have "\<exists>r. cycle_walk_all m (task_fuel m) ?starts [] [] = Some r \<and> (case r of
      Inl c \<Rightarrow> is_cycle fst (task_edges m) c | Inr st \<Rightarrow> \<forall>s \<in> set ?starts. task_grounded m (fst s))"
    by (rule tasks.search [where m = m, OF task_nodes_finite task_edges_nodes _ _ task_nodes_card])
      (simp_all add: states_ok_def states_done_def)
  then obtain r where "cycle_walk_all m (task_fuel m) ?starts [] [] = Some r"
    "case r of Inl c \<Rightarrow> is_cycle fst (task_edges m) c | Inr st \<Rightarrow> \<forall>s \<in> set ?starts. task_grounded m (fst s)" by (elim exE conjE)
  then show ?thesis by (cases r) (auto simp: find_cycle_def)
qed

lemma find_cycle_grounded: "find_cycle m = None \<Longrightarrow> t \<in> set (mf_tasks m) \<Longrightarrow> task_grounded m (RefTask (td_name t))"
  using find_cycle_search [of m] by simp

text \<open>
  Property C11. The cycle check is right both ways, and it ends: what it reports is a cycle (each
  step is one of the task's \<^verbatim>\<open>depends-on\<close> or one of the tasks the command's hooks run, and the
  last step is the first again); and when it reports none, no task has an endless chain of
  such steps before it.
\<close>

theorem find_cycle_exact:
  "(case find_cycle m of
      Some cyc \<Rightarrow> is_cycle fst (task_edges m) cyc \<and> \<not> task_grounded m (fst (hd cyc))
    | None \<Rightarrow> \<forall>t \<in> set (mf_tasks m). task_grounded m (RefTask (td_name t)) \<and>
        (RefTask (td_name t), RefTask (td_name t)) \<notin> (points_at fst (task_edges m))\<^sup>+) \<and>
   cycle_walk_all m (task_fuel m) (map (\<lambda>t. (RefTask (td_name t), None)) (mf_tasks m)) [] [] \<noteq> None"
proof (cases "find_cycle m")
  case None
  have "(RefTask (td_name t), RefTask (td_name t)) \<notin> (points_at fst (task_edges m))\<^sup>+" if "t \<in> set (mf_tasks m)" for t
    by (rule grounded_acyclic [OF find_cycle_grounded [OF None that]])
  with None find_cycle_search [of m] show ?thesis by simp
next
  case (Some cyc)
  with find_cycle_search [of m] cycle_not_grounded [of fst "task_edges m" cyc] show ?thesis by simp
qed

section \<open>Everything before what needs it\<close>

text \<open>What is seen but not yet to run is open: each open step needs, in the end, the one visited.\<close>

definition plan_inv :: "manifest \<Rightarrow> task_ref set \<Rightarrow> task_ref list \<times> task_ref list \<Rightarrow> bool" where
  "plan_inv m opened so \<longleftrightarrow> set (fst so) = opened \<union> set (snd so) \<and> opened \<inter> set (snd so) = {} \<and> distinct (snd so) \<and>
     (\<forall>xs r ys. snd so = xs @ r # ys \<longrightarrow> set (plan_needs m r) \<subseteq> set xs)"

definition needs_rel :: "manifest \<Rightarrow> (task_ref \<times> task_ref) set" where
  "needs_rel m = {(r, d). d \<in> set (plan_needs m r)}"

lemma needs_points_at: "needs_rel m \<subseteq> points_at fst (task_edges m)"
proof -
  have "(r, d) \<in> points_at fst (task_edges m)" if "d \<in> set (plan_needs m r)" for r d
  proof (cases r)
    case (RefTask name)
    with that show ?thesis
      by (cases "find_task m name") (force simp: plan_needs_def task_edges_def points_at_def)+
  qed (use that in \<open>simp_all add: plan_needs_def\<close>)
  then show ?thesis by (auto simp: needs_rel_def)
qed

lemma grounded_needs: "task_grounded m r \<Longrightarrow> (r, r) \<notin> (needs_rel m)\<^sup>+"
  using grounded_acyclic trancl_mono [OF _ needs_points_at] by fast

lemma grounded_step:
  assumes "task_grounded m r" and "d \<in> set (plan_needs m r)"
  shows "task_grounded m d"
proof -
  have "(r, d) \<in> points_at fst (task_edges m)" using assms(2) needs_points_at by (auto simp: needs_rel_def)
  then obtain s where "s \<in> set (task_edges m r)" "d = fst s" by (auto simp: points_at_def)
  with assms(1) show ?thesis by (auto elim: groundedE)
qed

lemma needs_nodes: "plan_needs m r \<noteq> [] \<Longrightarrow> r \<in> task_nodes m"
proof -
  assume "plan_needs m r \<noteq> []"
  then obtain d where "(r, d) \<in> needs_rel m" by (cases "plan_needs m r") (auto simp: needs_rel_def)
  then have "task_edges m r \<noteq> []" using needs_points_at [of m] by (force simp: points_at_def)
  then show ?thesis by (rule task_edges_nodes)
qed

lemma needs_first_snoc:
  assumes "\<forall>xs q ys. out = xs @ q # ys \<longrightarrow> N q \<subseteq> set xs" and "N r \<subseteq> set out"
  shows "\<forall>xs q ys. out @ [r] = xs @ q # ys \<longrightarrow> N q \<subseteq> set xs"
proof (intro allI impI)
  fix xs q ys
  assume e: "out @ [r] = xs @ q # ys"
  show "N q \<subseteq> set xs"
  proof (cases ys rule: rev_cases)
    case Nil
    with e assms(2) show ?thesis by auto
  next
    case (snoc zs z)
    with e have "out = xs @ q # zs" by simp
    with assms(1) show ?thesis by blast
  qed
qed

text \<open>What a visit leaves: everything asked for is to run, and nothing that is not needed for it.\<close>

definition planned :: "manifest \<Rightarrow> task_ref set \<Rightarrow> task_ref list \<times> task_ref list \<Rightarrow> task_ref set \<Rightarrow>
    task_ref list \<times> task_ref list \<Rightarrow> bool" where
  "planned m opened so rs so' \<longleftrightarrow> plan_inv m opened so' \<and> set (fst so) \<subseteq> set (fst so') \<and> rs \<subseteq> set (snd so') \<and>
     set (snd so') \<subseteq> set (snd so) \<union> (needs_rel m)\<^sup>* `` rs"

definition may_visit :: "manifest \<Rightarrow> task_ref set \<Rightarrow> task_ref \<Rightarrow> bool" where
  "may_visit m opened r \<longleftrightarrow> task_grounded m r \<and> (\<forall>p \<in> opened. (p, r) \<in> (needs_rel m)\<^sup>+)"

lemma may_visit_not_open: "may_visit m opened r \<Longrightarrow> r \<notin> opened"
  using grounded_needs by (auto simp: may_visit_def)

lemma may_visit_needs:
  assumes "may_visit m opened r" and "d \<in> set (plan_needs m r)"
  shows "may_visit m (insert r opened) d"
proof -
  have "(r, d) \<in> needs_rel m" using assms(2) by (simp add: needs_rel_def)
  with assms show ?thesis using grounded_step by (auto simp: may_visit_def intro: trancl.trancl_into_trancl)
qed

lemma planned_open:
  assumes "planned m (insert r opened) (r # fst so, snd so) (set (plan_needs m r)) (seen, out)"
    and "may_visit m opened r" and "r \<notin> set (fst so)" and "plan_inv m opened so"
  shows "planned m opened so {r} (seen, out @ [r])"
proof -
  have inv: "plan_inv m (insert r opened) (seen, out)" and needs: "set (plan_needs m r) \<subseteq> set out"
    and seen: "set (fst so) \<subseteq> set seen" and new: "set out \<subseteq> set (snd so) \<union> (needs_rel m)\<^sup>* `` set (plan_needs m r)"
    using assms(1) by (auto simp: planned_def)
  have "plan_inv m opened (seen, out @ [r])"
    unfolding plan_inv_def fst_conv snd_conv
  proof (intro conjI)
    have parts: "set seen = insert r opened \<union> set out" "insert r opened \<inter> set out = {}" "distinct out"
      using inv by (simp_all add: plan_inv_def)
    then show "set seen = opened \<union> set (out @ [r])" "distinct (out @ [r])" by auto
    show "opened \<inter> set (out @ [r]) = {}" using parts(2) may_visit_not_open [OF assms(2)] by auto
    have "\<forall>xs q ys. out = xs @ q # ys \<longrightarrow> set (plan_needs m q) \<subseteq> set xs" using inv by (simp add: plan_inv_def)
    then show "\<forall>xs q ys. out @ [r] = xs @ q # ys \<longrightarrow> set (plan_needs m q) \<subseteq> set xs"
      using needs by (rule needs_first_snoc)
  qed
  moreover have "(needs_rel m)\<^sup>* `` set (plan_needs m r) \<subseteq> (needs_rel m)\<^sup>* `` {r}"
  proof
    fix d
    assume "d \<in> (needs_rel m)\<^sup>* `` set (plan_needs m r)"
    then obtain q where "(r, q) \<in> needs_rel m" "(q, d) \<in> (needs_rel m)\<^sup>*" by (auto simp: needs_rel_def)
    then show "d \<in> (needs_rel m)\<^sup>* `` {r}" by (auto intro: converse_rtrancl_into_rtrancl)
  qed
  with new have "set (out @ [r]) \<subseteq> set (snd so) \<union> (needs_rel m)\<^sup>* `` {r}" by auto
  ultimately show ?thesis using seen unfolding planned_def by auto
qed

lemma planned_trans:
  assumes "planned m opened so {r} so1" and "planned m opened so1 rs so2" and "may_visit m opened r"
  shows "planned m opened so (insert r rs) so2"
proof -
  have "r \<in> set (fst so2)" using assms(1,2) by (auto simp: planned_def plan_inv_def)
  with may_visit_not_open [OF assms(3)] assms(2) have "r \<in> set (snd so2)" by (auto simp: planned_def plan_inv_def)
  moreover have "(needs_rel m)\<^sup>* `` insert r rs = (needs_rel m)\<^sup>* `` {r} \<union> (needs_rel m)\<^sup>* `` rs" by blast
  ultimately show ?thesis using assms(1,2) unfolding planned_def by auto
qed

lemma plan_visit_planned:
  "(\<forall>r so. plan_inv m opened so \<longrightarrow> may_visit m opened r \<longrightarrow> card (task_nodes m - set (fst so)) < n \<longrightarrow>
      (\<exists>so'. plan_visit m n r so = Some so' \<and> planned m opened so {r} so')) \<and>
   (\<forall>so. plan_inv m opened so \<longrightarrow> (\<forall>r \<in> set rs. may_visit m opened r) \<longrightarrow>
      card (task_nodes m - set (fst so)) < n \<or> rs = [] \<longrightarrow>
      (\<exists>so'. plan_visit_all m n rs so = Some so' \<and> planned m opened so (set rs) so'))"
proof (induction n arbitrary: opened rs)
  case 0
  show ?case by (auto simp: planned_def)
next
  case (Suc n)
  have one: "\<exists>so'. plan_visit m (Suc n) r so = Some so' \<and> planned m opened so {r} so'"
    if inv: "plan_inv m opened so" and may: "may_visit m opened r" and c: "card (task_nodes m - set (fst so)) < Suc n"
    for opened r so
  proof (cases "r \<in> set (fst so)")
    case True
    with inv may_visit_not_open [OF may] have "r \<in> set (snd so)" by (auto simp: plan_inv_def)
    with True inv show ?thesis by (auto simp: planned_def)
  next
    case False
    let ?so = "(r # fst so, snd so)"
    have inv': "plan_inv m (insert r opened) ?so" using inv False by (auto simp: plan_inv_def)
    have fuel: "card (task_nodes m - set (fst ?so)) < n \<or> plan_needs m r = []"
    proof (cases "r \<in> task_nodes m")
      case True
      then have "task_nodes m - set (fst ?so) \<subset> task_nodes m - set (fst so)" using False by auto
      then have "card (task_nodes m - set (fst ?so)) < card (task_nodes m - set (fst so))"
        by (intro psubset_card_mono) (simp_all add: task_nodes_finite)
      with c show ?thesis by simp
    qed (use needs_nodes in blast)
    from conjunct2 [OF Suc.IH, rule_format, OF inv' may_visit_needs [OF may] fuel]
    obtain seen out where "plan_visit_all m n (plan_needs m r) ?so = Some (seen, out)"
      "planned m (insert r opened) ?so (set (plan_needs m r)) (seen, out)" by auto
    with planned_open [OF _ may False inv] False show ?thesis by auto
  qed
  have "\<exists>so'. plan_visit_all m (Suc n) rs so = Some so' \<and> planned m opened so (set rs) so'"
    if "plan_inv m opened so" "\<forall>r \<in> set rs. may_visit m opened r" "card (task_nodes m - set (fst so)) < Suc n \<or> rs = []" for so
    using that
  proof (induction rs arbitrary: so)
    case Nil
    then show ?case by (auto simp: planned_def)
  next
    case (Cons r rs)
    then obtain so1 where 1: "plan_visit m (Suc n) r so = Some so1" "planned m opened so {r} so1"
      using one [of opened so r] by auto
    have "card (task_nodes m - set (fst so1)) \<le> card (task_nodes m - set (fst so))"
      using 1(2) by (intro card_mono) (auto simp: task_nodes_finite planned_def)
    moreover have "plan_inv m opened so1" using 1(2) by (simp add: planned_def)
    ultimately obtain so2 where "plan_visit_all m (Suc n) rs so1 = Some so2" "planned m opened so1 (set rs) so2"
      using Cons.IH [of so1] Cons.prems by auto
    with 1 planned_trans [OF 1(2)] Cons.prems(2) show ?case by auto
  qed
  with one show ?case by blast
qed

lemma no_cycle_grounded:
  assumes "find_cycle m = None"
  shows "task_grounded m r"
proof -
  have tasks: "task_grounded m (RefTask name)" for name
  proof (cases "find_task m name")
    case None
    show ?thesis by (rule grounded.intros) (simp add: task_edges_def None)
  next
    case (Some t)
    then have "t \<in> set (mf_tasks m)" "td_name t = name" by (auto simp: find_task_def find_Some_iff)
    with find_cycle_grounded [OF assms] show ?thesis by auto
  qed
  show ?thesis
  proof (cases r)
    case (RefTask name)
    then show ?thesis using tasks by simp
  next
    case (RefBuiltin b)
    show ?thesis by (rule grounded.intros) (auto simp: task_edges_def tasks RefBuiltin)
  next
    case (RefMember a b)
    show ?thesis by (rule grounded.intros) (simp add: task_edges_def RefMember)
  qed
qed

text \<open>
  Property C10. Once the check has found no cycle, a plan runs what was asked for and what it
  needs, and nothing else; each task and command once; and always everything a task depends on
  before the task, however the roots and the lists are ordered.
\<close>

theorem plan_order:
  assumes "find_cycle m = None"
  shows "distinct (plan m roots) \<and> set roots \<subseteq> set (plan m roots) \<and>
    (\<forall>xs r ys. plan m roots = xs @ r # ys \<longrightarrow> set (plan_needs m r) \<subseteq> set xs) \<and>
    set (plan m roots) \<subseteq> (needs_rel m)\<^sup>* `` set roots"
proof -
  have "plan_inv m {} ([], [])" by (simp add: plan_inv_def)
  moreover have "\<forall>r \<in> set roots. may_visit m {} r" using no_cycle_grounded [OF assms] by (simp add: may_visit_def)
  moreover have "card (task_nodes m - set (fst ([], [] :: task_ref list))) < task_fuel m \<or> roots = []" using task_nodes_card by simp
  ultimately have "\<exists>so. plan_visit_all m (task_fuel m) roots ([], []) = Some so \<and> planned m {} ([], []) (set roots) so"
    using conjunct2 [OF plan_visit_planned [of m "{}" "task_fuel m" roots]] by blast
  then obtain seen out where "plan_visit_all m (task_fuel m) roots ([], []) = Some (seen, out)"
    "planned m {} ([], []) (set roots) (seen, out)" by auto
  then show ?thesis by (simp add: plan_def planned_def plan_inv_def)
qed

section \<open>What the checks are worth\<close>

lemma check_tasks_parts:
  assumes "check_tasks cwd port m = Inr ws"
  shows "check_references m = Inr ()" and "check_hooks m = Inr ()" and "find_cycle m = None" and "check_jar m = Inr ()"
    and "check_generated cwd port m = Inr ()" and "check_cached cwd port m = Inr ()"
  using assms by (auto simp: check_tasks_def and_then_Inr split: option.splits)

lemma generated_ok:
  assumes "check_generated cwd port m = Inr ()" and "t \<in> set (mf_tasks m)" and "(key, x) \<in> set (generated_templates t)"
  shows "\<exists>p. static_path cwd port m x = Inr p \<and> path_starts_with p (static_target cwd m) \<and>
    \<not> path_eq p (static_target cwd m) \<and> ParentDir \<notin> set (components p)"
  using assms by (fastforce simp: check_generated_def for_each_Inr and_then_Inr Let_def)

lemma cached_ok:
  assumes "check_cached cwd port m = Inr ()" and "t \<in> set (mf_tasks m)" and "td_cache t" and "x \<in> set (td_outputs t)"
  shows "\<exists>p. static_path cwd port m x = Inr p \<and> path_starts_with (task_normalize p) (static_root cwd m) \<and>
    \<not> path_eq (task_normalize p) (static_root cwd m) \<and> \<not> path_eq (task_normalize p) (static_target cwd m)"
proof -
  have "check_cached_output cwd port m t x = Inr ()"
    using assms by (simp add: check_cached_def for_each_Inr and_then_Inr check_cached_task_def Let_def)
  then show ?thesis by (auto simp: check_cached_output_def and_then_Inr Let_def split: if_splits)
qed

lemma find_Some_in: "find P xs = Some x \<Longrightarrow> P x \<and> x \<in> set xs"
  by (induction xs) (auto split: if_splits)

lemma hook_tasks_entry:
  assumes "name \<in> set (hook_tasks hs h)"
  shows "\<exists>names. (h, names) \<in> set hs \<and> name \<in> set names"
proof (cases "find (\<lambda>(k, _). k = h) hs")
  case (Some e)
  then have "e \<in> set hs" "fst e = h" by (auto dest: find_Some_in)
  with Some assms show ?thesis by (cases e) (auto simp: hook_tasks_def)
qed (use assms in \<open>simp add: hook_tasks_def\<close>)

text \<open>
  Property C9. A manifest that passes the check is safe to build: every task a \<^verbatim>\<open>depends-on\<close> or a
  hook names exists, and no chain of them is endless; code is generated only strictly inside
  the target directory; what a cached task's restore removes and rewrites is always inside
  the project root, and never the whole of it or of the target directory; and a task that
  needs the jar runs before there is one nowhere.
\<close>

theorem checked_manifest_safe:
  assumes "check_tasks cwd port m = Inr ws" and "t \<in> set (mf_tasks m)"
  shows "(\<forall>name. RefTask name \<in> set (td_depends_on t) \<longrightarrow> find_task m name \<noteq> None) \<and>
    (\<forall>h name. name \<in> set (hook_tasks (mf_hooks m) h) \<longrightarrow> find_task m name \<noteq> None) \<and>
    (\<forall>r. task_grounded m r) \<and>
    (\<forall>(key, x) \<in> set (generated_templates t). \<exists>p. static_path cwd port m x = Inr p \<and>
       path_starts_with p (static_target cwd m) \<and> \<not> path_eq p (static_target cwd m) \<and> ParentDir \<notin> set (components p)) \<and>
    (td_cache t \<longrightarrow> (\<forall>x \<in> set (td_outputs t). \<exists>p. static_path cwd port m x = Inr p \<and>
       path_starts_with (task_normalize p) (static_root cwd m) \<and> \<not> path_eq (task_normalize p) (static_root cwd m) \<and>
       \<not> path_eq (task_normalize p) (static_target cwd m))) \<and>
    (\<forall>h. h \<noteq> PostPackage \<longrightarrow> t \<in> set (reached_from m h) \<longrightarrow> task_uses t PhJar \<longrightarrow> task_depends_on m t PackageCommand)"
proof (intro conjI)
  note parts = check_tasks_parts [OF assms(1)]
  show "\<forall>name. RefTask name \<in> set (td_depends_on t) \<longrightarrow> find_task m name \<noteq> None"
    using parts(1) assms(2) by (fastforce simp: check_references_def for_each_Inr)
  show "\<forall>h name. name \<in> set (hook_tasks (mf_hooks m) h) \<longrightarrow> find_task m name \<noteq> None"
  proof (intro allI impI)
    fix h name
    assume "name \<in> set (hook_tasks (mf_hooks m) h)"
    from hook_tasks_entry [OF this] obtain names where "(h, names) \<in> set (mf_hooks m)" "name \<in> set names" by blast
    with parts(2) show "find_task m name \<noteq> None" by (fastforce simp: check_hooks_def for_each_Inr)
  qed
  show "\<forall>r. task_grounded m r" using no_cycle_grounded [OF parts(3)] by simp
  show "\<forall>(key, x) \<in> set (generated_templates t). \<exists>p. static_path cwd port m x = Inr p \<and>
      path_starts_with p (static_target cwd m) \<and> \<not> path_eq p (static_target cwd m) \<and> ParentDir \<notin> set (components p)"
    using generated_ok [OF parts(5) assms(2)] by blast
  show "td_cache t \<longrightarrow> (\<forall>x \<in> set (td_outputs t). \<exists>p. static_path cwd port m x = Inr p \<and>
      path_starts_with (task_normalize p) (static_root cwd m) \<and> \<not> path_eq (task_normalize p) (static_root cwd m) \<and>
      \<not> path_eq (task_normalize p) (static_target cwd m))"
    using cached_ok [OF parts(6) assms(2)] by blast
  show "\<forall>h. h \<noteq> PostPackage \<longrightarrow> t \<in> set (reached_from m h) \<longrightarrow> task_uses t PhJar \<longrightarrow> task_depends_on m t PackageCommand"
  proof (intro allI impI)
    fix h
    assume "h \<noteq> PostPackage" and t: "t \<in> set (reached_from m h)" "task_uses t PhJar"
    then have "h \<in> set (filter (\<lambda>h. h \<noteq> PostPackage) all_hooks)" by (cases h) (simp_all add: all_hooks_def)
    with parts(4) t show "task_depends_on m t PackageCommand" by (auto simp: check_jar_def for_each_Inr)
  qed
qed

text \<open>
  The check is wrong about a manifest named from elsewhere. With a project root that
  goes through \<^verbatim>\<open>..\<close> (as \<^verbatim>\<open>--manifest-path ../app/jrs.toml\<close> gives it), every manifest with a task that
  generates sources or resources is refused, though the same manifest may pass from within
  the project.
\<close>

theorem parent_root_refused:
  assumes "ParentDir \<in> set (components (static_root cwd m))" and "\<not> starts_with ''/'' (mf_target_dir m)"
    and "t \<in> set (mf_tasks m)" and "generated_templates t \<noteq> []"
  shows "\<exists>e. check_tasks cwd port m = Inl e"
proof (cases "check_tasks cwd port m")
  case (Inr ws)
  obtain key x where "(key, x) \<in> set (generated_templates t)" using assms(4) by (cases "generated_templates t") auto
  from generated_ok [OF check_tasks_parts(5) [OF Inr] assms(3) this] obtain p where
    p: "path_starts_with p (static_target cwd m)" "ParentDir \<notin> set (components p)" by blast
  have "ParentDir \<in> set (components (static_target cwd m))"
    unfolding static_target_def using assms(1,2) by (rule parent_dir_join)
  with p path_starts_with_set show ?thesis by blast
qed simp

section \<open>An example\<close>

definition plain_task :: "str \<Rightarrow> task_ref list \<Rightarrow> task_def" where
  "plain_task name needs = \<lparr>td_name = name, td_description = None, td_action = Some (ActShell ''x''), td_args = [],
     td_depends_on = needs, td_env = [], td_cwd = None, td_inputs = [], td_outputs = [], td_source_outputs = [],
     td_resource_outputs = [], td_cache = False, td_dependencies = []\<rparr>"

definition example_tasks :: "str \<Rightarrow> manifest" where
  "example_tasks root = (blank ''p'' ''1'' root)\<lparr>
     mf_tasks := [plain_task ''a'' [RefTask ''b'', RefBuiltin BuildCommand],
       (plain_task ''b'' [])\<lparr>td_source_outputs := [template_literal ''target/gen''], td_inputs := [template_literal ''in''],
          td_outputs := [template_literal ''target/gen''], td_cache := True\<rparr>],
     mf_hooks := [(PreCompile, [''b''])]\<rparr>"

theorem plan_order_witness:
  "distinct (plan (example_tasks ''/p'') [RefTask ''a'']) \<and> {RefTask ''a''} \<subseteq> set (plan (example_tasks ''/p'') [RefTask ''a''])"
proof -
  have "find_cycle (example_tasks ''/p'') = None" by code_simp
  from plan_order [OF this, of "[RefTask ''a'']"] show ?thesis by simp
qed

lemma example_checks: "\<exists>ws. check_tasks ''/w'' (\<lambda>_. Inr 0) (example_tasks ''/p'') = Inr ws"
proof -
  have "\<not> isl (check_tasks ''/w'' (\<lambda>_. Inr 0) (example_tasks ''/p''))" by code_simp
  then show ?thesis by (cases "check_tasks ''/w'' (\<lambda>_. Inr 0) (example_tasks ''/p'')") auto
qed

lemma example_cached:
  "find_task (example_tasks root) ''b'' \<noteq> None" "td_cache (the (find_task (example_tasks root) ''b''))"
  "td_outputs (the (find_task (example_tasks root) ''b'')) = [template_literal ''target/gen'']"
  "the (find_task (example_tasks root) ''b'') \<in> set (mf_tasks (example_tasks root))"
  "generated_templates (the (find_task (example_tasks root) ''b'')) = [(''source-outputs'', template_literal ''target/gen'')]"
  by (simp_all add: example_tasks_def find_task_def plain_task_def generated_templates_def)

theorem checked_manifest_safe_witness:
  "\<exists>p. static_path ''/w'' (\<lambda>_. Inr 0) (example_tasks ''/p'') (template_literal ''target/gen'') = Inr p \<and>
     path_starts_with (task_normalize p) (static_root ''/w'' (example_tasks ''/p''))"
proof -
  obtain ws where "check_tasks ''/w'' (\<lambda>_. Inr 0) (example_tasks ''/p'') = Inr ws" using example_checks by blast
  from checked_manifest_safe [OF this example_cached(4)] show ?thesis using example_cached(2,3) by fastforce
qed

theorem parent_root_refused_witness:
  "(\<exists>e. check_tasks ''/w'' (\<lambda>_. Inr 0) (example_tasks ''../p'') = Inl e) \<and>
   (\<exists>ws. check_tasks ''/w'' (\<lambda>_. Inr 0) (example_tasks ''/p'') = Inr ws)"
proof -
  have "ParentDir \<in> set (components (static_root ''/w'' (example_tasks ''../p'')))"
    "\<not> starts_with ''/'' (mf_target_dir (example_tasks ''../p''))" by code_simp+
  from parent_root_refused [OF this example_cached(4)] show ?thesis using example_checks example_cached(5) by simp
qed

theorem find_cycle_exact_witness:
  "find_cycle (example_tasks ''/p'') = None \<and> task_grounded (example_tasks ''/p'') (RefTask ''a'')"
proof -
  let ?m = "example_tasks ''/p''"
  have none: "find_cycle ?m = None" by code_simp
  have "hd (mf_tasks ?m) \<in> set (mf_tasks ?m)" "td_name (hd (mf_tasks ?m)) = ''a''"
    by (simp_all add: example_tasks_def plain_task_def)
  with find_cycle_exact [of ?m] none show ?thesis by fastforce
qed

end
