(* ===== verification/ManifestParse.thy ===== *)
theory ManifestParse
  imports Validate Tasks
begin

text \<open>
  \<^verbatim>\<open>src/src/manifest/parse.rs\<close>: \<^verbatim>\<open>jrs.toml\<close> out of a table, key by key in the order of the code, every
  unknown key a warning. What lies outside is the record \<open>reading\<close>: the letters and digits of Unicode
  beyond ASCII, how the TOML crate displays a value and the standard library a float (in messages only),
  the working directory, and the ports the system gives.
\<close>

record reading =
  rg_alnum :: "str \<Rightarrow> bool"
  rg_show :: "toml \<Rightarrow> str"
  rg_float :: "64 word \<Rightarrow> str"
  rg_cwd :: str
  rg_port :: "str \<Rightarrow> nat result"

section \<open>The keys there are\<close>

definition obfuscate_keys :: "str list" where
  "obfuscate_keys = [''version'', ''keep'', ''proguard-args'']"

definition project_keys :: "str list" where
  "project_keys = [''name'', ''version'', ''group'', ''main-class'', ''source-dir'', ''test-dir'', ''resource-dir'',
     ''test-resource-dir'', ''target-dir'', ''jrs-version'']"

definition java_keys :: "str list" where
  "java_keys = [''source'', ''target'', ''encoding'', ''javac-args'', ''javadoc-args'', ''jdk'']"

definition run_keys :: "str list" where
  "run_keys = [''jvm-args'', ''java-agents'', ''env'', ''cwd'']"

definition test_keys :: "str list" where
  "test_keys = [''jvm-args'', ''jacoco-version'', ''java-agents'', ''env'', ''retries'', ''forks'', ''coverage-minimum'',
     ''share-classes'', ''suites'']"

definition suite_keys :: "str list" where
  "suite_keys = [''test-dir'', ''test-resource-dir'', ''jvm-args'', ''env'', ''retries'', ''forks'']"

definition package_keys :: "str list" where
  "package_keys = [''add-modules'', ''manifest'', ''native-image-args'', ''relocate'']"

definition resources_keys :: "str list" where
  "resources_keys = [''expand'', ''properties'']"

definition dependency_keys :: "str list" where
  "dependency_keys = [''version'', ''classifier'', ''exclusions'', ''compile-only'', ''runtime-only'', ''path'']"

definition local_dependency_keys :: "str list" where
  "local_dependency_keys = [''path'', ''compile-only'', ''runtime-only'']"

definition managed_keys :: "str list" where
  "managed_keys = [''version'', ''bom'']"

definition repository_keys :: "str list" where
  "repository_keys = [''url'', ''groups'']"

definition task_keys :: "str list" where
  "task_keys = [''description'', ''run'', ''shell'', ''script'', ''main'', ''dependencies'', ''args'', ''depends-on'', ''env'',
     ''cwd'', ''inputs'', ''outputs'', ''source-outputs'', ''resource-outputs'', ''cache'']"

definition top_keys :: "str list" where
  "top_keys = [''project'', ''java'', ''run'', ''test'', ''package'', ''resources'', ''obfuscate'', ''kotlin'', ''scala'', ''groovy'',
     ''dependencies'', ''dev-dependencies'', ''managed'', ''repositories'', ''tasks'', ''hooks'', ''workspace'']"

section \<open>Loops\<close>

text \<open>A loop over a state that stops at the first error.\<close>

fun fold_result :: "('a \<Rightarrow> 's \<Rightarrow> 'e + 's) \<Rightarrow> 'a list \<Rightarrow> 's \<Rightarrow> 'e + 's" where
  "fold_result f [] s = Inr s"
| "fold_result f (x # xs) s = and_then (f x s) (fold_result f xs)"

section \<open>Values\<close>

definition warn_unknown :: "toml_table \<Rightarrow> str list \<Rightarrow> str \<Rightarrow> message list" where
  "warn_unknown t known prefix =
     map (\<lambda>k. Msg ''unknown key in jrs.toml (ignored)'' [prefix @ k]) (filter (\<lambda>k. k \<notin> set known) (keys_of t))"

text \<open>A table under a key, with a warning for each key of it that is unknown.\<close>

definition section_of :: "toml_table \<Rightarrow> str \<Rightarrow> str list \<Rightarrow> (toml_table option \<times> message list) result" where
  "section_of table name known =
     (case map_of table name of
        None \<Rightarrow> Inr (None, [])
      | Some v \<Rightarrow>
          and_then (ok_or (mf_err ''must be a table'' [name]) (tv_table v)) (\<lambda>t.
          Inr (Some t, warn_unknown t known (name @ ''.''))))"

definition string_array :: "toml_table \<Rightarrow> str \<Rightarrow> str \<Rightarrow> str list result" where
  "string_array t key section' =
     (let bad = mf_err ''must be an array of strings'' [section', key] in
      case map_of t key of
        None \<Rightarrow> Inr []
      | Some v \<Rightarrow> and_then (ok_or bad (tv_array v)) (\<lambda>vs. collect (map (\<lambda>a. ok_or bad (tv_str a)) vs)))"

definition required_string :: "toml_table \<Rightarrow> str \<Rightarrow> str \<Rightarrow> str result" where
  "required_string t key section' =
     (case map_of t key of
        Some (TomlString s) \<Rightarrow> Inr s
      | Some _ \<Rightarrow> Inl (mf_err ''must be a string'' [section', key])
      | None \<Rightarrow> Inl (mf_err ''missing required key'' [section', key]))"

definition optional_string :: "toml_table \<Rightarrow> str \<Rightarrow> str \<Rightarrow> str option result" where
  "optional_string t key section' =
     (case map_of t key of
        Some (TomlString s) \<Rightarrow> Inr (Some s)
      | Some _ \<Rightarrow> Inl (mf_err ''must be a string'' [section', key])
      | None \<Rightarrow> Inr None)"

definition path_or :: "toml_table \<Rightarrow> str \<Rightarrow> str \<Rightarrow> str \<Rightarrow> str result" where
  "path_or t key dflt section' =
     and_then (optional_string t key section') (\<lambda>s.
       let raw = value_or dflt s in
       if starts_with ''/'' raw \<or> contains ''..'' raw
       then Inl (mf_err ''must be a relative path inside the project'' [section', key, raw]) else Inr raw)"

definition bool_key :: "toml_table \<Rightarrow> str \<Rightarrow> str \<Rightarrow> bool result" where
  "bool_key t key name =
     (case map_of t key of
        None \<Rightarrow> Inr False
      | Some (TomlBoolean b) \<Rightarrow> Inr b
      | Some _ \<Rightarrow> Inl (mf_err ''must be true or false'' [name]))"

definition optional_release :: "toml_table \<Rightarrow> str \<Rightarrow> nat option result" where
  "optional_release t key =
     (case map_of t key of
        None \<Rightarrow> Inr None
      | Some (TomlInteger n) \<Rightarrow>
          if 0 < n then and_then (ok_or (mf_err ''is not a Java release number'' [key, int_text n]) (u32_from n)) (\<lambda>r. Inr (Some r))
          else Inl (mf_err ''must be a release number'' [key])
      | Some (TomlString s) \<Rightarrow>
          and_then (ok_or (mf_err ''is not a Java release number'' [key, s]) (parse_uint 32 (trim_by [''1.''] (trim s)))) (\<lambda>r. Inr (Some r))
      | Some _ \<Rightarrow> Inl (mf_err ''must be a release number'' [key]))"

definition optional_count :: "toml_table \<Rightarrow> str \<Rightarrow> str \<Rightarrow> nat result" where
  "optional_count t key section' =
     (case map_of t key of
        None \<Rightarrow> Inr 0
      | Some (TomlInteger n) \<Rightarrow> ok_or (mf_err ''must be a whole number, 0 or more'' [section', key, int_text n]) (u32_from n)
      | Some _ \<Rightarrow> Inl (mf_err ''must be a whole number'' [section', key]))"

text \<open>A number of test JVMs, one at least; none is zero.\<close>

definition fork_count :: "int \<Rightarrow> nat option" where
  "fork_count n = (case u32_from n of Some k \<Rightarrow> if 1 \<le> k then Some k else None | None \<Rightarrow> None)"

definition parse_test_forks :: "toml_table \<Rightarrow> nat result" where
  "parse_test_forks t =
     (let invalid = mf_err ''test.forks must be a whole number of test JVMs, 1 or more'' [] in
      case map_of t ''forks'' of
        None \<Rightarrow> Inr 0
      | Some (TomlInteger n) \<Rightarrow> ok_or invalid (fork_count n)
      | Some _ \<Rightarrow> Inl invalid)"

definition parse_share_classes :: "toml_table \<Rightarrow> share_classes result" where
  "parse_share_classes t =
     (case map_of t ''share-classes'' of
        None \<Rightarrow> Inr ShareOff
      | Some (TomlBoolean b) \<Rightarrow> Inr (if b then ShareOn else ShareOff)
      | Some v \<Rightarrow>
          if v = TomlString ''archive'' then Inr ShareArchive
          else if v = TomlString ''aot'' then Inr ShareAot
          else Inl (mf_err ''test.share-classes must be true, false, archive or aot'' []))"

text \<open>A template under a key of a section.\<close>

definition template_at :: "str \<Rightarrow> str \<Rightarrow> str \<Rightarrow> template result" where
  "template_at section' key raw =
     (case template_parse raw of
        Inl e \<Rightarrow> Inl (ManifestErr (within ''in'' [section', key] e))
      | Inr t \<Rightarrow> Inr t)"

definition templates_at :: "toml_table \<Rightarrow> str \<Rightarrow> str \<Rightarrow> template list result" where
  "templates_at t section' key =
     and_then (string_array t key section') (\<lambda>raws. collect (map (template_at section' key) raws))"

definition optional_template :: "toml_table \<Rightarrow> str \<Rightarrow> str \<Rightarrow> template option result" where
  "optional_template t section' key =
     and_then (optional_string t key section') (\<lambda>raw.
       case raw of None \<Rightarrow> Inr None | Some r \<Rightarrow> and_then (template_at section' key r) (\<lambda>x. Inr (Some x)))"

text \<open>\<^verbatim>\<open>Path::parent\<close>: trailing slashes and dots are nothing; the root and the empty path have none.\<close>

fun drop_nothing :: "str list \<Rightarrow> str list" where
  "drop_nothing (p # q # ps) = (if p = [] \<or> p = ''.'' then drop_nothing (q # ps) else p # q # ps)"
| "drop_nothing ps = ps"

definition trim_parts :: "str list \<Rightarrow> str list" where
  "trim_parts ps = rev (drop_nothing (rev ps))"

definition path_parent :: "str \<Rightarrow> str option" where
  "path_parent p =
     (let ps = trim_parts (split_on CHR ''/'' p) in
      if ps = [[]] then None
      else let qs = trim_parts (butlast ps) in
           Some (if qs = [[]] \<and> starts_with ''/'' p then ''/'' else join_with ''/'' qs))"

definition default_test_resource_dir :: "str \<Rightarrow> str" where
  "default_test_resource_dir test_dir =
     (case path_parent test_dir of
        Some p \<Rightarrow> if p \<noteq> [] then path_join p ''resources'' else ''src/test/resources''
      | None \<Rightarrow> ''src/test/resources'')"

section \<open>Environments and agents\<close>

definition parse_env :: "toml_table \<Rightarrow> str \<Rightarrow> str \<Rightarrow> (str \<times> template) list result" where
  "parse_env t section' reserved =
     (case map_of t ''env'' of
        None \<Rightarrow> Inr []
      | Some v \<Rightarrow>
          and_then (ok_or (mf_err ''must be a table of strings'' [section', ''env'']) (tv_table v)) (\<lambda>vars.
          collect (map (\<lambda>(key, v).
            and_then (ok_or (mf_err ''must be a string'' [section', ''env'', key]) (tv_str v)) (\<lambda>raw.
            and_then (ensure (key \<noteq> [] \<and> CHR ''='' \<notin> set key \<and> CHR 0x00 \<notin> set key)
              (mf_err ''is not an environment variable name'' [section', key])) (\<lambda>_.
            and_then (ensure (\<not> starts_with ''JRS_'' (to_ascii_uppercase key))
              (mf_err ''names starting with JRS_ are jrs's own'' [section', key, reserved])) (\<lambda>_.
            and_then (template_at (section' @ ''.env'') key raw) (\<lambda>x. Inr (key, x)))))) vars)))"

definition parse_task_env :: "toml_table \<Rightarrow> str \<Rightarrow> (str \<times> template) list result" where
  "parse_task_env t section' = parse_env t section' '', and are set for every task''"

definition parse_jvm_env :: "toml_table \<Rightarrow> str \<Rightarrow> (str \<times> template) list result" where
  "parse_jvm_env t section' =
     and_then (parse_env t section' []) (\<lambda>env.
     and_then (for_each (\<lambda>(key, x). refuse_task_placeholders x (section' @ ''.env.'' @ key)) env) (\<lambda>_. Inr env))"

definition parse_jvm_cwd :: "toml_table \<Rightarrow> str \<Rightarrow> template option result" where
  "parse_jvm_cwd t section' =
     and_then (optional_template t section' ''cwd'') (\<lambda>c.
       case c of
         None \<Rightarrow> Inr None
       | Some x \<Rightarrow>
           and_then (refuse_task_placeholders x (section' @ ''.cwd'')) (\<lambda>_.
           and_then (ensure (\<not> has_free_port x) (mf_err ''free-port is a port, not a directory'' [section'])) (\<lambda>_.
           case find is_classpath (placeholders x) of
             Some p \<Rightarrow> Inl (mf_err ''is a classpath, not a path'' [section', placeholder_name p])
           | None \<Rightarrow> Inr (Some x))))"

text \<open>A coordinate without a version names a dependency, one with a version a jar pinned apart from it.\<close>

definition agent_part :: "str \<Rightarrow> bool" where
  "agent_part s \<longleftrightarrow> s \<noteq> [] \<and> \<not> list_ex (\<lambda>ch. ch \<in> set white_space) (chars s)"

definition parse_agent :: "str \<Rightarrow> str \<Rightarrow> java_agent result" where
  "parse_agent key raw =
     (let parts = split_on CHR '':'' raw; bad = Inl (mf_err ''is not a group:artifact coordinate'' [key, raw]) in
      if \<not> list_all agent_part parts then bad
      else case parts of
        [g, a] \<Rightarrow> Inr (AgentGraph (ga_new g a))
      | g # a # v # rest \<Rightarrow>
          if 1 < length rest then bad
          else if is_range v then Inl (mf_err ''an agent is pinned at an exact version'' [key, raw, v])
          else Inr (AgentPinned (coord_with_classifier (coord_new g a v) (nth_opt rest 0)))
      | _ \<Rightarrow> bad)"

definition agent_step :: "str \<Rightarrow> str \<Rightarrow> java_agent list \<Rightarrow> java_agent list result" where
  "agent_step key raw agents =
     and_then (parse_agent key raw) (\<lambda>agent.
     if list_ex (\<lambda>a. agent_ga a = agent_ga agent) agents
     then Inl (mf_err ''names an agent twice'' [key, ga_display (agent_ga agent)])
     else Inr (agents @ [agent]))"

definition parse_java_agents :: "toml_table \<Rightarrow> str \<Rightarrow> java_agent list result" where
  "parse_java_agents t section' =
     and_then (string_array t ''java-agents'' section') (\<lambda>raws. fold_result (agent_step (section' @ ''.java-agents'')) raws [])"

section \<open>Dependencies\<close>

definition split_coordinate :: "str \<Rightarrow> str \<Rightarrow> (str \<times> str \<times> str option) result" where
  "split_coordinate key section' =
     (let bad = Inl (mf_err ''dependency keys must be group:artifact'' [section', key]) in
      case split_on CHR '':'' key of
        [g, a] \<Rightarrow> if g \<noteq> [] \<and> a \<noteq> [] then Inr (g, a, None) else bad
      | [g, a, c] \<Rightarrow>
          if g \<noteq> [] \<and> a \<noteq> [] \<and> c \<noteq> [] \<and> \<not> is_ascii_digit (hd c) then Inr (g, a, Some c) else bad
      | _ \<Rightarrow> bad)"

definition parse_exclusion :: "str \<Rightarrow> str \<Rightarrow> exclusion result" where
  "parse_exclusion name pattern =
     (case split_once '':'' pattern of
        Some (g, a) \<Rightarrow>
          if g \<noteq> [] \<and> a \<noteq> [] \<and> CHR '':'' \<notin> set a then Inr \<lparr>ex_group = g, ex_artifact = a\<rparr>
          else Inl (mf_err ''is not a group:artifact pattern'' [name, pattern])
      | None \<Rightarrow> Inl (mf_err ''is not a group:artifact pattern'' [name, pattern]))"

text \<open>The first key of a table that is not among those known.\<close>

definition first_unknown :: "toml_table \<Rightarrow> str list \<Rightarrow> str option" where
  "first_unknown t known = find (\<lambda>k. k \<notin> set known) (keys_of t)"

definition entry_name :: "str \<Rightarrow> str \<Rightarrow> str \<Rightarrow> str" where
  "entry_name section' key k = section' @ ''.'' @ [CHR 0x22] @ key @ [CHR 0x22] @ ''.'' @ k"

definition entry_section :: "str \<Rightarrow> str \<Rightarrow> str" where
  "entry_section section' key = section' @ ''.'' @ [CHR 0x22] @ key @ [CHR 0x22]"

definition long_version :: "toml_table \<Rightarrow> str \<Rightarrow> str \<Rightarrow> str result" where
  "long_version t section' key =
     (case map_of t ''version'' of
        None \<Rightarrow> Inr []
      | Some (TomlString v) \<Rightarrow> if trim v \<noteq> [] then Inr v else Inl (mf_err ''has an empty version'' [section', key])
      | Some _ \<Rightarrow> Inl (mf_err ''must be a version string'' [entry_name section' key ''version'']))"

definition long_classifier :: "toml_table \<Rightarrow> str \<Rightarrow> str \<Rightarrow> str option \<Rightarrow> str option result" where
  "long_classifier t section' key own =
     and_then (optional_string t ''classifier'' (entry_section section' key)) (\<lambda>classifier.
       case classifier of
         None \<Rightarrow> Inr own
       | Some c \<Rightarrow>
           if own \<noteq> None \<and> own \<noteq> Some c then Inl (mf_err ''the key names another classifier'' [entry_name section' key ''classifier'', c])
           else Inr (non_empty (Some c)))"

definition parse_dependency_keys :: "dependency \<Rightarrow> toml_table \<Rightarrow> str \<Rightarrow> str \<Rightarrow> dependency result" where
  "parse_dependency_keys d t section' key =
     and_then (case first_unknown t dependency_keys of Some k \<Rightarrow> Inl (mf_err ''unknown key'' [section', key, k]) | None \<Rightarrow> Inr ()) (\<lambda>_.
     and_then (long_version t section' key) (\<lambda>version.
     and_then (long_classifier t section' key (dep_classifier d)) (\<lambda>classifier.
     and_then (string_array t ''exclusions'' (entry_section section' key)) (\<lambda>patterns.
     and_then (collect (map (parse_exclusion (entry_name section' key ''exclusions'')) patterns)) (\<lambda>exclusions.
     and_then (bool_key t ''compile-only'' (entry_name section' key ''compile-only'')) (\<lambda>compile_only.
     and_then (bool_key t ''runtime-only'' (entry_name section' key ''runtime-only'')) (\<lambda>runtime_only.
     let d' = d\<lparr>dep_version := version, dep_classifier := classifier, dep_exclusions := exclusions,
       dep_compile_only := compile_only, dep_runtime_only := runtime_only\<rparr> in
     and_then (check_one_classpath d' section') (\<lambda>_. Inr d'))))))))"

text \<open>A jar taken as it is, from inside the project.\<close>

definition jar_key_char :: "char \<Rightarrow> bool" where
  "jar_key_char c \<longleftrightarrow> is_ascii_alphanumeric c \<or> c = CHR ''-'' \<or> c = CHR ''_'' \<or> c = CHR ''.''"

definition parse_local_jar :: "str \<Rightarrow> toml_table \<Rightarrow> str \<Rightarrow> dependency result" where
  "parse_local_jar key t section' =
     and_then (ensure (key \<noteq> [] \<and> list_all jar_key_char key) (mf_err ''is a local jar, and its key is a name of its own'' [section', key])) (\<lambda>_.
     and_then (case first_unknown t local_dependency_keys of Some k \<Rightarrow> Inl (mf_err ''does not go with path'' [section', key, k]) | None \<Rightarrow> Inr ()) (\<lambda>_.
     and_then (optional_string t ''path'' (entry_section section' key)) (\<lambda>raw.
     let p = replace_char CHR 0x5C CHR ''/'' (value_or [] raw) in
     and_then (ensure (\<not> (trim p = [] \<or> starts_with ''/'' p \<or> ''..'' \<in> set (split_on CHR ''/'' p) \<or> ends_with ''/'' p))
       (mf_err ''must name a jar file inside the project'' [entry_name section' key ''path'', value_or [] raw])) (\<lambda>_.
     and_then (bool_key t ''compile-only'' (entry_name section' key ''compile-only'')) (\<lambda>compile_only.
     and_then (bool_key t ''runtime-only'' (entry_name section' key ''runtime-only'')) (\<lambda>runtime_only.
     let d = (dependency_local key p)\<lparr>dep_compile_only := compile_only, dep_runtime_only := runtime_only\<rparr> in
     and_then (check_one_classpath d section') (\<lambda>_. Inr d)))))))"

text \<open>A workspace member, by its directory.\<close>

definition trim_end_slashes :: "str \<Rightarrow> str" where
  "trim_end_slashes s = rev (dropWhile (\<lambda>c. c = CHR ''/'') (rev s))"

definition parse_module :: "str \<Rightarrow> toml_table \<Rightarrow> str \<Rightarrow> module_dependency result" where
  "parse_module key t section' =
     and_then (ensure (validate_name key = Inr ()) (mf_err ''is a workspace member, and its key is that member's project.name'' [section', key])) (\<lambda>_.
     and_then (case first_unknown t local_dependency_keys of Some k \<Rightarrow> Inl (mf_err ''does not go with a member's path'' [section', key, k]) | None \<Rightarrow> Inr ()) (\<lambda>_.
     and_then (optional_string t ''path'' (entry_section section' key)) (\<lambda>raw.
     let trimmed = trim_end_slashes (replace_char CHR 0x5C CHR ''/'' (value_or [] raw)) in
     and_then (ensure (\<not> (trimmed = [] \<or> starts_with ''/'' trimmed))
       (mf_err ''must name a member's directory'' [entry_name section' key ''path'', value_or [] raw])) (\<lambda>_.
     and_then (bool_key t ''compile-only'' (entry_name section' key ''compile-only'')) (\<lambda>compile_only.
     and_then (bool_key t ''runtime-only'' (entry_name section' key ''runtime-only'')) (\<lambda>runtime_only.
     if compile_only \<and> runtime_only then Inl (mf_err ''cannot be both compile-only and runtime-only'' [section', key])
     else Inr \<lparr>md_name = key, md_path = trimmed, md_dev = False, md_compile_only = compile_only, md_runtime_only = runtime_only\<rparr>))))))"

text \<open>A dependency by its coordinate: a version, or a table.\<close>

definition parse_coordinate :: "str \<Rightarrow> toml \<Rightarrow> str \<Rightarrow> dependency result" where
  "parse_coordinate key v section' =
     and_then (split_coordinate key section') (\<lambda>(grp, artifact, classifier).
     let d = (dependency_new grp artifact [])\<lparr>dep_classifier := classifier\<rparr> in
     and_then (case v of
         TomlString s \<Rightarrow> Inr (d\<lparr>dep_version := s\<rparr>)
       | TomlTable t \<Rightarrow> parse_dependency_keys d t section' key
       | _ \<Rightarrow> Inl (mf_err ''must be a version string or a table'' [section', key])) (\<lambda>d.
     and_then (check_classifier d section' key) (\<lambda>_.
     if tv_str v \<noteq> None \<and> trim (dep_version d) = [] then Inl (mf_err ''has an empty version'' [section', key])
     else Inr d)))"

text \<open>Whether a value names a directory: a table with the path of one.\<close>

definition names_module :: "toml \<Rightarrow> toml_table option" where
  "names_module v =
     (case v of
        TomlTable t \<Rightarrow>
          (case toml_str t ''path'' of
             Some p \<Rightarrow> if trim p \<noteq> [] \<and> is_module_path (replace_char CHR 0x5C CHR ''/'' p) then Some t else None
           | None \<Rightarrow> None)
      | _ \<Rightarrow> None)"

definition names_jar :: "toml \<Rightarrow> toml_table option" where
  "names_jar v = (case v of TomlTable t \<Rightarrow> if has_key t ''path'' then Some t else None | _ \<Rightarrow> None)"

definition dependency_step ::
    "str \<Rightarrow> str \<times> toml \<Rightarrow> dependency list \<times> module_dependency list \<Rightarrow> (dependency list \<times> module_dependency list) result" where
  "dependency_step section' = (\<lambda>(key, v) (out, modules).
     case names_module v of
       Some t \<Rightarrow> and_then (parse_module key t section') (\<lambda>m. Inr (out, modules @ [m]))
     | None \<Rightarrow>
         and_then (case names_jar v of Some t \<Rightarrow> parse_local_jar key t section' | None \<Rightarrow> parse_coordinate key v section') (\<lambda>d.
         if list_ex (\<lambda>o'. dep_key o' = dep_key d) out then Inl (mf_err ''declares a dependency twice'' [section', dep_key d])
         else Inr (out @ [d], modules)))"

definition parse_dependency_table_with_modules ::
    "toml option \<Rightarrow> str \<Rightarrow> (dependency list \<times> module_dependency list) result" where
  "parse_dependency_table_with_modules v section' =
     (case v of
        None \<Rightarrow> Inr ([], [])
      | Some v \<Rightarrow>
          and_then (ok_or (mf_err ''must be a table'' [section']) (tv_table v)) (\<lambda>deps.
          fold_result (dependency_step section') deps ([], [])))"

definition parse_dependencies :: "toml_table \<Rightarrow> str \<Rightarrow> (dependency list \<times> module_dependency list) result" where
  "parse_dependencies table section' = parse_dependency_table_with_modules (map_of table section') section'"

definition parse_dependency_table :: "toml option \<Rightarrow> str \<Rightarrow> dependency list result" where
  "parse_dependency_table v section' =
     and_then (parse_dependency_table_with_modules v section') (\<lambda>(ds, ms).
       case ms of
         m # _ \<Rightarrow> Inl (mf_err ''only [dependencies] and [dev-dependencies] may depend on a member'' [section', md_name m, md_path m])
       | [] \<Rightarrow> Inr ds)"

definition managed_version :: "str \<Rightarrow> toml \<Rightarrow> (str \<times> bool) result" where
  "managed_version key v =
     (case v of
        TomlString s \<Rightarrow> Inr (s, False)
      | TomlTable t \<Rightarrow>
          and_then (case first_unknown t managed_keys of Some k \<Rightarrow> Inl (mf_err ''unknown key'' [''managed'', key, k]) | None \<Rightarrow> Inr ()) (\<lambda>_.
          and_then (optional_string t ''version'' (entry_section ''managed'' key)) (\<lambda>version.
          and_then (ok_or (mf_err ''is missing a version string'' [''managed'', key]) version) (\<lambda>version.
          and_then (bool_key t ''bom'' (entry_name ''managed'' key ''bom'')) (\<lambda>bom. Inr (version, bom)))))
      | _ \<Rightarrow> Inl (mf_err ''must be a version string, or a table with version and bom'' [''managed'', key]))"

definition managed_step :: "str \<times> toml \<Rightarrow> managed list \<Rightarrow> managed list result" where
  "managed_step = (\<lambda>(key, v) out.
     and_then (split_coordinate key ''managed'') (\<lambda>(grp, artifact, classifier).
     and_then (ensure (classifier = None) (mf_err ''a managed version applies to every classifier'' [''managed'', key])) (\<lambda>_.
     and_then (managed_version key v) (\<lambda>(raw, bom).
     let version = trim raw in
     and_then (ensure (version \<noteq> []) (mf_err ''has an empty version'' [''managed'', key])) (\<lambda>_.
     and_then (ensure (\<not> is_range version) (mf_err ''a managed version is exact'' [''managed'', key, version])) (\<lambda>_.
     if list_ex (\<lambda>m. mg_group m = grp \<and> mg_artifact m = artifact) out then Inl (mf_err ''managed names an artifact twice'' [key])
     else Inr (out @ [\<lparr>mg_group = grp, mg_artifact = artifact, mg_version = version, mg_bom = bom\<rparr>])))))))"

definition parse_managed :: "toml_table \<Rightarrow> managed list result" where
  "parse_managed table =
     (case map_of table ''managed'' of
        None \<Rightarrow> Inr []
      | Some v \<Rightarrow>
          and_then (ok_or (mf_err ''must be a table'' [''managed'']) (tv_table v)) (\<lambda>entries. fold_result managed_step entries []))"

section \<open>Tasks and hooks\<close>

definition parse_reference :: "str \<Rightarrow> str \<Rightarrow> task_ref result" where
  "parse_reference section' entry =
     (case builtin_parse entry of
        Some b \<Rightarrow> Inr (RefBuiltin b)
      | None \<Rightarrow>
          (case split_once '':'' entry of
             Some (member, task) \<Rightarrow>
               if validate_name member \<noteq> Inr () \<or> validate_task_name task \<noteq> Inr ()
               then Inl (mf_err ''is not a workspace member's task'' [section', entry])
               else Inr (RefMember member task)
           | None \<Rightarrow>
               if entry \<in> set reserved_task_names then Inl (mf_err ''is a command a task cannot depend on'' [section', entry])
               else Inr (RefTask entry)))"

definition depends_step :: "str \<Rightarrow> str \<Rightarrow> task_ref list \<Rightarrow> task_ref list result" where
  "depends_step section' entry depends_on =
     and_then (parse_reference section' entry) (\<lambda>r.
     if r \<in> set depends_on then Inl (mf_err ''depends-on names a task twice'' [section', task_ref_display r])
     else Inr (depends_on @ [r]))"

definition parse_depends_on :: "toml_table \<Rightarrow> str \<Rightarrow> task_ref list result" where
  "parse_depends_on t section' =
     and_then (string_array t ''depends-on'' section') (\<lambda>raws. fold_result (depends_step section') raws [])"

text \<open>A tool's graph of its own.\<close>

definition task_refuses :: "dependency \<Rightarrow> str option" where
  "task_refuses d =
     (if is_local d then Some ''a local jar''
      else if dep_compile_only d \<or> dep_runtime_only d then Some ''compile-only and runtime-only''
      else if is_managed d then Some ''a version from [managed]''
      else None)"

definition parse_task_dependencies :: "toml_table \<Rightarrow> str \<Rightarrow> action option \<Rightarrow> dependency list result" where
  "parse_task_dependencies t section' act =
     (let key = section' @ ''.dependencies'' in
      and_then (parse_dependency_table (map_of t ''dependencies'') key) (\<lambda>ds.
      and_then (for_each (\<lambda>d. case task_refuses d of
          Some what \<Rightarrow> Inl (mf_err ''a task's dependencies are a tool's graph of their own'' [key, dep_key d, what])
        | None \<Rightarrow> Inr ()) ds) (\<lambda>_.
      case act of
        Some (ActMain _) \<Rightarrow> if ds = [] then Inl (mf_err ''runs a class from the task's own dependencies, and it has none'' [section']) else Inr ds
      | Some (ActScript _) \<Rightarrow> Inr ds
      | _ \<Rightarrow> if ds \<noteq> [] then Inl (mf_err ''is the classpath of a main or script action'' [key, section']) else Inr ds)))"

definition parse_action :: "reading \<Rightarrow> toml_table \<Rightarrow> str \<Rightarrow> action option result" where
  "parse_action rg t section' =
     and_then (if has_key t ''run''
       then and_then (templates_at t section' ''run'') (\<lambda>argv.
         if argv = [] \<or> trim (tpl_raw (hd argv)) = [] then Inl (mf_err ''must name a program'' [section'])
         else Inr [(''run'', ActRun argv)])
       else Inr []) (\<lambda>run.
     and_then (optional_string t ''shell'' section') (\<lambda>shell.
     and_then (optional_template t section' ''script'') (\<lambda>script.
     and_then (optional_string t ''main'' section') (\<lambda>main.
     and_then (case main of Some c \<Rightarrow> validate_class_name (rg_alnum rg) c (section' @ ''.main'') | None \<Rightarrow> Inr ()) (\<lambda>_.
     let actions = run @ (case shell of Some s \<Rightarrow> [(''shell'', ActShell s)] | None \<Rightarrow> []) @
       (case script of Some x \<Rightarrow> [(''script'', ActScript x)] | None \<Rightarrow> []) @ (case main of Some c \<Rightarrow> [(''main'', ActMain c)] | None \<Rightarrow> []) in
     if 1 < length actions then Inl (mf_err ''a task runs exactly one of run, shell, script or main'' (section' # map fst actions))
     else Inr (case actions of [] \<Rightarrow> None | (_, a) # _ \<Rightarrow> Some a))))))"

definition parse_task :: "reading \<Rightarrow> str \<Rightarrow> toml \<Rightarrow> (task_def \<times> message list) result" where
  "parse_task rg name v =
     (let section' = ''tasks.'' @ name in
      and_then (validate_task_name name) (\<lambda>_.
      and_then (ok_or (mf_err ''must be a table'' [section']) (tv_table v)) (\<lambda>t.
      and_then (parse_action rg t section') (\<lambda>act.
      and_then (parse_depends_on t section') (\<lambda>depends_on.
      and_then (ensure (\<not> (act = None \<and> depends_on = [])) (mf_err ''does nothing'' [section'])) (\<lambda>_.
      and_then (parse_task_dependencies t section' act) (\<lambda>ds.
      and_then (parse_task_env t section') (\<lambda>env.
      and_then (optional_template t section' ''cwd'') (\<lambda>cwd.
      and_then (optional_string t ''description'' section') (\<lambda>description.
      and_then (templates_at t section' ''args'') (\<lambda>args.
      and_then (templates_at t section' ''inputs'') (\<lambda>inputs.
      and_then (templates_at t section' ''outputs'') (\<lambda>outputs.
      and_then (templates_at t section' ''source-outputs'') (\<lambda>source_outputs.
      and_then (templates_at t section' ''resource-outputs'') (\<lambda>resource_outputs.
      and_then (bool_key t ''cache'' (section' @ ''.cache'')) (\<lambda>cache.
      let task = \<lparr>td_name = name, td_description = description, td_action = act, td_args = args, td_depends_on = depends_on,
        td_env = env, td_cwd = cwd, td_inputs = inputs, td_outputs = outputs, td_source_outputs = source_outputs,
        td_resource_outputs = resource_outputs, td_cache = cache, td_dependencies = ds\<rparr> in
      and_then (check_path_templates task section') (\<lambda>_.
      Inr (task, warn_unknown t task_keys (section' @ ''.'')))))))))))))))))))"

definition parse_tasks :: "reading \<Rightarrow> toml_table \<Rightarrow> (task_def list \<times> message list) result" where
  "parse_tasks rg table =
     (case map_of table ''tasks'' of
        None \<Rightarrow> Inr ([], [])
      | Some v \<Rightarrow>
          and_then (ok_or (mf_err ''must be a table of tables'' [''tasks'']) (tv_table v)) (\<lambda>tasks.
          and_then (collect (map (\<lambda>(name, v). parse_task rg name v) tasks)) (\<lambda>ts.
          Inr (map fst ts, concat (map snd ts)))))"

text \<open>The first name that stands earlier in the list too.\<close>

fun first_again :: "str list \<Rightarrow> str list \<Rightarrow> str option" where
  "first_again before [] = None"
| "first_again before (n # ns) = (if n \<in> set before then Some n else first_again (n # before) ns)"

definition parse_hook :: "toml_table \<Rightarrow> hook \<Rightarrow> (hook \<times> str list) list result" where
  "parse_hook t h =
     and_then (string_array t (hook_name h) ''hooks'') (\<lambda>names.
       case first_again [] names of
         Some n \<Rightarrow> Inl (mf_err ''a hook names a task twice'' [hook_name h, n])
       | None \<Rightarrow> Inr (if names = [] then [] else [(h, names)]))"

definition parse_hooks :: "toml_table \<Rightarrow> (hooks \<times> message list) result" where
  "parse_hooks table =
     and_then (section_of table ''hooks'' []) (\<lambda>(t, _).
       case t of
         None \<Rightarrow> Inr ([], [])
       | Some t \<Rightarrow>
           and_then (collect (map (parse_hook t) all_hooks)) (\<lambda>hss.
           Inr (concat hss, warn_unknown t (map hook_name all_hooks) ''hooks.'')))"

section \<open>Packaging and resources\<close>

definition jar_attribute :: "str \<Rightarrow> str \<Rightarrow> template result" where
  "jar_attribute name raw =
     (let key = ''package.manifest.'' @ name in
      and_then (case validate_attribute_name name of Inl e \<Rightarrow> Inl (ManifestErr (within ''in'' [key] e)) | Inr _ \<Rightarrow> Inr ()) (\<lambda>_.
      and_then (case find (\<lambda>a. eq_ignore_ascii_case a name) jar_attributes_owned of
          Some owned \<Rightarrow> Inl (mf_err ''belongs to jrs'' [key, owned])
        | None \<Rightarrow> Inr ()) (\<lambda>_.
      and_then (ensure (\<not> list_ex (\<lambda>c. c \<in> {CHR 0x0A, CHR 0x0D, CHR 0x00}) raw) (mf_err ''an attribute value must be one line, with no NUL'' [key])) (\<lambda>_.
      and_then (template_at ''package.manifest'' name raw) (\<lambda>x.
      and_then (ensure (\<not> has_free_port x) (mf_err ''free-port is not known when a jar is written'' [key])) (\<lambda>_.
      case find (\<lambda>p. p \<noteq> PhProjectName \<and> p \<noteq> PhProjectVersion) (placeholders x) of
        Some p \<Rightarrow> Inl (mf_err ''is not known when a jar is written'' [key, placeholder_name p])
      | None \<Rightarrow> Inr x))))))"

definition attribute_step :: "str \<times> toml \<Rightarrow> (str \<times> template) list \<Rightarrow> (str \<times> template) list result" where
  "attribute_step = (\<lambda>(name, v) out.
     let key = ''package.manifest.'' @ name in
     and_then (case find (\<lambda>(n, _). eq_ignore_ascii_case n name) out of
         Some (earlier, _) \<Rightarrow> Inl (mf_err ''is already set; attribute names are case-insensitive'' [key, earlier])
       | None \<Rightarrow> Inr ()) (\<lambda>_.
     and_then (ok_or (mf_err ''must be a string'' [key]) (tv_str v)) (\<lambda>raw.
     and_then (jar_attribute name raw) (\<lambda>x. Inr (out @ [(name, x)])))))"

definition parse_jar_attributes :: "toml_table \<Rightarrow> (str \<times> template) list result" where
  "parse_jar_attributes t =
     (case map_of t ''manifest'' of
        None \<Rightarrow> Inr []
      | Some v \<Rightarrow>
          and_then (ok_or (mf_err ''package.manifest must be a table of attribute names to strings'' []) (tv_table v)) (\<lambda>table.
          fold_result attribute_step table []))"

definition relocation_entry :: "str \<Rightarrow> str \<Rightarrow> str list \<Rightarrow> relocation result" where
  "relocation_entry from' to' exclude =
     (let key = ''package.relocate.'' @ from' in
      and_then (validate_package_name from' key) (\<lambda>_.
      and_then (validate_package_name to' key) (\<lambda>_.
      and_then (for_each (\<lambda>name. ensure (\<not> (name = ''java'' \<or> starts_with ''java.'' name)) (mf_err ''java.* belongs to the JDK'' [key])) [from', to']) (\<lambda>_.
      and_then (ensure (to' \<noteq> from') (mf_err ''relocates the package to itself'' [key])) (\<lambda>_.
      and_then (for_each (\<lambda>x.
        and_then (validate_package_name (value_or x (strip_suffix ''.*'' x)) key) (\<lambda>_.
        ensure (starts_with (from' @ ''.'') x) (mf_err ''there is nothing to exclude it from'' [key, x, from']))) exclude) (\<lambda>_.
      Inr \<lparr>rel_from = from', rel_to = to', rel_exclude = exclude\<rparr>))))))"

definition parse_relocation :: "str \<times> toml \<Rightarrow> (relocation \<times> message list) result" where
  "parse_relocation = (\<lambda>(from', v).
     let key = ''package.relocate.'' @ from' in
     and_then (case v of
         TomlString to' \<Rightarrow> Inr (to', [], [])
       | TomlTable t \<Rightarrow>
           and_then (ok_or (mf_err ''needs to, the package to move it to'' [key]) (toml_str t ''to'')) (\<lambda>to'.
           and_then (string_array t ''exclude'' key) (\<lambda>exclude.
           Inr (to', exclude, warn_unknown t [''to'', ''exclude''] (key @ ''.''))))
       | _ \<Rightarrow> Inl (mf_err ''must be the package to move it to, or a table with to and exclude'' [key])) (\<lambda>(to', exclude, ws).
     and_then (relocation_entry from' to' exclude) (\<lambda>r. Inr (r, ws))))"

definition parse_relocations :: "toml_table \<Rightarrow> (relocation list \<times> message list) result" where
  "parse_relocations t =
     (case map_of t ''relocate'' of
        None \<Rightarrow> Inr ([], [])
      | Some v \<Rightarrow>
          and_then (ok_or (mf_err ''package.relocate must be a table of packages'' []) (tv_table v)) (\<lambda>table.
          and_then (collect (map parse_relocation table)) (\<lambda>rs.
          Inr (map fst rs, concat (map snd rs)))))"

definition expand_pattern :: "str \<Rightarrow> bool" where
  "expand_pattern pattern \<longleftrightarrow> \<not> (pattern = [] \<or> starts_with ''/'' pattern \<or> CHR 0x5C \<in> set pattern \<or>
     list_ex (\<lambda>c. c = [] \<or> c = ''.'' \<or> c = ''..'') (split_on CHR ''/'' pattern))"

definition resource_property :: "reading \<Rightarrow> str \<times> toml \<Rightarrow> (str \<times> template) result" where
  "resource_property rg = (\<lambda>(name, v).
     let key = ''resources.properties.'' @ name in
     and_then (ensure (valid_property_name (rg_alnum rg) name) (mf_err ''a property name is letters, digits, ., - and _'' [key])) (\<lambda>_.
     and_then (ensure (name \<noteq> ''project.name'' \<and> name \<noteq> ''project.version'') (mf_err ''is always set, from [project]'' [key, name])) (\<lambda>_.
     and_then (ok_or (mf_err ''must be a string'' [key]) (tv_str v)) (\<lambda>raw.
     and_then (template_at ''resources.properties'' name raw) (\<lambda>x.
     and_then (ensure (\<not> has_free_port x) (mf_err ''free-port is not known when resources are copied'' [key])) (\<lambda>_.
     case find (\<lambda>p. p \<noteq> PhProjectName \<and> p \<noteq> PhProjectVersion) (placeholders x) of
       Some p \<Rightarrow> Inl (mf_err ''is not known when resources are copied'' [key, placeholder_name p])
     | None \<Rightarrow> Inr (name, x)))))))"

definition parse_resources :: "reading \<Rightarrow> toml_table \<Rightarrow> resources_config result" where
  "parse_resources rg t =
     and_then (string_array t ''expand'' ''resources'') (\<lambda>expand.
     and_then (for_each (\<lambda>p. ensure (expand_pattern p) (mf_err ''resources.expand must be a relative path'' [p])) expand) (\<lambda>_.
     and_then (case map_of t ''properties'' of
         None \<Rightarrow> Inr []
       | Some v \<Rightarrow> and_then (ok_or (mf_err ''resources.properties must be a table of names to strings'' []) (tv_table v)) (\<lambda>table.
           collect (map (resource_property rg) table))) (\<lambda>properties.
     and_then (ensure (\<not> (expand = [] \<and> properties \<noteq> [])) (mf_err ''resources.expand names no file to use the properties in'' [])) (\<lambda>_.
     Inr \<lparr>rs_expand = expand, rs_properties = properties\<rparr>))))"

section \<open>Repositories\<close>

definition repository_long_form :: "str \<Rightarrow> toml_table \<Rightarrow> (str \<times> str list) result" where
  "repository_long_form name t =
     (let section' = ''repositories.'' @ name in
      and_then (case first_unknown t repository_keys of Some k \<Rightarrow> Inl (mf_err ''unknown key'' [section', k]) | None \<Rightarrow> Inr ()) (\<lambda>_.
      and_then (case toml_str t ''url'' of
          Some u \<Rightarrow> if trim u \<noteq> [] then Inr u else Inl (mf_err ''needs a url string'' [section'])
        | None \<Rightarrow> Inl (mf_err ''needs a url string'' [section'])) (\<lambda>url.
      and_then (string_array t ''groups'' section') (\<lambda>groups.
      and_then (ensure (\<not> (has_key t ''groups'' \<and> groups = [])) (mf_err ''groups is empty, so the repository would serve nothing'' [section'])) (\<lambda>_.
      and_then (for_each (\<lambda>p. ensure (valid_group_pattern p) (mf_err ''is not a group'' [section', p])) groups) (\<lambda>_.
      Inr (url, groups)))))))"

definition parse_repository :: "str \<times> toml \<Rightarrow> repository result" where
  "parse_repository = (\<lambda>(name, v).
     and_then (case v of
         TomlTable t \<Rightarrow> repository_long_form name t
       | other \<Rightarrow> and_then (ok_or (mf_err ''must be a URL string, or a table with url and groups'' [name]) (tv_str other)) (\<lambda>u. Inr (u, []))) (\<lambda>(url, groups).
     Inr \<lparr>repo_name = name, repo_url = trim_end_slashes url, repo_groups = groups\<rparr>))"

definition parse_repositories :: "toml_table \<Rightarrow> repository list result" where
  "parse_repositories table =
     and_then (case map_of table ''repositories'' of
         None \<Rightarrow> Inr []
       | Some v \<Rightarrow> and_then (ok_or (mf_err ''must be a table'' [''repositories'']) (tv_table v)) (\<lambda>t. collect (map parse_repository t))) (\<lambda>repos.
     Inr (if list_ex (\<lambda>r. repo_url r = central_url) repos then repos else repos @ [repository_new central_name central_url]))"

section \<open>Tests\<close>

definition parse_suite :: "str \<Rightarrow> toml \<Rightarrow> (test_suite \<times> message list) result" where
  "parse_suite name v =
     (let section' = ''test.suites.'' @ name in
      and_then (ensure (well_formed_name name) (mf_err ''a suite name is lowercase letters, digits and -'' [section'])) (\<lambda>_.
      and_then (ok_or (mf_err ''must be a table'' [section']) (tv_table v)) (\<lambda>t.
      and_then (ensure (has_key t ''test-dir'') (mf_err ''test-dir is required'' [section'])) (\<lambda>_.
      and_then (path_or t ''test-dir'' [] section') (\<lambda>test_dir.
      and_then (if has_key t ''test-resource-dir'' then path_or t ''test-resource-dir'' [] section' else Inr (default_test_resource_dir test_dir)) (\<lambda>resource_dir.
      and_then (case map_of t ''forks'' of
          None \<Rightarrow> Inr 0
        | Some f \<Rightarrow> ok_or (mf_err ''forks must be a whole number of test JVMs, 1 or more'' [section'])
            (case tv_integer f of Some n \<Rightarrow> fork_count n | None \<Rightarrow> None)) (\<lambda>forks.
      and_then (string_array t ''jvm-args'' section') (\<lambda>jvm_args.
      and_then (parse_jvm_env t section') (\<lambda>env.
      and_then (optional_count t ''retries'' section') (\<lambda>retries.
      Inr (\<lparr>ts_name = name, ts_test_dir = test_dir, ts_test_resource_dir = resource_dir, ts_jvm_args = jvm_args, ts_env = env,
          ts_retries = retries, ts_forks = forks\<rparr>, warn_unknown t suite_keys (section' @ ''.''))))))))))))"

definition parse_suites :: "toml_table \<Rightarrow> (test_suite list \<times> message list) result" where
  "parse_suites t =
     (case map_of t ''suites'' of
        None \<Rightarrow> Inr ([], [])
      | Some v \<Rightarrow>
          and_then (ok_or (mf_err ''test.suites must hold one table per suite'' []) (tv_table v)) (\<lambda>table.
          and_then (collect (map (\<lambda>(name, v). parse_suite name v) table)) (\<lambda>ss.
          Inr (map fst ss, concat (map snd ss)))))"

definition coverage_counters :: "str list" where
  "coverage_counters = [''instruction'', ''branch'', ''line'', ''complexity'', ''method'', ''class'']"

definition basis_points_of :: "reading \<Rightarrow> str \<Rightarrow> toml \<Rightarrow> nat result" where
  "basis_points_of rg key v =
     (let out_of_range = (\<lambda>shown. Inl (mf_err ''a minimum is a ratio from 0 to 1'' [key, shown])) in
      case v of
        TomlInteger n \<Rightarrow> if n = 0 then Inr 0 else if n = 1 then Inr 10000 else out_of_range (int_text n)
      | TomlFloat w \<Rightarrow> if is_ratio w then Inr (ratio_points w) else out_of_range (rg_float rg w)
      | _ \<Rightarrow> Inl (mf_err ''must be a number from 0 to 1'' [key]))"

definition coverage_entry :: "reading \<Rightarrow> str \<times> toml \<Rightarrow> coverage_minimum list result" where
  "coverage_entry rg = (\<lambda>(key, v).
     case counter_from_key key of
       None \<Rightarrow> Inr []
     | Some counter \<Rightarrow> and_then (basis_points_of rg key v) (\<lambda>bp. Inr [\<lparr>cm_counter = counter, cm_basis_points = bp\<rparr>]))"

definition coverage_minimum_of :: "reading \<Rightarrow> toml_table \<Rightarrow> (coverage_minimum list \<times> message list) result" where
  "coverage_minimum_of rg t =
     (case map_of t ''coverage-minimum'' of
        None \<Rightarrow> Inr ([], [])
      | Some v \<Rightarrow>
          and_then (ok_or (mf_err ''test.coverage-minimum must be a table of ratios'' []) (tv_table v)) (\<lambda>table.
          and_then (collect (map (coverage_entry rg) table)) (\<lambda>mss.
          Inr (concat mss, warn_unknown table coverage_counters ''test.coverage-minimum.''))))"

section \<open>The tables\<close>

definition parse_jrs_version :: "reading \<Rightarrow> toml_table \<Rightarrow> str \<Rightarrow> str option result" where
  "parse_jrs_version rg project p =
     (case map_of project ''jrs-version'' of
        None \<Rightarrow> Inr None
      | Some v \<Rightarrow>
          and_then (ok_or (mf_err ''project.jrs-version must be a jrs version'' [rg_show rg v]) (tv_str v)) (\<lambda>required.
          and_then (ensure (release_parts required \<noteq> None) (mf_err ''project.jrs-version must be a jrs version'' [required])) (\<lambda>_.
          and_then (check_jrs_version required cargo_pkg_version p) (\<lambda>_. Inr (Some required)))))"

text \<open>A target only means something when it is not the source.\<close>

definition parse_java :: "toml_table \<Rightarrow> java_config result" where
  "parse_java t =
     and_then (optional_release t ''source'') (\<lambda>source.
     and_then (optional_release t ''target'') (\<lambda>target.
     and_then (optional_string t ''encoding'' ''java'') (\<lambda>encoding.
     and_then (string_array t ''javac-args'' ''java'') (\<lambda>javac_args.
     and_then (string_array t ''javadoc-args'' ''java'') (\<lambda>javadoc_args.
     and_then (optional_release t ''jdk'') (\<lambda>jdk.
     Inr \<lparr>jc_source = source, jc_target = (if target = source then None else target), jc_encoding = value_or ''UTF-8'' encoding,
          jc_javac_args = javac_args, jc_javadoc_args = javadoc_args, jc_jdk = jdk\<rparr>))))))"

definition parse_run :: "toml_table \<Rightarrow> run_config result" where
  "parse_run t =
     and_then (string_array t ''jvm-args'' ''run'') (\<lambda>jvm_args.
     and_then (parse_java_agents t ''run'') (\<lambda>agents.
     and_then (parse_jvm_env t ''run'') (\<lambda>env.
     and_then (parse_jvm_cwd t ''run'') (\<lambda>cwd.
     Inr \<lparr>rc_jvm_args = jvm_args, rc_java_agents = agents, rc_env = env, rc_cwd = cwd\<rparr>))))"

definition parse_test :: "reading \<Rightarrow> toml_table \<Rightarrow> (test_config \<times> message list) result" where
  "parse_test rg t =
     and_then (string_array t ''jvm-args'' ''test'') (\<lambda>jvm_args.
     and_then (optional_string t ''jacoco-version'' ''test'') (\<lambda>jacoco.
     and_then (parse_java_agents t ''test'') (\<lambda>agents.
     and_then (parse_jvm_env t ''test'') (\<lambda>env.
     and_then (optional_count t ''retries'' ''test'') (\<lambda>retries.
     and_then (parse_test_forks t) (\<lambda>forks.
     and_then (coverage_minimum_of rg t) (\<lambda>(coverage, ws).
     and_then (parse_share_classes t) (\<lambda>share.
     and_then (parse_suites t) (\<lambda>(suites, ws').
     Inr (\<lparr>tc_jvm_args = jvm_args, tc_jacoco_version = jacoco, tc_java_agents = agents, tc_env = env, tc_retries = retries,
          tc_forks = forks, tc_coverage_minimum = coverage, tc_share_classes = share, tc_suites = suites\<rparr>, ws @ ws'))))))))))"

definition parse_package :: "toml_table \<Rightarrow> (package_config \<times> message list) result" where
  "parse_package t =
     and_then (string_array t ''add-modules'' ''package'') (\<lambda>add_modules.
     and_then (parse_jar_attributes t) (\<lambda>attributes.
     and_then (string_array t ''native-image-args'' ''package'') (\<lambda>native.
     and_then (parse_relocations t) (\<lambda>(relocate, ws).
     Inr (\<lparr>pk_add_modules = add_modules, pk_manifest = attributes, pk_native_image_args = native, pk_relocate = relocate\<rparr>, ws)))))"

definition parse_obfuscate :: "toml_table \<Rightarrow> obfuscate_config result" where
  "parse_obfuscate t =
     and_then (required_string t ''version'' ''obfuscate'') (\<lambda>version.
     and_then (ensure (trim version \<noteq> []) (mf_err ''obfuscate.version must name a ProGuard release'' [])) (\<lambda>_.
     and_then (string_array t ''keep'' ''obfuscate'') (\<lambda>keep.
     and_then (string_array t ''proguard-args'' ''obfuscate'') (\<lambda>args.
     Inr \<lparr>ob_version = version, ob_keep = keep, ob_proguard_args = args\<rparr>))))"

definition language_version :: "toml_table \<Rightarrow> language \<Rightarrow> str result" where
  "language_version t l =
     (case map_of t ''version'' of
        Some (TomlString v) \<Rightarrow> if trim v \<noteq> [] then Inr (trim v) else Inl (mf_err ''version must not be empty'' [lang_key l])
      | Some _ \<Rightarrow> Inl (mf_err ''version must be a version string'' [lang_key l])
      | None \<Rightarrow> Inl (mf_err ''needs the compiler to build with'' [lang_key l, lang_name l, value_or [] (starter_version l)]))"

definition parse_language_table :: "toml_table \<Rightarrow> language \<Rightarrow> language_config result" where
  "parse_language_table t l =
     (let key = lang_key l in
      and_then (language_version t l) (\<lambda>version.
      and_then (ensure (\<not> is_range version) (mf_err ''the compiler is pinned at an exact version'' [key, version])) (\<lambda>_.
      and_then (case check_version l version of Inl e \<Rightarrow> Inl (ManifestErr (within ''version'' [key, version] e)) | Inr _ \<Rightarrow> Inr ()) (\<lambda>_.
      and_then (string_array t ''plugins'' key) (\<lambda>plugins.
      and_then (for_each (\<lambda>n. ensure (find_kotlin_plugin n \<noteq> None)
        (mf_err ''is not a compiler plugin jrs knows'' (key # n # map kp_name kotlin_plugins))) plugins) (\<lambda>_.
      and_then (path_or t ''source-dir'' (''src/main/'' @ key) key) (\<lambda>source_dir.
      and_then (path_or t ''test-dir'' (''src/test/'' @ key) key) (\<lambda>test_dir.
      and_then (string_array t (args_key l) key) (\<lambda>args.
      and_then (string_array t ''compiler-jvm-args'' key) (\<lambda>jvm_args.
      Inr \<lparr>lc_language = l, lc_version = version, lc_source_dir = source_dir, lc_test_dir = test_dir, lc_compiler_args = args,
           lc_compiler_jvm_args = jvm_args, lc_plugins = plugins\<rparr>))))))))))"

definition parse_language :: "toml_table \<Rightarrow> language \<Rightarrow> (language_config list \<times> message list) result" where
  "parse_language table l =
     (let known = [''version'', ''source-dir'', ''test-dir'', args_key l, ''compiler-jvm-args''] @ (if l = Kotlin then [''plugins''] else []) in
      and_then (section_of table (lang_key l) known) (\<lambda>(t, ws).
        case t of
          None \<Rightarrow> Inr ([], ws)
        | Some t \<Rightarrow> and_then (parse_language_table t l) (\<lambda>c. Inr ([c], ws))))"

definition parse_languages :: "toml_table \<Rightarrow> (language_config list \<times> message list) result" where
  "parse_languages table =
     and_then (collect (map (parse_language table) foreign)) (\<lambda>rs. Inr (concat (map fst rs), concat (map snd rs)))"

text \<open>An optional table read by a function that may warn, or its default.\<close>

definition sub_table ::
    "toml_table \<Rightarrow> str \<Rightarrow> str list \<Rightarrow> 'a \<Rightarrow> (toml_table \<Rightarrow> ('a \<times> message list) result) \<Rightarrow> ('a \<times> message list) result" where
  "sub_table table name known dflt f =
     and_then (section_of table name known) (\<lambda>(t, ws).
       case t of None \<Rightarrow> Inr (dflt, ws) | Some t \<Rightarrow> and_then (f t) (\<lambda>(x, ws'). Inr (x, ws @ ws')))"

definition quiet :: "(toml_table \<Rightarrow> 'a result) \<Rightarrow> toml_table \<Rightarrow> ('a \<times> message list) result" where
  "quiet f t = and_then (f t) (\<lambda>x. Inr (x, []))"

text \<open>The members a manifest depends on: the main declarations, and the others for its tests.\<close>

definition join_modules :: "module_dependency list \<Rightarrow> module_dependency list \<Rightarrow> (module_dependency list \<times> message list) result" where
  "join_modules modules devs =
     (case find (\<lambda>m. md_compile_only m \<or> md_runtime_only m) devs of
        Some m \<Rightarrow> Inl (mf_err ''compile-only and runtime-only only mean something in [dependencies]'' [md_name m])
      | None \<Rightarrow>
          let declared = (\<lambda>d. list_ex (\<lambda>m. md_name m = md_name d) modules) in
          Inr (modules @ map (\<lambda>m. m\<lparr>md_dev := True\<rparr>) (filter (\<lambda>d. \<not> declared d) devs),
               map (\<lambda>d. Msg ''is declared in both; the main declaration wins'' [md_name d]) (filter declared devs)))"

definition check_dev_dependencies :: "dependency list \<Rightarrow> dependency list \<Rightarrow> message list result" where
  "check_dev_dependencies ds devs =
     and_then (case find dep_compile_only devs of
         Some d \<Rightarrow> Inl (mf_err ''compile-only only means something in [dependencies]'' [dep_key d]) | None \<Rightarrow> Inr ()) (\<lambda>_.
     and_then (case find dep_runtime_only devs of
         Some d \<Rightarrow> Inl (mf_err ''runtime-only only means something in [dependencies]'' [dep_key d]) | None \<Rightarrow> Inr ()) (\<lambda>_.
     Inr (map (\<lambda>d. Msg ''is declared in both; the main declaration wins'' [dep_key d])
       (filter (\<lambda>d. list_ex (\<lambda>o'. dep_key o' = dep_key d) ds) devs))))"

text \<open>\<^verbatim>\<open>[project]\<close>, as the fields it fills of a manifest that is otherwise empty.\<close>

definition parse_project :: "reading \<Rightarrow> toml_table \<Rightarrow> str \<Rightarrow> str \<Rightarrow> (manifest \<times> message list) result" where
  "parse_project rg project p root =
     and_then (parse_jrs_version rg project p) (\<lambda>jrs_version.
     and_then (required_string project ''name'' ''project'') (\<lambda>name.
     and_then (validate_name name) (\<lambda>_.
     and_then (required_string project ''version'' ''project'') (\<lambda>version.
     and_then (ensure (trim version \<noteq> []) (mf_err ''project.version must not be empty'' [])) (\<lambda>_.
     and_then (optional_string project ''group'' ''project'') (\<lambda>grp.
     and_then (case grp of Some g \<Rightarrow> check_project_group g ''project.group'' | None \<Rightarrow> Inr ()) (\<lambda>_.
     and_then (optional_string project ''main-class'' ''project'') (\<lambda>main_class.
     and_then (case main_class of Some c \<Rightarrow> validate_class_name (rg_alnum rg) c ''project.main-class'' | None \<Rightarrow> Inr ()) (\<lambda>_.
     and_then (path_or project ''source-dir'' ''src/main/java'' ''project'') (\<lambda>source_dir.
     and_then (path_or project ''test-dir'' ''src/test/java'' ''project'') (\<lambda>test_dir.
     and_then (path_or project ''resource-dir'' ''src/main/resources'' ''project'') (\<lambda>resource_dir.
     and_then (path_or project ''target-dir'' ''target'' ''project'') (\<lambda>target_dir.
     and_then (if has_key project ''test-resource-dir'' then path_or project ''test-resource-dir'' [] ''project''
       else Inr (default_test_resource_dir test_dir)) (\<lambda>test_resource_dir.
     Inr ((blank name version root)\<lparr>mf_path := p, mf_group := grp, mf_main_class := main_class, mf_source_dir := source_dir,
          mf_test_dir := test_dir, mf_resource_dir := resource_dir, mf_test_resource_dir := test_resource_dir,
          mf_target_dir := target_dir, mf_jrs_version := jrs_version\<rparr>, warn_unknown project project_keys ''project.'')))))))))))))))"

text \<open>The tables, in the order they are read, as the fields they fill.\<close>

definition parse_settings :: "reading \<Rightarrow> toml_table \<Rightarrow> manifest \<Rightarrow> (manifest \<times> message list) result" where
  "parse_settings rg table m =
     and_then (sub_table table ''java'' java_keys java_config_default (quiet parse_java)) (\<lambda>(java, w1).
     and_then (sub_table table ''run'' run_keys (mf_run m) (quiet parse_run)) (\<lambda>(run, w2).
     and_then (sub_table table ''test'' test_keys (mf_test m) (parse_test rg)) (\<lambda>(test, w3).
     and_then (sub_table table ''package'' package_keys (mf_package m) parse_package) (\<lambda>(package, w4).
     and_then (sub_table table ''resources'' resources_keys (mf_resources m) (quiet (parse_resources rg))) (\<lambda>(resources, w5).
     and_then (sub_table table ''obfuscate'' obfuscate_keys None (quiet (\<lambda>t. and_then (parse_obfuscate t) (\<lambda>x. Inr (Some x))))) (\<lambda>(obfuscate, w6).
     and_then (parse_languages table) (\<lambda>(languages, w7).
     Inr (m\<lparr>mf_java := java, mf_run := run, mf_test := test, mf_package := package, mf_resources := resources,
            mf_obfuscate := obfuscate, mf_languages := languages\<rparr>, w1 @ w2 @ w3 @ w4 @ w5 @ w6 @ w7))))))))"

definition parse_graph :: "reading \<Rightarrow> toml_table \<Rightarrow> manifest \<Rightarrow> (manifest \<times> message list) result" where
  "parse_graph rg table m =
     and_then (parse_dependencies table ''dependencies'') (\<lambda>(ds, modules).
     and_then (parse_dependencies table ''dev-dependencies'') (\<lambda>(devs, dev_modules).
     and_then (join_modules modules dev_modules) (\<lambda>(modules, w1).
     and_then (check_dev_dependencies ds devs) (\<lambda>w2.
     and_then (parse_managed table) (\<lambda>ms.
     and_then (check_versionless ds devs ms) (\<lambda>_.
     and_then (parse_repositories table) (\<lambda>repositories.
     and_then (parse_tasks rg table) (\<lambda>(tasks, w3).
     and_then (parse_hooks table) (\<lambda>(hooks, w4).
     Inr (m\<lparr>mf_dependencies := ds, mf_dev_dependencies := devs, mf_modules := modules, mf_managed := ms,
            mf_repositories := repositories, mf_tasks := tasks, mf_hooks := hooks\<rparr>, w1 @ w2 @ w3 @ w4))))))))))"

definition from_table :: "reading \<Rightarrow> toml_table \<Rightarrow> str \<Rightarrow> str \<Rightarrow> manifest result" where
  "from_table rg table p root =
     and_then (ok_or (mf_err ''missing required table [project]'' []) (map_of table ''project'')) (\<lambda>v.
     and_then (ok_or (mf_err ''must be a table'' [''project'']) (tv_table v)) (\<lambda>project.
     and_then (parse_project rg project p root) (\<lambda>(m, w1).
     and_then (parse_settings rg table m) (\<lambda>(m, w2).
     and_then (parse_graph rg table m) (\<lambda>(m, w3).
     let m = m\<lparr>mf_warnings := warn_unknown table top_keys [] @ w1 @ w2 @ w3\<rparr> in
     and_then (check_languages m) (\<lambda>w4.
     let m = m\<lparr>mf_warnings := mf_warnings m @ w4\<rparr> in
     and_then (check_tasks (rg_cwd rg) (rg_port rg) m) (\<lambda>w5.
     Inr (m\<lparr>mf_warnings := mf_warnings m @ w5\<rparr>))))))))"

section \<open>Files\<close>

text \<open>Where an offset into a text is, from one: the line, and the character in it.\<close>

definition locate :: "str \<Rightarrow> nat \<Rightarrow> nat \<times> nat" where
  "locate s offset =
     (let ls = split_on CHR 0x0A (take offset s) in (length ls, length (chars (last ls)) + 1))"

text \<open>The crate reads a text, or says what it does not understand and perhaps where.\<close>

type_synonym toml_reader = "str \<Rightarrow> (nat option \<times> str) + toml_table"

definition parse_toml :: "toml_reader \<Rightarrow> str \<Rightarrow> str \<Rightarrow> toml_table result" where
  "parse_toml from_str s p =
     (case from_str s of
        Inr t \<Rightarrow> Inr t
      | Inl (None, e) \<Rightarrow> Inl (mf_err e [p])
      | Inl (Some offset, e) \<Rightarrow> (case locate s offset of (line, col) \<Rightarrow> Inl (mf_err e [p, dec line, dec col])))"

definition manifest_parse :: "reading \<Rightarrow> toml_reader \<Rightarrow> str \<Rightarrow> str \<Rightarrow> str \<Rightarrow> manifest result" where
  "manifest_parse rg from_str s p root = and_then (parse_toml from_str s p) (\<lambda>t. from_table rg t p root)"

text \<open>What reading a file gives: its text, that there is none, or another error.\<close>

datatype file_read = FileText str | FileMissing | FileError str

definition manifest_load :: "reading \<Rightarrow> toml_reader \<Rightarrow> (str \<Rightarrow> file_read) \<Rightarrow> str \<Rightarrow> manifest result" where
  "manifest_load rg from_str read p =
     (case read p of
        FileText s \<Rightarrow>
          (let root = (case path_parent p of Some r \<Rightarrow> if r \<noteq> [] then r else ''.'' | None \<Rightarrow> ''.'') in manifest_parse rg from_str s p root)
      | FileMissing \<Rightarrow> Inl (mf_err ''no jrs.toml found'' [p])
      | FileError e \<Rightarrow> Inl (IoErr p (Msg e [])))"

section \<open>Finding it\<close>

lemma drop_nothing_suffix: "\<exists>zs. ps = zs @ drop_nothing ps"
proof (induction ps rule: drop_nothing.induct)
  case (1 p q ps)
  then show ?case by (auto) (metis append_Cons)+
qed auto

lemma drop_nothing_hd: "drop_nothing ps = p # q # qs \<Longrightarrow> p \<noteq> []"
  by (induction ps rule: drop_nothing.induct) (auto split: if_splits)

lemma drop_nothing_nonempty: "ps \<noteq> [] \<Longrightarrow> drop_nothing ps \<noteq> []"
  by (induction ps rule: drop_nothing.induct) auto

lemma trim_parts_prefix: "\<exists>zs. ps = trim_parts ps @ zs"
proof -
  from drop_nothing_suffix [of "rev ps"] obtain zs where "rev ps = zs @ drop_nothing (rev ps)" by blast
  then have "ps = rev (drop_nothing (rev ps)) @ rev zs" by (metis rev_append rev_rev_ident)
  then show ?thesis by (auto simp: trim_parts_def)
qed

lemma trim_parts_last: "trim_parts ps = xs @ [x] \<Longrightarrow> xs \<noteq> [] \<Longrightarrow> x \<noteq> []"
proof -
  assume t: "trim_parts ps = xs @ [x]" "xs \<noteq> []"
  then obtain ys y where "xs = ys @ [y]" by (metis rev_exhaust)
  with t have "drop_nothing (rev ps) = x # y # rev ys" by (metis rev_append rev.simps(2) append.simps rev_rev_ident trim_parts_def)
  then show "x \<noteq> []" by (rule drop_nothing_hd)
qed

lemma join_with_length: "length (join_with sep a) \<le> length (join_with sep (a @ b))"
proof (induction a)
  case (Cons x a)
  then show ?case by (cases "a = []"; cases "b = []") (simp_all add: join_with_Cons)
qed simp

lemma join_with_snoc_length: "a \<noteq> [] \<Longrightarrow> length (join_with ''/'' (a @ [x])) = length (join_with ''/'' a) + 1 + length x"
proof (induction a)
  case (Cons y a)
  then show ?case by (cases "a = []") (simp_all add: join_with_Cons)
qed simp

text \<open>The parent of a path is shorter.\<close>

lemma path_parent_shorter:
  assumes "path_parent p = Some q"
  shows "length q < length p"
proof -
  let ?ps = "trim_parts (split_on CHR ''/'' p)"
  let ?qs = "trim_parts (butlast ?ps)"
  obtain zs where zs: "split_on CHR ''/'' p = ?ps @ zs" using trim_parts_prefix by blast
  obtain ws where ws: "butlast ?ps = ?qs @ ws" using trim_parts_prefix by blast
  have ne: "?ps \<noteq> [[]]" using assms by (auto simp: path_parent_def Let_def)
  have p: "length (join_with ''/'' ?ps) \<le> length p" using join_with_length [of "''/''" ?ps zs] by (metis join_split_on zs)
  have "?ps \<noteq> []" using drop_nothing_nonempty split_on_nonempty by (simp add: trim_parts_def)
  then obtain x where x: "?ps = butlast ?ps @ [x]" by (metis append_butlast_last_id)
  have qs: "length (join_with ''/'' ?qs) \<le> length (join_with ''/'' (butlast ?ps))" using join_with_length [of "''/''" ?qs ws] ws by simp
  have q: "q = (if ?qs = [[]] \<and> starts_with ''/'' p then ''/'' else join_with ''/'' ?qs)"
    using assms ne by (simp add: path_parent_def Let_def)
  show ?thesis
  proof (cases "butlast ?ps = []")
    case True
    with x ne have "x \<noteq> []" "?ps = [x]" by simp_all
    moreover from True have "?qs = []" by (simp add: trim_parts_def)
    ultimately show ?thesis using p q by (cases x) auto
  next
    case False
    have "x \<noteq> []" using trim_parts_last [of "split_on CHR ''/'' p"] x False by metis
    then have "2 + length (join_with ''/'' (butlast ?ps)) \<le> length p" using p x join_with_snoc_length [OF False, of x] by (cases x) auto
    with qs q show ?thesis by (auto split: if_splits)
  qed
qed

text \<open>\<^verbatim>\<open>Manifest::discover\<close>: up from a directory until there is a manifest.\<close>

function discover_up :: "(str \<Rightarrow> bool) \<Rightarrow> str \<Rightarrow> str option" where
  "discover_up is_file dir =
     (let candidate = path_join dir manifest_file in
      if is_file candidate then Some candidate
      else case path_parent dir of Some parent \<Rightarrow> discover_up is_file parent | None \<Rightarrow> None)"
  by pat_completeness auto
termination
  by (relation "measure (\<lambda>(is_file, dir). length dir)") (auto dest: path_parent_shorter)

declare discover_up.simps [simp del]

definition absolute_start :: "str \<Rightarrow> str \<Rightarrow> str" where
  "absolute_start cwd start =
     (if starts_with ''/'' start then start
      else fold (\<lambda>c acc. case c of CurDir \<Rightarrow> acc | ParentDir \<Rightarrow> value_or acc (path_parent acc) | other \<Rightarrow> path_join acc (component_str other))
        (components start) cwd)"

definition discover :: "str \<Rightarrow> (str \<Rightarrow> bool) \<Rightarrow> str \<Rightarrow> str result" where
  "discover cwd is_file start =
     (let dir = absolute_start cwd start in
      ok_or (mf_err ''no jrs.toml in the directory or any parent'' [dir]) (discover_up is_file dir))"

end
