(* ===== verification/ManifestFacts.thy ===== *)
theory ManifestFacts
  imports ManifestParse
begin

text \<open>
  What holds of a manifest that was read from a table: its dependencies, agents, suites, relocations,
  attributes, hooks and tasks are the ones the rest of jrs relies on, whatever the table held.
\<close>

section \<open>Loops\<close>

lemma fold_result_inv:
  assumes "fold_result f xs s = Inr s'" "I s" "\<And>x s s'. x \<in> set xs \<Longrightarrow> I s \<Longrightarrow> f x s = Inr s' \<Longrightarrow> I s'"
  shows "I s'"
  using assms by (induction xs arbitrary: s) (auto simp: and_then_Inr)

lemma fold_result_pairs:
  assumes "fold_result f xs s = Inr s'" "I s" "\<And>k v s s'. I s \<Longrightarrow> f (k, v) s = Inr s' \<Longrightarrow> I s'"
  shows "I s'"
  using assms(1,2)
proof (rule fold_result_inv)
  show "I s'" if "I s" "f x s = Inr s'" for x s s' using that assms(3) by (cases x) simp
qed

lemma collect_map_Inr: "collect (map f xs) = Inr ys \<longleftrightarrow> list_all2 (\<lambda>x y. f x = Inr y) xs ys"
  by (simp add: collect_Inr list_eq_iff_nth_eq list_all2_conv_all_nth) (metis nth_map)

lemma collect_map_in: "collect (map f xs) = Inr ys \<Longrightarrow> y \<in> set ys \<Longrightarrow> \<exists>x \<in> set xs. f x = Inr y"
  unfolding collect_map_Inr by (induction xs ys rule: list_all2_induct) auto

lemma find_none: "find P xs = None \<longleftrightarrow> (\<forall>x \<in> set xs. \<not> P x)"
  by (auto simp: find_None_iff)

lemma find_refuse: "(case find P xs of Some p \<Rightarrow> Inl (e p) | None \<Rightarrow> Inr ()) = Inr u \<longleftrightarrow> (\<forall>x \<in> set xs. \<not> P x)"
  by (auto simp: find_none find_Some_iff split: option.splits)

lemma rethrown: "(case r of Inl e \<Rightarrow> Inl (f e) | Inr _ \<Rightarrow> Inr ()) = Inr u \<longleftrightarrow> r = Inr ()"
  by (cases r) auto

lemma list_ex_key: "list_ex (\<lambda>x. f x = k) xs \<longleftrightarrow> k \<in> f ` set xs"
  by (auto simp: list_ex_iff)

section \<open>Paths inside the project\<close>

definition inside :: "str \<Rightarrow> bool" where
  "inside p \<longleftrightarrow> \<not> starts_with ''/'' p \<and> ''..'' \<notin> set (split_on CHR ''/'' p)"

lemma join_with_contains: "w \<in> set ws \<Longrightarrow> \<exists>a b. join_with sep ws = a @ w @ b"
proof (induction ws)
  case (Cons v ws)
  show ?case
  proof (cases "w = v")
    case True
    then show ?thesis by (cases ws) (force intro: exI [of _ "[]"])+
  next
    case False
    with Cons obtain a b where "join_with sep ws = a @ w @ b" by auto
    then have "join_with sep (v # ws) = (v @ sep @ a) @ w @ b" using False Cons.prems by (cases ws) auto
    then show ?thesis by blast
  qed
qed simp

lemma contains_part: "w \<in> set (split_on c s) \<Longrightarrow> contains w s"
  using join_with_contains [of w "split_on c s" "[c]"] by (simp add: contains_iff join_split_on)

lemma path_or_inside: "path_or t k d sec = Inr p \<Longrightarrow> inside p"
  by (auto simp: path_or_def inside_def and_then_Inr Let_def dest: contains_part split: if_splits)

text \<open>The parts of a parent are parts of the path.\<close>

lemma starts_slash: "starts_with [c] s \<longleftrightarrow> s \<noteq> [] \<and> hd (split_on c s) = []"
  by (cases s) (auto split: list.splits)

lemma path_parent_inside:
  assumes "inside p" "path_parent p = Some q" "q \<noteq> []"
  shows "inside (path_join q ''resources'')"
proof -
  let ?ps = "trim_parts (split_on CHR ''/'' p)"
  let ?qs = "trim_parts (butlast ?ps)"
  have rel: "\<not> starts_with ''/'' p" using assms(1) by (simp add: inside_def)
  with assms(2,3) have q: "q = join_with ''/'' ?qs" by (auto simp: path_parent_def Let_def split: if_splits)
  obtain zs where zs: "split_on CHR ''/'' p = ?ps @ zs" using trim_parts_prefix by blast
  obtain ws where ws: "butlast ?ps = ?qs @ ws" using trim_parts_prefix by blast
  have ne: "?qs \<noteq> []" using assms(3) q by auto
  obtain us where us: "split_on CHR ''/'' p = ?qs @ us"
  proof
    have "?ps \<noteq> []" using drop_nothing_nonempty split_on_nonempty by (simp add: trim_parts_def)
    then have "?ps = (?qs @ ws) @ [last ?ps]" unfolding ws [symmetric] by (rule append_butlast_last_id [symmetric])
    then show "split_on CHR ''/'' p = ?qs @ (ws @ [last ?ps] @ zs)" using zs by (metis append.assoc)
  qed
  have sq: "split_on CHR ''/'' q = ?qs" unfolding q by (rule split_on_join [OF ne]) (metis us split_on_parts Un_iff set_append)
  have "set ?qs \<subseteq> set (split_on CHR ''/'' p)" by (metis us Un_upper1 set_append)
  then have dots: "''..'' \<notin> set ?qs" using assms(1) unfolding inside_def by blast
  have "p \<noteq> []" using assms(2) path_parent_shorter by fastforce
  moreover have "hd ?qs = hd (split_on CHR ''/'' p)" by (metis us ne hd_append2)
  ultimately have "hd ?qs \<noteq> []" using rel starts_slash by metis
  then have sl: "\<not> starts_with ''/'' q" by (simp add: starts_slash sq)
  show ?thesis
  proof (cases "ends_with ''/'' q")
    case True
    then obtain b where b: "q = b @ ''/''" by (auto simp: ends_with_iff)
    then have "set (split_on CHR ''/'' b) \<subseteq> set ?qs" using sq by (metis split_on_append2 Un_upper1 set_append append_Cons append_Nil)
    then have "''..'' \<notin> set (split_on CHR ''/'' (b @ ''/resources''))" using dots by (auto simp: split_on_append2)
    moreover have "\<not> starts_with ''/'' (b @ ''/resources'')" using sl b by (cases b) auto
    ultimately show ?thesis using b True assms(3) by (simp add: path_join_def inside_def)
  next
    case False
    have "''..'' \<notin> set (split_on CHR ''/'' (q @ ''/resources''))" using dots sq by (auto simp: split_on_append2)
    moreover have "\<not> starts_with ''/'' (q @ ''/resources'')" using sl assms(3) by (cases q) auto
    ultimately show ?thesis using False assms(3) by (simp add: path_join_def inside_def)
  qed
qed

lemma default_test_resource_dir_inside:
  assumes "inside p"
  shows "inside (default_test_resource_dir p)"
proof -
  have "inside ''src/test/resources''" by code_simp
  with path_parent_inside [OF assms] show ?thesis by (auto simp: default_test_resource_dir_def split: option.splits)
qed

section \<open>Dependencies\<close>

definition exclusion_ok :: "exclusion \<Rightarrow> bool" where
  "exclusion_ok e \<longleftrightarrow> ex_group e \<noteq> [] \<and> CHR '':'' \<notin> set (ex_group e) \<and> ex_artifact e \<noteq> [] \<and> CHR '':'' \<notin> set (ex_artifact e)"

definition local_ok :: "dependency \<Rightarrow> str \<Rightarrow> bool" where
  "local_ok d p \<longleftrightarrow> inside p \<and> trim p \<noteq> [] \<and> \<not> ends_with ''/'' p \<and> dep_artifact d \<noteq> [] \<and> list_all jar_key_char (dep_artifact d) \<and>
     dep_group d = [] \<and> dep_version d = [] \<and> dep_classifier d = None \<and> dep_exclusions d = []"

definition coordinate_ok :: "dependency \<Rightarrow> bool" where
  "coordinate_ok d \<longleftrightarrow> dep_group d \<noteq> [] \<and> CHR '':'' \<notin> set (dep_group d) \<and> dep_artifact d \<noteq> [] \<and> CHR '':'' \<notin> set (dep_artifact d) \<and>
     (dep_version d = [] \<or> trim (dep_version d) \<noteq> []) \<and> dep_classifier d \<noteq> Some [] \<and> (\<forall>e \<in> set (dep_exclusions d). exclusion_ok e)"

definition dependency_ok :: "dependency \<Rightarrow> bool" where
  "dependency_ok d \<longleftrightarrow> \<not> (dep_compile_only d \<and> dep_runtime_only d) \<and>
     (case dep_path d of Some p \<Rightarrow> local_ok d p | None \<Rightarrow> coordinate_ok d)"

definition module_ok :: "module_dependency \<Rightarrow> bool" where
  "module_ok m \<longleftrightarrow> validate_name (md_name m) = Inr () \<and> md_path m \<noteq> [] \<and> \<not> starts_with ''/'' (md_path m) \<and>
     \<not> ends_with ''/'' (md_path m) \<and> \<not> (md_compile_only m \<and> md_runtime_only m)"

lemma split_once_before: "split_once [c] s = Some (a, b) \<Longrightarrow> c \<notin> set a"
  by (induction s arbitrary: a b) (auto split: if_splits)

lemma parse_exclusion_ok: "parse_exclusion n pat = Inr e \<Longrightarrow> exclusion_ok e"
  using split_once_before [of "CHR '':''" pat] by (auto simp: parse_exclusion_def exclusion_ok_def split: option.splits if_splits)

lemma collect_parse_exclusion: "collect (map (parse_exclusion n) ps) = Inr es \<Longrightarrow> \<forall>e \<in> set es. exclusion_ok e"
  by (blast dest: collect_map_in parse_exclusion_ok)

lemma split_coordinate_ok:
  "split_coordinate key sec = Inr (g, a, c) \<Longrightarrow>
    g \<noteq> [] \<and> CHR '':'' \<notin> set g \<and> a \<noteq> [] \<and> CHR '':'' \<notin> set a \<and> (case c of Some c \<Rightarrow> c \<noteq> [] \<and> CHR '':'' \<notin> set c \<and> \<not> is_ascii_digit (hd c) | None \<Rightarrow> True)"
  using split_on_parts [of _ "CHR '':''" key]
  by (auto simp: split_coordinate_def Let_def split: list.splits if_splits)

lemma long_version_ok: "long_version t sec key = Inr v \<Longrightarrow> v = [] \<or> trim v \<noteq> []"
  by (auto simp: long_version_def split: option.splits toml.splits if_splits)

lemma long_classifier_ok: "long_classifier t sec key own = Inr c \<Longrightarrow> own \<noteq> Some [] \<Longrightarrow> c \<noteq> Some []"
  unfolding long_classifier_def and_then_Inr
  by (elim exE conjE, simp split: option.splits if_splits) (auto simp: non_empty_def split: list.splits)

lemma parse_dependency_keys_ok:
  assumes "parse_dependency_keys d t sec key = Inr d'" "dep_path d = None" "dep_classifier d \<noteq> Some []"
  shows "dep_path d' = None \<and> dep_group d' = dep_group d \<and> dep_artifact d' = dep_artifact d \<and> \<not> (dep_compile_only d' \<and> dep_runtime_only d') \<and>
    (dep_version d' = [] \<or> trim (dep_version d') \<noteq> []) \<and> dep_classifier d' \<noteq> Some [] \<and> (\<forall>e \<in> set (dep_exclusions d'). exclusion_ok e)"
  using assms
  by (auto simp: parse_dependency_keys_def and_then_Inr Let_def check_one_classpath_def
      dest: long_version_ok long_classifier_ok dest!: collect_parse_exclusion split: if_splits)

lemma parse_coordinate_ok: "parse_coordinate key v sec = Inr d \<Longrightarrow> dependency_ok d \<and> dep_path d = None"
  by (cases v) (auto simp: parse_coordinate_def and_then_Inr Let_def dependency_ok_def coordinate_ok_def dependency_new_def
      dest!: split_coordinate_ok parse_dependency_keys_ok split: option.splits if_splits)

lemma trim_end_slashes_end: "\<not> ends_with ''/'' (trim_end_slashes s)"
proof -
  have "\<not> starts_with ''/'' (dropWhile (\<lambda>c. c = CHR ''/'') (rev s))" by (metis (mono_tags, lifting) hd_dropWhile starts_with_iff append_Cons list.sel(1) list.discI)
  then show ?thesis by (simp add: trim_end_slashes_def ends_with_def)
qed

lemma parse_local_jar_ok: "parse_local_jar key t sec = Inr d \<Longrightarrow> dependency_ok d \<and> dep_path d \<noteq> None"
  by (auto simp: parse_local_jar_def and_then_Inr Let_def dependency_ok_def local_ok_def inside_def dependency_local_def dependency_new_def
      check_one_classpath_def)

lemma parse_module_ok: "parse_module key t sec = Inr m \<Longrightarrow> module_ok m \<and> \<not> md_dev m \<and> md_name m = key"
  using trim_end_slashes_end
  by (auto simp: parse_module_def and_then_Inr Let_def module_ok_def split: if_splits)

definition dependencies_ok :: "dependency list \<times> module_dependency list \<Rightarrow> bool" where
  "dependencies_ok = (\<lambda>(ds, ms). distinct (map dep_key ds) \<and> (\<forall>d \<in> set ds. dependency_ok d) \<and> (\<forall>m \<in> set ms. module_ok m))"

lemma dependency_step_ok:
  "dependency_step sec (key, v) (ds, ms) = Inr s' \<Longrightarrow> dependencies_ok (ds, ms) \<Longrightarrow> dependencies_ok s'"
  by (auto simp: dependencies_ok_def dependency_step_def and_then_Inr list_ex_key dest: parse_module_ok parse_local_jar_ok parse_coordinate_ok
      split: option.splits if_splits)

lemma parse_table_ok:
  assumes "parse_dependency_table_with_modules v sec = Inr r"
  shows "dependencies_ok r"
proof (cases v)
  case None
  with assms show ?thesis by (auto simp: parse_dependency_table_with_modules_def dependencies_ok_def)
next
  case (Some w)
  with assms obtain t where "fold_result (dependency_step sec) t ([], []) = Inr r"
    by (auto simp: parse_dependency_table_with_modules_def and_then_Inr)
  then show ?thesis
  proof (rule fold_result_pairs)
    show "dependencies_ok s'" if "dependencies_ok s" "dependency_step sec (k, v) s = Inr s'" for k v s s'
      using that by (cases s) (simp add: dependency_step_ok)
  qed (simp add: dependencies_ok_def)
qed

lemma parse_dependency_table_ok:
  assumes "parse_dependency_table v sec = Inr ds"
  shows "distinct (map dep_key ds) \<and> (\<forall>d \<in> set ds. dependency_ok d)"
proof -
  from assms obtain ms where "parse_dependency_table_with_modules v sec = Inr (ds, ms)"
    by (auto simp: parse_dependency_table_def and_then_Inr neq_Nil_conv split: list.splits)
  from parse_table_ok [OF this] show ?thesis by (simp add: dependencies_ok_def)
qed

section \<open>Managed versions, repositories, agents\<close>

definition managed_ok :: "managed list \<Rightarrow> bool" where
  "managed_ok ms \<longleftrightarrow> distinct (map (\<lambda>m. (mg_group m, mg_artifact m)) ms) \<and>
     (\<forall>m \<in> set ms. mg_group m \<noteq> [] \<and> mg_artifact m \<noteq> [] \<and> mg_version m \<noteq> [] \<and> \<not> is_range (mg_version m))"

lemma managed_step_ok: "managed_step (key, v) ms = Inr ms' \<Longrightarrow> managed_ok ms \<Longrightarrow> managed_ok ms'"
  by (auto simp: managed_step_def managed_ok_def and_then_Inr Let_def list_ex_iff image_iff dest!: split_coordinate_ok split: if_splits)

lemma parse_managed_ok: "parse_managed table = Inr ms \<Longrightarrow> managed_ok ms"
proof (cases "map_of table ''managed''")
  case (Some v)
  assume "parse_managed table = Inr ms"
  with Some obtain t where "fold_result managed_step t [] = Inr ms" by (auto simp: parse_managed_def and_then_Inr)
  then show ?thesis by (rule fold_result_pairs) (simp_all add: managed_ok_def [of "[]"] managed_step_ok)
qed (auto simp: parse_managed_def managed_ok_def)

definition repository_ok :: "repository \<Rightarrow> bool" where
  "repository_ok r \<longleftrightarrow> \<not> ends_with ''/'' (repo_url r) \<and> (\<forall>g \<in> set (repo_groups r). valid_group_pattern g)"

lemma parse_repository_ok: "parse_repository (name, v) = Inr r \<Longrightarrow> repository_ok r"
  using trim_end_slashes_end
  by (cases v) (auto simp: parse_repository_def repository_long_form_def and_then_Inr Let_def repository_ok_def for_each_Inr)

lemma parse_repositories_ok:
  "parse_repositories table = Inr rs \<Longrightarrow> (\<forall>r \<in> set rs. repository_ok r) \<and> (\<exists>r \<in> set rs. repo_url r = central_url)"
proof -
  assume p: "parse_repositories table = Inr rs"
  have central: "repository_ok (repository_new central_name central_url)" by code_simp
  have read: "\<forall>r \<in> set rs'. repository_ok r" if "collect (map parse_repository t) = Inr rs'" for t rs'
    using collect_map_in [OF that] parse_repository_ok by fast
  from p obtain repos where r: "(case map_of table ''repositories'' of None \<Rightarrow> Inr []
       | Some v \<Rightarrow> and_then (ok_or (mf_err ''must be a table'' [''repositories'']) (tv_table v)) (\<lambda>t. collect (map parse_repository t))) = Inr repos"
    and rs: "rs = (if list_ex (\<lambda>r. repo_url r = central_url) repos then repos else repos @ [repository_new central_name central_url])"
    by (auto simp: parse_repositories_def and_then_Inr)
  have repos: "\<forall>r \<in> set repos. repository_ok r" using r read by (auto simp: and_then_Inr split: option.splits)
  show ?thesis
  proof (cases "list_ex (\<lambda>r. repo_url r = central_url) repos")
    case True
    then show ?thesis using rs repos by (auto simp: list_ex_iff)
  next
    case False
    then show ?thesis using rs repos central by (simp add: repository_new_def)
  qed
qed

lemma parse_java_agents_distinct: "parse_java_agents t sec = Inr as \<Longrightarrow> distinct (map agent_ga as)"
  by (auto simp: parse_java_agents_def agent_step_def and_then_Inr list_ex_key split: if_splits
      elim!: fold_result_inv [where I = "\<lambda>as. distinct (map agent_ga as)"])

section \<open>Templates that are always known\<close>

text \<open>Templates of nothing but the project's name and version.\<close>

definition project_only :: "template \<Rightarrow> bool" where
  "project_only x \<longleftrightarrow> \<not> has_free_port x \<and> set (placeholders x) \<subseteq> {PhProjectName, PhProjectVersion}"

lemma jar_attribute_ok: "jar_attribute name raw = Inr x \<Longrightarrow> project_only x \<and> validate_attribute_name name = Inr ()"
  by (auto simp: jar_attribute_def and_then_Inr Let_def project_only_def find_none split: option.splits sum.splits)

lemma eq_ignore_ascii_case_trans: "eq_ignore_ascii_case a b \<longleftrightarrow> to_ascii_lowercase a = to_ascii_lowercase b"
  by (simp add: eq_ignore_ascii_case_def)

definition attributes_ok :: "(str \<times> template) list \<Rightarrow> bool" where
  "attributes_ok as \<longleftrightarrow> distinct (map (to_ascii_lowercase \<circ> fst) as) \<and>
     (\<forall>(n, x) \<in> set as. project_only x \<and> validate_attribute_name n = Inr ())"

lemma attribute_step_ok:
  assumes "attribute_step (n, v) s = Inr s'" "attributes_ok s"
  shows "attributes_ok s'"
proof -
  from assms(1) obtain x where x: "s' = s @ [(n, x)]" "project_only x" "validate_attribute_name n = Inr ()"
    and new: "find (\<lambda>(m, _). eq_ignore_ascii_case m n) s = None"
    by (auto simp: attribute_step_def and_then_Inr Let_def dest!: jar_attribute_ok split: option.splits)
  have "to_ascii_lowercase n \<notin> (to_ascii_lowercase \<circ> fst) ` set s" using new by (auto simp: find_none eq_ignore_ascii_case_def)
  with assms(2) x show ?thesis by (simp add: attributes_ok_def)
qed

lemma parse_jar_attributes_ok: "parse_jar_attributes t = Inr as \<Longrightarrow> attributes_ok as"
  by (auto simp: parse_jar_attributes_def and_then_Inr attributes_ok_def [of "[]"] split: option.splits
      elim!: fold_result_pairs [where I = attributes_ok] attribute_step_ok)

lemma resource_property_ok: "resource_property rg (n, v) = Inr (m, x) \<Longrightarrow> project_only x \<and> m = n \<and> n \<noteq> ''project.name'' \<and> n \<noteq> ''project.version''"
  by (auto simp: resource_property_def and_then_Inr Let_def project_only_def find_none split: option.splits)

lemma parse_resources_ok:
  assumes "parse_resources rg t = Inr rs"
  shows "(\<forall>(n, x) \<in> set (rs_properties rs). project_only x \<and> n \<noteq> ''project.name'' \<and> n \<noteq> ''project.version'') \<and>
    (\<forall>p \<in> set (rs_expand rs). expand_pattern p) \<and> (rs_properties rs \<noteq> [] \<longrightarrow> rs_expand rs \<noteq> [])"
proof -
  have read: "\<forall>(n, x) \<in> set ps. project_only x \<and> n \<noteq> ''project.name'' \<and> n \<noteq> ''project.version''"
    if "collect (map (resource_property rg) table) = Inr ps" for table ps
    using collect_map_in [OF that] resource_property_ok by fast
  from assms have "rs_properties rs = [] \<or> (\<exists>table. collect (map (resource_property rg) table) = Inr (rs_properties rs))"
    by (auto simp: parse_resources_def and_then_Inr split: option.splits)
  then have "\<forall>(n, x) \<in> set (rs_properties rs). project_only x \<and> n \<noteq> ''project.name'' \<and> n \<noteq> ''project.version''"
    by (elim disjE exE) (simp, rule read)
  moreover have "(\<forall>p \<in> set (rs_expand rs). expand_pattern p) \<and> (rs_properties rs \<noteq> [] \<longrightarrow> rs_expand rs \<noteq> [])"
    using assms by (auto simp: parse_resources_def and_then_Inr for_each_Inr)
  ultimately show ?thesis by blast
qed

lemma expand_project_only:
  assumes "project_only x" "\<And>p. p \<in> {PhProjectName, PhProjectVersion} \<Longrightarrow> \<exists>v. val p = Inr v"
  shows "\<exists>s. template_expand val port x = Inr s"
proof -
  have "\<exists>s. expand_segments val port ss out = Inr s"
    if "\<not> list_ex (\<lambda>s. case s of SegFreePort _ \<Rightarrow> True | _ \<Rightarrow> False) ss"
      "set (List.map_filter (\<lambda>s. case s of SegPlaceholder p \<Rightarrow> Some p | SegText _ \<Rightarrow> None | SegFreePort _ \<Rightarrow> None) ss) \<subseteq> {PhProjectName, PhProjectVersion}"
    for ss out
    using that
  proof (induction ss arbitrary: out)
    case (Cons s ss)
    then show ?case using assms(2) by (cases s) (force simp: List.map_filter_def and_then_Inr)+
  qed simp
  with assms(1) show ?thesis by (simp add: project_only_def has_free_port_def placeholders_def template_expand_def)
qed

section \<open>Environments, tasks and hooks\<close>

text \<open>A template \<^verbatim>\<open>jrs run\<close> and \<^verbatim>\<open>jrs test\<close> have every value for.\<close>

definition jvm_template :: "template \<Rightarrow> bool" where
  "jvm_template x \<longleftrightarrow> (\<forall>p \<in> set (placeholders x). task_only p = None)"

definition env_name_ok :: "str \<Rightarrow> bool" where
  "env_name_ok k \<longleftrightarrow> k \<noteq> [] \<and> CHR ''='' \<notin> set k \<and> CHR 0x00 \<notin> set k \<and> \<not> starts_with ''JRS_'' (to_ascii_uppercase k)"

lemma refuse_task_placeholders_ok: "refuse_task_placeholders x key = Inr () \<longleftrightarrow> jvm_template x"
  by (auto simp: refuse_task_placeholders_def jvm_template_def for_each_Inr split: option.splits)

lemma parse_env_ok:
  assumes "parse_env t sec r = Inr env"
  shows "\<forall>(k, x) \<in> set env. env_name_ok k"
proof (cases "map_of t ''env''")
  case (Some v)
  with assms obtain vars where vars: "collect (map (\<lambda>(key, v).
            and_then (ok_or (mf_err ''must be a string'' [sec, ''env'', key]) (tv_str v)) (\<lambda>raw.
            and_then (ensure (key \<noteq> [] \<and> CHR ''='' \<notin> set key \<and> CHR 0x00 \<notin> set key)
              (mf_err ''is not an environment variable name'' [sec, key])) (\<lambda>_.
            and_then (ensure (\<not> starts_with ''JRS_'' (to_ascii_uppercase key))
              (mf_err ''names starting with JRS_ are jrs's own'' [sec, key, r])) (\<lambda>_.
            and_then (template_at (sec @ ''.env'') key raw) (\<lambda>x. Inr (key, x)))))) vars) = Inr env"
    by (auto simp: parse_env_def and_then_Inr)
  show ?thesis
  proof (intro ballI)
    fix kx assume "kx \<in> set env"
    from collect_map_in [OF vars this] show "case kx of (k, x) \<Rightarrow> env_name_ok k"
      by (auto simp: and_then_Inr env_name_ok_def)
  qed
qed (use assms in \<open>simp add: parse_env_def\<close>)

lemma parse_jvm_env_ok: "parse_jvm_env t sec = Inr env \<Longrightarrow> \<forall>(k, x) \<in> set env. env_name_ok k \<and> jvm_template x"
  using parse_env_ok [of t sec "[]" env]
  by (fastforce simp: parse_jvm_env_def and_then_Inr for_each_Inr refuse_task_placeholders_ok)

lemma parse_jvm_cwd_ok: "parse_jvm_cwd t sec = Inr (Some x) \<Longrightarrow> jvm_template x \<and> \<not> has_free_port x \<and> (\<forall>p \<in> set (placeholders x). \<not> is_classpath p)"
  by (auto simp: parse_jvm_cwd_def and_then_Inr refuse_task_placeholders_ok find_none split: option.splits)

definition path_template :: "template \<Rightarrow> bool" where
  "path_template x \<longleftrightarrow> \<not> has_free_port x \<and> (\<forall>p \<in> set (placeholders x). \<not> is_classpath p \<and> p \<noteq> PhSourcesArgfile)"

definition task_ok :: "task_def \<Rightarrow> bool" where
  "task_ok t \<longleftrightarrow> validate_task_name (td_name t) = Inr () \<and> (td_action t \<noteq> None \<or> td_depends_on t \<noteq> []) \<and> distinct (td_depends_on t) \<and>
     (\<forall>argv. td_action t = Some (ActRun argv) \<longrightarrow> argv \<noteq> [] \<and> trim (tpl_raw (hd argv)) \<noteq> []) \<and>
     (\<forall>c. td_action t = Some (ActMain c) \<longrightarrow> td_dependencies t \<noteq> []) \<and>
     (td_dependencies t \<noteq> [] \<longrightarrow> (\<exists>c. td_action t = Some (ActMain c)) \<or> (\<exists>x. td_action t = Some (ActScript x))) \<and>
     distinct (map dep_key (td_dependencies t)) \<and> (\<forall>d \<in> set (td_dependencies t). dependency_ok d \<and> task_refuses d = None) \<and>
     (\<forall>(k, x) \<in> set (td_env t). env_name_ok k) \<and>
     (\<forall>(k, x) \<in> set (path_templates t). path_template x) \<and> (\<forall>x. td_cwd t = Some x \<longrightarrow> path_template x)"

lemma parse_depends_on_ok: "parse_depends_on t sec = Inr rs \<Longrightarrow> distinct rs"
  by (auto simp: parse_depends_on_def depends_step_def and_then_Inr split: if_splits elim!: fold_result_inv [where I = distinct])

lemma parse_task_dependencies_ok:
  assumes "parse_task_dependencies t sec act = Inr ds"
  shows "distinct (map dep_key ds) \<and> (\<forall>d \<in> set ds. dependency_ok d \<and> task_refuses d = None) \<and>
    (\<forall>c. act = Some (ActMain c) \<longrightarrow> ds \<noteq> []) \<and> (ds \<noteq> [] \<longrightarrow> (\<exists>c. act = Some (ActMain c)) \<or> (\<exists>x. act = Some (ActScript x)))"
proof -
  let ?key = "sec @ ''.dependencies''"
  obtain ds' where p: "parse_dependency_table (map_of t ''dependencies'') ?key = Inr ds'"
    and r: "\<forall>d \<in> set ds'. (case task_refuses d of
          Some what \<Rightarrow> Inl (mf_err ''a task's dependencies are a tool's graph of their own'' [?key, dep_key d, what])
        | None \<Rightarrow> Inr ()) = Inr ()"
    and c: "(case act of
        Some (ActMain _) \<Rightarrow> if ds' = [] then Inl (mf_err ''runs a class from the task's own dependencies, and it has none'' [sec]) else Inr ds'
      | Some (ActScript _) \<Rightarrow> Inr ds'
      | _ \<Rightarrow> if ds' \<noteq> [] then Inl (mf_err ''is the classpath of a main or script action'' [?key, sec]) else Inr ds') = Inr ds"
    using assms by (auto simp: parse_task_dependencies_def Let_def and_then_Inr for_each_Inr)
  have "ds = ds'" "\<forall>c. act = Some (ActMain c) \<longrightarrow> ds \<noteq> []" "ds \<noteq> [] \<longrightarrow> (\<exists>c. act = Some (ActMain c)) \<or> (\<exists>x. act = Some (ActScript x))"
    using c by (cases act rule: option.exhaust; auto split: action.splits if_splits)+
  moreover have "\<forall>d \<in> set ds'. task_refuses d = None" using r by (metis (no_types, lifting) Inr_not_Inl option.case_eq_if)
  ultimately show ?thesis using parse_dependency_table_ok [OF p] by simp
qed

lemma parse_action_run: "parse_action rg t sec = Inr (Some (ActRun argv)) \<Longrightarrow> argv \<noteq> [] \<and> trim (tpl_raw (hd argv)) \<noteq> []"
  by (auto simp: parse_action_def Let_def and_then_Inr split: option.splits if_splits list.splits)

lemma check_path_templates_ok:
  "check_path_templates t sec = Inr () \<longleftrightarrow> (\<forall>(k, x) \<in> set (path_templates t). path_template x) \<and> (\<forall>x. td_cwd t = Some x \<longrightarrow> path_template x)"
proof -
  have one: "and_then (case find is_classpath (placeholders x) of
           Some p \<Rightarrow> Inl (mf_err ''is a classpath, not a path'' [sec, k, placeholder_name p])
         | None \<Rightarrow> Inr ()) (\<lambda>_.
       and_then (ensure (\<not> has_free_port x) (mf_err ''free-port is a port, not a path'' [sec, k])) (\<lambda>_.
       ensure (PhSourcesArgfile \<notin> set (placeholders x)) (mf_err ''sources-argfile is written when the task runs'' [sec, k]))) = Inr () \<longleftrightarrow>
     path_template x" for k x
    by (auto simp: and_then_Inr path_template_def find_refuse)
  show ?thesis
    unfolding check_path_templates_def for_each_Inr by (auto simp: one split: option.splits prod.splits)
qed

lemma parse_task_ok: "parse_task rg name v = Inr (t, ws) \<Longrightarrow> task_ok t \<and> td_name t = name"
proof -
  assume "parse_task rg name v = Inr (t, ws)"
  then obtain tb act depends_on ds env where
    p: "validate_task_name name = Inr ()" "parse_action rg tb (''tasks.'' @ name) = Inr act" "parse_depends_on tb (''tasks.'' @ name) = Inr depends_on"
      "parse_task_dependencies tb (''tasks.'' @ name) act = Inr ds" "parse_env tb (''tasks.'' @ name) '', and are set for every task'' = Inr env"
    and t: "td_name t = name" "td_action t = act" "td_depends_on t = depends_on" "td_dependencies t = ds" "td_env t = env"
      "\<not> (act = None \<and> depends_on = [])" "check_path_templates t (''tasks.'' @ name) = Inr ()"
    by (auto simp: parse_task_def Let_def and_then_Inr parse_task_env_def)
  from p(2) have "argv \<noteq> [] \<and> trim (tpl_raw (hd argv)) \<noteq> []" if "act = Some (ActRun argv)" for argv
    using that parse_action_run by blast
  with p(1) t parse_depends_on_ok [OF p(3)] parse_task_dependencies_ok [OF p(4)] parse_env_ok [OF p(5)] show ?thesis
    unfolding task_ok_def check_path_templates_ok by auto
qed

lemma parse_tasks_ok: "parse_tasks rg table = Inr (ts, ws) \<Longrightarrow> \<forall>t \<in> set ts. task_ok t"
proof (cases "map_of table ''tasks''")
  case (Some v)
  assume "parse_tasks rg table = Inr (ts, ws)"
  with Some obtain tb rs where c: "collect (map (\<lambda>(name, v). parse_task rg name v) tb) = Inr rs" and ts: "ts = map fst rs"
    by (auto simp: parse_tasks_def and_then_Inr)
  show ?thesis
  proof
    fix t assume "t \<in> set ts"
    then obtain w where "(t, w) \<in> set rs" using ts by auto
    from collect_map_in [OF c this] show "task_ok t" by (auto dest: parse_task_ok)
  qed
qed (simp add: parse_tasks_def)

definition hooks_ok :: "hooks \<Rightarrow> bool" where
  "hooks_ok hs \<longleftrightarrow> distinct (map fst hs) \<and> (\<forall>(h, ns) \<in> set hs. ns \<noteq> [] \<and> distinct ns)"

lemma first_again_none: "first_again before ns = None \<longleftrightarrow> distinct ns \<and> set ns \<inter> set before = {}"
  by (induction ns arbitrary: before) auto

lemma parse_hook_ok: "parse_hook t h = Inr hs \<Longrightarrow> hs = [] \<or> (\<exists>ns. hs = [(h, ns)] \<and> ns \<noteq> [] \<and> distinct ns)"
  by (auto simp: parse_hook_def and_then_Inr first_again_none split: option.splits if_splits)

lemma parse_hook_list:
  "list_all2 (\<lambda>h y. parse_hook t h = Inr y) hs rs \<Longrightarrow> distinct hs \<Longrightarrow> hooks_ok (concat rs) \<and> fst ` set (concat rs) \<subseteq> set hs"
proof (induction hs rs rule: list_all2_induct)
  case (Cons h hs r rs)
  from Cons.IH Cons.prems parse_hook_ok [OF Cons.hyps(1)] show ?case by (fastforce simp: hooks_ok_def)
qed (simp add: hooks_ok_def)

lemma parse_hooks_ok: "parse_hooks table = Inr (hs, ws) \<Longrightarrow> hooks_ok hs"
proof -
  assume "parse_hooks table = Inr (hs, ws)"
  moreover have "distinct all_hooks" by code_simp
  ultimately show ?thesis
    by (auto simp: parse_hooks_def and_then_Inr collect_map_Inr hooks_ok_def [of "[]"] dest: parse_hook_list split: option.splits)
qed

section \<open>Suites, coverage, relocations, languages\<close>

definition suite_ok :: "test_suite \<Rightarrow> bool" where
  "suite_ok s \<longleftrightarrow> well_formed_name (ts_name s) \<and> inside (ts_test_dir s) \<and> inside (ts_test_resource_dir s) \<and>
     (\<forall>(k, x) \<in> set (ts_env s). env_name_ok k \<and> jvm_template x)"

lemma parse_suite_ok: "parse_suite name v = Inr (s, ws) \<Longrightarrow> suite_ok s"
  by (auto simp: parse_suite_def Let_def and_then_Inr suite_ok_def intro: default_test_resource_dir_inside
      dest!: path_or_inside parse_jvm_env_ok split: if_splits)

lemma parse_suites_ok: "parse_suites t = Inr (ss, ws) \<Longrightarrow> \<forall>s \<in> set ss. suite_ok s"
proof (cases "map_of t ''suites''")
  case (Some v)
  assume "parse_suites t = Inr (ss, ws)"
  with Some obtain tb rs where c: "collect (map (\<lambda>(name, v). parse_suite name v) tb) = Inr rs" and ss: "ss = map fst rs"
    by (auto simp: parse_suites_def and_then_Inr)
  show ?thesis
  proof
    fix s assume "s \<in> set ss"
    then obtain w where "(s, w) \<in> set rs" using ss by auto
    from collect_map_in [OF c this] show "suite_ok s" by (auto dest: parse_suite_ok)
  qed
qed (simp add: parse_suites_def)

lemma bit_length_bounds: "n < 2 ^ bit_length n \<and> (0 < n \<longrightarrow> 2 ^ (bit_length n - 1) \<le> n)"
proof (induction n rule: bit_length.induct)
  case (1 n)
  show ?case
  proof (cases "n = 0")
    case False
    then have l: "bit_length n = Suc (bit_length (n div 2))" by (simp add: bit_length.simps [of n])
    have "n < 2 * 2 ^ bit_length (n div 2)" using 1 [OF False] by linarith
    moreover have "2 ^ bit_length (n div 2) \<le> n"
    proof (cases "n div 2 = 0")
      case True
      then show ?thesis using False by (simp add: bit_length.simps [of 0])
    next
      case half: False
      then have "2 ^ (bit_length (n div 2) - 1) \<le> n div 2" using 1 [OF False] by simp
      moreover have "bit_length (n div 2) \<noteq> 0" using half by (simp add: bit_length.simps [of "n div 2"])
      ultimately have "2 ^ bit_length (n div 2) \<le> 2 * (n div 2)" by (cases "bit_length (n div 2)") simp_all
      then show ?thesis by linarith
    qed
    ultimately show ?thesis by (simp add: l)
  qed (simp add: bit_length.simps [of 0])
qed

text \<open>Rounding does not go past a number that is a multiple of the unit it rounds to.\<close>

lemma div_half_even_le: "0 < d \<Longrightarrow> n \<le> b * d \<Longrightarrow> div_half_even n d \<le> b"
proof -
  assume d: "0 < d" "n \<le> b * d"
  have q: "n div d \<le> b" using d by (metis div_le_mono nonzero_mult_div_cancel_right less_not_refl)
  show "div_half_even n d \<le> b"
  proof (cases "n div d = b")
    case True
    then have "n = b * d" using d by (metis div_times_less_eq_dividend le_antisym)
    then have "n mod d = 0" by simp
    with True d show ?thesis by (simp add: div_half_even_def)
  next
    case False
    with q show ?thesis by (auto simp: div_half_even_def Let_def)
  qed
qed

lemma round_53_le:
  assumes "p \<le> m * 2 ^ k" "m < 2 ^ 14"
  shows "round_53 p \<le> m * 2 ^ k"
proof (cases "p = 0")
  case True
  then show ?thesis by (simp add: round_53_def Let_def div_half_even_def bit_length.simps [of 0])
next
  case False
  let ?s = "bit_length p - 53"
  have "2 ^ (bit_length p - 1) \<le> p" using bit_length_bounds False by blast
  also have "p < 2 ^ (14 + k)"
  proof -
    have "m * 2 ^ k < 2 ^ 14 * 2 ^ k" using assms(2) by (intro mult_strict_right_mono) simp_all
    with assms(1) have "p < 2 ^ 14 * 2 ^ k" by (rule le_less_trans)
    then show ?thesis by (simp only: power_add)
  qed
  finally have "bit_length p - 1 < 14 + k" by simp
  then have s: "?s \<le> k" by simp
  then have k: "m * 2 ^ k = (m * 2 ^ (k - ?s)) * 2 ^ ?s" by (simp add: mult.assoc flip: power_add)
  have "p \<le> (m * 2 ^ (k - ?s)) * 2 ^ ?s" using assms(1) unfolding k .
  then have "div_half_even p (2 ^ ?s) \<le> m * 2 ^ (k - ?s)" by (rule div_half_even_le [rotated]) simp
  then have "div_half_even p (2 ^ ?s) * 2 ^ ?s \<le> (m * 2 ^ (k - ?s)) * 2 ^ ?s" by (rule mult_le_mono1)
  then show ?thesis unfolding k round_53_def Let_def .
qed

lemma f64_at_most_one:
  assumes "is_ratio w"
  shows "f64_significand w \<le> 2 ^ f64_scale w"
proof (cases "unat w \<le> 0x3FF0000000000000")
  case True
  let ?e = "unat w div 2 ^ 52 mod 2 ^ 11"
  have e: "unat w div 2 ^ 52 \<le> 1023" using True by simp
  then have eq: "?e = unat w div 2 ^ 52" by simp
  show ?thesis
  proof (cases "?e = 1023")
    case True
    then have "unat w div 2 ^ 52 = 1023" using eq by simp
    then have "unat w mod 2 ^ 52 = unat w - 1023 * 2 ^ 52" by (metis minus_div_mult_eq_mod)
    with \<open>unat w \<le> 0x3FF0000000000000\<close> have "unat w mod 2 ^ 52 = 0" by simp
    with True show ?thesis by (simp add: f64_significand_def f64_scale_def Let_def)
  next
    case False
    then have le: "?e \<le> 1022" using e eq by simp
    have "f64_significand w < 2 ^ 53"
    proof -
      have "unat w mod 2 ^ 52 < 2 ^ 52" by simp
      then show ?thesis by (auto simp: f64_significand_def Let_def)
    qed
    also have "(2 :: nat) ^ 53 \<le> 2 ^ f64_scale w" by (rule power_increasing) (use le in \<open>auto simp: f64_scale_def Let_def\<close>)
    finally show ?thesis by simp
  qed
next
  case False
  with assms have "w = 0x8000000000000000" by (simp add: is_ratio_def)
  then show ?thesis by (simp add: f64_significand_def f64_scale_def Let_def)
qed

lemma ratio_points_bound: "is_ratio w \<Longrightarrow> ratio_points w \<le> 10000"
proof -
  assume "is_ratio w"
  then have "f64_significand w * 10000 \<le> 10000 * 2 ^ f64_scale w" using f64_at_most_one by simp
  then have "round_53 (f64_significand w * 10000) \<le> 10000 * 2 ^ f64_scale w" by (rule round_53_le) simp
  then have "2 * round_53 (f64_significand w * 10000) div 2 ^ f64_scale w \<le> 20000 * 2 ^ f64_scale w div 2 ^ f64_scale w"
    by (intro div_le_mono) simp
  then show ?thesis by (simp add: ratio_points_def Let_def)
qed

lemma coverage_minimum_ok: "coverage_minimum_of rg t = Inr (ms, ws) \<Longrightarrow> \<forall>m \<in> set ms. cm_basis_points m \<le> 10000"
proof (cases "map_of t ''coverage-minimum''")
  case (Some v)
  assume "coverage_minimum_of rg t = Inr (ms, ws)"
  with Some obtain tb rs where c: "collect (map (coverage_entry rg) tb) = Inr rs" and ms: "ms = concat rs"
    by (auto simp: coverage_minimum_of_def and_then_Inr)
  have one: "\<forall>m \<in> set ys. cm_basis_points m \<le> 10000" if "coverage_entry rg (k, w) = Inr ys" for k w ys
    using that by (cases w) (auto simp: coverage_entry_def basis_points_of_def and_then_Inr Let_def ratio_points_bound split: option.splits if_splits)
  show ?thesis
  proof
    fix m assume "m \<in> set ms"
    then obtain ys where "ys \<in> set rs" "m \<in> set ys" using ms by auto
    with collect_map_in [OF c this(1)] one show "cm_basis_points m \<le> 10000" by fast
  qed
qed (simp add: coverage_minimum_of_def)

definition jdk_package :: "str \<Rightarrow> bool" where
  "jdk_package n \<longleftrightarrow> n = ''java'' \<or> starts_with ''java.'' n"

definition relocation_ok :: "relocation \<Rightarrow> bool" where
  "relocation_ok r \<longleftrightarrow> validate_package_name (rel_from r) [] = Inr () \<and> validate_package_name (rel_to r) [] = Inr () \<and> rel_to r \<noteq> rel_from r \<and>
     \<not> jdk_package (rel_from r) \<and> \<not> jdk_package (rel_to r) \<and> (\<forall>x \<in> set (rel_exclude r). starts_with (rel_from r @ ''.'') x)"

lemma relocation_entry_ok: "relocation_entry a b ex = Inr r \<Longrightarrow> relocation_ok r \<and> rel_from r = a \<and> rel_to r = b"
  by (auto simp: relocation_entry_def Let_def and_then_Inr for_each_Inr relocation_ok_def jdk_package_def validate_package_name_def)

lemma parse_relocations_ok: "parse_relocations t = Inr (rs, ws) \<Longrightarrow> \<forall>r \<in> set rs. relocation_ok r"
proof (cases "map_of t ''relocate''")
  case (Some v)
  assume "parse_relocations t = Inr (rs, ws)"
  with Some obtain tb xs where c: "collect (map parse_relocation tb) = Inr xs" and rs: "rs = map fst xs"
    by (auto simp: parse_relocations_def and_then_Inr)
  show ?thesis
  proof
    fix r assume "r \<in> set rs"
    then obtain w where "(r, w) \<in> set xs" using rs by auto
    from collect_map_in [OF c this] show "relocation_ok r" by (auto simp: parse_relocation_def and_then_Inr Let_def dest!: relocation_entry_ok)
  qed
qed (simp add: parse_relocations_def)

definition language_ok :: "language_config \<Rightarrow> bool" where
  "language_ok c \<longleftrightarrow> lc_version c \<noteq> [] \<and> \<not> is_range (lc_version c) \<and> check_version (lc_language c) (lc_version c) = Inr () \<and>
     inside (lc_source_dir c) \<and> inside (lc_test_dir c) \<and> (\<forall>n \<in> set (lc_plugins c). find_kotlin_plugin n \<noteq> None)"

lemma language_version_ok: "language_version t l = Inr v \<Longrightarrow> v \<noteq> []"
  by (auto simp: language_version_def split: option.splits toml.splits if_splits)

lemma parse_language_table_ok: "parse_language_table t l = Inr c \<Longrightarrow> language_ok c \<and> lc_language c = l"
  by (auto simp: parse_language_table_def Let_def and_then_Inr for_each_Inr language_ok_def rethrown dest!: language_version_ok path_or_inside)

lemma parse_language_ok:
  "parse_language table l = Inr (cs, ws) \<Longrightarrow> cs = [] \<or> (\<exists>c. cs = [c] \<and> language_ok c \<and> lc_language c = l)"
  by (auto simp: parse_language_def Let_def and_then_Inr section_of_def dest: parse_language_table_ok split: option.splits)

lemma parse_language_list:
  "list_all2 (\<lambda>l r. parse_language table l = Inr r) ls rs \<Longrightarrow> distinct ls \<Longrightarrow>
    distinct (map lc_language (concat (map fst rs))) \<and> lc_language ` set (concat (map fst rs)) \<subseteq> set ls \<and> (\<forall>c \<in> set (concat (map fst rs)). language_ok c)"
proof (induction ls rs rule: list_all2_induct)
  case (Cons l ls r rs)
  obtain cs ws where r: "r = (cs, ws)" by (metis surj_pair)
  from Cons.IH Cons.prems parse_language_ok [OF Cons.hyps(1) [unfolded r]] show ?case by (fastforce simp: r)
qed simp

lemma parse_languages_ok:
  "parse_languages table = Inr (cs, ws) \<Longrightarrow> distinct (map lc_language cs) \<and> Java \<notin> lc_language ` set cs \<and> (\<forall>c \<in> set cs. language_ok c)"
proof -
  assume "parse_languages table = Inr (cs, ws)"
  then obtain rs where "list_all2 (\<lambda>l r. parse_language table l = Inr r) foreign rs" "cs = concat (map fst rs)"
    by (auto simp: parse_languages_def and_then_Inr collect_map_Inr)
  moreover have "distinct foreign" "Java \<notin> set foreign" by code_simp+
  ultimately show ?thesis using parse_language_list by blast
qed

end
