(* ===== verification/ManifestSound.thy ===== *)
theory ManifestSound
  imports ManifestFacts
begin

text \<open>
  What \<^verbatim>\<open>Manifest::from_table\<close> promises as a whole: a manifest that is read is well formed, its tasks have
  passed the checks, what its jar and its resources ask for is always known, and it depends on the keys
  jrs knows alone.
\<close>

section \<open>A well-formed manifest\<close>

definition project_ok :: "manifest \<Rightarrow> bool" where
  "project_ok m \<longleftrightarrow> validate_name (mf_name m) = Inr () \<and> trim (mf_version m) \<noteq> [] \<and>
     (\<forall>g. mf_group m = Some g \<longrightarrow> valid_group_pattern g \<and> \<not> ends_with ''.*'' g) \<and>
     list_all inside [mf_source_dir m, mf_test_dir m, mf_resource_dir m, mf_test_resource_dir m, mf_target_dir m]"

definition settings_ok :: "manifest \<Rightarrow> bool" where
  "settings_ok m \<longleftrightarrow> (jc_target (mf_java m) \<noteq> None \<longrightarrow> jc_target (mf_java m) \<noteq> jc_source (mf_java m)) \<and>
     distinct (map agent_ga (rc_java_agents (mf_run m))) \<and> distinct (map agent_ga (tc_java_agents (mf_test m))) \<and>
     (\<forall>(k, x) \<in> set (rc_env (mf_run m) @ tc_env (mf_test m)). env_name_ok k \<and> jvm_template x) \<and>
     (\<forall>s \<in> set (tc_suites (mf_test m)). suite_ok s) \<and> (\<forall>c \<in> set (tc_coverage_minimum (mf_test m)). cm_basis_points c \<le> 10000) \<and>
     attributes_ok (pk_manifest (mf_package m)) \<and> (\<forall>r \<in> set (pk_relocate (mf_package m)). relocation_ok r) \<and>
     (\<forall>(n, x) \<in> set (rs_properties (mf_resources m)). project_only x) \<and> (\<forall>p \<in> set (rs_expand (mf_resources m)). expand_pattern p) \<and>
     distinct (map lc_language (mf_languages m)) \<and> (\<forall>c \<in> set (mf_languages m). language_ok c)"

definition graph_ok :: "manifest \<Rightarrow> bool" where
  "graph_ok m \<longleftrightarrow> dependencies_ok (mf_dependencies m, mf_modules m) \<and> dependencies_ok (mf_dev_dependencies m, []) \<and>
     (\<forall>d \<in> set (mf_dev_dependencies m). \<not> dep_compile_only d \<and> \<not> dep_runtime_only d) \<and>
     managed_ok (mf_managed m) \<and>
     ((\<exists>b \<in> set (mf_managed m). mg_bom b) \<or> (\<forall>d \<in> set (mf_dependencies m @ mf_dev_dependencies m). is_managed d \<longrightarrow>
        (\<exists>g \<in> set (mf_managed m). mg_group g = dep_group d \<and> mg_artifact g = dep_artifact d))) \<and>
     (\<forall>r \<in> set (mf_repositories m). repository_ok r) \<and> (\<exists>r \<in> set (mf_repositories m). repo_url r = central_url) \<and>
     (\<forall>t \<in> set (mf_tasks m). task_ok t) \<and> hooks_ok (mf_hooks m)"

lemma group_checked: "check_project_group g k = Inr () \<longleftrightarrow> valid_group_pattern g \<and> \<not> ends_with ''.*'' g"
  by (simp add: check_project_group_def)

lemma parse_project_ok:
  assumes "parse_project rg project p root = Inr (m, ws)"
  shows "project_ok m \<and> mf_path m = p \<and> mf_root m = root"
proof -
  from assms obtain name version grp main src tst res tgt tres v where
    n: "validate_name name = Inr ()" and v: "trim version \<noteq> []"
    and g: "(case grp of Some g \<Rightarrow> check_project_group g ''project.group'' | None \<Rightarrow> Inr ()) = Inr ()"
    and s: "path_or project ''source-dir'' ''src/main/java'' ''project'' = Inr src"
    and t: "path_or project ''test-dir'' ''src/test/java'' ''project'' = Inr tst"
    and r: "path_or project ''resource-dir'' ''src/main/resources'' ''project'' = Inr res"
    and g': "path_or project ''target-dir'' ''target'' ''project'' = Inr tgt"
    and tr: "(if has_key project ''test-resource-dir'' then path_or project ''test-resource-dir'' [] ''project''
       else Inr (default_test_resource_dir tst)) = Inr tres"
    and m: "m = (blank name version root)\<lparr>mf_path := p, mf_group := grp, mf_main_class := main, mf_source_dir := src,
          mf_test_dir := tst, mf_resource_dir := res, mf_test_resource_dir := tres, mf_target_dir := tgt, mf_jrs_version := v\<rparr>"
    unfolding parse_project_def and_then_Inr by auto
  have "inside tres" using tr path_or_inside [OF t] by (auto intro: path_or_inside default_test_resource_dir_inside split: if_splits)
  moreover have "inside src" "inside tst" "inside res" "inside tgt" using s t r g' by (blast intro: path_or_inside)+
  ultimately show ?thesis using n v g by (auto simp: m project_ok_def blank_def group_checked)
qed

lemma sub_table_cases:
  assumes "sub_table table name known d f = Inr (x, ws)"
  shows "x = d \<or> (\<exists>t ws'. f t = Inr (x, ws'))"
  using assms by (auto simp: sub_table_def section_of_def and_then_Inr split: option.splits)

lemma quiet_Inr: "quiet f t = Inr (x, ws) \<longleftrightarrow> f t = Inr x \<and> ws = []"
  by (auto simp: quiet_def and_then_Inr)

lemma parse_java_ok: "parse_java t = Inr j \<Longrightarrow> jc_target j \<noteq> None \<longrightarrow> jc_target j \<noteq> jc_source j"
  by (auto simp: parse_java_def and_then_Inr split: if_splits)

lemma parse_run_ok: "parse_run t = Inr r \<Longrightarrow> distinct (map agent_ga (rc_java_agents r)) \<and> (\<forall>(k, x) \<in> set (rc_env r). env_name_ok k \<and> jvm_template x)"
  by (auto simp: parse_run_def and_then_Inr dest!: parse_java_agents_distinct parse_jvm_env_ok)

lemma parse_test_ok:
  "parse_test rg t = Inr (c, ws) \<Longrightarrow> distinct (map agent_ga (tc_java_agents c)) \<and> (\<forall>(k, x) \<in> set (tc_env c). env_name_ok k \<and> jvm_template x) \<and>
    (\<forall>s \<in> set (tc_suites c). suite_ok s) \<and> (\<forall>m \<in> set (tc_coverage_minimum c). cm_basis_points m \<le> 10000)"
  by (auto simp: parse_test_def and_then_Inr dest!: parse_java_agents_distinct parse_jvm_env_ok parse_suites_ok coverage_minimum_ok)

lemma parse_package_ok: "parse_package t = Inr (k, ws) \<Longrightarrow> attributes_ok (pk_manifest k) \<and> (\<forall>r \<in> set (pk_relocate k). relocation_ok r)"
  by (auto simp: parse_package_def and_then_Inr dest!: parse_jar_attributes_ok parse_relocations_ok)

text \<open>The fields \<^verbatim>\<open>[project]\<close> fills stay as they are, and the others start empty.\<close>

definition settings_empty :: "manifest \<Rightarrow> bool" where
  "settings_empty m \<longleftrightarrow> rc_java_agents (mf_run m) = [] \<and> rc_env (mf_run m) = [] \<and> tc_java_agents (mf_test m) = [] \<and> tc_env (mf_test m) = [] \<and>
     tc_suites (mf_test m) = [] \<and> tc_coverage_minimum (mf_test m) = [] \<and> pk_manifest (mf_package m) = [] \<and> pk_relocate (mf_package m) = [] \<and>
     rs_properties (mf_resources m) = [] \<and> rs_expand (mf_resources m) = []"

lemma parse_project_empty: "parse_project rg project p root = Inr (m, ws) \<Longrightarrow> settings_empty m"
  by (auto simp: parse_project_def and_then_Inr settings_empty_def blank_def)

lemma attributes_ok_empty: "attributes_ok []"
  by (simp add: attributes_ok_def)

lemma parse_settings_ok:
  assumes "parse_settings rg table m = Inr (m', ws)" "settings_empty m"
  shows "settings_ok m' \<and> (project_ok m' \<longleftrightarrow> project_ok m) \<and> mf_path m' = mf_path m \<and> mf_root m' = mf_root m"
proof -
  from assms(1) obtain java run test package resources obfuscate languages w1 w2 w3 w4 w5 w7 where
    s: "sub_table table ''java'' java_keys java_config_default (quiet parse_java) = Inr (java, w1)"
      "sub_table table ''run'' run_keys (mf_run m) (quiet parse_run) = Inr (run, w2)"
      "sub_table table ''test'' test_keys (mf_test m) (parse_test rg) = Inr (test, w3)"
      "sub_table table ''package'' package_keys (mf_package m) parse_package = Inr (package, w4)"
      "sub_table table ''resources'' resources_keys (mf_resources m) (quiet (parse_resources rg)) = Inr (resources, w5)"
      "parse_languages table = Inr (languages, w7)"
    and m': "m' = m\<lparr>mf_java := java, mf_run := run, mf_test := test, mf_package := package, mf_resources := resources,
            mf_obfuscate := obfuscate, mf_languages := languages\<rparr>"
    by (auto simp: parse_settings_def and_then_Inr)
  note e = assms(2) [unfolded settings_empty_def]
  have "jc_target java \<noteq> None \<longrightarrow> jc_target java \<noteq> jc_source java"
    using sub_table_cases [OF s(1)] parse_java_ok by (auto simp: quiet_Inr java_config_default_def)
  moreover have "distinct (map agent_ga (rc_java_agents run)) \<and> (\<forall>(k, x) \<in> set (rc_env run). env_name_ok k \<and> jvm_template x)"
    using sub_table_cases [OF s(2)] parse_run_ok e by (fastforce simp: quiet_Inr)
  moreover have "distinct (map agent_ga (tc_java_agents test)) \<and> (\<forall>(k, x) \<in> set (tc_env test). env_name_ok k \<and> jvm_template x) \<and>
    (\<forall>s \<in> set (tc_suites test). suite_ok s) \<and> (\<forall>c \<in> set (tc_coverage_minimum test). cm_basis_points c \<le> 10000)"
    using sub_table_cases [OF s(3)] parse_test_ok e by fastforce
  moreover have "attributes_ok (pk_manifest package) \<and> (\<forall>r \<in> set (pk_relocate package). relocation_ok r)"
    using sub_table_cases [OF s(4)] parse_package_ok attributes_ok_empty e by fastforce
  moreover have "(\<forall>(n, x) \<in> set (rs_properties resources). project_only x) \<and> (\<forall>p \<in> set (rs_expand resources). expand_pattern p)"
    using sub_table_cases [OF s(5)] parse_resources_ok e by (fastforce simp: quiet_Inr)
  moreover note parse_languages_ok [OF s(6)]
  ultimately show ?thesis unfolding settings_ok_def m' by (auto simp: project_ok_def)
qed

lemma check_versionless_ok:
  "check_versionless ds devs ms = Inr () \<longleftrightarrow> (\<exists>b \<in> set ms. mg_bom b) \<or> (\<forall>d \<in> set (ds @ devs). is_managed d \<longrightarrow>
        (\<exists>g \<in> set ms. mg_group g = dep_group d \<and> mg_artifact g = dep_artifact d))"
  by (auto simp: check_versionless_def list_ex_iff for_each_Inr ball_Un)

lemma join_modules_ok:
  "join_modules modules devs = Inr (ms, ws) \<Longrightarrow> \<forall>m \<in> set modules. module_ok m \<Longrightarrow> \<forall>m \<in> set devs. module_ok m \<Longrightarrow> \<forall>m \<in> set ms. module_ok m"
  by (auto simp: join_modules_def Let_def module_ok_def split: option.splits)

lemma check_dev_dependencies_ok:
  "check_dev_dependencies ds devs = Inr ws \<Longrightarrow> \<forall>d \<in> set devs. \<not> dep_compile_only d \<and> \<not> dep_runtime_only d"
  by (auto simp: check_dev_dependencies_def and_then_Inr find_refuse)

lemma parse_graph_ok:
  assumes "parse_graph rg table m = Inr (m', ws)"
  shows "graph_ok m' \<and> (settings_ok m' \<longleftrightarrow> settings_ok m) \<and> (project_ok m' \<longleftrightarrow> project_ok m) \<and> mf_path m' = mf_path m \<and> mf_root m' = mf_root m"
proof -
  from assms obtain ds modules devs dev_modules all w1 w2 ms repositories tasks w3 hooks w4 where
    g: "parse_dependencies table ''dependencies'' = Inr (ds, modules)" "parse_dependencies table ''dev-dependencies'' = Inr (devs, dev_modules)"
      "join_modules modules dev_modules = Inr (all, w1)" "check_dev_dependencies ds devs = Inr w2" "parse_managed table = Inr ms"
      "check_versionless ds devs ms = Inr ()" "parse_repositories table = Inr repositories" "parse_tasks rg table = Inr (tasks, w3)"
      "parse_hooks table = Inr (hooks, w4)"
    and m': "m' = m\<lparr>mf_dependencies := ds, mf_dev_dependencies := devs, mf_modules := all, mf_managed := ms,
            mf_repositories := repositories, mf_tasks := tasks, mf_hooks := hooks\<rparr>"
    by (auto simp: parse_graph_def and_then_Inr)
  from g(1,2) have "dependencies_ok (ds, modules)" "dependencies_ok (devs, dev_modules)" by (auto simp: parse_dependencies_def dest: parse_table_ok)
  with join_modules_ok [OF g(3)] have "dependencies_ok (ds, all)" "dependencies_ok (devs, [])" by (auto simp: dependencies_ok_def)
  note ds = this
  have sel: "mf_dependencies m' = ds" "mf_dev_dependencies m' = devs" "mf_modules m' = all" "mf_managed m' = ms"
    "mf_repositories m' = repositories" "mf_tasks m' = tasks" "mf_hooks m' = hooks" by (simp_all add: m')
  have "graph_ok m'"
    unfolding graph_ok_def sel
    by (intro conjI; fact ds check_dev_dependencies_ok [OF g(4)] parse_managed_ok [OF g(5)] g(6) [unfolded check_versionless_ok]
      parse_repositories_ok [OF g(7), THEN conjunct1] parse_repositories_ok [OF g(7), THEN conjunct2] parse_tasks_ok [OF g(8)] parse_hooks_ok [OF g(9)])
  then show ?thesis by (simp add: m' settings_ok_def project_ok_def)
qed

section \<open>Warnings change nothing\<close>

text \<open>The checks of the tasks and of the languages do not look at the warnings so far.\<close>

named_theorems warned

lemma find_task_warned [warned]: "find_task (m\<lparr>mf_warnings := w\<rparr>) = find_task m"
  by (simp add: find_task_def fun_eq_iff)

lemma task_edges_warned [warned]: "task_edges (m\<lparr>mf_warnings := w\<rparr>) = task_edges m"
  by (simp add: task_edges_def fun_eq_iff warned cong: task_ref.case_cong)

lemma cycle_walk_warned [warned]:
  "cycle_walk (m\<lparr>mf_warnings := w\<rparr>) n s st path = cycle_walk m n s st path"
  "cycle_walk_all (m\<lparr>mf_warnings := w\<rparr>) n ss st path = cycle_walk_all m n ss st path"
  by (induction m n s st path and m n ss st path rule: cycle_walk_cycle_walk_all.induct)
    (simp_all add: warned cong: option.case_cong sum.case_cong visit_state.case_cong)

lemma find_cycle_warned [warned]: "find_cycle (m\<lparr>mf_warnings := w\<rparr>) = find_cycle m"
  by (simp add: find_cycle_def task_fuel_def warned)

lemma plan_needs_warned [warned]: "plan_needs (m\<lparr>mf_warnings := w\<rparr>) = plan_needs m"
  by (simp add: plan_needs_def fun_eq_iff warned cong: task_ref.case_cong)

lemma plan_visit_warned [warned]:
  "plan_visit (m\<lparr>mf_warnings := w\<rparr>) n r so = plan_visit m n r so"
  "plan_visit_all (m\<lparr>mf_warnings := w\<rparr>) n rs so = plan_visit_all m n rs so"
  by (induction m n r so and m n rs so rule: plan_visit_plan_visit_all.induct)
    (simp_all add: warned cong: option.case_cong if_cong)

lemma plan_warned [warned]: "plan (m\<lparr>mf_warnings := w\<rparr>) = plan m"
  by (simp add: plan_def task_fuel_def fun_eq_iff warned)

lemma reached_from_warned [warned]: "reached_from (m\<lparr>mf_warnings := w\<rparr>) = reached_from m"
  by (simp add: reached_from_def fun_eq_iff warned cong: task_ref.case_cong)

lemma static_warned [warned]:
  "static_root cwd (m\<lparr>mf_warnings := w\<rparr>) = static_root cwd m"
  "static_target cwd (m\<lparr>mf_warnings := w\<rparr>) = static_target cwd m"
  by (simp_all add: static_root_def static_target_def cong: option.case_cong)

lemma static_value_warned [warned]: "static_value cwd (m\<lparr>mf_warnings := w\<rparr>) = static_value cwd m"
  by (simp add: static_value_def fun_eq_iff warned jar_name_def Let_def cong: placeholder.case_cong)

lemma static_path_warned [warned]: "static_path cwd port (m\<lparr>mf_warnings := w\<rparr>) = static_path cwd port m"
  by (rule ext) (simp add: static_path_def warned)

lemma checks_warned [warned]:
  "check_references (m\<lparr>mf_warnings := w\<rparr>) = check_references m"
  "check_hooks (m\<lparr>mf_warnings := w\<rparr>) = check_hooks m"
  "check_jar (m\<lparr>mf_warnings := w\<rparr>) = check_jar m"
  "check_generated cwd port (m\<lparr>mf_warnings := w\<rparr>) = check_generated cwd port m"
  by (simp_all add: check_references_def check_hooks_def check_jar_def check_generated_def task_depends_on_def warned
      cong: task_ref.case_cong)

lemma check_cached_warned [warned]: "check_cached cwd port (m\<lparr>mf_warnings := w\<rparr>) = check_cached cwd port m"
proof -
  have "check_cached_output cwd port (m\<lparr>mf_warnings := w\<rparr>) = check_cached_output cwd port m"
    by (intro ext) (simp add: check_cached_output_def warned)
  then have "check_cached_task cwd port (m\<lparr>mf_warnings := w\<rparr>) = check_cached_task cwd port m"
    by (intro ext) (simp add: check_cached_task_def)
  then show ?thesis by (simp add: check_cached_def warned)
qed

lemma generated_warnings_warned [warned]: "generated_warnings (m\<lparr>mf_warnings := w\<rparr>) = generated_warnings m"
  by (simp add: generated_warnings_def warned)

lemma check_tasks_warned [warned]: "check_tasks cwd port (m\<lparr>mf_warnings := w\<rparr>) = check_tasks cwd port m"
  by (simp add: check_tasks_def warned)

lemma language_warnings_warned [warned]:
  "encoding_warnings (m\<lparr>mf_warnings := w\<rparr>) = encoding_warnings m"
  "library_warnings (m\<lparr>mf_warnings := w\<rparr>) = library_warnings m"
  by (simp_all add: encoding_warnings_def library_warnings_def fun_eq_iff Let_def cong: if_cong)

lemma check_languages_warned [warned]: "check_languages (m\<lparr>mf_warnings := w\<rparr>) = check_languages m"
proof -
  have "check_language (m\<lparr>mf_warnings := w\<rparr>) = check_language m"
    by (rule ext) (simp add: check_language_def warned cong: language.case_cong)
  then show ?thesis by (simp add: check_languages_def)
qed

section \<open>An example\<close>

definition example_reading :: reading where
  "example_reading = \<lparr>rg_alnum = (\<lambda>_. True), rg_show = (\<lambda>_. ''value''), rg_float = (\<lambda>_. ''0.5''), rg_cwd = ''/work'', rg_port = (\<lambda>_. Inr 8080)\<rparr>"

definition example_tables :: toml_table where
  "example_tables =
     [(''project'', TomlTable [(''name'', TomlString ''demo''), (''version'', TomlString ''1.0''), (''group'', TomlString ''org.demo'')]),
      (''package'', TomlTable [(''manifest'', TomlTable [(''Built-By'', TomlString ''{project.name}'')])]),
      (''dependencies'', TomlTable [(''org.lib:core'', TomlString ''2.1'')]),
      (''hooks'', TomlTable [(''pre-compile'', TomlArray [TomlString ''gen''])]),
      (''tasks'', TomlTable [(''gen'', TomlTable [(''run'', TomlArray [TomlString ''gen''])])])]"

definition example_parsed :: manifest where
  "example_parsed = (case from_table example_reading example_tables ''/work/jrs.toml'' ''/work'' of Inr m \<Rightarrow> m | Inl _ \<Rightarrow> blank [] [] [])"

lemma example_read: "from_table example_reading example_tables ''/work/jrs.toml'' ''/work'' = Inr example_parsed"
  by code_simp

section \<open>What a manifest that is read promises\<close>

lemma from_table_parts:
  assumes "from_table rg table p root = Inr m"
  obtains project m1 m2 m3 w1 w2 w3 where "map_of table ''project'' = Some (TomlTable project)"
    "parse_project rg project p root = Inr (m1, w1)" "parse_settings rg table m1 = Inr (m2, w2)" "parse_graph rg table m2 = Inr (m3, w3)"
    "m = m3\<lparr>mf_warnings := mf_warnings m\<rparr>" "\<exists>ws. check_tasks (rg_cwd rg) (rg_port rg) m = Inr ws" "\<exists>ws. check_languages m = Inr ws"
proof -
  from assms obtain v project m1 m2 m3 w1 w2 w3 w4 w5 where
    s: "map_of table ''project'' = Some v" "tv_table v = Some project" "parse_project rg project p root = Inr (m1, w1)"
      "parse_settings rg table m1 = Inr (m2, w2)" "parse_graph rg table m2 = Inr (m3, w3)" "check_languages m3 = Inr w4"
      "check_tasks (rg_cwd rg) (rg_port rg) m3 = Inr w5"
    and m: "m = m3\<lparr>mf_warnings := mf_warnings m\<rparr>"
    by (auto simp: from_table_def and_then_Inr Let_def warned)
  have "v = TomlTable project" using s(2) by (cases v) auto
  moreover have "check_tasks (rg_cwd rg) (rg_port rg) m = Inr w5" "check_languages m = Inr w4"
    using s(6,7) check_tasks_warned [of "rg_cwd rg" "rg_port rg" "mf_warnings m" m3] check_languages_warned [of "mf_warnings m" m3] m [symmetric] by simp_all
  ultimately show thesis using that s m by blast
qed

lemma from_table_ok:
  assumes "from_table rg table p root = Inr m"
  shows "project_ok m \<and> settings_ok m \<and> graph_ok m \<and> mf_path m = p \<and> mf_root m = root"
  using assms
proof (rule from_table_parts)
  fix project m1 m2 m3 w1 w2 w3
  assume s: "parse_project rg project p root = Inr (m1, w1)" "parse_settings rg table m1 = Inr (m2, w2)" "parse_graph rg table m2 = Inr (m3, w3)"
    and m: "m = m3\<lparr>mf_warnings := mf_warnings m\<rparr>"
  have "project_ok m3 \<and> settings_ok m3 \<and> graph_ok m3 \<and> mf_path m3 = p \<and> mf_root m3 = root"
    using parse_project_ok [OF s(1)] parse_settings_ok [OF s(2) parse_project_empty [OF s(1)]] parse_graph_ok [OF s(3)] by simp
  moreover define w where "w = mf_warnings m"
  then have w: "m = m3\<lparr>mf_warnings := w\<rparr>" using m by simp
  have "project_ok m = project_ok m3" "settings_ok m = settings_ok m3" "graph_ok m = graph_ok m3" "mf_path m = mf_path m3" "mf_root m = mf_root m3"
    unfolding w by (simp_all add: project_ok_def settings_ok_def graph_ok_def)
  ultimately show ?thesis by simp
qed



section \<open>The attributes of the jar, and the properties of the resources\<close>

lemma project_value_known: "p \<in> {PhProjectName, PhProjectVersion} \<Longrightarrow> \<exists>v. project_value m section' n p = Inr v"
  by (auto simp: project_value_def)

lemma expand_all:
  assumes "\<forall>(n, x) \<in> set as. project_only x"
  shows "\<exists>vs. collect (map (\<lambda>(n, x). and_then (template_expand (project_value m section' n) port x) (\<lambda>v. Inr (n, v))) as) = Inr vs \<and>
    map fst vs = map fst as"
  using assms
proof (induction as)
  case (Cons a as)
  then obtain n x vs where a: "a = (n, x)" and vs: "collect (map (\<lambda>(n, x). and_then (template_expand (project_value m section' n) port x) (\<lambda>v. Inr (n, v))) as) = Inr vs"
    "map fst vs = map fst as" by (cases a) auto
  have "project_only x" using Cons.prems a by simp
  then obtain y where "template_expand (project_value m section' n) port x = Inr y"
    using expand_project_only [of x "project_value m section' n", OF _ project_value_known] by blast
  with a vs show ?case by simp
qed simp



section \<open>Keys jrs does not know\<close>

definition quietly :: "manifest result \<Rightarrow> manifest result" where
  "quietly r = and_then r (\<lambda>m. Inr (m\<lparr>mf_warnings := []\<rparr>))"

lemma section_of_cong: "map_of a k = map_of b k \<Longrightarrow> section_of a k known = section_of b k known"
  by (simp add: section_of_def)

lemma sub_table_cong: "map_of a k = map_of b k \<Longrightarrow> sub_table a k known d f = sub_table b k known d f"
  by (simp add: sub_table_def section_of_def)

lemma parse_language_cong: "map_of a (lang_key l) = map_of b (lang_key l) \<Longrightarrow> parse_language a l = parse_language b l"
  by (simp add: parse_language_def section_of_def)

lemma lang_key_known: "lang_key l \<in> set top_keys"
  by (cases l) (simp_all add: top_keys_def)

lemma parse_dependencies_cong: "map_of a k = map_of b k \<Longrightarrow> parse_dependencies a k = parse_dependencies b k"
  by (simp add: parse_dependencies_def)

lemma parse_settings_cong:
  assumes "\<forall>k \<in> set top_keys. map_of a k = map_of b k"
  shows "parse_settings rg a = parse_settings rg b"
proof -
  have t: "\<And>k. k \<in> set top_keys \<Longrightarrow> map_of a k = map_of b k" using assms by blast
  have "parse_language a = parse_language b" by (rule ext) (rule parse_language_cong [OF t [OF lang_key_known]])
  then have "parse_languages a = parse_languages b" by (simp add: parse_languages_def)
  then show ?thesis
    by (intro ext) (simp add: parse_settings_def sub_table_cong [OF t] top_keys_def)
qed

lemma parse_graph_cong:
  assumes "\<forall>k \<in> set top_keys. map_of a k = map_of b k"
  shows "parse_graph rg a = parse_graph rg b"
proof -
  have t: "map_of a k = map_of b k" if "k \<in> set top_keys" for k using that assms by blast
  have "parse_dependencies a k = parse_dependencies b k" if "k \<in> set top_keys" for k using that t by (simp add: parse_dependencies_def)
  moreover have "parse_managed a = parse_managed b" "parse_repositories a = parse_repositories b" "parse_tasks rg a = parse_tasks rg b"
    "parse_hooks a = parse_hooks b"
    using t by (simp_all add: parse_managed_def parse_repositories_def parse_tasks_def parse_hooks_def section_of_def top_keys_def)
  ultimately show ?thesis by (intro ext) (simp add: parse_graph_def top_keys_def)
qed

lemma quietly_and_then: "quietly (and_then r f) = and_then r (\<lambda>x. quietly (f x))"
  by (cases r) (simp_all add: quietly_def)

lemma from_table_quietly:
  "quietly (from_table rg table p root) =
     and_then (ok_or (mf_err ''missing required table [project]'' []) (map_of table ''project'')) (\<lambda>v.
     and_then (ok_or (mf_err ''must be a table'' [''project'']) (tv_table v)) (\<lambda>project.
     and_then (parse_project rg project p root) (\<lambda>(m, w1).
     and_then (parse_settings rg table m) (\<lambda>(m, w2).
     and_then (parse_graph rg table m) (\<lambda>(m, w3).
     and_then (check_languages m) (\<lambda>w4. and_then (check_tasks (rg_cwd rg) (rg_port rg) m) (\<lambda>w5. Inr (m\<lparr>mf_warnings := []\<rparr>))))))))"
  by (simp add: from_table_def Let_def warned case_prod_unfold quietly_and_then) (simp add: quietly_def)



section \<open>Where the manifest is found\<close>

text \<open>The directory so many steps up.\<close>

fun steps_up :: "nat \<Rightarrow> str \<Rightarrow> str option" where
  "steps_up 0 dir = Some dir"
| "steps_up (Suc n) dir = (case path_parent dir of Some parent \<Rightarrow> steps_up n parent | None \<Rightarrow> None)"

definition has_manifest :: "(str \<Rightarrow> bool) \<Rightarrow> str \<Rightarrow> bool" where
  "has_manifest is_file dir \<longleftrightarrow> is_file (path_join dir manifest_file)"

lemma discover_up_exact:
  "discover_up is_file dir = Some p \<longleftrightarrow>
     (\<exists>n d. steps_up n dir = Some d \<and> p = path_join d manifest_file \<and> has_manifest is_file d \<and>
        (\<forall>k < n. \<forall>d'. steps_up k dir = Some d' \<longrightarrow> \<not> has_manifest is_file d'))"
proof (induction is_file dir rule: discover_up.induct)
  case (1 is_file dir)
  show ?case
  proof (cases "has_manifest is_file dir")
    case True
    have "n = 0" if "\<forall>k < n. \<forall>d'. steps_up k dir = Some d' \<longrightarrow> \<not> has_manifest is_file d'" for n
      using that True by (cases n) auto
    moreover have "steps_up 0 dir = Some dir" by simp
    ultimately show ?thesis using True by (subst discover_up.simps) (fastforce simp: has_manifest_def Let_def)
  next
    case False
    then have d: "discover_up is_file dir = (case path_parent dir of Some parent \<Rightarrow> discover_up is_file parent | None \<Rightarrow> None)"
      by (subst discover_up.simps) (simp add: has_manifest_def Let_def)
    have shift: "(\<forall>k < Suc n. \<forall>d'. steps_up k dir = Some d' \<longrightarrow> \<not> has_manifest is_file d') \<longleftrightarrow>
        (\<forall>k < n. \<forall>d'. steps_up (Suc k) dir = Some d' \<longrightarrow> \<not> has_manifest is_file d')" for n
      using False by (auto simp: All_less_Suc2)
    have ex: "(\<exists>n. P n) \<longleftrightarrow> (\<exists>n. P (Suc n))" if "\<not> P 0" for P :: "nat \<Rightarrow> bool" using that by (metis not0_implies_Suc)
    show ?thesis
    proof (cases "path_parent dir")
      case None
      then show ?thesis unfolding d using False by (subst ex) auto
    next
      case (Some parent)
      have "discover_up is_file dir = Some p \<longleftrightarrow> (\<exists>n d. steps_up n parent = Some d \<and> p = path_join d manifest_file \<and> has_manifest is_file d \<and>
        (\<forall>k < n. \<forall>d'. steps_up k parent = Some d' \<longrightarrow> \<not> has_manifest is_file d'))"
        using 1 [OF refl _ Some] False d Some by (simp add: has_manifest_def)
      then show ?thesis using False Some by (subst ex) (simp_all add: shift)
    qed
  qed
qed

text \<open>
  Property C15. A manifest is looked for in the directory jrs is started in, made absolute, then in each one above it:
  the one found is the nearest there is, and where none is found there is none all the way up.
\<close>

theorem discover_exact:
  "discover cwd is_file start = Inr p \<longleftrightarrow>
     (\<exists>n d. steps_up n (absolute_start cwd start) = Some d \<and> p = path_join d manifest_file \<and> has_manifest is_file d \<and>
        (\<forall>k < n. \<forall>d'. steps_up k (absolute_start cwd start) = Some d' \<longrightarrow> \<not> has_manifest is_file d'))"
  by (cases "discover_up is_file (absolute_start cwd start)") (simp_all add: discover_def Let_def flip: discover_up_exact)

theorem discover_exact_witness:
  "discover ''/work'' (\<lambda>p. p = ''/work/jrs.toml'') ''sub'' = Inr ''/work/jrs.toml'' \<and> steps_up 1 ''/work/sub'' = Some ''/work'' \<and>
   \<not> has_manifest (\<lambda>p. p = ''/work/jrs.toml'') ''/work/sub''"
proof -
  have d: "discover ''/work'' (\<lambda>p. p = ''/work/jrs.toml'') ''sub'' = Inr ''/work/jrs.toml''"
    "absolute_start ''/work'' ''sub'' = ''/work/sub''" "steps_up 1 ''/work/sub'' = Some ''/work''" by code_simp+
  have n: "\<not> has_manifest (\<lambda>p. p = ''/work/jrs.toml'') ''/work/sub''" by code_simp
  have "\<exists>n d. steps_up n (absolute_start ''/work'' ''sub'') = Some d \<and> ''/work/jrs.toml'' = path_join d manifest_file"
    using discover_exact [THEN iffD1, OF d(1)] by blast
  then show ?thesis using d n by blast
qed

end
