(* ===== verification/Relocate.thy ===== *)
theory Relocate
  imports ManifestSound Abi
begin

text \<open>
  \<^verbatim>\<open>src/src/relocate.rs\<close>: packages renamed throughout a fat jar, by rewriting the names in the constant
  pools of classes, in registry files and in the names of entries. Bytes are characters, as in \<open>Abi\<close>. A
  loop of the source that would not end is \<open>None\<close>; the relocations of a manifest that is read always
  end (\<open>relocation_ends\<close>).
\<close>

section \<open>Rules\<close>

datatype exclude = ExClass str | ExPackage str

text \<open>A package and its new name, each with slashes and with dots.\<close>

record rule =
  rl_from :: "str \<times> str"
  rl_to :: "str \<times> str"
  rl_exclude :: "exclude list"

datatype place = InConstant | InWhole | InText

definition before_class_type :: str where
  "before_class_type = ''();<>:^+-*''"

definition type_prefix :: str where
  "type_prefix = ''BCDFIJSZ[''"

definition slashed :: "str \<Rightarrow> str" where
  "slashed dotted = replace_char CHR ''.'' CHR ''/'' dotted"

definition read_exclude :: "str \<Rightarrow> exclude" where
  "read_exclude e = (case strip_suffix ''.*'' e of Some package \<Rightarrow> ExPackage (package @ ''.'') | None \<Rightarrow> ExClass e)"

definition read_rule :: "relocation \<Rightarrow> rule" where
  "read_rule r = \<lparr>rl_from = (slashed (rel_from r), rel_from r), rl_to = (slashed (rel_to r), rel_to r),
     rl_exclude = map read_exclude (rel_exclude r)\<rparr>"

definition from_length :: "rule \<Rightarrow> nat" where
  "from_length r = length (fst (rl_from r))"

definition relocator_new :: "relocation list \<Rightarrow> rule list" where
  "relocator_new rs = sort_by (\<lambda>a b. flip (cmp (from_length a) (from_length b))) (map read_rule rs)"

section \<open>Names in a text\<close>

definition get :: "'a list \<Rightarrow> nat \<Rightarrow> 'a option" where
  "get xs i = (if i < length xs then Some (xs ! i) else None)"

definition is_name_byte :: "char \<Rightarrow> bool" where
  "is_name_byte b \<longleftrightarrow> is_ascii_alphanumeric b \<or> b = CHR ''_'' \<or> b = CHR ''$'' \<or> 0x80 \<le> code_of b"

definition name_at :: "str \<Rightarrow> char \<Rightarrow> str" where
  "name_at s separator =
     map (\<lambda>b. if b = CHR ''/'' then CHR ''.'' else b) (takeWhile (\<lambda>b. is_name_byte b \<or> b = separator) s)"

fun excludes_name :: "str \<Rightarrow> exclude \<Rightarrow> bool" where
  "excludes_name dotted (ExClass cls) \<longleftrightarrow>
     dotted = cls \<or> (starts_with cls dotted \<and> get dotted (length cls) = Some CHR ''$'')"
| "excludes_name dotted (ExPackage prefix) \<longleftrightarrow> starts_with prefix dotted"

definition excludes :: "rule \<Rightarrow> str \<Rightarrow> bool" where
  "excludes r dotted \<longleftrightarrow> list_ex (excludes_name dotted) (rl_exclude r)"

text \<open>Back from an \<^verbatim>\<open>L\<close>, over what may stand before it, to what opens the type.\<close>

fun type_opens :: "str \<Rightarrow> nat \<Rightarrow> bool" where
  "type_opens s 0 \<longleftrightarrow> True"
| "type_opens s (Suc j) \<longleftrightarrow>
     (let b = s ! j in if b \<in> set type_prefix then type_opens s j else b \<in> set before_class_type)"

definition can_start :: "str \<Rightarrow> nat \<Rightarrow> place \<Rightarrow> bool" where
  "can_start s i place \<longleftrightarrow>
     (if i = 0 then True
      else case place of
        InWhole \<Rightarrow> False
      | InText \<Rightarrow> (let before = s ! (i - 1) in \<not> is_name_byte before \<and> before \<noteq> CHR ''.'' \<and> before \<noteq> CHR ''/'')
      | InConstant \<Rightarrow>
          if i = 1 \<and> s ! 0 = CHR ''/'' then True
          else if s ! (i - 1) \<noteq> CHR ''L'' then False
          else type_opens s (i - 1))"

text \<open>A rule in one of its forms, at a place of a text: how much it spans, and what replaces it.\<close>

definition match_form :: "str \<Rightarrow> nat \<Rightarrow> rule \<Rightarrow> str \<times> str \<times> char \<Rightarrow> (nat \<times> str) option" where
  "match_form s i r form =
     (case form of (from', to', separator) \<Rightarrow>
        let rest = drop i s in
        if \<not> starts_with from' rest then None
        else if \<not> (case get rest (length from') of Some c \<Rightarrow> c = separator | None \<Rightarrow> i = 0 \<and> separator = CHR ''.'') then None
        else if excludes r (name_at rest separator) then None
        else Some (length from', to'))"

definition forms :: "rule \<Rightarrow> (str \<times> str \<times> char) list" where
  "forms r = [(fst (rl_from r), fst (rl_to r), CHR ''/''), (snd (rl_from r), snd (rl_to r), CHR ''.'')]"

definition match_at :: "rule list \<Rightarrow> str \<Rightarrow> nat \<Rightarrow> (nat \<times> str) option" where
  "match_at rs s i = find_map (\<lambda>r. find_map (match_form s i r) (forms r)) rs"

definition slice_of :: "'a list \<Rightarrow> nat \<Rightarrow> nat \<Rightarrow> 'a list" where
  "slice_of xs a b = take (b - a) (drop a xs)"

definition found_at :: "rule list \<Rightarrow> place \<Rightarrow> str \<Rightarrow> nat \<Rightarrow> (nat \<times> str) option" where
  "found_at rs place s i = (if can_start s i place then match_at rs s i else None)"

partial_function (option) rewrite_loop :: "rule list \<Rightarrow> str \<Rightarrow> place \<Rightarrow> str option \<Rightarrow> nat \<Rightarrow> nat \<Rightarrow> str option option" where
  "rewrite_loop rs s place out copied i =
     (if i < length s then
        case found_at rs place s i of
          Some (consumed, replacement) \<Rightarrow>
            rewrite_loop rs s place (Some (value_or [] out @ slice_of s copied i @ replacement)) (i + consumed) (i + consumed)
        | None \<Rightarrow> rewrite_loop rs s place out copied (i + 1)
      else Some (case out of Some o' \<Rightarrow> Some (o' @ drop copied s) | None \<Rightarrow> None))"

definition rewrite :: "rule list \<Rightarrow> str \<Rightarrow> place \<Rightarrow> str option option" where
  "rewrite rs s place = rewrite_loop rs s place None 0 0"

section \<open>Entries, class names and registries\<close>

definition rewrite_whole :: "rule list \<Rightarrow> str \<Rightarrow> str option" where
  "rewrite_whole rs s = do { out \<leftarrow> rewrite rs s InWhole; Some (case out of Some bytes \<Rightarrow> utf8_lossy bytes | None \<Rightarrow> s) }"

definition relocated_class_name :: "rule list \<Rightarrow> str \<Rightarrow> str option" where
  "relocated_class_name rs name = rewrite_whole rs name"

definition versioned :: "str \<Rightarrow> (str \<times> str) option" where
  "versioned name =
     (case strip_prefix ''META-INF/versions/'' name of
        Some rest \<Rightarrow> (case split_once ''/'' rest of
            Some (version, p) \<Rightarrow> if version \<noteq> [] \<and> list_all is_ascii_digit version then Some (version, p) else None
          | None \<Rightarrow> None)
      | None \<Rightarrow> None)"

definition relocated_entry_name :: "rule list \<Rightarrow> str \<Rightarrow> str option" where
  "relocated_entry_name rs name =
     (if rs = [] then Some name
      else case strip_prefix ''META-INF/services/'' name of
        Some service \<Rightarrow> do { n \<leftarrow> relocated_class_name rs service; Some (''META-INF/services/'' @ n) }
      | None \<Rightarrow> (case versioned name of
          Some (version, p) \<Rightarrow> do { n \<leftarrow> rewrite_whole rs p; Some (''META-INF/versions/'' @ version @ ''/'' @ n) }
        | None \<Rightarrow> rewrite_whole rs name))"

definition relocated_text :: "rule list \<Rightarrow> str \<Rightarrow> str option" where
  "relocated_text rs bytes = (if rs = [] then Some bytes else do { out \<leftarrow> rewrite rs bytes InText; Some (value_or bytes out) })"

section \<open>Class files\<close>

definition u16_at :: "str \<Rightarrow> nat \<Rightarrow> 16 word option" where
  "u16_at bytes at = do { a \<leftarrow> get bytes at; b \<leftarrow> get bytes (at + 1); Some (word_of_nat (256 * code_of a + code_of b)) }"

definition be16 :: "nat \<Rightarrow> str" where
  "be16 n = [byte_of (n div 256), byte_of (n mod 256)]"

definition get_range :: "'a list \<Rightarrow> nat \<Rightarrow> nat \<Rightarrow> 'a list option" where
  "get_range xs a n = (if a + n \<le> length xs then Some (slice_of xs a (a + n)) else None)"

text \<open>The size of an entry that is no text, and the slots it takes.\<close>

definition entry_size :: "nat \<Rightarrow> (nat \<times> nat) option" where
  "entry_size tag =
     (if tag \<in> {7, 8, 16, 19, 20} then Some (3, 1)
      else if tag = 15 then Some (4, 1)
      else if tag \<in> {3, 4, 9, 10, 11, 12, 17, 18} then Some (5, 1)
      else if tag \<in> {5, 6} then Some (9, 2)
      else None)"

definition pool_truncated :: message where
  "pool_truncated = Msg ''the constant pool is truncated'' []"

lemma entry_size_pos: "entry_size tag = Some (sz, slots) \<Longrightarrow> 0 < sz"
  by (auto simp: entry_size_def split: if_splits)

lemma get_Some: "get xs i = Some x \<longleftrightarrow> i < length xs \<and> x = xs ! i"
  by (auto simp: get_def)

text \<open>The slots are counted in a \<^verbatim>\<open>u16\<close>, which wraps.\<close>

function constants_loop :: "rule list \<Rightarrow> str \<Rightarrow> 16 word \<Rightarrow> str option \<Rightarrow> nat \<Rightarrow> nat \<Rightarrow> 16 word \<Rightarrow> (message + str option \<times> nat \<times> nat) option" where
  "constants_loop rs bytes count out copied at index =
     (if index < count then
        case get bytes at of
          None \<Rightarrow> Some (Inl pool_truncated)
        | Some tag \<Rightarrow>
            if code_of tag = 1 then
              case u16_at bytes (at + 1) of
                None \<Rightarrow> Some (Inl pool_truncated)
              | Some len \<Rightarrow> (case get_range bytes (at + 3) (unat len) of
                  None \<Rightarrow> Some (Inl pool_truncated)
                | Some s \<Rightarrow> (case rewrite rs s InConstant of
                    None \<Rightarrow> None
                  | Some None \<Rightarrow> constants_loop rs bytes count out copied (at + (3 + length s)) (index + 1)
                  | Some (Some relocated) \<Rightarrow>
                      if length relocated < 2 ^ 16
                      then constants_loop rs bytes count
                        (Some (value_or [] out @ slice_of bytes copied at @ [byte_of 1] @ be16 (length relocated) @ relocated))
                        (at + 3 + length s) (at + (3 + length s)) (index + 1)
                      else Some (Inl (Msg ''relocating would make it longer than a constant can be'' [utf8_lossy s]))))
            else (case entry_size (code_of tag) of
                Some (sz, slots) \<Rightarrow> constants_loop rs bytes count out copied (at + sz) (index + word_of_nat slots)
              | None \<Rightarrow> Some (Inl (Msg ''constant-pool tag is not one a JVM defines'' [dec (code_of tag)])))
      else Some (Inr (out, copied, at)))"
  by pat_completeness auto
termination
  by (relation "measure (\<lambda>(rs, bytes, count, out, copied, at, index). length bytes - at)")
    (auto simp: get_Some dest: entry_size_pos)

declare constants_loop.simps [simp del]

definition class_magic :: str where
  "class_magic = map byte_of [0xCA, 0xFE, 0xBA, 0xBE]"

definition class_file :: "rule list \<Rightarrow> str \<Rightarrow> (message + str) option" where
  "class_file rs bytes =
     (if rs = [] then Some (Inr bytes)
      else if get_range bytes 0 4 \<noteq> Some class_magic then Some (Inl (Msg ''not a class file (bad magic number)'' []))
      else case u16_at bytes 8 of
        None \<Rightarrow> Some (Inl pool_truncated)
      | Some count \<Rightarrow> do {
          loop \<leftarrow> constants_loop rs bytes count None 0 10 1;
          Some (case loop of
              Inl e \<Rightarrow> Inl e
            | Inr (out, copied, at) \<Rightarrow>
                if length bytes < at then Inl pool_truncated
                else Inr (case out of Some o' \<Rightarrow> o' @ drop copied bytes | None \<Rightarrow> bytes)) })"

section \<open>What a rewritten text is\<close>

text \<open>The text from a position on, with each name replaced where it is found: what the loop computes.\<close>

function relocated :: "rule list \<Rightarrow> place \<Rightarrow> str \<Rightarrow> nat \<Rightarrow> str" where
  "relocated rs place s i =
     (if i < length s then
        case found_at rs place s i of
          Some (n, replacement) \<Rightarrow> replacement @ relocated rs place s (i + max 1 n)
        | None \<Rightarrow> s ! i # relocated rs place s (i + 1)
      else [])"
  by pat_completeness auto
termination
  by (relation "measure (\<lambda>(rs, place, s, i). length s - i)") auto

declare relocated.simps [simp del]

function names_any :: "rule list \<Rightarrow> place \<Rightarrow> str \<Rightarrow> nat \<Rightarrow> bool" where
  "names_any rs place s i = (if i < length s then found_at rs place s i \<noteq> None \<or> names_any rs place s (i + 1) else False)"
  by pat_completeness auto
termination
  by (relation "measure (\<lambda>(rs, place, s, i). length s - i)") auto

declare names_any.simps [simp del]

text \<open>Rules of packages that have a name.\<close>

definition named_rules :: "rule list \<Rightarrow> bool" where
  "named_rules rs \<longleftrightarrow> (\<forall>r \<in> set rs. snd (rl_from r) \<noteq> [] \<and> length (fst (rl_from r)) = length (snd (rl_from r)))"

lemma match_form_Some: "match_form s i r (f, t, c) = Some (n, u) \<Longrightarrow> n = length f \<and> u = t \<and> starts_with f (drop i s)"
  by (auto simp: match_form_def Let_def split: if_splits)

lemma match_at_Some:
  assumes "match_at rs s i = Some (n, u)"
  obtains r f where "r \<in> set rs" "n = length f" "starts_with f (drop i s)"
    "f = fst (rl_from r) \<and> u = fst (rl_to r) \<or> f = snd (rl_from r) \<and> u = snd (rl_to r)"
proof -
  from assms obtain r f t c where r: "r \<in> set rs" "(f, t, c) \<in> set (forms r)" "match_form s i r (f, t, c) = Some (n, u)"
    unfolding match_at_def by (force dest!: find_map_Some)
  then show thesis using that [OF r(1), of f] match_form_Some [OF r(3)] by (auto simp: forms_def)
qed

lemma found_span:
  assumes "found_at rs place s i = Some (n, u)" "named_rules rs" "i < length s"
  shows "0 < n \<and> i + n \<le> length s"
proof -
  from assms(1) have "match_at rs s i = Some (n, u)" by (simp add: found_at_def split: if_splits)
  then obtain r f where "r \<in> set rs" "n = length f" "starts_with f (drop i s)" "f = fst (rl_from r) \<or> f = snd (rl_from r)"
    by (rule match_at_Some) blast
  with assms(2,3) show ?thesis by (auto simp: named_rules_def starts_with_iff dest: arg_cong [of _ _ length])
qed

lemma slice_step: "a \<le> b \<Longrightarrow> b < length xs \<Longrightarrow> slice_of xs a (Suc b) = slice_of xs a b @ [xs ! b]"
  by (simp add: slice_of_def Suc_diff_le take_Suc_conv_app_nth)

lemma slice_drop: "a \<le> b \<Longrightarrow> slice_of xs a b @ drop b xs = drop a xs"
  by (simp add: slice_of_def) (metis append_take_drop_id drop_drop le_add_diff_inverse2)

lemma slice_end: "length xs \<le> b \<Longrightarrow> slice_of xs a b = drop a xs"
  by (simp add: slice_of_def)

lemma rewrite_loop_relocated:
  assumes "named_rules rs" "copied \<le> i" "i \<le> length s"
  shows "rewrite_loop rs s place out copied i =
    Some (if out \<noteq> None \<or> names_any rs place s i then Some (value_or [] out @ slice_of s copied i @ relocated rs place s i) else None)"
  using assms(2,3)
proof (induction "length s - i" arbitrary: out copied i rule: less_induct)
  case less
  show ?case
  proof (cases "i < length s")
    case False
    then show ?thesis
      by (subst rewrite_loop.simps, subst relocated.simps, subst names_any.simps)
        (auto simp: value_or_def slice_end split: option.splits)
  next
    case True
    show ?thesis
    proof (cases "found_at rs place s i")
      case None
      have "length s - (i + 1) < length s - i" "copied \<le> i + 1" "i + 1 \<le> length s" using True less.prems by simp_all
      from less.hyps [OF this] None True less.prems show ?thesis
        by (subst rewrite_loop.simps, subst relocated.simps, subst names_any.simps) (simp add: slice_step)
    next
      case (Some m)
      then obtain n u where m: "m = (n, u)" by (cases m)
      from found_span [OF Some [unfolded m] assms(1) True] have n: "0 < n" "i + n \<le> length s" by simp_all
      then have "length s - (i + n) < length s - i" using True by simp
      from less.hyps [OF this order_refl n(2)] Some m True n show ?thesis
        by (subst rewrite_loop.simps, subst relocated.simps, subst names_any.simps) (simp add: value_or_def slice_of_def max_def)
    qed
  qed
qed

lemma rewrite_relocated:
  "named_rules rs \<Longrightarrow> rewrite rs s place = Some (if names_any rs place s 0 then Some (relocated rs place s 0) else None)"
  by (simp add: rewrite_def rewrite_loop_relocated value_or_def slice_of_def)

lemma relocated_unnamed: "\<not> names_any rs place s i \<Longrightarrow> relocated rs place s i = drop i s"
proof (induction rs place s i rule: relocated.induct)
  case (1 rs place s i)
  then show ?case
    by (subst relocated.simps) (use 1(3) in \<open>auto simp: names_any.simps [of rs place s i] Cons_nth_drop_Suc split: option.splits\<close>)
qed

section \<open>The constant pool\<close>

text \<open>An entry of a constant pool: a text, or its tag and the bytes after it.\<close>

datatype pool_item = TextItem str | PlainItem char str

fun item_ok :: "pool_item \<Rightarrow> bool" where
  "item_ok (TextItem s) \<longleftrightarrow> length s < 2 ^ 16"
| "item_ok (PlainItem tag bytes) \<longleftrightarrow> (case entry_size (code_of tag) of Some (sz, slots) \<Rightarrow> sz = 1 + length bytes | None \<Rightarrow> False)"

fun item_bytes :: "pool_item \<Rightarrow> str" where
  "item_bytes (TextItem s) = byte_of 1 # be16 (length s) @ s"
| "item_bytes (PlainItem tag bytes) = tag # bytes"

fun item_slots :: "pool_item \<Rightarrow> nat" where
  "item_slots (TextItem s) = 1"
| "item_slots (PlainItem tag bytes) = (case entry_size (code_of tag) of Some (sz, slots) \<Rightarrow> slots | None \<Rightarrow> 0)"

definition pool_bytes :: "pool_item list \<Rightarrow> str" where
  "pool_bytes ps = concat (map item_bytes ps)"

definition pool_slots :: "pool_item list \<Rightarrow> nat" where
  "pool_slots ps = sum_list (map item_slots ps)"

fun move_item :: "rule list \<Rightarrow> pool_item \<Rightarrow> pool_item" where
  "move_item rs (TextItem s) = TextItem (relocated rs InConstant s 0)"
| "move_item rs (PlainItem tag bytes) = PlainItem tag bytes"

lemma code_of_byte: "n < 256 \<Longrightarrow> code_of (byte_of n) = n"
  by (simp add: code_of_def byte_of_def)

lemma entry_size_one: "entry_size 1 = None"
  by (simp add: entry_size_def)

lemma length_be16 [simp]: "length (be16 n) = 2"
  by (simp add: be16_def)

lemma get_append [simp]: "get (xs @ ys) (length xs) = get ys 0" "get (xs @ ys) (length xs + n) = get ys n"
  by (simp_all add: get_def nth_append)

lemma two_bytes: "256 * word_of_nat (n div 256) + word_of_nat (n mod 256) = (word_of_nat n :: 'a::len word)"
  by (metis mult_div_mod_eq of_nat_add of_nat_mult of_nat_numeral)

lemma u16_at_be16: "n < 2 ^ 16 \<Longrightarrow> u16_at (xs @ be16 n @ ys) (length xs) = Some (word_of_nat n)"
  by (simp add: u16_at_def be16_def get_def nth_append code_of_byte two_bytes)

lemma get_range_at: "length ys = n \<Longrightarrow> get_range (xs @ ys @ zs) (length xs) n = Some ys"
  by (simp add: get_range_def slice_of_def)

lemma slice_of_append: "a \<le> length xs \<Longrightarrow> slice_of (xs @ ys) a (length xs + n) = drop a xs @ take n ys"
  by (simp add: slice_of_def)

lemma slice_over: "a \<le> length xs \<Longrightarrow> slice_of (xs @ ys @ zs) a (length xs + length ys) = drop a xs @ ys"
  by (simp add: slice_of_append)

text \<open>What has been written, and what is still to be copied up to a position.\<close>

definition written :: "str \<Rightarrow> str option \<Rightarrow> nat \<Rightarrow> nat \<Rightarrow> str" where
  "written bytes out copied at = value_or [] out @ slice_of bytes copied at"

lemma constants_loop_end: "\<not> index < count \<Longrightarrow> constants_loop rs bytes count out copied at index = Some (Inr (out, copied, at))"
  by (subst constants_loop.simps) simp

lemma constants_loop_plain:
  assumes "index < count" "bytes = pre @ (tag # p) @ rest" "entry_size (code_of tag) = Some (1 + length p, slots)"
  shows "constants_loop rs bytes count out copied (length pre) index =
    constants_loop rs bytes count out copied (length pre + (1 + length p)) (index + word_of_nat slots)"
proof -
  have "code_of tag \<noteq> 1" using assms(3) entry_size_one by auto
  moreover have "get bytes (length pre) = Some tag" by (simp add: assms(2) get_def)
  ultimately show ?thesis using assms(1,3) by (subst constants_loop.simps) simp
qed

lemma constants_loop_text:
  assumes "named_rules rs" "index < count" "bytes = pre @ (byte_of 1 # be16 (length s) @ s) @ rest" "length s < 2 ^ 16"
    "length (relocated rs InConstant s 0) < 2 ^ 16" "copied \<le> length pre"
  shows "\<exists>out' copied'. constants_loop rs bytes count out copied (length pre) index =
      constants_loop rs bytes count out' copied' (length pre + (3 + length s)) (index + 1) \<and>
    written bytes out' copied' (length pre + (3 + length s)) =
      written bytes out copied (length pre) @ item_bytes (TextItem (relocated rs InConstant s 0)) \<and>
    copied' \<le> length pre + (3 + length s) \<and> (out' = None \<longrightarrow> out = None \<and> copied' = copied)"
proof -
  have tag: "get bytes (length pre) = Some (byte_of 1)" by (simp add: assms(3) get_def)
  have len: "u16_at bytes (length pre + 1) = Some (word_of_nat (length s))"
    using u16_at_be16 [OF assms(4), of "pre @ [byte_of 1]" "s @ rest"] by (simp add: assms(3))
  have unat: "unat (word_of_nat (length s) :: 16 word) = length s" using assms(4) by (simp add: unat_of_nat)
  have body: "get_range bytes (length pre + 3) (length s) = Some s"
    using get_range_at [OF refl, of "pre @ byte_of 1 # be16 (length s)" s rest] by (simp add: assms(3) numeral_3_eq_3)
  have whole: "slice_of bytes copied (length pre + (3 + length s)) = slice_of bytes copied (length pre) @ byte_of 1 # be16 (length s) @ s"
    using assms(6) slice_over [of copied pre "byte_of 1 # be16 (length s) @ s" rest]
    by (simp add: assms(3) slice_of_append [of _ _ _ 0, simplified] numeral_3_eq_3)
  have one: "code_of (byte_of 1) = 1" by (simp add: code_of_byte)
  show ?thesis
  proof (cases "names_any rs InConstant s 0")
    case False
    then have "rewrite rs s InConstant = Some None" "relocated rs InConstant s 0 = s"
      using rewrite_relocated [OF assms(1)] relocated_unnamed [of rs InConstant s 0] by simp_all
    then show ?thesis
      using assms(2,6) tag len unat body one whole
      by (intro exI [of _ out] exI [of _ copied]) (subst constants_loop.simps, simp add: written_def)
  next
    case True
    then have "rewrite rs s InConstant = Some (Some (relocated rs InConstant s 0))" using rewrite_relocated [OF assms(1)] by simp
    then show ?thesis
      using assms(2,5,6) tag len unat body one
      by (intro exI [of _ "Some (value_or [] out @ slice_of bytes copied (length pre) @ [byte_of 1] @
            be16 (length (relocated rs InConstant s 0)) @ relocated rs InConstant s 0)"] exI [of _ "length pre + 3 + length s"])
        (subst constants_loop.simps, simp add: written_def value_or_def slice_of_def)
  qed
qed

lemma pool_bytes_simps [simp]: "pool_bytes [] = []" "pool_bytes (p # ps) = item_bytes p @ pool_bytes ps"
  by (simp_all add: pool_bytes_def)

lemma pool_slots_simps [simp]: "pool_slots [] = 0" "pool_slots (p # ps) = item_slots p + pool_slots ps"
  by (simp_all add: pool_slots_def)

lemma slots_le: "entry_size tag = Some (sz, slots) \<Longrightarrow> 0 < slots"
  by (auto simp: entry_size_def split: if_splits)

lemma item_slots_pos: "item_ok p \<Longrightarrow> 0 < item_slots p"
  by (cases p) (auto dest: slots_le split: option.splits)

lemma index_moves:
  fixes index count :: "16 word"
  assumes "unat index + k + n = unat count"
  shows "unat (index + word_of_nat k) = unat index + k"
proof -
  have "unat index + k < 2 ^ 16" using assms unsigned_less [of count, where ?'a = nat] by simp
  then show ?thesis by (simp add: unat_word_ariths unat_of_nat)
qed

lemma constants_loop_pool:
  assumes "named_rules rs" "bytes = pre @ pool_bytes ps @ rest" "\<forall>p \<in> set ps. item_ok p" "\<forall>p \<in> set ps. item_ok (move_item rs p)"
    "unat index + pool_slots ps = unat count" "copied \<le> length pre" "out = None \<longrightarrow> copied = 0"
  shows "\<exists>out' copied'. constants_loop rs bytes count out copied (length pre) index = Some (Inr (out', copied', length pre + length (pool_bytes ps))) \<and>
    written bytes out' copied' (length pre + length (pool_bytes ps)) = written bytes out copied (length pre) @ pool_bytes (map (move_item rs) ps) \<and>
    copied' \<le> length pre + length (pool_bytes ps) \<and> (out' = None \<longrightarrow> copied' = 0)"
  using assms(2-)
proof (induction ps arbitrary: pre index out copied)
  case Nil
  then have "\<not> index < count" by (simp add: word_less_nat_alt)
  with Nil show ?case by (simp add: constants_loop_end)
next
  case (Cons p ps)
  have "0 < item_slots p" using Cons.prems(2) item_slots_pos by simp
  then have less: "index < count" using Cons.prems(4) by (simp add: word_less_nat_alt)
  have next': "unat (index + word_of_nat (item_slots p)) + pool_slots ps = unat count"
    using Cons.prems(4) index_moves [of index "item_slots p" "pool_slots ps" count] by simp
  have bytes: "bytes = (pre @ item_bytes p) @ pool_bytes ps @ rest" using Cons.prems(1) by simp
  have ok: "\<forall>p \<in> set ps. item_ok p" "\<forall>p \<in> set ps. item_ok (move_item rs p)" using Cons.prems(2,3) by simp_all
  obtain out1 copied1 where one: "constants_loop rs bytes count out copied (length pre) index =
      constants_loop rs bytes count out1 copied1 (length (pre @ item_bytes p)) (index + word_of_nat (item_slots p))"
    "written bytes out1 copied1 (length (pre @ item_bytes p)) = written bytes out copied (length pre) @ item_bytes (move_item rs p)"
    "copied1 \<le> length (pre @ item_bytes p)" "out1 = None \<longrightarrow> copied1 = 0"
  proof (cases p)
    case (TextItem s)
    have "bytes = pre @ (byte_of 1 # be16 (length s) @ s) @ pool_bytes ps @ rest" using Cons.prems(1) TextItem by simp
    from constants_loop_text [OF assms(1) less this _ _ Cons.prems(5), of out] Cons.prems(2,3,6) TextItem
    show thesis by (auto intro!: that simp: numeral_3_eq_3)
  next
    case (PlainItem tag bs)
    then obtain slots where e: "entry_size (code_of tag) = Some (1 + length bs, slots)" using Cons.prems(2) by (auto split: option.splits)
    have b: "bytes = pre @ (tag # bs) @ pool_bytes ps @ rest" using Cons.prems(1) PlainItem by simp
    have "written bytes out copied (length pre + (1 + length bs)) = written bytes out copied (length pre) @ tag # bs"
      using Cons.prems(5) slice_over [of copied pre "tag # bs" "pool_bytes ps @ rest"]
      by (simp add: written_def b slice_of_append [of _ _ _ 0, simplified])
    with constants_loop_plain [OF less b e, of rs out copied] PlainItem e Cons.prems(5,6) show thesis by (intro that) simp_all
  qed
  from Cons.IH [OF bytes ok next' one(3,4)] one(1,2) show ?case by (auto simp: add.assoc)
qed

text \<open>A class file: the magic number, two versions, the count, the pool, and the rest of the class.\<close>

definition class_bytes :: "str \<Rightarrow> pool_item list \<Rightarrow> str \<Rightarrow> str" where
  "class_bytes versions ps rest = class_magic @ versions @ be16 (1 + pool_slots ps) @ pool_bytes ps @ rest"

lemma class_file_written:
  assumes "named_rules rs" "rs \<noteq> []" "length versions = 4" "pool_slots ps < 2 ^ 16 - 1" "\<forall>p \<in> set ps. item_ok p"
    "\<forall>p \<in> set ps. item_ok (move_item rs p)"
  shows "class_file rs (class_bytes versions ps rest) = Some (Inr (class_bytes versions (map (move_item rs) ps) rest))"
proof -
  let ?bytes = "class_bytes versions ps rest"
  let ?pre = "class_magic @ versions @ be16 (1 + pool_slots ps)"
  let ?count = "word_of_nat (1 + pool_slots ps) :: 16 word"
  have magic: "length class_magic = 4" by (simp add: class_magic_def)
  have pre: "length ?pre = 10" using assms(3) magic by simp
  have bytes: "?bytes = ?pre @ pool_bytes ps @ rest" by (simp add: class_bytes_def)
  have range: "get_range ?bytes 0 4 = Some class_magic" by (simp add: class_bytes_def get_range_def slice_of_def magic)
  have count: "u16_at ?bytes 8 = Some ?count"
    using u16_at_be16 [of "1 + pool_slots ps" "class_magic @ versions" "pool_bytes ps @ rest"] assms(3,4) magic
    by (simp add: class_bytes_def)
  have unat: "unat (1 :: 16 word) + pool_slots ps = unat ?count" using assms(4) by (simp add: unat_of_nat del: of_nat_Suc of_nat_add)
  from constants_loop_pool [OF assms(1) bytes assms(5,6) unat, of 0 None, unfolded pre] obtain out copied where
    l: "constants_loop rs ?bytes ?count None 0 10 1 = Some (Inr (out, copied, 10 + length (pool_bytes ps)))"
    "written ?bytes out copied (10 + length (pool_bytes ps)) = written ?bytes None 0 10 @ pool_bytes (map (move_item rs) ps)"
    "copied \<le> 10 + length (pool_bytes ps)" "out = None \<longrightarrow> copied = 0" by auto
  have len: "length ?bytes = 10 + length (pool_bytes ps) + length rest" using pre bytes by simp
  have end': "drop (10 + length (pool_bytes ps)) ?bytes = rest" using pre bytes by simp
  have start: "written ?bytes None 0 10 = ?pre" using pre bytes by (simp add: written_def value_or_def slice_of_def)
  have slots: "pool_slots (map (move_item rs) ps) = pool_slots ps"
  proof -
    have "item_slots (move_item rs p) = item_slots p" for p by (cases p) simp_all
    then show ?thesis by (simp add: pool_slots_def comp_def)
  qed
  have "value_or [] out @ drop copied ?bytes = written ?bytes out copied (10 + length (pool_bytes ps)) @ rest"
    using slice_drop [OF l(3), of ?bytes] end' by (simp add: written_def)
  also have "\<dots> = class_bytes versions (map (move_item rs) ps) rest"
    unfolding l(2) start by (simp add: class_bytes_def slots)
  finally have "(case out of Some o' \<Rightarrow> o' @ drop copied ?bytes | None \<Rightarrow> ?bytes) = class_bytes versions (map (move_item rs) ps) rest"
    using l(4) by (cases out) (simp_all add: value_or_def)
  then show ?thesis using assms(2) range count l(1) len by (simp add: class_file_def)
qed

section \<open>The relocations of a manifest\<close>

lemma split_on_covers: "c \<in> set s \<Longrightarrow> c = sep \<or> (\<exists>w \<in> set (split_on sep s). c \<in> set w)"
proof (induction s)
  case (Cons x s)
  then show ?case by (cases "split_on sep s") auto
qed simp

definition name_chars :: str where
  "name_chars = ''._$/'' @ digits_ascii @ upper_ascii @ lower_ascii"

lemma name_chars_ascii: "c \<in> set name_chars \<Longrightarrow> code_of c < 0x80"
proof -
  have "list_all (\<lambda>c. code_of c < 0x80) name_chars" by code_simp
  then show "c \<in> set name_chars \<Longrightarrow> code_of c < 0x80" by (simp add: list_all_iff)
qed

lemma segment_chars: "package_segment w \<Longrightarrow> set w \<subseteq> set name_chars"
  by (fastforce simp: package_segment_def list_all_iff name_chars_def is_ascii_alphanumeric_def)

lemma package_chars:
  assumes "validate_package_name name key = Inr ()"
  shows "name \<noteq> [] \<and> set name \<subseteq> set name_chars"
proof -
  have ok: "name \<noteq> []" "\<forall>w \<in> set (split_on CHR ''.'' name). package_segment w"
    using assms by (simp_all add: validate_package_name_def list_all_iff split: if_splits)
  have "CHR ''.'' \<in> set name_chars" by code_simp
  with ok show ?thesis using split_on_covers [of _ name "CHR ''.''"] segment_chars by blast
qed

lemma slashed_length [simp]: "length (slashed s) = length s"
  by (simp add: slashed_def replace_char_def)

lemma slashed_chars: "set s \<subseteq> set name_chars \<Longrightarrow> set (slashed s) \<subseteq> set name_chars"
  by (auto simp: slashed_def replace_char_def name_chars_def)

lemma read_rule_chars:
  assumes "relocation_ok r"
  shows "set (fst (rl_from (read_rule r))) \<subseteq> set name_chars" "set (snd (rl_from (read_rule r))) \<subseteq> set name_chars"
    "set (fst (rl_to (read_rule r))) \<subseteq> set name_chars" "set (snd (rl_to (read_rule r))) \<subseteq> set name_chars"
    "fst (rl_from (read_rule r)) \<noteq> []" "snd (rl_from (read_rule r)) \<noteq> []"
proof -
  have "rel_from r \<noteq> [] \<and> set (rel_from r) \<subseteq> set name_chars" "set (rel_to r) \<subseteq> set name_chars"
    using assms package_chars unfolding relocation_ok_def by blast+
  moreover from this have "slashed (rel_from r) \<noteq> []" by (metis length_0_conv slashed_length)
  ultimately show "set (fst (rl_from (read_rule r))) \<subseteq> set name_chars" "set (snd (rl_from (read_rule r))) \<subseteq> set name_chars"
    "set (fst (rl_to (read_rule r))) \<subseteq> set name_chars" "set (snd (rl_to (read_rule r))) \<subseteq> set name_chars"
    "fst (rl_from (read_rule r)) \<noteq> []" "snd (rl_from (read_rule r)) \<noteq> []"
    using slashed_chars by (simp_all add: read_rule_def)
qed

lemma relocator_named: "\<forall>r \<in> set rels. relocation_ok r \<Longrightarrow> named_rules (relocator_new rels)"
  by (auto simp: named_rules_def relocator_new_def read_rule_def relocation_ok_def dest: package_chars)

text \<open>The relocations of a manifest never make the scan of a text go on for ever.\<close>

lemma relocation_ends: "\<forall>r \<in> set rels. relocation_ok r \<Longrightarrow> \<exists>out. rewrite (relocator_new rels) s place = Some out"
  by (simp add: rewrite_relocated relocator_named)

lemma insert_longest: "sorted_wrt (\<lambda>a b. from_length b \<le> from_length a) rs \<Longrightarrow>
   sorted_wrt (\<lambda>a b. from_length b \<le> from_length a) (insert_by (\<lambda>a b. flip (cmp (from_length a) (from_length b))) r rs)"
  by (induction rs) (auto simp: flip_eq_simps cmp_eq_simps)

lemma relocator_sorted: "sorted_wrt (\<lambda>a b. from_length b \<le> from_length a) (relocator_new rels)"
proof -
  have "sorted_wrt (\<lambda>a b. from_length b \<le> from_length a) (sort_by (\<lambda>a b. flip (cmp (from_length a) (from_length b))) rs)" for rs
    by (induction rs) (auto intro: insert_longest)
  then show ?thesis by (simp add: relocator_new_def)
qed

lemma find_map_first:
  "find_map f xs = Some y \<Longrightarrow> \<exists>a x b. xs = a @ x # b \<and> f x = Some y \<and> (\<forall>z \<in> set a. f z = None)"
proof (induction xs)
  case (Cons x xs)
  show ?case
  proof (cases "f x")
    case None
    with Cons obtain a z b where "xs = a @ z # b" "f z = Some y" "\<forall>z \<in> set a. f z = None" by auto
    with None show ?thesis by (intro exI [of _ "x # a"]) auto
  next
    case (Some v)
    with Cons show ?thesis by (intro exI [of _ "[]"]) auto
  qed
qed simp

text \<open>A relocation names what stands at a position, in one of its forms.\<close>

definition applies :: "str \<Rightarrow> nat \<Rightarrow> relocation \<Rightarrow> bool" where
  "applies s i r \<longleftrightarrow> find_map (match_form s i (read_rule r)) (forms (read_rule r)) \<noteq> None"


lemma names_nothing: "\<not> names_any [] place s i"
proof (induction "[] :: rule list" place s i rule: names_any.induct)
  case (1 place s i)
  then show ?case by (subst names_any.simps) (simp add: found_at_def match_at_def)
qed

lemma move_nothing: "move_item [] p = p"
  by (cases p) (simp_all add: relocated_unnamed names_nothing)

text \<open>
  Property C16. Relocating a class rewrites the texts of its constant pool and nothing else: the versions, the
  number of the entries, their order, every entry that is no text, and all that follows the pool are kept, so
  each index of the class means what it meant; and every text is scanned to its end, with each name replaced.
\<close>

theorem class_file_moves:
  assumes "\<forall>r \<in> set rels. relocation_ok r" "length versions = 4" "pool_slots ps < 2 ^ 16 - 1" "\<forall>p \<in> set ps. item_ok p"
    "\<forall>p \<in> set ps. item_ok (move_item (relocator_new rels) p)"
  shows "class_file (relocator_new rels) (class_bytes versions ps rest) =
    Some (Inr (class_bytes versions (map (move_item (relocator_new rels)) ps) rest))"
proof (cases "relocator_new rels = []")
  case True
  have "map (move_item []) ps = ps" by (rule map_idI) (rule move_nothing)
  with True show ?thesis by (simp add: class_file_def)
qed (use class_file_written [OF relocator_named [OF assms(1)] _ assms(2-)] in simp)

lemma utf8_ascii_append:
  assumes "\<forall>c \<in> set xs. code_of c < 0x80"
  shows "utf8_valid (xs @ s) = utf8_valid s"
  using assms by (induction xs) (simp, subst utf8_valid.simps, simp)

lemma whole_starts: "0 < i \<Longrightarrow> \<not> names_any rs InWhole s i"
proof (induction rs InWhole s i rule: names_any.induct)
  case (1 rs s i)
  then show ?case by (subst names_any.simps) (simp add: found_at_def can_start_def)
qed

lemma rewrite_whole_at:
  assumes "\<forall>r \<in> set rels. relocation_ok r" "utf8_valid s"
  shows "rewrite_whole (relocator_new rels) s = Some (case found_at (relocator_new rels) InWhole s 0 of Some (n, u) \<Rightarrow> u @ drop n s | None \<Rightarrow> s)"
proof -
  let ?rs = "relocator_new rels"
  note named = relocator_named [OF assms(1)]
  show ?thesis
  proof (cases "found_at ?rs InWhole s 0")
    case None
    then have "\<not> names_any ?rs InWhole s 0" using whole_starts [of 1 ?rs s] by (subst names_any.simps) simp
    with None show ?thesis by (simp add: rewrite_whole_def rewrite_relocated [OF named])
  next
    case (Some m)
    then obtain n u where m: "m = (n, u)" by (cases m)
    have at: "match_at ?rs s 0 = Some (n, u)" using Some m by (simp add: found_at_def can_start_def)
    obtain f where "take n s = f" "set f \<subseteq> set name_chars" "set u \<subseteq> set name_chars" "n \<le> length s" "0 < n"
    proof -
      obtain r f where f: "r \<in> set ?rs" "n = length f" "starts_with f s"
        "f = fst (rl_from r) \<and> u = fst (rl_to r) \<or> f = snd (rl_from r) \<and> u = snd (rl_to r)"
        using match_at_Some [OF at] by (metis drop0)
      then obtain x where x: "x \<in> set rels" "r = read_rule x" by (auto simp: relocator_new_def)
      have "set f \<subseteq> set name_chars" "set u \<subseteq> set name_chars" "f \<noteq> []"
        using f(4) read_rule_chars [of x] assms(1) x(1) unfolding x(2) by (elim disjE; simp)+
      then show thesis using that [of f] f(2,3) by (auto simp: starts_with_iff)
    qed
    note f = this
    have valid: "utf8_valid (u @ drop n s)"
      using assms(2) f name_chars_ascii utf8_ascii_append [of f "drop n s"] utf8_ascii_append [of u "drop n s"]
      by (metis append_take_drop_id subsetD)
    have len: "0 < length s" using f(4,5) by linarith
    have "relocated ?rs InWhole s 0 = u @ relocated ?rs InWhole s n" using Some m len f(5) by (subst relocated.simps) (simp add: max_def)
    moreover have "relocated ?rs InWhole s n = drop n s" using relocated_unnamed [OF whole_starts [OF f(5)]] .
    moreover have "names_any ?rs InWhole s 0" using Some len by (subst names_any.simps) simp
    ultimately show ?thesis using Some m valid
      by (simp add: rewrite_whole_def rewrite_relocated [OF named] utf8_lossy_valid)
  qed
qed


section \<open>Examples\<close>

definition example_relocations :: "relocation list" where
  "example_relocations =
     [\<lparr>rel_from = ''com.a'', rel_to = ''in.a'', rel_exclude = []\<rparr>,
      \<lparr>rel_from = ''com.a.b'', rel_to = ''own'', rel_exclude = [''com.a.b.Kept'']\<rparr>]"

lemma example_relocations_ok: "\<forall>r \<in> set example_relocations. relocation_ok r"
  by code_simp


definition example_pool :: "pool_item list" where
  "example_pool = [TextItem ''(ILcom/a/b/C;)V'', PlainItem (byte_of 7) [byte_of 0, byte_of 1], PlainItem (byte_of 5) (replicate 8 (byte_of 0)),
     TextItem ''com.a.b.Kept'']"

theorem class_file_moves_witness:
  "class_file (relocator_new example_relocations) (class_bytes (replicate 4 (byte_of 0)) example_pool ''code'') =
     Some (Inr (class_bytes (replicate 4 (byte_of 0))
       [TextItem ''(ILown/C;)V'', PlainItem (byte_of 7) [byte_of 0, byte_of 1], PlainItem (byte_of 5) (replicate 8 (byte_of 0)),
        TextItem ''in.a.b.Kept''] ''code''))"
proof -
  have moved: "map (move_item (relocator_new example_relocations)) example_pool =
      [TextItem ''(ILown/C;)V'', PlainItem (byte_of 7) [byte_of 0, byte_of 1], PlainItem (byte_of 5) (replicate 8 (byte_of 0)),
       TextItem ''in.a.b.Kept'']" by code_simp
  have ok: "length (replicate 4 (byte_of 0)) = 4" "pool_slots example_pool < 2 ^ 16 - 1"
    by (simp_all add: example_pool_def entry_size_def code_of_byte)
  have items: "\<forall>p \<in> set example_pool. item_ok p"
    by (simp add: example_pool_def entry_size_def code_of_byte)
  have "\<forall>p \<in> set (map (move_item (relocator_new example_relocations)) example_pool). item_ok p"
    unfolding moved by (simp add: entry_size_def code_of_byte)
  then have "\<forall>p \<in> set example_pool. item_ok (move_item (relocator_new example_relocations) p)" by simp
  from class_file_moves [OF example_relocations_ok ok items this, of "''code''"] show ?thesis by (simp only: moved)
qed


end
