(* ===== verification/Workspace.thy ===== *)
theory Workspace
  imports Tasks Classpath
begin

text \<open>
  \<^verbatim>\<open>src/src/workspace.rs\<close>, the members: the edges between them, the order they are built in, the
  tasks across them, what a member sees of the ones it depends on and which members a command
  acts on. The members come parsed: \<open>WorkspaceLoad\<close> reads \<^verbatim>\<open>[workspace]\<close> and their manifests.
  The build order and the tasks across members are two more \<open>depth_first\<close> walks.
\<close>

section \<open>Members\<close>

record member =
  mb_dir :: str
  mb_manifest :: manifest
  mb_modules :: "(nat \<times> classpath) list"

record workspace =
  ws_root :: str
  ws_path :: str
  ws_name :: str
  ws_members :: "member list"
  ws_order :: "nat list"
  ws_warnings :: "message list"
  ws_parallel_tests :: bool

abbreviation mb_name :: "member \<Rightarrow> str" where
  "mb_name b \<equiv> mf_name (mb_manifest b)"

text \<open>Indices come from positions in the list of members and are in range; there is no other.\<close>

definition modules_of :: "member list \<Rightarrow> nat \<Rightarrow> (nat \<times> classpath) list" where
  "modules_of ms i = (if i < length ms then mb_modules (ms ! i) else [])"

fun normalize_parts :: "path_component list \<Rightarrow> str list \<Rightarrow> str + str list" where
  "normalize_parts [] parts = Inr parts"
| "normalize_parts (CurDir # cs) parts = normalize_parts cs parts"
| "normalize_parts (ParentDir # cs) parts =
     (if parts = [] then Inl ''is outside the workspace'' else normalize_parts cs (butlast parts))"
| "normalize_parts (Normal s # cs) parts = normalize_parts cs (parts @ [s])"
| "normalize_parts (RootDir # cs) parts = Inl ''is absolute''"

definition ws_normalize :: "str \<Rightarrow> str + str" where
  "ws_normalize p0 =
     (let p = replace_all [CHR 0x5C] ''/'' p0 in
      if starts_with ''/'' p then Inl ''is absolute''
      else and_then (normalize_parts (components p) []) (\<lambda>parts.
        Inr (if parts = [] then ''.'' else join_with ''/'' parts)))"

definition module_classpath :: "module_dependency \<Rightarrow> classpath" where
  "module_classpath d =
     (if md_dev d then CpTest else if md_compile_only d then CpProvided
      else if md_runtime_only d then CpRuntime else CpCompile)"

definition dep_classpath :: "dependency \<Rightarrow> classpath" where
  "dep_classpath d = (if dep_compile_only d then CpProvided else if dep_runtime_only d then CpRuntime else CpCompile)"

fun carried :: "classpath \<Rightarrow> classpath \<Rightarrow> classpath option" where
  "carried via CpProvided = None"
| "carried via CpTest = None"
| "carried CpTest declared = Some CpTest"
| "carried via CpCompile = Some via"
| "carried CpCompile CpRuntime = Some CpRuntime"
| "carried CpRuntime CpRuntime = Some CpRuntime"
| "carried CpProvided CpRuntime = Some CpProvided"

definition module_edge :: "member list \<Rightarrow> nat \<Rightarrow> member \<Rightarrow> module_dependency \<Rightarrow> (nat \<times> classpath) result" where
  "module_edge ms index b d =
     (let joined = (if mb_dir b = ''.'' then md_path d else mb_dir b @ ''/'' @ md_path d);
          section' = (if md_dev d then ''dev-dependencies'' else ''dependencies'');
          target = (case ws_normalize joined of Inl _ \<Rightarrow> None | Inr dir \<Rightarrow> position (\<lambda>x. mb_dir x = dir) ms)
      in case target of
           None \<Rightarrow> Inl (ManifestErr (Msg ''points at what is not a member''
             ([mf_path (mb_manifest b), section', md_name d, md_path d] @ concat (map (\<lambda>x. [mb_name x, mb_dir x]) ms))))
         | Some t \<Rightarrow>
             if mb_name (ms ! t) \<noteq> md_name d
             then Inl (ManifestErr (Msg ''points at a member of another name''
               [mf_path (mb_manifest b), section', md_name d, md_path d, mb_name (ms ! t)]))
             else if t = index
             then Inl (ManifestErr (Msg ''is the member itself'' [mf_path (mb_manifest b), section', md_name d]))
             else Inr (t, module_classpath d))"

definition module_edges :: "member list \<Rightarrow> (nat \<times> classpath) list list result" where
  "module_edges ms = collect (map (\<lambda>(i, b). collect (map (module_edge ms i b) (mf_modules (mb_manifest b))))
     (zip [0..<length ms] ms))"

section \<open>Build order\<close>

text \<open>\<^verbatim>\<open>build_order\<close>'s walk: 0 for a member not visited, 1 for one on the stack, 2 for one done.\<close>

type_synonym marks = "nat \<Rightarrow> nat"

fun order_visit :: "member list \<Rightarrow> nat \<Rightarrow> nat \<Rightarrow> marks \<Rightarrow> nat list \<Rightarrow> (nat list + marks) option"
  and order_visit_all :: "member list \<Rightarrow> nat \<Rightarrow> nat list \<Rightarrow> marks \<Rightarrow> nat list \<Rightarrow> (nat list + marks) option" where
  "order_visit ms 0 i marks stack = None"
| "order_visit ms (Suc n) i marks stack =
     (if marks i = 2 then Some (Inr marks)
      else if marks i = 1
      then let at = (case position (\<lambda>s. s = i) stack of Some k \<Rightarrow> k | None \<Rightarrow> 0) in Some (Inl (drop at stack @ [i]))
      else (case order_visit_all ms n (map fst (modules_of ms i)) (marks(i := 1)) (stack @ [i]) of
              None \<Rightarrow> None | Some (Inl c) \<Rightarrow> Some (Inl c) | Some (Inr marks') \<Rightarrow> Some (Inr (marks'(i := 2)))))"
| "order_visit_all ms n [] marks stack = Some (Inr marks)"
| "order_visit_all ms n (i # is) marks stack =
     (case order_visit ms n i marks stack of
        None \<Rightarrow> None | Some (Inl c) \<Rightarrow> Some (Inl c) | Some (Inr marks') \<Rightarrow> order_visit_all ms n is marks' stack)"

text \<open>Kahn's algorithm: the earliest member that is ready, as many times as there are members.\<close>

definition ready :: "member list \<Rightarrow> (nat \<Rightarrow> bool) \<Rightarrow> nat \<Rightarrow> bool" where
  "ready ms done' i \<longleftrightarrow> \<not> done' i \<and> list_all (\<lambda>(up, _). done' up) (modules_of ms i)"

fun kahn :: "member list \<Rightarrow> nat \<Rightarrow> (nat \<Rightarrow> bool) \<Rightarrow> nat list \<Rightarrow> nat list" where
  "kahn ms 0 done' order = order"
| "kahn ms (Suc n) done' order =
     (let nxt = (case find (ready ms done') [0..<length ms] of Some i \<Rightarrow> i | None \<Rightarrow> 0) in
      kahn ms n (done'(nxt := True)) (order @ [nxt]))"

definition build_order :: "member list \<Rightarrow> nat list result" where
  "build_order ms =
     (case order_visit_all ms (length ms + 1) [0..<length ms] (\<lambda>_. 0) [] of
        Some (Inl c) \<Rightarrow> Inl (ManifestErr (Msg ''the workspace's members depend on each other in a cycle''
          (map (\<lambda>i. mb_name (ms ! i)) c)))
      | _ \<Rightarrow> Inr (kahn ms (length ms) (\<lambda>_. False) []))"

section \<open>Tasks across members\<close>

type_synonym member_task = "nat \<times> str"

definition member_task_next :: "member list \<Rightarrow> member_task \<Rightarrow> task_ref \<Rightarrow> member_task option" where
  "member_task_next ms nd d =
     (case d of
        RefTask name \<Rightarrow> Some (fst nd, name)
      | RefMember m t \<Rightarrow> map_option (\<lambda>i. (i, t)) (position (\<lambda>b. mb_name b = m) ms)
      | RefBuiltin _ \<Rightarrow> None)"

definition member_task_edges :: "member list \<Rightarrow> member_task \<Rightarrow> member_task list" where
  "member_task_edges ms nd =
     (if fst nd < length ms
      then (case find_task (mb_manifest (ms ! fst nd)) (snd nd) of
              None \<Rightarrow> [] | Some t \<Rightarrow> List.map_filter (member_task_next ms nd) (td_depends_on t))
      else [])"

fun member_walk :: "member list \<Rightarrow> nat \<Rightarrow> member_task \<Rightarrow> member_task list \<Rightarrow> member_task list \<Rightarrow>
    (member_task list + member_task list) option"
  and member_walk_all :: "member list \<Rightarrow> nat \<Rightarrow> member_task list \<Rightarrow> member_task list \<Rightarrow> member_task list \<Rightarrow>
    (member_task list + member_task list) option" where
  "member_walk ms 0 nd done' trail = None"
| "member_walk ms (Suc n) nd done' trail =
     (if nd \<in> set done' then Some (Inr done')
      else case position (\<lambda>x. x = nd) trail of
        Some at \<Rightarrow> Some (Inl (drop at trail @ [nd]))
      | None \<Rightarrow>
          (case member_walk_all ms n (member_task_edges ms nd) done' (trail @ [nd]) of
             None \<Rightarrow> None | Some (Inl c) \<Rightarrow> Some (Inl c) | Some (Inr done'') \<Rightarrow> Some (Inr (nd # done''))))"
| "member_walk_all ms n [] done' trail = Some (Inr done')"
| "member_walk_all ms n (nd # nds) done' trail =
     (case member_walk ms n nd done' trail of
        None \<Rightarrow> None | Some (Inl c) \<Rightarrow> Some (Inl c) | Some (Inr done'') \<Rightarrow> member_walk_all ms n nds done'' trail)"

definition member_task_names :: "member list \<Rightarrow> member_task list" where
  "member_task_names ms = concat (map (\<lambda>(i, b). map (\<lambda>t. (i, td_name t)) (mf_tasks (mb_manifest b))) (zip [0..<length ms] ms))"

definition check_member_refs :: "member list \<Rightarrow> unit result" where
  "check_member_refs ms = for_each (\<lambda>b. for_each (\<lambda>t. for_each (\<lambda>d. case d of
       RefMember name other \<Rightarrow>
         (case position (\<lambda>x. mb_name x = name) ms of
            None \<Rightarrow> Inl (ManifestErr (Msg ''there is no such member'' [mf_path (mb_manifest b), td_name t, task_ref_display d, name]))
          | Some i \<Rightarrow> ensure (find_task (mb_manifest (ms ! i)) other \<noteq> None)
              (ManifestErr (Msg ''the member has no such task'' [mf_path (mb_manifest b), td_name t, task_ref_display d, name, other])))
     | _ \<Rightarrow> Inr ()) (td_depends_on t)) (mf_tasks (mb_manifest b))) ms"

definition check_member_tasks :: "member list \<Rightarrow> unit result" where
  "check_member_tasks ms =
     and_then (check_member_refs ms) (\<lambda>_.
       case member_walk_all ms (length (member_task_names ms) + 1) (member_task_names ms) [] [] of
         Some (Inl c) \<Rightarrow> Inl (ManifestErr (Msg ''the workspace's tasks depend on each other in a cycle''
           (map (\<lambda>(i, t). mb_name (ms ! i) @ '':'' @ t) c)))
       | _ \<Rightarrow> Inr ())"

section \<open>Loading\<close>

text \<open>
  \<^verbatim>\<open>Workspace::load\<close> once the root's and the members' manifests are read: \<open>declared\<close> is the checked
  \<^verbatim>\<open>workspace.group\<close>. Names are checked against the members before each.
\<close>

definition inherited_group :: "str option \<Rightarrow> member list \<Rightarrow> str option" where
  "inherited_group declared ms =
     (case declared of
        Some g \<Rightarrow> Some g
      | None \<Rightarrow> (case find (\<lambda>b. mb_dir b = ''.'') ms of None \<Rightarrow> None | Some b \<Rightarrow> mf_group (mb_manifest b)))"

definition inherit_group :: "str option \<Rightarrow> member list \<Rightarrow> member list" where
  "inherit_group declared ms =
     map (\<lambda>b. if mf_group (mb_manifest b) = None
              then b\<lparr>mb_manifest := (mb_manifest b)\<lparr>mf_group := inherited_group declared ms\<rparr>\<rparr> else b) ms"

definition check_member_names :: "member list \<Rightarrow> unit result" where
  "check_member_names ms = for_each (\<lambda>(i, b).
     case find (\<lambda>x. mb_name x = mb_name b) (take i ms) of
       None \<Rightarrow> Inr ()
     | Some other \<Rightarrow> Inl (ManifestErr (Msg ''two members share a name'' [mb_dir other, mb_dir b, mb_name b])))
     (zip [0..<length ms] ms)"

definition load_members :: "str option \<Rightarrow> member list \<Rightarrow> (member list \<times> nat list) result" where
  "load_members declared ms0 =
     and_then (check_member_names ms0) (\<lambda>_.
       let ms1 = inherit_group declared ms0 in
       and_then (module_edges ms1) (\<lambda>edges.
         let ms = map (\<lambda>(b, es). b\<lparr>mb_modules := es\<rparr>) (zip ms1 edges) in
         and_then (build_order ms) (\<lambda>order.
         and_then (check_member_tasks ms) (\<lambda>_. Inr (ms, order)))))"

definition member_named :: "workspace \<Rightarrow> str \<Rightarrow> nat option" where
  "member_named ws name = position (\<lambda>b. mb_name b = name) (ws_members ws)"

definition member_names :: "workspace \<Rightarrow> str list" where
  "member_names ws = map mb_name (ws_members ws)"

definition member_dirs :: "workspace \<Rightarrow> str list" where
  "member_dirs ws = map mb_dir (ws_members ws)"

section \<open>Choosing members\<close>

fun select_members :: "workspace \<Rightarrow> str list \<Rightarrow> nat list \<Rightarrow> nat list result" where
  "select_members ws [] out = Inr out"
| "select_members ws (name # names) out =
     (case member_named ws name of
        None \<Rightarrow> Inl (UsageErr (Msg ''there is no such member'' (name # ws_root ws # member_names ws)))
      | Some i \<Rightarrow> select_members ws names (push_new i out))"

definition selected_members :: "workspace \<Rightarrow> str list \<Rightarrow> nat option \<Rightarrow> nat list result" where
  "selected_members ws names location =
     (if names = [] then Inr (case location of Some i \<Rightarrow> [i] | None \<Rightarrow> ws_order ws)
      else select_members ws names [])"

text \<open>\<^verbatim>\<open>with_upstream\<close>: the queue and the set of the wanted, as it grows.\<close>

definition push_wanted :: "nat \<times> classpath \<Rightarrow> nat list \<times> nat list \<Rightarrow> nat list \<times> nat list" where
  "push_wanted = (\<lambda>(up, _) (wanted, queue). if up \<in> set wanted then (wanted, queue) else (up # wanted, queue @ [up]))"

fun widest :: "member list \<Rightarrow> nat list \<Rightarrow> (nat \<times> nat) list \<Rightarrow> (nat \<times> nat) list \<Rightarrow> (nat \<times> nat) list" where
  "widest ms [] depth width = width"
| "widest ms (i # is) depth width =
     (let d = Max (set (0 # List.map_filter (\<lambda>(up, _). map_option Suc (map_of depth up)) (modules_of ms i)))
      in widest ms is (hm_put i d depth) (hm_put d (Suc (case map_of width d of None \<Rightarrow> 0 | Some w \<Rightarrow> w)) width))"

definition widest_level :: "workspace \<Rightarrow> nat list \<Rightarrow> nat" where
  "widest_level ws members = Max (set (0 # map snd (widest (ws_members ws) members [] [])))"

definition wanted_room :: "member list \<Rightarrow> nat list \<Rightarrow> nat" where
  "wanted_room ms wanted = card ((\<Union>i < length ms. fst ` set (modules_of ms i)) - set wanted)"

lemma push_wanted_room:
  "fold push_wanted es (wanted, queue) = (wanted', queue') \<Longrightarrow>
   fst ` set es \<subseteq> (\<Union>i < length ms. fst ` set (modules_of ms i)) \<Longrightarrow>
   wanted_room ms wanted' + length queue' = wanted_room ms wanted + length queue"
proof (induction es arbitrary: wanted queue)
  case (Cons e es)
  obtain up c where e: "e = (up, c)" by (cases e)
  let ?U = "\<Union>i < length ms. fst ` set (modules_of ms i)"
  show ?case
  proof (cases "up \<in> set wanted")
    case True
    with Cons e show ?thesis by (simp add: push_wanted_def)
  next
    case False
    have "up \<in> ?U - set wanted" using False Cons.prems(2) e by simp
    then have "Suc (card ((?U - set wanted) - {up})) = card (?U - set wanted)"
      by (intro card_Suc_Diff1) simp_all
    moreover have "(?U - set wanted) - {up} = ?U - set (up # wanted)" by auto
    ultimately have "card (?U - set (up # wanted)) + 1 = card (?U - set wanted)" by simp
    with Cons e False show ?thesis by (simp add: push_wanted_def wanted_room_def)
  qed
qed simp

function upstream_closure :: "member list \<Rightarrow> nat list \<Rightarrow> nat list \<Rightarrow> nat list" where
  "upstream_closure ms wanted [] = wanted"
| "upstream_closure ms wanted (i # queue) =
     (let (wanted', queue') = fold push_wanted (modules_of ms i) (wanted, queue) in upstream_closure ms wanted' queue')"
  by pat_completeness auto
termination
proof (relation "measure (\<lambda>(ms, wanted, queue). wanted_room ms wanted + length queue)")
  fix ms wanted and i :: nat and queue x wanted' queue'
  assume x: "x = fold push_wanted (modules_of ms i) (wanted, queue)" "(wanted', queue') = x"
  have "fst ` set (modules_of ms i) \<subseteq> (\<Union>i < length ms. fst ` set (modules_of ms i))"
    by (cases "i < length ms") (auto simp: modules_of_def)
  from push_wanted_room [OF _ this, of wanted queue wanted' queue'] x
  have "wanted_room ms wanted' + length queue' = wanted_room ms wanted + length queue" by simp
  then show "((ms, wanted', queue'), ms, wanted, i # queue) \<in>
      measure (\<lambda>(ms, wanted, queue). wanted_room ms wanted + length queue)" by simp
qed simp

definition with_upstream :: "workspace \<Rightarrow> nat list \<Rightarrow> nat list" where
  "with_upstream ws members =
     (let wanted = upstream_closure (ws_members ws) members members in filter (\<lambda>i. i \<in> set wanted) (ws_order ws))"

section \<open>What a member sees\<close>

text \<open>Where the members reached so far could still go, those not reached first of all.\<close>

fun place_room :: "classpath option \<Rightarrow> nat" where
  "place_room None = 3"
| "place_room (Some CpTest) = 2"
| "place_room (Some CpCompile) = 0"
| "place_room (Some _) = 1"

definition reach_room :: "member list \<Rightarrow> (nat \<times> classpath) list \<Rightarrow> nat" where
  "reach_room ms reached = sum_list (map (\<lambda>i. place_room (map_of reached i)) [0..<length ms])"

definition carry_edges :: "member list \<Rightarrow> nat \<Rightarrow> classpath \<Rightarrow> (nat \<times> classpath) list" where
  "carry_edges ms i c = List.map_filter (\<lambda>(up, e). map_option (\<lambda>d. (up, d)) (carried c e)) (modules_of ms i)"

lemma sum_list_update:
  assumes "distinct xs"
  shows "sum_list (map (\<lambda>i. if i = k then a else f i) xs) + (if k \<in> set xs then f k else 0) =
    sum_list (map f xs) + (if k \<in> set xs then (a :: nat) else 0)"
  using assms by (induction xs) auto

lemma reach_room_put:
  "reach_room ms (hm_put i c reached) + (if i < length ms then place_room (map_of reached i) else 0) =
   reach_room ms reached + (if i < length ms then place_room (Some c) else 0)"
proof -
  have "(\<lambda>k. place_room (map_of (hm_put i c reached) k)) =
      (\<lambda>k. if k = i then place_room (Some c) else place_room (map_of reached k))"
    by (auto simp: fun_eq_iff map_of_hm_put)
  then show ?thesis
    using sum_list_update [of "[0..<length ms]" i "place_room (Some c)" "\<lambda>k. place_room (map_of reached k)"]
    unfolding reach_room_def by simp
qed

lemma carry_edges_outside: "\<not> i < length ms \<Longrightarrow> carry_edges ms i c = []"
  by (simp add: carry_edges_def modules_of_def)

text \<open>\<^verbatim>\<open>upstream\<close>: a member met again is followed again only where it now goes further.\<close>

function upstream_loop :: "member list \<Rightarrow> nat \<Rightarrow> (nat \<times> classpath) list \<Rightarrow> (nat \<times> classpath) list \<Rightarrow> (nat \<times> classpath) list" where
  "upstream_loop ms member [] reached = reached"
| "upstream_loop ms member ((i, c) # queue) reached =
     (if i = member then upstream_loop ms member queue reached
      else case map_of reached i of
        Some seen \<Rightarrow>
          if cp_join seen c = seen then upstream_loop ms member queue reached
          else upstream_loop ms member (queue @ carry_edges ms i c) (hm_put i (cp_join seen c) reached)
      | None \<Rightarrow> upstream_loop ms member (queue @ carry_edges ms i c) (hm_put i c reached))"
  by pat_completeness auto
termination
proof (relation "measures [\<lambda>(ms, member, queue, reached). reach_room ms reached, \<lambda>(ms, member, queue, reached). length queue]")
  fix ms member i c queue reached seen
  assume seen: "map_of (reached :: (nat \<times> classpath) list) i = Some seen" and more: "cp_join seen c \<noteq> seen"
  show "((ms, member, queue @ carry_edges ms i c, hm_put i (cp_join seen c) reached), ms, member, (i, c) # queue, reached) \<in>
    measures [\<lambda>(ms, member, queue, reached). reach_room ms reached, \<lambda>(ms, member, queue, reached). length queue]"
  proof -
    have "place_room (Some (cp_join seen c)) < place_room (Some seen)"
      using more by (cases seen; cases c) auto
    then show ?thesis
      using reach_room_put [of ms i "cp_join seen c" reached] seen carry_edges_outside [of i ms c]
      by (cases "i < length ms") auto
  qed
next
  fix ms member i c queue reached
  assume "map_of (reached :: (nat \<times> classpath) list) i = None"
  then show "((ms, member, queue @ carry_edges ms i c, hm_put i c reached), ms, member, (i, c) # queue, reached) \<in>
    measures [\<lambda>(ms, member, queue, reached). reach_room ms reached, \<lambda>(ms, member, queue, reached). length queue]"
  proof -
    have "place_room (Some c) < place_room None" by (cases c) auto
    with \<open>map_of reached i = None\<close> show ?thesis
      using reach_room_put [of ms i c reached] carry_edges_outside [of i ms c]
      by (cases "i < length ms") auto
  qed
qed auto

definition upstream :: "workspace \<Rightarrow> nat \<Rightarrow> (nat \<times> classpath) list" where
  "upstream ws member = upstream_loop (ws_members ws) member (modules_of (ws_members ws) member) []"

section \<open>Other members' tasks\<close>

text \<open>
  \<^verbatim>\<open>member_tasks\<close> calls itself for every member task a plan meets. \<open>None\<close> stands for a call that
  is not through when its fuel is, as on a stack that is used up.
\<close>

definition task_roots :: "manifest \<Rightarrow> str option \<Rightarrow> task_ref list" where
  "task_roots m named = map RefTask (concat (map (hook_tasks (mf_hooks m)) all_hooks)) @
     (case named of None \<Rightarrow> [] | Some name \<Rightarrow> [RefTask name])"

fun member_tasks :: "workspace \<Rightarrow> nat \<Rightarrow> nat \<Rightarrow> str option \<Rightarrow> member_task list option"
  and member_tasks_steps :: "workspace \<Rightarrow> nat \<Rightarrow> task_ref list \<Rightarrow> member_task list \<Rightarrow> member_task list option" where
  "member_tasks ws 0 i named = None"
| "member_tasks ws (Suc n) i named =
     member_tasks_steps ws n
       (plan (mb_manifest (ws_members ws ! i)) (task_roots (mb_manifest (ws_members ws ! i)) named)) []"
| "member_tasks_steps ws n [] out = Some out"
| "member_tasks_steps ws n (step # steps) out =
     (case step of
        RefMember name t \<Rightarrow>
          (case member_named ws name of
             None \<Rightarrow> member_tasks_steps ws n steps out
           | Some other \<Rightarrow>
               (case member_tasks ws n other (Some t) of
                  None \<Rightarrow> None
                | Some before \<Rightarrow> member_tasks_steps ws n steps (push_new (other, t) (fold push_new before out))))
      | _ \<Rightarrow> member_tasks_steps ws n steps out)"

section \<open>No cycle\<close>

definition marks_ok :: "marks \<Rightarrow> nat list \<Rightarrow> bool" where
  "marks_ok marks stack \<longleftrightarrow> (\<forall>i. marks i = 1 \<longleftrightarrow> i \<in> set stack) \<and> distinct stack"

interpretation order: depth_first "\<lambda>i. i" "\<lambda>i. map fst (modules_of ms i)" "\<lambda>marks. {i. marks i = 2}" marks_ok
  "\<lambda>i marks. marks(i := 1)" "\<lambda>i marks. marks(i := 2)" "order_visit ms" "order_visit_all ms" for ms
proof unfold_locales
  fix st stack and s :: nat and n
  assume ok: "marks_ok st stack" and new: "s \<notin> {i. st i = 2}"
  show "order_visit ms (Suc n) s st stack = Some (Inl (drop i stack @ [s]))" if at: "position (\<lambda>t. t = s) stack = Some i" for i
  proof -
    have "i < length stack" "stack ! i = s" using at by (simp_all add: position_Some)
    then have "st s = 1" using ok by (metis marks_ok_def nth_mem)
    with at show ?thesis by simp
  qed
  show "order_visit ms (Suc n) s st stack =
      (case order_visit_all ms n (map fst (modules_of ms s)) (st(s := 1)) (stack @ [s]) of None \<Rightarrow> None
       | Some (Inl c) \<Rightarrow> Some (Inl c) | Some (Inr st') \<Rightarrow> Some (Inr (st'(s := 2))))"
    if none: "position (\<lambda>t. t = s) stack = None"
  proof -
    have "s \<notin> set stack" using none by (auto simp: position_None)
    with ok have "st s \<noteq> 1" by (simp add: marks_ok_def)
    with new show ?thesis by simp
  qed
  show "s \<notin> (\<lambda>i. i) ` set stack \<Longrightarrow> marks_ok (st(s := 1)) (stack @ [s])"
    using ok by (auto simp: marks_ok_def)
qed (auto simp: marks_ok_def)

abbreviation member_grounded :: "member list \<Rightarrow> nat \<Rightarrow> bool" where
  "member_grounded ms \<equiv> grounded (\<lambda>i. i) (\<lambda>i. map fst (modules_of ms i))"

lemma order_search:
  "\<exists>r. order_visit_all ms (length ms + 1) [0..<length ms] (\<lambda>_. 0) [] = Some r \<and> (case r of
     Inl c \<Rightarrow> is_cycle (\<lambda>i. i) (\<lambda>i. map fst (modules_of ms i)) c
   | Inr st \<Rightarrow> \<forall>s \<in> set [0..<length ms]. member_grounded ms s)"
proof (rule order.search)
  show "finite {0..<length ms}" by simp
  show "map fst (modules_of ms n) \<noteq> [] \<Longrightarrow> n \<in> {0..<length ms}" for n
    by (auto simp: modules_of_def split: if_splits)
qed (simp_all add: marks_ok_def)

text \<open>While members are left, one of them is ready: Kahn's algorithm never takes its default.\<close>

lemma some_ready:
  assumes "member_grounded ms i" and "\<not> done' i" and "i < length ms"
    and range: "\<And>j up c. (up, c) \<in> set (modules_of ms j) \<Longrightarrow> up < length ms"
  shows "\<exists>j < length ms. ready ms done' j"
  using assms(1-3)
proof (induction rule: grounded.induct)
  case (1 i)
  show ?case
  proof (cases "ready ms done' i")
    case False
    then obtain up c where "(up, c) \<in> set (modules_of ms i)" "\<not> done' up"
      using 1(3) by (auto simp: ready_def list_all_iff)
    with 1(2) [of up] range show ?thesis by force
  qed (use 1(4) in blast)
qed

definition builds :: "member list \<Rightarrow> nat list \<Rightarrow> bool" where
  "builds ms order \<longleftrightarrow> (\<forall>xs i ys. order = xs @ i # ys \<longrightarrow> i < length ms \<and> i \<notin> set xs \<and>
     fst ` set (modules_of ms i) \<subseteq> set xs \<and>
     (\<forall>j < i. j \<in> set xs \<or> \<not> fst ` set (modules_of ms j) \<subseteq> set xs))"

lemma builds_snoc:
  assumes "builds ms order" and "i < length ms" "i \<notin> set order" "fst ` set (modules_of ms i) \<subseteq> set order"
    and "\<forall>j < i. j \<in> set order \<or> \<not> fst ` set (modules_of ms j) \<subseteq> set order"
  shows "builds ms (order @ [i])"
  unfolding builds_def
proof (intro allI impI)
  fix xs k ys
  assume e: "order @ [i] = xs @ k # ys"
  show "k < length ms \<and> k \<notin> set xs \<and> fst ` set (modules_of ms k) \<subseteq> set xs \<and>
      (\<forall>j < k. j \<in> set xs \<or> \<not> fst ` set (modules_of ms j) \<subseteq> set xs)"
  proof (cases ys rule: rev_cases)
    case Nil
    with e assms(2-) show ?thesis by simp
  next
    case (snoc zs z)
    with e have "order = xs @ k # zs" by simp
    with assms(1) show ?thesis unfolding builds_def by blast
  qed
qed

lemma find_upt: "find P [0..<n] = Some i \<longleftrightarrow> i < n \<and> P i \<and> (\<forall>j < i. \<not> P j)"
  by (auto simp: find_Some_iff)

lemma kahn_builds:
  assumes "\<forall>i < length ms. member_grounded ms i" and "\<And>j up c. (up, c) \<in> set (modules_of ms j) \<Longrightarrow> up < length ms"
    and "builds ms order" and "length order + n = length ms" and "\<forall>i. done' i \<longleftrightarrow> i \<in> set order"
  shows "builds ms (kahn ms n done' order) \<and> length (kahn ms n done' order) = length ms"
  using assms(3-)
proof (induction n arbitrary: done' order)
  case (Suc n)
  have "\<exists>i < length ms. i \<notin> set order"
  proof (rule ccontr)
    assume "\<not> (\<exists>i < length ms. i \<notin> set order)"
    then have "{0..<length ms} \<subseteq> set order" by auto
    then have "length ms \<le> length order" using card_mono [of "set order" "{0..<length ms}"] card_length [of order] by simp
    with Suc.prems(2) show False by simp
  qed
  then have "\<exists>j < length ms. ready ms done' j"
    using some_ready [of ms _ done'] assms(1,2) Suc.prems(3) by blast
  then have "find (ready ms done') [0..<length ms] \<noteq> None" by (auto simp: find_None_iff)
  then obtain i where found: "find (ready ms done') [0..<length ms] = Some i" by blast
  then have i: "i < length ms" "ready ms done' i" "\<forall>j < i. \<not> ready ms done' j" by (simp_all add: find_upt)
  have ready: "ready ms done' j \<longleftrightarrow> j \<notin> set order \<and> fst ` set (modules_of ms j) \<subseteq> set order" for j
    using Suc.prems(3) by (auto simp: ready_def list_all_iff)
  have "builds ms (order @ [i])" using builds_snoc [OF Suc.prems(1)] i ready by blast
  moreover have "\<forall>k. (done'(i := True)) k \<longleftrightarrow> k \<in> set (order @ [i])" using Suc.prems(3) by simp
  moreover have "length (order @ [i]) + n = length ms" using Suc.prems(2) by simp
  moreover have "kahn ms (Suc n) done' order = kahn ms n (done'(i := True)) (order @ [i])" using found by simp
  ultimately show ?case using Suc.IH by metis
qed simp

lemma builds_distinct: "builds ms order \<Longrightarrow> distinct order \<and> set order \<subseteq> {0..<length ms}"
proof -
  assume b: "builds ms order"
  have "distinct order"
  proof (rule ccontr)
    assume "\<not> distinct order"
    then obtain xs y ys zs where "order = xs @ [y] @ ys @ [y] @ zs" using not_distinct_decomp by blast
    then have "order = (xs @ [y] @ ys) @ y # zs" by simp
    with b have "y \<notin> set (xs @ [y] @ ys)" unfolding builds_def by blast
    then show False by simp
  qed
  moreover have "i < length ms" if "i \<in> set order" for i
  proof -
    obtain xs ys where "order = xs @ i # ys" using split_list [OF \<open>i \<in> set order\<close>] by blast
    with b show ?thesis unfolding builds_def by blast
  qed
  ultimately show ?thesis by auto
qed

lemma build_order_topological:
  assumes range: "\<And>j up c. (up, c) \<in> set (modules_of ms j) \<Longrightarrow> up < length ms"
  shows "case build_order ms of
      Inl e \<Rightarrow> (\<exists>c. is_cycle (\<lambda>i. i) (\<lambda>i. map fst (modules_of ms i)) c)
    | Inr order \<Rightarrow> distinct order \<and> set order = {0..<length ms} \<and> builds ms order"
proof -
  obtain r where r: "order_visit_all ms (length ms + 1) [0..<length ms] (\<lambda>_. 0) [] = Some r"
    "case r of Inl c \<Rightarrow> is_cycle (\<lambda>i. i) (\<lambda>i. map fst (modules_of ms i)) c
     | Inr st \<Rightarrow> \<forall>s \<in> set [0..<length ms]. member_grounded ms s" using order_search [of ms] by blast
  show ?thesis
  proof (cases r)
    case (Inl c)
    with r show ?thesis by (auto simp: build_order_def)
  next
    case (Inr st)
    let ?order = "kahn ms (length ms) (\<lambda>_. False) []"
    have "\<forall>i < length ms. member_grounded ms i" using r(2) Inr by simp
    then have k: "builds ms ?order \<and> length ?order = length ms"
      by (rule kahn_builds) (use range in \<open>auto simp: builds_def\<close>)
    then have "distinct ?order" "set ?order \<subseteq> {0..<length ms}" using builds_distinct by blast+
    moreover from this k have "set ?order = {0..<length ms}"
      by (intro card_subset_eq) (simp_all add: distinct_card)
    ultimately show ?thesis using k r(1) Inr by (simp add: build_order_def)
  qed
qed

section \<open>Tasks across members\<close>

interpretation cross: depth_first "\<lambda>x. x" "member_task_edges ms" set "\<lambda>_ _. True" "\<lambda>_ done'. done'" Cons
  "member_walk ms" "member_walk_all ms" for ms
  by unfold_locales (auto split: option.splits)

abbreviation cross_grounded :: "member list \<Rightarrow> member_task \<Rightarrow> bool" where
  "cross_grounded ms \<equiv> grounded (\<lambda>x. x) (member_task_edges ms)"

lemma zip_upt_set: "(i, x) \<in> set (zip [0..<length xs] xs) \<longleftrightarrow> i < length xs \<and> x = xs ! i"
proof -
  have "[0..<length xs] ! n = n" if "n < length xs" for n using that by simp
  then show ?thesis by (force simp: set_zip)
qed

lemma member_task_names_set:
  "(i, name) \<in> set (member_task_names ms) \<longleftrightarrow> i < length ms \<and> (\<exists>t \<in> set (mf_tasks (mb_manifest (ms ! i))). td_name t = name)"
proof -
  have "(i, name) \<in> set (member_task_names ms) \<longleftrightarrow>
      (\<exists>b. (i, b) \<in> set (zip [0..<length ms] ms) \<and> (\<exists>t \<in> set (mf_tasks (mb_manifest b)). td_name t = name))"
    by (force simp: member_task_names_def)
  also have "\<dots> \<longleftrightarrow> i < length ms \<and> (\<exists>t \<in> set (mf_tasks (mb_manifest (ms ! i))). td_name t = name)"
    unfolding zip_upt_set by blast
  finally show ?thesis .
qed

lemma cross_search:
  "\<exists>r. member_walk_all ms (length (member_task_names ms) + 1) (member_task_names ms) [] [] = Some r \<and> (case r of
     Inl c \<Rightarrow> is_cycle (\<lambda>x. x) (member_task_edges ms) c
   | Inr st \<Rightarrow> \<forall>s \<in> set (member_task_names ms). cross_grounded ms s)"
proof (rule cross.search)
  show "finite (set (member_task_names ms))" by simp
  show "nd \<in> set (member_task_names ms)" if edges: "member_task_edges ms nd \<noteq> []" for nd
  proof -
    obtain t where t: "fst nd < length ms" "find_task (mb_manifest (ms ! fst nd)) (snd nd) = Some t"
      using edges by (cases "find_task (mb_manifest (ms ! fst nd)) (snd nd)") (auto simp: member_task_edges_def split: if_splits)
    then have "t \<in> set (mf_tasks (mb_manifest (ms ! fst nd)))" "td_name t = snd nd"
      unfolding find_task_def by (auto dest: find_Some_in)
    with t show ?thesis using member_task_names_set [of "fst nd" "snd nd" ms] by auto
  qed
  show "card (set (member_task_names ms)) < length (member_task_names ms) + 1"
    using card_length [of "member_task_names ms"] by simp
qed simp_all

lemma check_member_tasks_grounded:
  assumes "check_member_tasks ms = Inr ()" and "i < length ms" and "t \<in> set (mf_tasks (mb_manifest (ms ! i)))"
  shows "cross_grounded ms (i, td_name t)"
proof -
  obtain r where "member_walk_all ms (length (member_task_names ms) + 1) (member_task_names ms) [] [] = Some r"
    "case r of Inl c \<Rightarrow> is_cycle (\<lambda>x. x) (member_task_edges ms) c | Inr st \<Rightarrow> \<forall>s \<in> set (member_task_names ms). cross_grounded ms s"
    using cross_search [of ms] by blast
  moreover have "(i, td_name t) \<in> set (member_task_names ms)" using assms(2,3) by (auto simp: member_task_names_set)
  ultimately show ?thesis using assms(1) by (auto simp: check_member_tasks_def and_then_Inr split: sum.splits)
qed

section \<open>A loaded workspace\<close>

lemma module_edges_range:
  assumes "module_edges ms = Inr edges"
  shows "length edges = length ms \<and> (\<forall>i < length ms. \<forall>(up, c) \<in> set (edges ! i). up < length ms \<and> up \<noteq> i)"
proof -
  have e: "map (\<lambda>(i, b). collect (map (module_edge ms i b) (mf_modules (mb_manifest b)))) (zip [0..<length ms] ms) = map Inr edges"
    using assms by (simp add: module_edges_def collect_Inr)
  from arg_cong [OF e, of length] have len: "length edges = length ms" by simp
  have "up < length ms \<and> up \<noteq> i" if "i < length ms" "(up, c) \<in> set (edges ! i)" for i up c
  proof -
    have "collect (map (module_edge ms i (ms ! i)) (mf_modules (mb_manifest (ms ! i)))) = Inr (edges ! i)"
      using arg_cong [OF e, of "\<lambda>xs. xs ! i"] that(1) len by simp
    then have "Inr (up, c) \<in> set (map (module_edge ms i (ms ! i)) (mf_modules (mb_manifest (ms ! i))))"
      using that(2) by (simp add: collect_Inr)
    then obtain d where "module_edge ms i (ms ! i) d = Inr (up, c)" by auto
    then show ?thesis
      by (auto simp: module_edge_def Let_def position_Some split: option.splits sum.splits if_splits)
  qed
  with len show ?thesis by auto
qed

lemma load_members_parts:
  assumes "load_members declared ms0 = Inr (ms, order)"
  obtains edges where "check_member_names ms0 = Inr ()" and "module_edges (inherit_group declared ms0) = Inr edges"
    and "ms = map (\<lambda>(b, es). b\<lparr>mb_modules := es\<rparr>) (zip (inherit_group declared ms0) edges)"
    and "build_order ms = Inr order" and "check_member_tasks ms = Inr ()"
proof -
  have names: "check_member_names ms0 = Inr ()" using assms by (auto simp: load_members_def and_then_Inr)
  with assms obtain edges where edges: "module_edges (inherit_group declared ms0) = Inr edges"
    by (auto simp: load_members_def Let_def and_then_Inr)
  let ?ms = "map (\<lambda>(b, es). b\<lparr>mb_modules := es\<rparr>) (zip (inherit_group declared ms0) edges)"
  have "and_then (build_order ?ms) (\<lambda>order. and_then (check_member_tasks ?ms) (\<lambda>_. Inr (?ms, order))) = Inr (ms, order)"
    using assms names edges by (simp add: load_members_def Let_def)
  then have "ms = ?ms" "build_order ?ms = Inr order" "check_member_tasks ?ms = Inr ()" by (auto simp: and_then_Inr)
  with names edges show ?thesis using that by simp
qed

lemma load_members_range:
  assumes "load_members declared ms0 = Inr (ms, order)" and "(up, c) \<in> set (modules_of ms j)"
  shows "up < length ms \<and> up \<noteq> j"
proof -
  obtain edges where e: "module_edges (inherit_group declared ms0) = Inr edges"
      "ms = map (\<lambda>(b, es). b\<lparr>mb_modules := es\<rparr>) (zip (inherit_group declared ms0) edges)"
    using load_members_parts [OF assms(1)] .
  note range = module_edges_range [OF e(1)]
  have j: "j < length ms" using assms(2) by (auto simp: modules_of_def split: if_splits)
  with e(2) range have "modules_of ms j = edges ! j" by (simp add: modules_of_def)
  with assms(2) range j e(2) show ?thesis by auto
qed



section \<open>What a member sees, and why\<close>

text \<open>A member sees another along a path of declarations, on the classpath the path carries it to.\<close>

inductive sees :: "member list \<Rightarrow> nat \<Rightarrow> nat \<Rightarrow> classpath \<Rightarrow> bool" for ms :: "member list" and member :: nat where
  sees_direct: "(i, c) \<in> set (modules_of ms member) \<Longrightarrow> i \<noteq> member \<Longrightarrow> sees ms member i c"
| sees_via: "sees ms member i c \<Longrightarrow> (up, e) \<in> set (modules_of ms i) \<Longrightarrow> carried c e = Some d \<Longrightarrow> up \<noteq> member \<Longrightarrow>
    sees ms member up d"

definition justified :: "member list \<Rightarrow> nat \<Rightarrow> nat \<Rightarrow> classpath \<Rightarrow> bool" where
  "justified ms member i c \<longleftrightarrow> (\<exists>d. sees ms member i d) \<and> (compiles c \<longrightarrow> (\<exists>d. sees ms member i d \<and> compiles d)) \<and>
     (runs c \<longrightarrow> (\<exists>d. sees ms member i d \<and> runs d))"

lemma justified_sees: "sees ms member i c \<Longrightarrow> justified ms member i c"
  by (auto simp: justified_def)

lemma justified_join: "justified ms member i a \<Longrightarrow> justified ms member i b \<Longrightarrow> justified ms member i (cp_join a b)"
  by (auto simp: justified_def)

lemma carry_edges_set: "(up, d) \<in> set (carry_edges ms i c) \<longleftrightarrow> (\<exists>e. (up, e) \<in> set (modules_of ms i) \<and> carried c e = Some d)"
  by (force simp: carry_edges_def set_map_filter_jars)

lemma upstream_loop_sound:
  "(\<forall>(i, c) \<in> set queue. i = member \<or> sees ms member i c) \<Longrightarrow> (\<forall>i c. map_of reached i = Some c \<longrightarrow> justified ms member i c) \<Longrightarrow>
   map_of (upstream_loop ms member queue reached) i = Some c \<Longrightarrow> justified ms member i c"
proof (induction ms member queue reached arbitrary: i c rule: upstream_loop.induct)
  case (1 ms member reached)
  then show ?case by simp
next
  case (2 ms member k x queue reached)
  show ?case
  proof (cases "k = member")
    case True
    show ?thesis by (rule "2.IH"(1) [OF True]) (use 2(5-) True in auto)
  next
    case False
    have k: "sees ms member k x" using 2(5) False by auto
    have queue: "\<forall>(i, c) \<in> set (queue @ carry_edges ms k x). i = member \<or> sees ms member i c"
      using 2(5) k by (auto simp: carry_edges_set intro: sees_via)
    show ?thesis
    proof (cases "map_of reached k")
      case None
      show ?thesis
        by (rule "2.IH"(2) [OF False None queue]) (use 2(6-) None False k in \<open>auto simp: map_of_hm_put justified_sees\<close>)
    next
      case (Some seen)
      then have join: "justified ms member k (cp_join seen x)" using 2(6) k justified_sees justified_join by blast
      show ?thesis
      proof (cases "cp_join seen x = seen")
        case True
        show ?thesis by (rule "2.IH"(3) [OF False Some True]) (use 2(5-) Some True False in auto)
      next
        case more: False
        show ?thesis
          by (rule "2.IH"(4) [OF False Some more queue]) (use 2(6-) Some more False join in \<open>auto simp: map_of_hm_put\<close>)
      qed
    qed
  qed
qed

text \<open>Whether a declaration carries on at all does not depend on how its member is seen.\<close>

definition passes :: "classpath \<Rightarrow> bool" where
  "passes e \<longleftrightarrow> e = CpCompile \<or> e = CpRuntime"

lemma carried_passes: "carried c e \<noteq> None \<longleftrightarrow> passes e"
  by (cases c; cases e) (simp_all add: passes_def)

definition follow_up :: "member list \<Rightarrow> nat \<Rightarrow> (nat \<times> classpath) list \<Rightarrow> (nat \<times> classpath) list \<Rightarrow> bool" where
  "follow_up ms member queue reached \<longleftrightarrow> (\<forall>i \<in> fst ` set reached. \<forall>(up, e) \<in> set (modules_of ms i). passes e \<longrightarrow>
     up = member \<or> up \<in> fst ` set reached \<or> up \<in> fst ` set queue)"

lemma follow_up_step:
  assumes "follow_up ms member ((k, x) # queue) reached"
  shows "follow_up ms member (queue @ carry_edges ms k x) (hm_put k c reached)"
proof -
  have "up \<in> fst ` set (carry_edges ms k x)" if edge: "(up, e) \<in> set (modules_of ms k)" and passes: "passes e" for up e
  proof -
    obtain d where "carried x e = Some d" using passes carried_passes [of x e] by auto
    with edge have "(up, d) \<in> set (carry_edges ms k x)" by (auto simp: carry_edges_set)
    then show ?thesis by force
  qed
  with assms show ?thesis by (fastforce simp: follow_up_def keys_hm_put)
qed

lemma follow_up_known: "follow_up ms member ((k, x) # queue) reached \<Longrightarrow> k \<in> fst ` set reached \<or> k = member \<Longrightarrow> follow_up ms member queue reached"
  unfolding follow_up_def
  by (intro ballI, drule (1) bspec, drule (1) bspec) auto

lemma upstream_loop_follow:
  "follow_up ms member queue reached \<Longrightarrow>
   follow_up ms member [] (upstream_loop ms member queue reached) \<and>
   fst ` set reached \<union> (fst ` set queue - {member}) \<subseteq> fst ` set (upstream_loop ms member queue reached)"
proof (induction ms member queue reached rule: upstream_loop.induct)
  case (2 ms member k x queue reached)
  show ?case
  proof (cases "k = member")
    case True
    have "follow_up ms member queue reached" using follow_up_known [OF 2(5)] True by simp
    with "2.IH"(1) [OF True] True show ?thesis by auto
  next
    case False
    show ?thesis
    proof (cases "map_of reached k")
      case None
      from "2.IH"(2) [OF False None follow_up_step [OF 2(5)]] None False show ?thesis by (auto simp: keys_hm_put)
    next
      case (Some seen)
      show ?thesis
      proof (cases "cp_join seen x = seen")
        case True
        have k: "k \<in> fst ` set reached" using Some by (metis domI dom_map_of_conv_image_fst)
        have "follow_up ms member queue reached" using follow_up_known [OF 2(5)] k by simp
        with "2.IH"(3) [OF False Some True] k Some True False show ?thesis by auto
      next
        case more: False
        from "2.IH"(4) [OF False Some more follow_up_step [OF 2(5)]] Some more False show ?thesis by (auto simp: keys_hm_put)
      qed
    qed
  qed
qed simp

lemma upstream_loop_no_self: "member \<notin> fst ` set reached \<Longrightarrow> member \<notin> fst ` set (upstream_loop ms member queue reached)"
  by (induction ms member queue reached rule: upstream_loop.induct) (auto simp: keys_hm_put split: option.splits if_splits)

lemma upstream_loop_inv: "hm_inv reached \<Longrightarrow> hm_inv (upstream_loop ms member queue reached)"
  by (induction ms member queue reached rule: upstream_loop.induct) (simp_all add: hm_inv_hm_put split: option.splits if_splits)

text \<open>
  Property C7. A member sees exactly the members a path of declarations leads to, dev and
  compile-only ones only where it declares them itself, each once and never itself; and it sees
  none in a place (to compile against, or to run with) that no such path puts it.
\<close>

theorem upstream_members:
  "hm_inv (upstream ws member) \<and>
   (i \<in> fst ` set (upstream ws member) \<longleftrightarrow> (\<exists>c. sees (ws_members ws) member i c)) \<and>
   (\<forall>c. (i, c) \<in> set (upstream ws member) \<longrightarrow> i \<noteq> member \<and>
      (compiles c \<longrightarrow> (\<exists>d. sees (ws_members ws) member i d \<and> compiles d)) \<and>
      (runs c \<longrightarrow> (\<exists>d. sees (ws_members ws) member i d \<and> runs d)))"
proof (intro conjI)
  let ?ms = "ws_members ws"
  let ?up = "upstream ws member"
  show inv: "hm_inv ?up" by (simp add: upstream_def upstream_loop_inv)
  have sound: "justified ?ms member k c" if "map_of ?up k = Some c" for k c
    using that unfolding upstream_def by (rule upstream_loop_sound [rotated 2]) (auto intro: sees_direct)
  have self: "member \<notin> fst ` set ?up" by (simp add: upstream_def upstream_loop_no_self)
  have start: "follow_up ?ms member (modules_of ?ms member) []" by (simp add: follow_up_def)
  note follow = upstream_loop_follow [OF start, folded upstream_def]
  have "k \<in> fst ` set ?up" if "sees ?ms member k c" for k c
    using that
  proof induction
    case (sees_direct k c)
    then have "k \<in> fst ` set (modules_of ?ms member) - {member}" by force
    with conjunct2 [OF follow] show ?case by (meson UnCI subsetD)
  next
    case (sees_via k c up e d)
    then have passes: "passes e" using carried_passes [of c e] by simp
    have "\<forall>(x, e) \<in> set (modules_of ?ms k). passes e \<longrightarrow> x = member \<or> x \<in> fst ` set ?up \<or> x \<in> fst ` set ([] :: (nat \<times> classpath) list)"
      using conjunct1 [OF follow] sees_via(5) unfolding follow_up_def by (rule bspec)
    from bspec [OF this sees_via(2)] have "passes e \<longrightarrow> up = member \<or> up \<in> fst ` set ?up" by (simp only: prod.case list.set image_empty empty_iff simp_thms)
    with passes sees_via(4) show ?case by (simp only: simp_thms)
  qed
  moreover have "\<exists>c. sees ?ms member i c" if reached: "i \<in> fst ` set ?up"
  proof -
    obtain c where "map_of ?up i = Some c" using reached by (metis domD dom_map_of_conv_image_fst)
    from sound [OF this, unfolded justified_def] show ?thesis by (rule conjunct1)
  qed
  ultimately show "i \<in> fst ` set ?up \<longleftrightarrow> (\<exists>c. sees ?ms member i c)" by (meson iffI)
  show "\<forall>c. (i, c) \<in> set ?up \<longrightarrow> i \<noteq> member \<and> (compiles c \<longrightarrow> (\<exists>d. sees ?ms member i d \<and> compiles d)) \<and>
      (runs c \<longrightarrow> (\<exists>d. sees ?ms member i d \<and> runs d))"
  proof (intro allI impI conjI)
    fix c
    assume c: "(i, c) \<in> set ?up"
    then have "map_of ?up i = Some c" using inv by simp
    note just = sound [OF this, unfolded justified_def]
    show "i \<noteq> member" using c self by (metis fst_conv image_eqI)
    show "\<exists>d. sees ?ms member i d \<and> compiles d" if places: "compiles c" using just places by simp
    show "\<exists>d. sees ?ms member i d \<and> runs d" if places: "runs c" using just places by simp
  qed
qed

section \<open>Examples\<close>

definition example_member :: "str \<Rightarrow> task_def list \<Rightarrow> (hook \<times> str list) list \<Rightarrow> (nat \<times> classpath) list \<Rightarrow> member" where
  "example_member name tasks hooks modules =
     \<lparr>mb_dir = name, mb_manifest = (blank name ''1'' (path_join ''/w'' name))\<lparr>mf_tasks := tasks, mf_hooks := hooks\<rparr>,
      mb_modules = modules\<rparr>"

definition example_workspace :: "member list \<Rightarrow> nat list \<Rightarrow> workspace" where
  "example_workspace ms order = \<lparr>ws_root = ''/w'', ws_path = ''/w/jrs.toml'', ws_name = ''w'', ws_members = ms,
     ws_order = order, ws_warnings = [], ws_parallel_tests = False\<rparr>"

definition endless_workspace :: workspace where
  "endless_workspace = example_workspace
     [example_member ''a'' [plain_task ''go'' [RefMember ''b'' ''t''], plain_task ''x'' []] [(PreCompile, [''go''])] [],
      example_member ''b'' [plain_task ''t'' [], plain_task ''c'' [RefMember ''a'' ''x'']] [(PreCompile, [''c''])] []]
     [0, 1]"

text \<open>
  Checking the tasks across members follows the tasks' own dependencies; collecting a
  member's tasks follows the member's hooks as well. So there is a workspace whose members' tasks
  have no cycle, each member's and across them, which loads, and for which collecting never ends:
  every call on the stack makes another.
\<close>

theorem member_tasks_endless:
  "load_members None (ws_members endless_workspace) = Inr (ws_members endless_workspace, ws_order endless_workspace) \<and>
   list_all (\<lambda>b. find_cycle (mb_manifest b) = None) (ws_members endless_workspace) \<and>
   member_tasks endless_workspace depth 0 None = None"
proof (intro conjI)
  show "load_members None (ws_members endless_workspace) = Inr (ws_members endless_workspace, ws_order endless_workspace)"
    by code_simp
  show "list_all (\<lambda>b. find_cycle (mb_manifest b) = None) (ws_members endless_workspace)" by code_simp
  let ?m = "\<lambda>i. mb_manifest (ws_members endless_workspace ! i)"
  have plans: "plan (?m 0) (task_roots (?m 0) None) = [RefMember ''b'' ''t'', RefTask ''go'']"
    "plan (?m 0) (task_roots (?m 0) (Some ''x'')) = [RefMember ''b'' ''t'', RefTask ''go'', RefTask ''x'']"
    "plan (?m 1) (task_roots (?m 1) (Some ''t'')) = [RefMember ''a'' ''x'', RefTask ''c'', RefTask ''t'']"
    by code_simp+
  have named: "member_named endless_workspace ''a'' = Some 0" "member_named endless_workspace ''b'' = Some 1" by code_simp+
  have step: "member_tasks endless_workspace (Suc n) i named = None"
    if "plan (?m i) (task_roots (?m i) named) = RefMember other t # steps" "member_named endless_workspace other = Some k"
      "member_tasks endless_workspace n k (Some t) = None" for n i k named other t steps
    using that by simp
  have "member_tasks endless_workspace n 0 (Some ''x'') = None \<and> member_tasks endless_workspace n 1 (Some ''t'') = None" for n
  proof (induction n)
    case (Suc n)
    then show ?case using step [OF plans(2) named(2)] step [OF plans(3) named(1)] by blast
  qed simp
  then show "member_tasks endless_workspace depth 0 None = None"
    using step [OF plans(1) named(2)] by (cases depth) auto
qed

definition layered_members :: "bool \<Rightarrow> member list" where
  "layered_members swapped =
     [example_member ''app'' [] [] (if swapped then [(2, CpProvided), (1, CpCompile)] else [(1, CpCompile), (2, CpProvided)]),
      example_member ''x'' [] [] [(3, CpCompile)], example_member ''y'' [] [] [(3, CpCompile)],
      example_member ''b'' [] [] [(4, CpRuntime)], example_member ''core'' [] [] []]"

text \<open>
  What a member sees of another can depend on the order it declares its dependencies
  in. A member reached again in a place it already has is not followed on again; but a runtime
  dependency below it is compiled against where it is seen compile-only, and not where it is seen
  on both, so the members below depend on which of the two came first.
\<close>

theorem upstream_depends_on_order:
  "map_of (upstream (example_workspace (layered_members False) []) 0) 4 = Some CpRuntime \<and>
   map_of (upstream (example_workspace (layered_members True) []) 0) 4 = Some CpCompile"
  by (intro conjI) code_simp+

definition example_declared :: "member list" where
  "example_declared =
     (let app = example_member ''app'' [plain_task ''gen'' [RefMember ''core'' ''gen'']] [] [];
          core = example_member ''core'' [plain_task ''gen'' []] [] [] in
      [app\<lparr>mb_manifest := (mb_manifest app)\<lparr>mf_modules :=
         [\<lparr>md_name = ''core'', md_path = ''../core'', md_dev = False, md_compile_only = False, md_runtime_only = False\<rparr>]\<rparr>\<rparr>,
       core])"



theorem upstream_members_witness:
  "map_of (upstream (example_workspace (layered_members False) []) 0) 4 = Some CpRuntime \<and>
   (\<exists>d. sees (layered_members False) 0 4 d \<and> runs d)"
proof -
  let ?ws = "example_workspace (layered_members False) []"
  have up: "map_of (upstream ?ws 0) 4 = Some CpRuntime" by code_simp
  then have "(4, CpRuntime) \<in> set (upstream ?ws 0)" by (rule map_of_SomeD)
  with upstream_members [of ?ws 0 4] up show ?thesis by (auto simp: example_workspace_def)
qed

end
