(* ===== verification/Aggregate.thy ===== *)
theory Aggregate
  imports Workspace
begin

text \<open>
  \<^verbatim>\<open>src/src/workspace.rs\<close>: the one manifest a workspace resolves as, with every member's dependencies
  (\<^verbatim>\<open>Workspace::aggregate\<close>), and each member's share of the resolution that gives (\<^verbatim>\<open>Workspace::project\<close>).
\<close>

section \<open>One manifest of many\<close>

definition task_tool :: "str \<Rightarrow> str \<Rightarrow> str" where
  "task_tool m t = m @ ''/'' @ t"

definition local_name :: "str \<Rightarrow> str \<Rightarrow> str" where
  "local_name dir name = dir @ ''/'' @ name"

definition display_version :: "str \<Rightarrow> str" where
  "display_version version = (if version = [] then ''the managed version'' else version)"

definition merge_dependency :: "dependency \<Rightarrow> dependency \<Rightarrow> dependency" where
  "merge_dependency into other =
     into\<lparr>dep_exclusions := filter (\<lambda>e. e \<in> set (dep_exclusions other)) (dep_exclusions into),
       dep_compile_only := dep_compile_only into \<and> dep_compile_only other,
       dep_runtime_only := dep_runtime_only into \<and> dep_runtime_only other\<rparr>"

definition workspace_dependency :: "member \<Rightarrow> dependency \<Rightarrow> dependency" where
  "workspace_dependency b d =
     (case dep_path d of
        Some p \<Rightarrow> if mb_dir b \<noteq> ''.''
          then d\<lparr>dep_path := Some (mb_dir b @ ''/'' @ p), dep_artifact := local_name (mb_dir b) (dep_artifact d)\<rparr> else d
      | None \<Rightarrow> d)"

text \<open>What a member declares, in order, each with whether it is for the tests.\<close>

definition member_declares :: "member \<Rightarrow> (dependency \<times> bool) list" where
  "member_declares b = map (\<lambda>d. (workspace_dependency b d, False)) (effective_dependencies (mb_manifest b)) @
     map (\<lambda>d. (workspace_dependency b d, True)) (mf_dev_dependencies (mb_manifest b))"

text \<open>The dependencies, the dependencies of the tests, who declared each first at which version, and the warnings.\<close>

record gathering =
  gt_main :: "dependency list"
  gt_dev :: "dependency list"
  gt_declared :: "(str \<times> str \<times> str) list"
  gt_warnings :: "message list"

definition keyed :: "str \<Rightarrow> dependency \<Rightarrow> bool" where
  "keyed k d \<longleftrightarrow> dep_key d = k"

definition declare_first :: "str \<Rightarrow> dependency \<Rightarrow> gathering \<Rightarrow> gathering" where
  "declare_first name d g =
     (case map_of (gt_declared g) (dep_key d) of
        Some (first, version) \<Rightarrow>
          if \<not> is_local d \<and> version \<noteq> dep_version d
          then g\<lparr>gt_warnings := gt_warnings g @ [Msg ''is declared at two versions; the first one is taken''
            [dep_key d, display_version version, first, display_version (dep_version d), name]]\<rparr> else g
      | None \<Rightarrow> g\<lparr>gt_declared := hm_put (dep_key d) (name, dep_version d) (gt_declared g)\<rparr>)"

definition place_dependency :: "dependency \<Rightarrow> bool \<Rightarrow> gathering \<Rightarrow> gathering" where
  "place_dependency d dev g =
     (case (position (keyed (dep_key d)) (gt_main g), position (keyed (dep_key d)) (gt_dev g)) of
        (Some i, _) \<Rightarrow> g\<lparr>gt_main := (gt_main g)[i := merge_dependency (gt_main g ! i) d]\<rparr>
      | (None, Some i) \<Rightarrow>
          if dev then g\<lparr>gt_dev := (gt_dev g)[i := merge_dependency (gt_dev g ! i) d]\<rparr>
          else g\<lparr>gt_dev := take i (gt_dev g) @ drop (i + 1) (gt_dev g),
                 gt_main := gt_main g @ [merge_dependency ((gt_dev g ! i)\<lparr>dep_compile_only := dep_compile_only d,
                   dep_runtime_only := dep_runtime_only d\<rparr>) d]\<rparr>
      | (None, None) \<Rightarrow> if dev then g\<lparr>gt_dev := gt_dev g @ [d]\<rparr> else g\<lparr>gt_main := gt_main g @ [d]\<rparr>)"

definition gather_dependency :: "str \<Rightarrow> dependency \<times> bool \<Rightarrow> gathering \<Rightarrow> gathering" where
  "gather_dependency name = (\<lambda>(d, dev) g. place_dependency d dev (declare_first name d g))"

definition gather_member :: "member \<Rightarrow> gathering \<Rightarrow> gathering" where
  "gather_member b g = fold (gather_dependency (mb_name b)) (member_declares b) g"

definition add_unless :: "('a \<Rightarrow> 'k) \<Rightarrow> 'a \<Rightarrow> 'a list \<Rightarrow> 'a list" where
  "add_unless key x xs = (if list_ex (\<lambda>y. key y = key x) xs then xs else xs @ [x])"

definition add_language :: "language_config \<Rightarrow> language_config list \<Rightarrow> language_config list result" where
  "add_language c cs =
     (case position (\<lambda>e. lc_language e = lc_language c) cs of
        None \<Rightarrow> Inr (cs @ [c])
      | Some i \<Rightarrow>
          if lc_version (cs ! i) \<noteq> lc_version c
          then Inl (ManifestErr (Msg ''members turn one language on at two versions'' [lang_key (lc_language c), lc_version (cs ! i), lc_version c]))
          else Inr (cs[i := (cs ! i)\<lparr>lc_plugins := fold push_new (lc_plugins c) (lc_plugins (cs ! i))\<rparr>]))"

definition add_obfuscate :: "obfuscate_config option \<Rightarrow> obfuscate_config option \<Rightarrow> obfuscate_config option result" where
  "add_obfuscate own seen =
     (case own of
        None \<Rightarrow> Inr seen
      | Some o' \<Rightarrow> (case seen of
          None \<Rightarrow> Inr (Some o')
        | Some e \<Rightarrow> if ob_version e \<noteq> ob_version o'
            then Inl (ManifestErr (Msg ''members pin two obfuscators'' [ob_version e, ob_version o'])) else Inr (Some e)))"

definition add_agent :: "str \<Rightarrow> java_agent \<Rightarrow> java_agent list \<Rightarrow> java_agent list result" where
  "add_agent section' agent into =
     (case agent of
        AgentGraph g \<Rightarrow> Inr into
      | AgentPinned c \<Rightarrow>
          (case find (\<lambda>a. agent_tool_name a section' = agent_tool_name agent section') into of
             None \<Rightarrow> Inr (into @ [agent])
           | Some (AgentPinned e) \<Rightarrow>
               if e \<noteq> c then Inl (ManifestErr (Msg ''members name one java agent at two versions'' [ga_display (coord_ga c), coord_version e, coord_version c]))
               else Inr into
           | Some (AgentGraph g) \<Rightarrow> Inr into))"

fun fold_each :: "('a \<Rightarrow> 's \<Rightarrow> 's result) \<Rightarrow> 'a list \<Rightarrow> 's \<Rightarrow> 's result" where
  "fold_each f [] s = Inr s"
| "fold_each f (x # xs) s = and_then (f x s) (fold_each f xs)"

definition aggregate_member :: "member \<Rightarrow> manifest \<times> gathering \<Rightarrow> (manifest \<times> gathering) result" where
  "aggregate_member b = (\<lambda>(agg, g).
     let m = mb_manifest b in
     and_then (fold_each add_language (mf_languages m) (mf_languages agg)) (\<lambda>languages.
     and_then (add_obfuscate (mf_obfuscate m) (mf_obfuscate agg)) (\<lambda>obfuscate.
     and_then (fold_each (add_agent ''run'') (rc_java_agents (mf_run m)) (rc_java_agents (mf_run agg))) (\<lambda>run.
     and_then (fold_each (add_agent ''test'') (tc_java_agents (mf_test m)) (tc_java_agents (mf_test agg))) (\<lambda>test.
     Inr (agg\<lparr>mf_repositories := fold (add_unless repo_name) (mf_repositories m) (mf_repositories agg),
            mf_managed := fold (add_unless managed_key) (mf_managed m) (mf_managed agg),
            mf_languages := languages, mf_obfuscate := obfuscate,
            mf_run := (mf_run agg)\<lparr>rc_java_agents := run\<rparr>, mf_test := (mf_test agg)\<lparr>tc_java_agents := test\<rparr>,
            mf_tasks := mf_tasks agg @ map (\<lambda>t. t\<lparr>td_name := task_tool (mf_name m) (td_name t)\<rparr>) (filter (\<lambda>t. td_dependencies t \<noteq> []) (mf_tasks m))\<rparr>,
          gather_member b g))))))"

definition aggregate :: "workspace \<Rightarrow> (manifest \<times> message list) result" where
  "aggregate ws =
     and_then (fold_each aggregate_member (ws_members ws)
       ((blank (ws_name ws) ''0'' (ws_root ws))\<lparr>mf_path := ws_path ws, mf_repositories := []\<rparr>,
        \<lparr>gt_main = [], gt_dev = [], gt_declared = [], gt_warnings = []\<rparr>)) (\<lambda>(agg, g).
     Inr (agg\<lparr>mf_dependencies := gt_main g, mf_dev_dependencies := gt_dev g,
            mf_repositories := if mf_repositories agg = [] then mf_repositories (blank ''x'' ''0'' (ws_root ws)) else mf_repositories agg\<rparr>,
          gt_warnings g))"

section \<open>A member's share\<close>

text \<open>A dependency a share starts at: who declares it, the classpath it is on, and whether the member itself does.\<close>

record share_root =
  sr_owner :: member
  sr_dep :: dependency
  sr_classpath :: classpath
  sr_direct :: bool

definition dep_ga :: "dependency \<Rightarrow> ga" where
  "dep_ga d = ga_with_classifier (ga_new (dep_group d) (dep_artifact d)) (dep_classifier d)"

definition own_roots :: "member \<Rightarrow> share_root list" where
  "own_roots b =
     map (\<lambda>d. \<lparr>sr_owner = b, sr_dep = d, sr_classpath = dep_classpath d, sr_direct = True\<rparr>) (effective_dependencies (mb_manifest b)) @
     map (\<lambda>d. \<lparr>sr_owner = b, sr_dep = d, sr_classpath = CpTest, sr_direct = True\<rparr>) (mf_dev_dependencies (mb_manifest b))"

definition upstream_roots :: "member \<Rightarrow> classpath \<Rightarrow> share_root list" where
  "upstream_roots up via = List.map_filter (\<lambda>d. case carried via (dep_classpath d) of
       Some cp \<Rightarrow> Some \<lparr>sr_owner = up, sr_dep = d, sr_classpath = cp, sr_direct = False\<rparr> | None \<Rightarrow> None)
     (effective_dependencies (mb_manifest up))"

definition share_roots :: "workspace \<Rightarrow> nat \<Rightarrow> share_root list" where
  "share_roots ws member = own_roots (ws_members ws ! member) @
     concat (map (\<lambda>(up, via). upstream_roots (ws_members ws ! up) via) (upstream ws member))"

definition share_local :: "resolution \<Rightarrow> share_root \<Rightarrow> local_jar list \<Rightarrow> local_jar list" where
  "share_local graph r loc =
     (let name = dep_artifact (workspace_dependency (sr_owner r) (sr_dep r)) in
      case find (\<lambda>l. lj_name l = name) (res_local graph) of
        None \<Rightarrow> loc
      | Some jar \<Rightarrow> (case position (\<lambda>l. lj_name l = dep_artifact (sr_dep r)) loc of
          Some i \<Rightarrow> loc[i := (loc ! i)\<lparr>lj_classpath := cp_join (lj_classpath (loc ! i)) (sr_classpath r)\<rparr>]
        | None \<Rightarrow> loc @ [jar\<lparr>lj_name := dep_artifact (sr_dep r), lj_classpath := sr_classpath r\<rparr>]))"

type_synonym reached = "(ga \<times> classpath \<times> nat \<times> bool) list"

definition reach_package :: "share_root \<Rightarrow> ga \<Rightarrow> nat \<Rightarrow> reached \<Rightarrow> reached" where
  "reach_package r g depth reached =
     (case (case map_of reached g of Some e \<Rightarrow> e | None \<Rightarrow> (sr_classpath r, depth, False)) of
        (cp, dp, direct) \<Rightarrow> hm_put g (cp_join cp (sr_classpath r), min dp depth, direct \<or> sr_direct r \<and> g = dep_ga (sr_dep r)) reached)"

definition allowed_children :: "ga list \<Rightarrow> package \<Rightarrow> ga list" where
  "allowed_children exclusions p = filter (\<lambda>c. \<not> list_ex (excluded_by c) exclusions) (pkg_dependencies p)"

function share_walk :: "(ga \<times> package) list \<Rightarrow> ga list \<Rightarrow> (ga \<Rightarrow> nat \<Rightarrow> 'r \<Rightarrow> 'r) \<Rightarrow> ga list \<Rightarrow> (ga \<times> nat) list \<Rightarrow> 'r \<Rightarrow> 'r" where
  "share_walk by_ga exclusions visit seen [] reached = reached"
| "share_walk by_ga exclusions visit seen ((g, depth) # queue) reached =
     (if g \<in> set seen then share_walk by_ga exclusions visit seen queue reached
      else case map_of by_ga g of
        None \<Rightarrow> share_walk by_ga exclusions visit (g # seen) queue reached
      | Some p \<Rightarrow> share_walk by_ga exclusions visit (g # seen)
          (queue @ map (\<lambda>c. (c, depth + 1)) (allowed_children exclusions p)) (visit g depth reached))"
  by pat_completeness auto
termination
proof (relation "measures [\<lambda>(by_ga, exclusions, visit, seen, queue, reached). card (fst ` set by_ga - set seen),
    \<lambda>(by_ga, exclusions, visit, seen, queue, reached). length queue]")
  fix by_ga :: "(ga \<times> package) list" and exclusions seen :: "ga list" and queue :: "(ga \<times> nat) list" and g :: ga and depth and p
    and visit :: "ga \<Rightarrow> nat \<Rightarrow> 'r \<Rightarrow> 'r" and reached :: 'r
  assume new: "g \<notin> set seen" and p: "map_of by_ga g = Some p"
  have "g \<in> fst ` set by_ga - set seen" using new p by (force dest: map_of_SomeD)
  then have "card (fst ` set by_ga - set (g # seen)) < card (fst ` set by_ga - set seen)" by (intro psubset_card_mono) auto
  then show "((by_ga, exclusions, visit, g # seen, queue @ map (\<lambda>c. (c, depth + 1)) (allowed_children exclusions p), visit g depth reached),
      by_ga, exclusions, visit, seen, (g, depth) # queue, reached) \<in>
    measures [\<lambda>(by_ga, exclusions, visit, seen, queue, reached). card (fst ` set by_ga - set seen),
      \<lambda>(by_ga, exclusions, visit, seen, queue, reached). length queue]" by simp
next
  fix by_ga :: "(ga \<times> package) list" and exclusions seen :: "ga list" and queue :: "(ga \<times> nat) list" and g :: ga and depth
    and visit :: "ga \<Rightarrow> nat \<Rightarrow> 'r \<Rightarrow> 'r" and reached :: 'r
  have "card (fst ` set by_ga - set (g # seen)) \<le> card (fst ` set by_ga - set seen)" by (intro card_mono) auto
  then show "((by_ga, exclusions, visit, g # seen, queue, reached), by_ga, exclusions, visit, seen, (g, depth) # queue, reached) \<in>
    measures [\<lambda>(by_ga, exclusions, visit, seen, queue, reached). card (fst ` set by_ga - set seen),
      \<lambda>(by_ga, exclusions, visit, seen, queue, reached). length queue]" by auto
qed auto

declare share_walk.simps [simp del]

definition dep_excludes :: "dependency \<Rightarrow> ga list" where
  "dep_excludes d = map (\<lambda>e. ga_new (ex_group e) (ex_artifact e)) (dep_exclusions d)"

definition root_depth :: "share_root \<Rightarrow> nat" where
  "root_depth r = (if sr_direct r then 1 else 2)"

definition packages_by_ga :: "resolution \<Rightarrow> (ga \<times> package) list" where
  "packages_by_ga graph = fold (\<lambda>p. hm_put (pkg_ga p) p) (res_packages graph) []"

definition share_root_step :: "resolution \<Rightarrow> share_root \<Rightarrow> reached \<times> local_jar list \<Rightarrow> reached \<times> local_jar list" where
  "share_root_step graph r = (\<lambda>(reached, loc).
     if is_local (sr_dep r) then (reached, share_local graph r loc)
     else (share_walk (packages_by_ga graph) (dep_excludes (sr_dep r)) (reach_package r) [] [(dep_ga (sr_dep r), root_depth r)] reached, loc))"

definition roots_reached :: "reached \<Rightarrow> dependency list \<Rightarrow> ga list" where
  "roots_reached reached ds =
     fold (\<lambda>g out. if map_of reached g \<noteq> None then push_new g out else out) (map dep_ga (filter (\<lambda>d. \<not> is_local d) ds)) []"

definition share_package :: "reached \<Rightarrow> package \<Rightarrow> package option" where
  "share_package reached p =
     (case map_of reached (pkg_ga p) of
        None \<Rightarrow> None
      | Some (cp, depth, direct) \<Rightarrow> Some (p\<lparr>pkg_classpath := cp, pkg_depth := depth, pkg_direct := direct,
          pkg_dependencies := filter (\<lambda>d. map_of reached d \<noteq> None) (pkg_dependencies p)\<rparr>))"

definition project_share :: "workspace \<Rightarrow> nat \<Rightarrow> resolution \<Rightarrow> resolution" where
  "project_share ws member graph =
     (case fold (share_root_step graph) (share_roots ws member) ([], []) of
        (reached, loc) \<Rightarrow>
          let own = mb_manifest (ws_members ws ! member) in
          \<lparr>res_packages = List.map_filter (share_package reached) (res_packages graph),
           res_roots = roots_reached reached (effective_dependencies own),
           res_test_roots = roots_reached reached (mf_dev_dependencies own),
           res_warnings = [], res_downloaded = 0, res_local = loc\<rparr>)"

section \<open>The walk is breadth first\<close>

definition walk_edges :: "(ga \<times> package) list \<Rightarrow> ga list \<Rightarrow> (ga \<times> ga) set" where
  "walk_edges by_ga exclusions = {(g, c). \<exists>p. map_of by_ga g = Some p \<and> c \<in> set (allowed_children exclusions p)}"

text \<open>The walk as the list of what it visits.\<close>

abbreviation push_visit :: "ga \<Rightarrow> nat \<Rightarrow> (ga \<times> nat) list \<Rightarrow> (ga \<times> nat) list" where
  "push_visit \<equiv> \<lambda>g d vs. vs @ [(g, d)]"

lemma share_walk_visits:
  "fold (\<lambda>(g, d). visit g d) (share_walk by_ga exclusions push_visit seen queue vs) r =
     share_walk by_ga exclusions visit seen queue (fold (\<lambda>(g, d). visit g d) vs r)"
proof (induction by_ga exclusions "push_visit" seen queue vs arbitrary: r rule: share_walk.induct)
  case (2 by_ga exclusions seen g depth queue vs)
  then show ?case by (auto simp: share_walk.simps split: option.splits)
qed (simp add: share_walk.simps)

text \<open>\<open>d\<close> is the least depth a node has, walking from \<open>start\<close> at depth \<open>d0\<close>.\<close>

definition least_depth :: "(ga \<times> ga) set \<Rightarrow> ga \<Rightarrow> nat \<Rightarrow> ga \<Rightarrow> nat \<Rightarrow> bool" where
  "least_depth E start d0 g d \<longleftrightarrow> (\<exists>n. d = d0 + n \<and> (start, g) \<in> E ^^ n) \<and> (\<forall>n. (start, g) \<in> E ^^ n \<longrightarrow> d \<le> d0 + n)"

lemma least_depth_unique: "least_depth E start d0 g d \<Longrightarrow> least_depth E start d0 g e \<Longrightarrow> d = e"
  unfolding least_depth_def by (metis le_antisym)

definition queue_sorted :: "(ga \<times> nat) list \<Rightarrow> bool" where
  "queue_sorted q \<longleftrightarrow> sorted (map snd q) \<and> (\<forall>(g, d) \<in> set q. d \<le> snd (hd q) + 1)"

definition walk_inv :: "(ga \<times> ga) set \<Rightarrow> ga \<Rightarrow> nat \<Rightarrow> ga set \<Rightarrow> (ga \<times> nat) list \<Rightarrow> bool" where
  "walk_inv E start d0 seen queue \<longleftrightarrow> queue_sorted queue \<and>
     (\<forall>(g, d) \<in> set queue. \<exists>n. d = d0 + n \<and> (start, g) \<in> E ^^ n) \<and>
     (\<forall>g \<in> seen. \<exists>d. least_depth E start d0 g d \<and> (\<forall>c. (g, c) \<in> E \<longrightarrow> c \<in> seen \<or> (\<exists>e \<le> d + 1. (c, e) \<in> set queue))) \<and>
     (start \<in> seen \<or> (start, d0) \<in> set queue)"

lemma walk_frontier:
  assumes "walk_inv E start d0 seen queue" "(start, x) \<in> E ^^ n"
  shows "x \<in> seen \<or> (\<exists>(y, d) \<in> set queue. d \<le> d0 + n)"
  using assms(2)
proof (induction n arbitrary: x)
  case 0
  then show ?case using assms(1) by (auto simp: walk_inv_def)
next
  case (Suc n)
  then obtain y where y: "(start, y) \<in> E ^^ n" "(y, x) \<in> E" by auto
  show ?case
  proof (cases "y \<in> seen")
    case True
    then obtain d where d: "least_depth E start d0 y d" "x \<in> seen \<or> (\<exists>e \<le> d + 1. (x, e) \<in> set queue)"
      using assms(1) y(2) unfolding walk_inv_def by blast
    moreover have "d \<le> d0 + n" using d(1) y(1) by (simp add: least_depth_def)
    ultimately show ?thesis by force
  next
    case False
    with Suc.IH [OF y(1)] show ?thesis by force
  qed
qed

lemma walk_pops_least:
  assumes "walk_inv E start d0 seen ((g, d) # queue)" "g \<notin> seen"
  shows "least_depth E start d0 g d"
proof -
  have "d \<le> d0 + n" if path: "(start, g) \<in> E ^^ n" for n
  proof -
    obtain y e where e: "(y, e) \<in> set ((g, d) # queue)" "e \<le> d0 + n" using walk_frontier [OF assms(1) path] assms(2) by auto
    have "d \<le> e" using assms(1) e(1) by (auto simp: walk_inv_def queue_sorted_def)
    with e(2) show ?thesis by simp
  qed
  then show ?thesis using assms(1) by (auto simp: walk_inv_def least_depth_def)
qed

lemma queue_sorted_pop: "queue_sorted (x # q) \<Longrightarrow> queue_sorted q"
  by (cases q) (auto simp: queue_sorted_def)

lemma queue_sorted_push:
  assumes "queue_sorted ((g, d) # q)"
  shows "queue_sorted (q @ map (\<lambda>c. (c, d + 1)) cs)"
proof -
  have "\<forall>(g, e) \<in> set q. d \<le> e \<and> e \<le> d + 1" using assms by (auto simp: queue_sorted_def)
  moreover have "sorted (map snd q)" using assms by (simp add: queue_sorted_def)
  moreover have "sorted (map (\<lambda>x. Suc d) ys)" for ys :: "ga list" by (induction ys) auto
  ultimately show ?thesis by (cases q; cases cs) (auto simp: queue_sorted_def sorted_append comp_def)
qed

lemma walk_inv_skip:
  assumes "walk_inv E start d0 seen ((g, d) # queue)" "g \<in> seen"
  shows "walk_inv E start d0 seen queue"
proof -
  have "\<exists>d. least_depth E start d0 h d \<and> (\<forall>c. (h, c) \<in> E \<longrightarrow> c \<in> seen \<or> (\<exists>e \<le> d + 1. (c, e) \<in> set queue))" if "h \<in> seen" for h
  proof -
    from assms(1) that obtain e where "least_depth E start d0 h e"
      "\<forall>c. (h, c) \<in> E \<longrightarrow> c \<in> seen \<or> (\<exists>f \<le> e + 1. (c, f) \<in> set ((g, d) # queue))" unfolding walk_inv_def by blast
    then show ?thesis using assms(2) by (intro exI [of _ e]) auto
  qed
  then show ?thesis using assms by (auto simp: walk_inv_def dest: queue_sorted_pop)
qed

lemma walk_inv_visit:
  assumes "walk_inv E start d0 seen ((g, d) # queue)" "g \<notin> seen" "{c. (g, c) \<in> E} = set cs"
  shows "walk_inv E start d0 (insert g seen) (queue @ map (\<lambda>c. (c, d + 1)) cs)"
proof -
  have least: "least_depth E start d0 g d" by (rule walk_pops_least [OF assms(1,2)])
  obtain n where n: "d = d0 + n" "(start, g) \<in> E ^^ n" using assms(1) by (auto simp: walk_inv_def)
  have "\<exists>n. d + 1 = d0 + n \<and> (start, c) \<in> E ^^ n" if "c \<in> set cs" for c
    using n that assms(3) by (intro exI [of _ "Suc n"]) auto
  then have paths: "\<forall>(h, e) \<in> set (queue @ map (\<lambda>c. (c, d + 1)) cs). \<exists>n. e = d0 + n \<and> (start, h) \<in> E ^^ n"
    using assms(1) by (auto simp: walk_inv_def)
  have "\<exists>e. least_depth E start d0 h e \<and> (\<forall>c. (h, c) \<in> E \<longrightarrow> c \<in> insert g seen \<or>
      (\<exists>f \<le> e + 1. (c, f) \<in> set (queue @ map (\<lambda>c. (c, d + 1)) cs)))" if h: "h \<in> insert g seen" for h
  proof (cases "h = g")
    case True
    have "(c, d + 1) \<in> set (queue @ map (\<lambda>c. (c, d + 1)) cs)" if "(g, c) \<in> E" for c using that assms(3) by auto
    with True least show ?thesis by blast
  next
    case False
    with h assms(1) obtain e where e: "least_depth E start d0 h e" "\<forall>c. (h, c) \<in> E \<longrightarrow> c \<in> seen \<or> (\<exists>f \<le> e + 1. (c, f) \<in> set ((g, d) # queue))"
      unfolding walk_inv_def by blast
    then show ?thesis by (intro exI [of _ e]) auto
  qed
  with paths show ?thesis using assms(1) queue_sorted_push [of g d queue cs] by (auto simp: walk_inv_def)
qed

lemma share_walk_exact:
  assumes "walk_inv (walk_edges by_ga exclusions) start d0 (set seen) queue"
  shows "set (share_walk by_ga exclusions push_visit seen queue vs) =
    set vs \<union> {(g, d). g \<notin> set seen \<and> map_of by_ga g \<noteq> None \<and> least_depth (walk_edges by_ga exclusions) start d0 g d}"
  using assms
proof (induction by_ga exclusions "push_visit" seen queue vs rule: share_walk.induct)
  case (1 by_ga exclusions seen vs)
  have "g \<in> set seen" if "least_depth (walk_edges by_ga exclusions) start d0 g d" for g d
    using walk_frontier [OF 1] that by (force simp: least_depth_def)
  then show ?case by (auto simp: share_walk.simps)
next
  case (2 by_ga exclusions seen g depth queue vs)
  let ?E = "walk_edges by_ga exclusions"
  show ?case
  proof (cases "g \<in> set seen")
    case True
    with 2(1) walk_inv_skip [OF 2(4)] show ?thesis by (simp add: share_walk.simps)
  next
    case False
    note least = walk_pops_least [OF 2(4) False]
    show ?thesis
    proof (cases "map_of by_ga g")
      case None
      then have "{c. (g, c) \<in> ?E} = set []" by (simp add: walk_edges_def)
      from 2(2) [OF False None] walk_inv_visit [OF 2(4) False this]
      have "set (share_walk by_ga exclusions push_visit seen ((g, depth) # queue) vs) =
        set vs \<union> {(h, d). h \<notin> insert g (set seen) \<and> map_of by_ga h \<noteq> None \<and> least_depth ?E start d0 h d}"
        using False None by (simp add: share_walk.simps)
      moreover have "(h \<notin> insert g (set seen) \<and> map_of by_ga h \<noteq> None) = (h \<notin> set seen \<and> map_of by_ga h \<noteq> None)" for h using None by auto
      ultimately show ?thesis by (simp only: conj_assoc [symmetric])
    next
      case (Some p)
      then have "{c. (g, c) \<in> ?E} = set (allowed_children exclusions p)" by (simp add: walk_edges_def)
      from 2(3) [OF False Some] walk_inv_visit [OF 2(4) False this]
      have "set (share_walk by_ga exclusions push_visit seen ((g, depth) # queue) vs) =
        insert (g, depth) (set vs) \<union> {(h, d). h \<notin> insert g (set seen) \<and> map_of by_ga h \<noteq> None \<and> least_depth ?E start d0 h d}"
        using False Some by (simp add: share_walk.simps)
      moreover have "insert (g, depth) (set vs) \<union> {(h, d). h \<notin> insert g (set seen) \<and> map_of by_ga h \<noteq> None \<and> least_depth ?E start d0 h d} =
        set vs \<union> {(h, d). h \<notin> set seen \<and> map_of by_ga h \<noteq> None \<and> least_depth ?E start d0 h d}"
      proof (rule set_eqI)
        fix x :: "ga \<times> nat"
        have "least_depth ?E start d0 g e \<longleftrightarrow> e = depth" for e using least least_depth_unique by blast
        then show "x \<in> insert (g, depth) (set vs) \<union> {(h, d). h \<notin> insert g (set seen) \<and> map_of by_ga h \<noteq> None \<and> least_depth ?E start d0 h d} \<longleftrightarrow>
          x \<in> set vs \<union> {(h, d). h \<notin> set seen \<and> map_of by_ga h \<noteq> None \<and> least_depth ?E start d0 h d}"
          using False Some by (cases x; cases "fst x = g") auto
      qed
      ultimately show ?thesis by simp
    qed
  qed
qed

lemma walk_start:
  "set (share_walk by_ga exclusions push_visit [] [(start, d0)] []) =
     {(g, d). map_of by_ga g \<noteq> None \<and> least_depth (walk_edges by_ga exclusions) start d0 g d}"
proof -
  have "walk_inv (walk_edges by_ga exclusions) start d0 (set []) [(start, d0)]"
    by (auto simp: walk_inv_def queue_sorted_def intro: exI [of _ 0])
  from share_walk_exact [OF this, of "[]"] show ?thesis by simp
qed

section \<open>What a share holds\<close>

text \<open>A visit: the root it came from, the package and its depth.\<close>

definition root_visits :: "resolution \<Rightarrow> share_root \<Rightarrow> (share_root \<times> ga \<times> nat) list" where
  "root_visits graph r =
     (if is_local (sr_dep r) then []
      else map (Pair r) (share_walk (packages_by_ga graph) (dep_excludes (sr_dep r)) push_visit [] [(dep_ga (sr_dep r), root_depth r)] []))"

definition visit_of :: "share_root \<times> ga \<times> nat \<Rightarrow> reached \<Rightarrow> reached" where
  "visit_of = (\<lambda>(r, g, d). reach_package r g d)"

lemma share_root_visits: "fst (share_root_step graph r (reached, loc)) = fold visit_of (root_visits graph r) reached"
proof -
  have f: "fold visit_of (map (Pair r) vs) s = fold (\<lambda>(g, d). reach_package r g d) vs s" for vs s
    by (simp add: fold_map visit_of_def comp_def case_prod_unfold)
  show ?thesis
    using share_walk_visits [of "reach_package r" "packages_by_ga graph" "dep_excludes (sr_dep r)" "[]" "[(dep_ga (sr_dep r), root_depth r)]" "[]" reached]
    by (simp add: share_root_step_def root_visits_def f)
qed

lemma share_roots_visits: "fst (fold (share_root_step graph) rs (reached, loc)) = fold visit_of (concat (map (root_visits graph) rs)) reached"
proof (induction rs arbitrary: reached loc)
  case (Cons r rs)
  obtain reached' loc' where step: "share_root_step graph r (reached, loc) = (reached', loc')" by fastforce
  with share_root_visits [of graph r reached loc] have "reached' = fold visit_of (root_visits graph r) reached" by simp
  with Cons [of reached' loc'] step show ?case by simp
qed simp

text \<open>What stands in the table after a list of visits.\<close>

definition summed :: "(share_root \<times> ga \<times> nat) set \<Rightarrow> ga \<Rightarrow> (classpath \<times> nat \<times> bool) option \<Rightarrow> bool" where
  "summed vs g entry \<longleftrightarrow>
     (case entry of
        None \<Rightarrow> \<forall>(r, h, d) \<in> vs. h \<noteq> g
      | Some (cp, depth, direct) \<Rightarrow>
          (compiles cp \<longleftrightarrow> (\<exists>(r, h, d) \<in> vs. h = g \<and> compiles (sr_classpath r))) \<and>
          (runs cp \<longleftrightarrow> (\<exists>(r, h, d) \<in> vs. h = g \<and> runs (sr_classpath r))) \<and>
          (\<exists>(r, h, d) \<in> vs. h = g \<and> d = depth) \<and> (\<forall>(r, h, d) \<in> vs. h = g \<longrightarrow> depth \<le> d) \<and>
          (direct \<longleftrightarrow> (\<exists>(r, h, d) \<in> vs. h = g \<and> sr_direct r \<and> dep_ga (sr_dep r) = g)))"

lemma summed_step:
  assumes "\<And>g. summed vs g (map_of reached g)"
  shows "summed (insert (r, h, d) vs) g (map_of (reach_package r h d reached) g)"
proof (cases "g = h")
  case False
  with assms [of g] show ?thesis
    by (auto simp: summed_def reach_package_def map_of_hm_put split: option.splits prod.splits)
next
  case True
  show ?thesis
  proof (cases "map_of reached h")
    case None
    then have "\<forall>(r', h', d') \<in> vs. h' \<noteq> h" using assms [of h] by (simp add: summed_def)
    with None True show ?thesis by (auto simp: summed_def reach_package_def map_of_hm_put)
  next
    case (Some e)
    obtain cp depth direct where e: "e = (cp, depth, direct)" by (cases e)
    from assms [of h] Some e have s: "compiles cp \<longleftrightarrow> (\<exists>(r, h', d) \<in> vs. h' = h \<and> compiles (sr_classpath r))"
      "runs cp \<longleftrightarrow> (\<exists>(r, h', d) \<in> vs. h' = h \<and> runs (sr_classpath r))"
      "\<exists>(r, h', d) \<in> vs. h' = h \<and> d = depth" "\<forall>(r, h', d) \<in> vs. h' = h \<longrightarrow> depth \<le> d"
      "direct \<longleftrightarrow> (\<exists>(r, h', d) \<in> vs. h' = h \<and> sr_direct r \<and> dep_ga (sr_dep r) = h)"
      by (simp_all add: summed_def)
    have "\<exists>(r', h', d') \<in> insert (r, h, d) vs. h' = h \<and> d' = min depth d" using s(3) by (cases "depth \<le> d") (auto simp: min_def)
    moreover have "\<forall>(r', h', d') \<in> insert (r, h, d) vs. h' = h \<longrightarrow> min depth d \<le> d'" using s(4) by fastforce
    ultimately show ?thesis using s(1,2,5) True Some e
      by (simp add: summed_def reach_package_def map_of_hm_put) blast
  qed
qed

lemma summed_fold: "summed (set vs) g (map_of (fold visit_of vs []) g)"
proof (induction vs arbitrary: g rule: rev_induct)
  case Nil
  then show ?case by (simp add: summed_def)
next
  case (snoc v vs)
  obtain r h d where v: "v = (r, h, d)" by (cases v)
  from summed_step [of "set vs" "fold visit_of vs []" r h d g, OF snoc] show ?case
    by (simp add: v visit_of_def)
qed

definition share_edges :: "resolution \<Rightarrow> share_root \<Rightarrow> (ga \<times> ga) set" where
  "share_edges graph r = {(g, c). \<exists>p \<in> set (res_packages graph). pkg_ga p = g \<and> c \<in> set (pkg_dependencies p) \<and>
     \<not> (\<exists>e \<in> set (dep_exclusions (sr_dep r)). excluded_by c (ga_new (ex_group e) (ex_artifact e)))}"

text \<open>A root reaches a package in so many steps, none of them to what it excludes.\<close>

definition share_path :: "resolution \<Rightarrow> share_root \<Rightarrow> ga \<Rightarrow> nat \<Rightarrow> bool" where
  "share_path graph r g n \<longleftrightarrow> \<not> is_local (sr_dep r) \<and> (dep_ga (sr_dep r), g) \<in> share_edges graph r ^^ n"

lemma packages_by_ga_of:
  assumes "distinct (map pkg_ga (res_packages graph))"
  shows "map_of (packages_by_ga graph) g = Some p \<longleftrightarrow> p \<in> set (res_packages graph) \<and> pkg_ga p = g"
proof -
  have "map_of (fold (\<lambda>p. hm_put (pkg_ga p) p) ps m) g = Some p \<longleftrightarrow>
      p \<in> set ps \<and> pkg_ga p = g \<or> (g \<notin> pkg_ga ` set ps \<and> map_of m g = Some p)" if "distinct (map pkg_ga ps)" for ps m
    using that by (induction ps arbitrary: m) (auto simp: map_of_hm_put)
  from this [OF assms, of "[]"] show ?thesis by (simp add: packages_by_ga_def)
qed

lemma root_visits_exact:
  assumes "distinct (map pkg_ga (res_packages graph))"
  shows "(r', g, d) \<in> set (root_visits graph r) \<longleftrightarrow> r' = r \<and> (\<exists>p \<in> set (res_packages graph). pkg_ga p = g) \<and>
    (\<exists>n. d = root_depth r + n \<and> share_path graph r g n) \<and> (\<forall>n. share_path graph r g n \<longrightarrow> d \<le> root_depth r + n)"
proof -
  have "walk_edges (packages_by_ga graph) (dep_excludes (sr_dep r)) = share_edges graph r"
    by (auto simp: walk_edges_def share_edges_def packages_by_ga_of [OF assms] allowed_children_def dep_excludes_def list_ex_iff)
  moreover have "map_of (packages_by_ga graph) g \<noteq> None \<longleftrightarrow> (\<exists>p \<in> set (res_packages graph). pkg_ga p = g)"
    using packages_by_ga_of [OF assms, of g] by auto
  ultimately show ?thesis
    using walk_start [of "packages_by_ga graph" "dep_excludes (sr_dep r)" "dep_ga (sr_dep r)" "root_depth r"]
    by (auto simp: root_visits_def share_path_def least_depth_def)
qed

text \<open>A package as a share has it, given the roots of the share.\<close>

definition shared_as :: "resolution \<Rightarrow> share_root list \<Rightarrow> (ga \<Rightarrow> bool) \<Rightarrow> package \<Rightarrow> package \<Rightarrow> bool" where
  "shared_as graph rs present p q \<longleftrightarrow>
     q = p\<lparr>pkg_classpath := pkg_classpath q, pkg_depth := pkg_depth q, pkg_direct := pkg_direct q,
       pkg_dependencies := filter present (pkg_dependencies p)\<rparr> \<and>
     (compiles (pkg_classpath q) \<longleftrightarrow> (\<exists>r \<in> set rs. \<exists>n. share_path graph r (pkg_ga p) n \<and> compiles (sr_classpath r))) \<and>
     (runs (pkg_classpath q) \<longleftrightarrow> (\<exists>r \<in> set rs. \<exists>n. share_path graph r (pkg_ga p) n \<and> runs (sr_classpath r))) \<and>
     (\<exists>r \<in> set rs. \<exists>n. share_path graph r (pkg_ga p) n \<and> pkg_depth q = root_depth r + n) \<and>
     (\<forall>r \<in> set rs. \<forall>n. share_path graph r (pkg_ga p) n \<longrightarrow> pkg_depth q \<le> root_depth r + n) \<and>
     (pkg_direct q \<longleftrightarrow> (\<exists>r \<in> set rs. sr_direct r \<and> \<not> is_local (sr_dep r) \<and> dep_ga (sr_dep r) = pkg_ga p))"

lemma least_path: "share_path graph r g n \<Longrightarrow> \<exists>m. share_path graph r g m \<and> (\<forall>k. share_path graph r g k \<longrightarrow> m \<le> k)"
  using ex_has_least_nat [of "share_path graph r g" n "\<lambda>n. n"] by blast

lemma visited_iff:
  assumes "distinct (map pkg_ga (res_packages graph))" "p \<in> set (res_packages graph)"
  shows "(\<exists>d. (r, pkg_ga p, d) \<in> set (concat (map (root_visits graph) rs))) \<longleftrightarrow> r \<in> set rs \<and> (\<exists>n. share_path graph r (pkg_ga p) n)"
proof -
  have one: "(\<exists>d. (r, pkg_ga p, d) \<in> set (root_visits graph r')) \<longleftrightarrow> r' = r \<and> (\<exists>n. share_path graph r (pkg_ga p) n)" for r'
  proof
    assume "\<exists>d. (r, pkg_ga p, d) \<in> set (root_visits graph r')"
    then show "r' = r \<and> (\<exists>n. share_path graph r (pkg_ga p) n)" unfolding root_visits_exact [OF assms(1)] by blast
  next
    assume r: "r' = r \<and> (\<exists>n. share_path graph r (pkg_ga p) n)"
    then obtain m where "share_path graph r (pkg_ga p) m" "\<forall>k. share_path graph r (pkg_ga p) k \<longrightarrow> m \<le> k" using least_path by blast
    then have "(r, pkg_ga p, root_depth r + m) \<in> set (root_visits graph r)"
      using assms(2) unfolding root_visits_exact [OF assms(1)] by auto
    then show "\<exists>d. (r, pkg_ga p, d) \<in> set (root_visits graph r')" using r by blast
  qed
  have "(\<exists>d. (r, pkg_ga p, d) \<in> set (concat (map (root_visits graph) rs))) \<longleftrightarrow>
      (\<exists>r' \<in> set rs. \<exists>d. (r, pkg_ga p, d) \<in> set (root_visits graph r'))" by auto
  then show ?thesis unfolding one by blast
qed

lemma share_package_shared:
  assumes "distinct (map pkg_ga (res_packages graph))" "p \<in> set (res_packages graph)"
    "fold (share_root_step graph) rs ([], []) = (reached, loc)" "share_package reached p = Some q"
  shows "shared_as graph rs (\<lambda>g. map_of reached g \<noteq> None) p q"
proof -
  let ?vs = "concat (map (root_visits graph) rs)"
  have reached: "reached = fold visit_of ?vs []" using share_roots_visits [of graph rs "[]" "[]"] assms(3) by simp
  obtain cp depth direct where e: "map_of reached (pkg_ga p) = Some (cp, depth, direct)"
    and q: "q = p\<lparr>pkg_classpath := cp, pkg_depth := depth, pkg_direct := direct,
      pkg_dependencies := filter (\<lambda>d. map_of reached d \<noteq> None) (pkg_dependencies p)\<rparr>"
    using assms(4) by (auto simp: share_package_def split: option.splits)
  have s: "compiles cp \<longleftrightarrow> (\<exists>(r, h, d) \<in> set ?vs. h = pkg_ga p \<and> compiles (sr_classpath r))"
    "runs cp \<longleftrightarrow> (\<exists>(r, h, d) \<in> set ?vs. h = pkg_ga p \<and> runs (sr_classpath r))"
    "\<exists>(r, h, d) \<in> set ?vs. h = pkg_ga p \<and> d = depth" "\<forall>(r, h, d) \<in> set ?vs. h = pkg_ga p \<longrightarrow> depth \<le> d"
    "direct \<longleftrightarrow> (\<exists>(r, h, d) \<in> set ?vs. h = pkg_ga p \<and> sr_direct r \<and> dep_ga (sr_dep r) = pkg_ga p)"
    using summed_fold [of ?vs "pkg_ga p"] e unfolding reached summed_def by simp_all
  note v = visited_iff [OF assms(1,2), of _ rs]
  have some: "(\<exists>(r, h, d) \<in> set ?vs. h = pkg_ga p \<and> P r) \<longleftrightarrow> (\<exists>r \<in> set rs. \<exists>n. share_path graph r (pkg_ga p) n \<and> P r)" for P
    using v by (fastforce simp del: set_concat)
  obtain r where r: "(r, pkg_ga p, depth) \<in> set ?vs" using s(3) by auto
  then have r': "r \<in> set rs" "(r, pkg_ga p, depth) \<in> set (root_visits graph r)" by (auto simp: root_visits_exact [OF assms(1)])
  have low: "depth \<le> root_depth r + n" if r: "r \<in> set rs" "share_path graph r (pkg_ga p) n" for r n
  proof -
    obtain m where m: "share_path graph r (pkg_ga p) m" "\<forall>k. share_path graph r (pkg_ga p) k \<longrightarrow> m \<le> k" using least_path [OF r(2)] by blast
    then have "(r, pkg_ga p, root_depth r + m) \<in> set (root_visits graph r)" using assms(2) by (auto simp: root_visits_exact [OF assms(1)])
    then have "(r, pkg_ga p, root_depth r + m) \<in> set ?vs" using r(1) by auto
    then have "depth \<le> root_depth r + m" using s(4) by auto
    also have "\<dots> \<le> root_depth r + n" using m(2) r(2) by simp
    finally show ?thesis .
  qed
  have direct: "(\<exists>r \<in> set rs. \<exists>n. share_path graph r (pkg_ga p) n \<and> sr_direct r \<and> dep_ga (sr_dep r) = pkg_ga p) \<longleftrightarrow>
      (\<exists>r \<in> set rs. sr_direct r \<and> \<not> is_local (sr_dep r) \<and> dep_ga (sr_dep r) = pkg_ga p)"
  proof -
    have "(\<exists>n. share_path graph r (pkg_ga p) n \<and> sr_direct r \<and> dep_ga (sr_dep r) = pkg_ga p) \<longleftrightarrow>
      sr_direct r \<and> \<not> is_local (sr_dep r) \<and> dep_ga (sr_dep r) = pkg_ga p" for r
      by (rule iffI) (auto simp: share_path_def intro!: exI [of _ "0 :: nat"])
    then show ?thesis by simp
  qed
  have "\<exists>n. share_path graph r (pkg_ga p) n \<and> depth = root_depth r + n" using r'(2) by (auto simp: root_visits_exact [OF assms(1)])
  then show ?thesis using r'(1) low s(1,2,5) direct unfolding shared_as_def some by (auto simp: q)
qed

definition in_share :: "resolution \<Rightarrow> share_root list \<Rightarrow> ga \<Rightarrow> bool" where
  "in_share graph rs g \<longleftrightarrow> g \<in> pkg_ga ` set (res_packages graph) \<and> (\<exists>r \<in> set rs. \<exists>n. share_path graph r g n)"

lemma reached_in_share:
  assumes "distinct (map pkg_ga (res_packages graph))" "fold (share_root_step graph) rs ([], []) = (reached, loc)"
  shows "map_of reached g \<noteq> None \<longleftrightarrow> in_share graph rs g"
proof -
  let ?vs = "concat (map (root_visits graph) rs)"
  have reached: "reached = fold visit_of ?vs []" using share_roots_visits [of graph rs "[]" "[]"] assms(2) by simp
  have "map_of reached g \<noteq> None \<longleftrightarrow> (\<exists>r d. (r, g, d) \<in> set ?vs)"
    using summed_fold [of ?vs g] unfolding reached summed_def by (cases "map_of (fold visit_of ?vs []) g") auto
  also have "\<dots> \<longleftrightarrow> in_share graph rs g"
  proof (cases "g \<in> pkg_ga ` set (res_packages graph)")
    case True
    then obtain p where p: "p \<in> set (res_packages graph)" "g = pkg_ga p" by blast
    show ?thesis unfolding p(2) visited_iff [OF assms(1) p(1)] in_share_def using p(1) by blast
  next
    case False
    then show ?thesis by (auto simp: in_share_def root_visits_exact [OF assms(1)])
  qed
  finally show ?thesis .
qed

lemma map_filter_list_all2:
  assumes "\<And>x. x \<in> set xs \<Longrightarrow> (f x \<noteq> None \<longleftrightarrow> P x)" "\<And>x y. x \<in> set xs \<Longrightarrow> f x = Some y \<Longrightarrow> R x y"
  shows "list_all2 R (filter P xs) (List.map_filter f xs)"
  using assms
proof (induction xs)
  case (Cons x xs)
  have "list_all2 R (filter P xs) (List.map_filter f xs)" by (rule Cons.IH) (use Cons.prems in auto)
  then show ?case using Cons.prems [of x] by (cases "f x") (auto simp: List.map_filter_simps)
qed (simp add: List.map_filter_simps)

text \<open>
  Property C19. A member's share of the workspace's one resolution is exact: it holds, in their order, the packages
  that its own dependencies and those that reach it from other members lead to, past nothing that is excluded, and no
  other; each as resolved, at the depth of the shortest way there, on every classpath a way puts it on and on no
  other, direct just when the member declares it, with the edges that stay inside the share.
\<close>

theorem project_share_exact:
  assumes "distinct (map pkg_ga (res_packages graph))"
  shows "list_all2 (shared_as graph (share_roots ws member) (in_share graph (share_roots ws member)))
    (filter (\<lambda>p. in_share graph (share_roots ws member) (pkg_ga p)) (res_packages graph))
    (res_packages (project_share ws member graph))"
proof -
  let ?rs = "share_roots ws member"
  obtain reached loc where f: "fold (share_root_step graph) ?rs ([], []) = (reached, loc)" by fastforce
  note present = reached_in_share [OF assms f]
  have "res_packages (project_share ws member graph) = List.map_filter (share_package reached) (res_packages graph)"
    by (simp add: project_share_def f Let_def)
  moreover have "share_package reached p \<noteq> None \<longleftrightarrow> in_share graph ?rs (pkg_ga p)" for p
    using present [of "pkg_ga p"] by (auto simp: share_package_def split: option.splits)
  moreover have "shared_as graph ?rs (in_share graph ?rs) p q" if "p \<in> set (res_packages graph)" "share_package reached p = Some q" for p q
    using share_package_shared [OF assms that(1) f that(2)] unfolding present .
  ultimately show ?thesis by (simp add: map_filter_list_all2)
qed

section \<open>What the one manifest holds\<close>

definition declared_by_members :: "member list \<Rightarrow> (dependency \<times> bool) list" where
  "declared_by_members bs = concat (map member_declares bs)"

text \<open>
  A dependency is taken from the first declaration of its key, except for the exclusions, which every declaration
  has to make, and the classpath.
\<close>

definition taken_from :: "(dependency \<times> bool) list \<Rightarrow> dependency \<Rightarrow> bool" where
  "taken_from L d \<longleftrightarrow> (\<exists>x dev. find (\<lambda>(y, _). dep_key y = dep_key d) L = Some (x, dev) \<and>
     d = x\<lparr>dep_exclusions := dep_exclusions d, dep_compile_only := dep_compile_only d, dep_runtime_only := dep_runtime_only d\<rparr>) \<and>
     (\<forall>e. e \<in> set (dep_exclusions d) \<longleftrightarrow> (\<forall>(y, dev) \<in> set L. dep_key y = dep_key d \<longrightarrow> e \<in> set (dep_exclusions y)))"

definition gathered :: "(dependency \<times> bool) list \<Rightarrow> dependency list \<Rightarrow> dependency list \<Rightarrow> bool" where
  "gathered L main dev \<longleftrightarrow> distinct (map dep_key (main @ dev)) \<and>
     dep_key ` set main = {dep_key y | y. (y, False) \<in> set L} \<and>
     dep_key ` set (main @ dev) = (dep_key \<circ> fst) ` set L \<and> (\<forall>d \<in> set (main @ dev). taken_from L d)"

lemma find_snoc: "find P (xs @ [x]) = (case find P xs of Some y \<Rightarrow> Some y | None \<Rightarrow> if P x then Some x else None)"
  by (induction xs) auto

lemma dep_key_flags [simp]:
  "dep_key (d\<lparr>dep_exclusions := es\<rparr>) = dep_key d" "dep_key (d\<lparr>dep_compile_only := c\<rparr>) = dep_key d"
  "dep_key (d\<lparr>dep_runtime_only := r\<rparr>) = dep_key d" "dep_key (merge_dependency d x) = dep_key d"
  by (simp_all add: dep_key_def is_local_def merge_dependency_def cong: option.case_cong)

lemma taken_other: "taken_from L d \<Longrightarrow> dep_key y \<noteq> dep_key d \<Longrightarrow> taken_from (L @ [(y, dev)]) d"
  by (auto simp: taken_from_def find_snoc)

lemma taken_merge:
  assumes "taken_from L d" "dep_key y = dep_key d"
  shows "taken_from (L @ [(y, dev)]) (merge_dependency (d\<lparr>dep_compile_only := c, dep_runtime_only := r\<rparr>) y)"
proof -
  obtain x dev' where x: "find (\<lambda>(y, _). dep_key y = dep_key d) L = Some (x, dev')"
    "d = x\<lparr>dep_exclusions := dep_exclusions d, dep_compile_only := dep_compile_only d, dep_runtime_only := dep_runtime_only d\<rparr>"
    and e: "\<forall>e. e \<in> set (dep_exclusions d) \<longleftrightarrow> (\<forall>(y, dev) \<in> set L. dep_key y = dep_key d \<longrightarrow> e \<in> set (dep_exclusions y))"
    using assms(1) unfolding taken_from_def by blast
  let ?d = "merge_dependency (d\<lparr>dep_compile_only := c, dep_runtime_only := r\<rparr>) y"
  have "?d = x\<lparr>dep_exclusions := dep_exclusions ?d, dep_compile_only := dep_compile_only ?d, dep_runtime_only := dep_runtime_only ?d\<rparr>"
    by (subst x(2)) (simp add: merge_dependency_def)
  moreover have "e \<in> set (dep_exclusions ?d) \<longleftrightarrow> e \<in> set (dep_exclusions d) \<and> e \<in> set (dep_exclusions y)" for e
    by (simp add: merge_dependency_def)
  ultimately show ?thesis using x(1) e assms(2) unfolding taken_from_def by (auto simp: find_snoc)
qed

lemma taken_new:
  assumes "dep_key y \<notin> (dep_key \<circ> fst) ` set L"
  shows "taken_from (L @ [(y, dev)]) y"
proof -
  have "find (\<lambda>(x, _). dep_key x = dep_key y) L = None" using assms by (force simp: find_None_iff)
  moreover have "\<forall>(x, d) \<in> set L. dep_key x \<noteq> dep_key y" using assms by force
  ultimately show ?thesis by (auto simp: taken_from_def find_snoc)
qed

lemma set_update_keys:
  assumes "i < length xs" "distinct (map f xs)"
  shows "x \<in> set (xs[i := y]) \<longleftrightarrow> x = y \<or> x \<in> set xs \<and> f x \<noteq> f (xs ! i)"
proof -
  have "x \<in> set (xs[i := y]) \<longleftrightarrow> (\<exists>j < length xs. x = (if j = i then y else xs ! j))"
    by (auto simp: in_set_conv_nth nth_list_update)
  moreover have "f (xs ! j) = f (xs ! i) \<longleftrightarrow> j = i" if "j < length xs" for j
    using assms that by (metis length_map nth_eq_iff_index_eq nth_map)
  ultimately show ?thesis using assms(1) by (auto simp: in_set_conv_nth) metis
qed

lemma map_update_same: "i < length xs \<Longrightarrow> f y = f (xs ! i) \<Longrightarrow> map f (xs[i := y]) = map f xs"
  by (metis list_update_id map_update)

lemma declare_first_keeps [simp]: "gt_main (declare_first n d g) = gt_main g" "gt_dev (declare_first n d g) = gt_dev g"
  by (auto simp: declare_first_def split: option.splits prod.splits)

lemma gathered_merge:
  assumes "gathered L main dev" "i < length (main @ dev)" "dep_key ((main @ dev) ! i) = dep_key d"
    "d' = merge_dependency (((main @ dev) ! i)\<lparr>dep_compile_only := c, dep_runtime_only := r\<rparr>) d"
  shows "\<forall>x \<in> set ((main @ dev)[i := d']). taken_from (L @ [(d, is_dev)]) x"
proof
  fix x
  assume x: "x \<in> set ((main @ dev)[i := d'])"
  have g: "distinct (map dep_key (main @ dev))" "\<forall>d \<in> set (main @ dev). taken_from L d" using assms(1) unfolding gathered_def by blast+
  from set_update_keys [OF assms(2) g(1)] x have "x = d' \<or> x \<in> set (main @ dev) \<and> dep_key x \<noteq> dep_key d" by (simp add: assms(3))
  then show "taken_from (L @ [(d, is_dev)]) x"
  proof
    assume "x = d'"
    moreover have "taken_from L ((main @ dev) ! i)" using g(2) nth_mem [OF assms(2)] by blast
    ultimately show ?thesis using taken_merge [of L "(main @ dev) ! i" d is_dev r c] assms(3,4) by simp
  next
    assume "x \<in> set (main @ dev) \<and> dep_key x \<noteq> dep_key d"
    then show ?thesis using taken_other [of L x d is_dev] g(2) by auto
  qed
qed

lemma update_after: "(xs @ ys)[length xs + i := y] = xs @ ys[i := y]"
  by (simp add: list_update_append)

lemma keyed_position: "position (keyed k) ds = Some i \<longleftrightarrow> i < length ds \<and> dep_key (ds ! i) = k \<and> (\<forall>j < i. dep_key (ds ! j) \<noteq> k)"
  "position (keyed k) ds = None \<longleftrightarrow> k \<notin> dep_key ` set ds"
  by (auto simp: position_Some position_None keyed_def)

lemma gathered_keys:
  assumes "gathered L main dev"
  shows "(dep_key \<circ> fst) ` set (L @ [(d, b)]) = insert (dep_key d) (dep_key ` set (main @ dev))"
    "{dep_key y | y. (y, False) \<in> set (L @ [(d, b)])} = (if b then dep_key ` set main else insert (dep_key d) (dep_key ` set main))"
  using assms by (auto simp: gathered_def)

lemma place_gathered:
  assumes "gathered L (gt_main g) (gt_dev g)"
  shows "gathered (L @ [(d, b)]) (gt_main (place_dependency d b g)) (gt_dev (place_dependency d b g))"
proof -
  let ?main = "gt_main g" and ?dev = "gt_dev g" and ?k = "dep_key d"
  have dist: "distinct (map dep_key (?main @ ?dev))" and all: "\<forall>d \<in> set (?main @ ?dev). taken_from L d"
    using assms unfolding gathered_def by blast+
  note keys = gathered_keys [OF assms, of d b]
  show ?thesis
  proof (cases "position (keyed ?k) ?main")
    case (Some i)
    then have i: "i < length ?main" "dep_key (?main ! i) = ?k" by (simp_all add: keyed_position)
    let ?new = "merge_dependency (?main ! i) d"
    have same: "map dep_key (?main[i := ?new]) = map dep_key ?main" using i by (intro map_update_same) simp_all
    have "\<forall>x \<in> set ((?main @ ?dev)[i := ?new]). taken_from (L @ [(d, b)]) x"
      using i by (intro gathered_merge [OF assms, where c = "dep_compile_only (?main ! i)" and r = "dep_runtime_only (?main ! i)"]) (simp_all add: nth_append)
    then have taken: "\<forall>x \<in> set (?main[i := ?new] @ ?dev). taken_from (L @ [(d, b)]) x" using i(1) by (simp add: list_update_append)
    have k: "?k \<in> dep_key ` set ?main" using i by (metis image_eqI nth_mem)
    have "dep_key ` set (?main[i := ?new]) = dep_key ` set ?main" using same by (metis list.set_map)
    then show ?thesis using Some taken same dist k unfolding gathered_def keys
      by (simp add: place_dependency_def image_Un insert_absorb)
  next
    case None
    then have main: "?k \<notin> dep_key ` set ?main" by (simp add: keyed_position)
    show ?thesis
    proof (cases "position (keyed ?k) ?dev")
      case None': None
      then have new: "?k \<notin> dep_key ` set (?main @ ?dev)" using main by (simp add: keyed_position image_Un)
      then have d: "taken_from (L @ [(d, b)]) d" using assms by (intro taken_new) (simp add: gathered_def)
      have rest: "\<forall>x \<in> set (?main @ ?dev). taken_from (L @ [(d, b)]) x" using all new taken_other by (metis image_eqI)
      show ?thesis using None None' d rest dist new unfolding gathered_def keys
        by (auto simp: place_dependency_def image_Un)
    next
      case (Some i)
      then have i: "i < length ?dev" "dep_key (?dev ! i) = ?k" by (simp_all add: keyed_position)
      let ?j = "length ?main + i"
      have j: "?j < length (?main @ ?dev)" "(?main @ ?dev) ! ?j = ?dev ! i" using i by simp_all
      show ?thesis
      proof (cases b)
        case True
        let ?new = "merge_dependency (?dev ! i) d"
        have same: "map dep_key (?dev[i := ?new]) = map dep_key ?dev" using i by (intro map_update_same) simp_all
        have "\<forall>x \<in> set ((?main @ ?dev)[?j := ?new]). taken_from (L @ [(d, b)]) x"
          using i j by (intro gathered_merge [OF assms j(1), where c = "dep_compile_only (?dev ! i)" and r = "dep_runtime_only (?dev ! i)"]) simp_all
        then have taken: "\<forall>x \<in> set (?main @ ?dev[i := ?new]). taken_from (L @ [(d, b)]) x" unfolding update_after .
        have k: "?k \<in> dep_key ` set ?dev" using i by (metis image_eqI nth_mem)
        have "dep_key ` set (?dev[i := ?new]) = dep_key ` set ?dev" using same by (metis list.set_map)
        then show ?thesis using None Some True taken same dist k unfolding gathered_def keys
          by (simp add: place_dependency_def image_Un insert_absorb)
      next
        case False
        let ?new = "merge_dependency ((?dev ! i)\<lparr>dep_compile_only := dep_compile_only d, dep_runtime_only := dep_runtime_only d\<rparr>) d"
        let ?rest = "take i ?dev @ drop (i + 1) ?dev"
        have "\<forall>x \<in> set ((?main @ ?dev)[?j := ?new]). taken_from (L @ [(d, b)]) x"
          using i j by (intro gathered_merge [OF assms j(1), where c = "dep_compile_only d" and r = "dep_runtime_only d"]) simp_all
        moreover have upd: "?dev[i := ?new] = take i ?dev @ ?new # drop (i + 1) ?dev" using i(1) by (simp add: upd_conv_take_nth_drop)
        ultimately have taken: "\<forall>x \<in> set (?main @ [?new] @ ?rest). taken_from (L @ [(d, b)]) x" unfolding update_after upd by auto
        have split: "?dev = take i ?dev @ ?dev ! i # drop (i + 1) ?dev" using i(1) by (simp add: id_take_nth_drop)
        have devk: "map dep_key ?dev = map dep_key (take i ?dev) @ ?k # map dep_key (drop (i + 1) ?dev)"
          by (subst split) (simp add: i(2))
        have "distinct (map dep_key ?main @ map dep_key (take i ?dev) @ ?k # map dep_key (drop (i + 1) ?dev))"
          using dist devk by (metis map_append)
        then have dist': "distinct (map dep_key (?main @ [?new] @ ?rest))" by (auto simp: i(2))
        have "set (map dep_key ?dev) = insert ?k (set (map dep_key ?rest))" unfolding devk by auto
        then have "dep_key ` set ?dev = insert ?k (dep_key ` set ?rest)" by (simp only: list.set_map)
        then show ?thesis using None Some False taken dist' unfolding gathered_def keys
          by (simp add: place_dependency_def image_Un i(2) insert_commute)
      qed
    qed
  qed
qed

lemma fold_gathered:
  "gathered L (gt_main g) (gt_dev g) \<Longrightarrow>
     gathered (L @ ds) (gt_main (fold (gather_dependency n) ds g)) (gt_dev (fold (gather_dependency n) ds g))"
proof (induction ds arbitrary: L g)
  case (Cons x ds)
  obtain d b where x: "x = (d, b)" by (cases x)
  have "gathered L (gt_main (declare_first n d g)) (gt_dev (declare_first n d g))" using Cons.prems by simp
  from Cons.IH [OF place_gathered [OF this, of d b]] show ?case by (simp add: x gather_dependency_def)
qed simp

lemma members_gathered:
  "gathered L (gt_main g) (gt_dev g) \<Longrightarrow> gathered (L @ declared_by_members bs) (gt_main (fold gather_member bs g)) (gt_dev (fold gather_member bs g))"
proof (induction bs arbitrary: L g)
  case (Cons b bs)
  from Cons.IH [OF fold_gathered [OF Cons.prems, of "member_declares b" "mb_name b"]] show ?case
    by (simp add: gather_member_def declared_by_members_def)
qed (simp add: declared_by_members_def)

text \<open>Which compilers are turned on, each once.\<close>

definition compilers :: "language_config list \<Rightarrow> (language \<times> str) set" where
  "compilers cs = (\<lambda>c. (lc_language c, lc_version c)) ` set cs"

lemma add_language_compilers:
  assumes "add_language c cs = Inr cs'" "distinct (map lc_language cs)"
  shows "distinct (map lc_language cs') \<and> compilers cs' = insert (lc_language c, lc_version c) (compilers cs)"
proof (cases "position (\<lambda>e. lc_language e = lc_language c) cs")
  case None
  then have "cs' = cs @ [c]" using assms(1) by (simp add: add_language_def)
  then show ?thesis using None [unfolded position_None] assms(2) by (auto simp: compilers_def)
next
  case (Some i)
  let ?e = "(cs ! i)\<lparr>lc_plugins := fold push_new (lc_plugins c) (lc_plugins (cs ! i))\<rparr>"
  have i: "i < length cs" "lc_language (cs ! i) = lc_language c" using Some by (simp_all add: position_Some)
  have v: "lc_version (cs ! i) = lc_version c" "cs' = cs[i := ?e]" using assms(1) Some by (simp_all add: add_language_def split: if_splits)
  have "map lc_language cs' = map lc_language cs" "map (\<lambda>c. (lc_language c, lc_version c)) cs' = map (\<lambda>c. (lc_language c, lc_version c)) cs"
    unfolding v(2) by (rule map_update_same [OF i(1)], simp)+
  moreover from this(2) have "compilers cs' = compilers cs" unfolding compilers_def by (metis list.set_map)
  moreover have "(lc_language c, lc_version c) \<in> compilers cs" unfolding compilers_def
    by (rule image_eqI [of _ _ "cs ! i"]) (simp_all add: i v(1))
  ultimately show ?thesis using assms(2) by (simp add: insert_absorb)
qed

lemma add_languages_compilers:
  "fold_each add_language ls cs = Inr cs' \<Longrightarrow> distinct (map lc_language cs) \<Longrightarrow>
     distinct (map lc_language cs') \<and> compilers cs' = compilers ls \<union> compilers cs"
proof (induction ls arbitrary: cs)
  case (Cons l ls)
  then obtain cs1 where "add_language l cs = Inr cs1" "fold_each add_language ls cs1 = Inr cs'" by (auto simp: and_then_Inr)
  with Cons.IH add_language_compilers [of l cs cs1] Cons.prems(2) show ?case by (auto simp: compilers_def)
qed (simp add: compilers_def)

lemma members_aggregated:
  "fold_each aggregate_member bs (agg, g) = Inr (agg', g') \<Longrightarrow> distinct (map lc_language (mf_languages agg)) \<Longrightarrow>
     g' = fold gather_member bs g \<and> distinct (map lc_language (mf_languages agg')) \<and>
     compilers (mf_languages agg') = (\<Union>b \<in> set bs. compilers (mf_languages (mb_manifest b))) \<union> compilers (mf_languages agg)"
proof (induction bs arbitrary: agg g)
  case (Cons b bs)
  then obtain agg1 g1 where one: "aggregate_member b (agg, g) = Inr (agg1, g1)" "fold_each aggregate_member bs (agg1, g1) = Inr (agg', g')"
    by (auto simp: and_then_Inr)
  from one(1) have "g1 = gather_member b g"
    "fold_each add_language (mf_languages (mb_manifest b)) (mf_languages agg) = Inr (mf_languages agg1)"
    by (auto simp: aggregate_member_def Let_def and_then_Inr)
  with Cons.IH [OF one(2)] add_languages_compilers [OF _ Cons.prems(2)] show ?case by auto
qed simp


section \<open>An example\<close>

definition example_app :: member where
  "example_app = \<lparr>mb_dir = ''app'', mb_manifest = (blank ''app'' ''1'' ''/w/app'')\<lparr>mf_dependencies :=
       [(dependency_new ''g'' ''a'' ''1'')\<lparr>dep_exclusions := [\<lparr>ex_group = ''g'', ex_artifact = ''x''\<rparr>]\<rparr>]\<rparr>, mb_modules = [(1, CpCompile)]\<rparr>"

definition example_core :: member where
  "example_core = \<lparr>mb_dir = ''core'', mb_manifest = (blank ''core'' ''1'' ''/w/core'')\<lparr>mf_dependencies := [dependency_new ''g'' ''a'' ''2'',
       (dependency_new ''g'' ''b'' ''1'')\<lparr>dep_runtime_only := True\<rparr>]\<rparr>, mb_modules = []\<rparr>"

definition example_pair :: workspace where
  "example_pair = \<lparr>ws_root = ''/w'', ws_path = ''/w/jrs.toml'', ws_name = ''w'', ws_members = [example_app, example_core], ws_order = [1, 0],
     ws_warnings = [], ws_parallel_tests = False\<rparr>"

definition example_aggregate :: "manifest \<times> message list" where
  "example_aggregate = (case aggregate example_pair of Inr x \<Rightarrow> x | Inl _ \<Rightarrow> (blank [] [] [], []))"


definition example_package :: "str \<Rightarrow> ga list \<Rightarrow> package" where
  "example_package artifact deps = \<lparr>pkg_coord = coord_new ''g'' artifact ''1'', pkg_classpath = CpCompile, pkg_packaging = ''jar'', pkg_depth = 1,
     pkg_direct = True, pkg_dependencies = deps, pkg_jar = None, pkg_checksum = None, pkg_mediated = False, pkg_managed = False\<rparr>"

definition example_graph :: resolution where
  "example_graph = \<lparr>res_packages = [example_package ''a'' [ga_new ''g'' ''x'', ga_new ''g'' ''y''], example_package ''b'' [],
       example_package ''x'' [], example_package ''y'' []],
     res_roots = [ga_new ''g'' ''a'', ga_new ''g'' ''b''], res_test_roots = [], res_warnings = [], res_downloaded = 0, res_local = []\<rparr>"

theorem project_share_exact_witness:
  "map (\<lambda>p. (coord_artifact (pkg_coord p), pkg_classpath p, pkg_depth p)) (res_packages (project_share example_pair 0 example_graph)) =
     [(''a'', CpCompile, 1), (''b'', CpRuntime, 2), (''x'', CpCompile, 3), (''y'', CpCompile, 2)] \<and>
   length (filter (\<lambda>p. in_share example_graph (share_roots example_pair 0) (pkg_ga p)) (res_packages example_graph)) = 4"
proof -
  have d: "distinct (map pkg_ga (res_packages example_graph))" by code_simp
  have s: "map (\<lambda>p. (coord_artifact (pkg_coord p), pkg_classpath p, pkg_depth p)) (res_packages (project_share example_pair 0 example_graph)) =
     [(''a'', CpCompile, 1), (''b'', CpRuntime, 2), (''x'', CpCompile, 3), (''y'', CpCompile, 2)]" by code_simp
  then have "length (res_packages (project_share example_pair 0 example_graph)) = 4" by (auto dest: arg_cong [of _ _ length])
  with s list_all2_lengthD [OF project_share_exact [OF d, of example_pair 0]] show ?thesis by simp
qed

end
