(* ===== verification/WorkspaceLoad.thy ===== *)
theory WorkspaceLoad
  imports Aggregate ManifestSound
begin

text \<open>
  \<^verbatim>\<open>src/src/workspace.rs\<close>: a workspace from its files. The root's table, the shared tables its members inherit
  (\<^verbatim>\<open>inherit\<close>), reading every member (\<^verbatim>\<open>Workspace::load\<close>), and finding the workspace a manifest belongs to
  (\<^verbatim>\<open>Workspace::find\<close>). What reading a file gives, the TOML reader and \<open>reading\<close> are arguments.
\<close>

section \<open>Shared tables\<close>

definition shared_tables :: "str list" where
  "shared_tables = [''java'', ''repositories'', ''managed'']"

definition shared_languages :: "str list" where
  "shared_languages = [''kotlin'', ''scala'', ''groovy'']"

definition workspace_keys :: "str list" where
  "workspace_keys = [''members'', ''parallel-tests'', ''group'']"

definition shared_list :: "str list" where
  "shared_list = map (\<lambda>k. ''['' @ k @ '']'') (shared_tables @ shared_languages)"

definition inherit_missing :: "toml_table \<Rightarrow> toml_table \<Rightarrow> toml_table" where
  "inherit_missing root own = fold (\<lambda>(k, v) o'. if has_key o' k then o' else o' @ [(k, v)]) root own"

definition inherit_table :: "str \<times> toml \<Rightarrow> toml_table \<Rightarrow> toml_table" where
  "inherit_table = (\<lambda>(key, v) member.
     case v of
       TomlTable root \<Rightarrow>
         if key \<in> set shared_languages \<and> \<not> has_key member key then member
         else (case map_of member key of
             None \<Rightarrow> member @ [(key, TomlTable (inherit_missing root []))]
           | Some (TomlTable own) \<Rightarrow> hm_put key (TomlTable (inherit_missing root own)) member
           | Some _ \<Rightarrow> member)
     | _ \<Rightarrow> member)"

definition inherit_tables :: "toml_table \<Rightarrow> toml_table \<Rightarrow> toml_table" where
  "inherit_tables member shared = fold inherit_table shared member"

section \<open>Paths\<close>

definition path_absolute :: "str \<Rightarrow> str \<Rightarrow> str result" where
  "path_absolute cwd p =
     (if p = [] then Inl (IoErr p (Msg ''cannot make an empty path absolute'' []))
      else
        let cs = (case components p of CurDir # rest \<Rightarrow> rest | cs \<Rightarrow> cs);
            double = starts_with ''//'' p \<and> \<not> starts_with ''///'' p;
            start = (if starts_with ''/'' p then if double then ''//'' else [] else cwd);
            normalized = fold (\<lambda>c acc. path_join acc (component_str c)) (if double then drop 1 cs else cs) start
        in Inr (if ends_with ''/'' p then path_join normalized [] else normalized))"

definition path_file_name :: "str \<Rightarrow> str option" where
  "path_file_name p = (case rev (components p) of Normal s # _ \<Rightarrow> Some s | _ \<Rightarrow> None)"

definition relative_dir :: "str \<Rightarrow> str \<Rightarrow> str option" where
  "relative_dir root dir =
     (if path_starts_with dir root
      then let parts = map component_str (drop (length (components root)) (components dir)) in
        Some (if parts = [] then ''.'' else join_with ''/'' parts)
      else None)"

section \<open>Loading\<close>

definition read_table :: "toml_reader \<Rightarrow> (str \<Rightarrow> file_read) \<Rightarrow> str \<Rightarrow> toml_table option result" where
  "read_table from_str read p =
     (case read p of
        FileText s \<Rightarrow> and_then (parse_toml from_str s p) (\<lambda>t. Inr (Some t))
      | FileMissing \<Rightarrow> Inr None
      | FileError e \<Rightarrow> Inl (IoErr p (Msg e [])))"

definition declared_group :: "toml_table \<Rightarrow> str option result" where
  "declared_group section' =
     (case map_of section' ''group'' of
        None \<Rightarrow> Inr None
      | Some v \<Rightarrow>
          and_then (ok_or (mf_err ''workspace.group must be a string'' []) (tv_str v)) (\<lambda>g.
          and_then (check_project_group g ''workspace.group'') (\<lambda>_. Inr (Some g))))"

definition new_member :: "str \<Rightarrow> manifest \<Rightarrow> member" where
  "new_member dir m = \<lparr>mb_dir = dir, mb_manifest = m, mb_modules = []\<rparr>"

definition load_member :: "reading \<Rightarrow> toml_reader \<Rightarrow> (str \<Rightarrow> file_read) \<Rightarrow> toml_table \<Rightarrow> str \<Rightarrow> toml \<Rightarrow> member list \<Rightarrow> member list result" where
  "load_member rg from_str read shared root v members =
     and_then (ok_or (mf_err ''workspace.members must hold directory names'' []) (tv_str v)) (\<lambda>raw.
     and_then (case ws_normalize raw of
         Inl why \<Rightarrow> Inl (mf_err ''workspace.members names what is not inside the workspace'' [raw, why])
       | Inr dir \<Rightarrow> Inr dir) (\<lambda>dir.
     and_then (ensure (dir \<noteq> ''.'') (mf_err ''workspace.members names the root itself'' [])) (\<lambda>_.
     and_then (ensure (\<not> list_ex (\<lambda>b. mb_dir b = dir) members) (mf_err ''workspace.members names it twice'' [dir])) (\<lambda>_.
     let member_root = path_join root dir; member_path = path_join member_root manifest_file in
     and_then (case read member_path of
         FileText s \<Rightarrow> Inr s
       | FileMissing \<Rightarrow> Inl (mf_err ''the workspace member has no jrs.toml'' [dir, member_path])
       | FileError e \<Rightarrow> Inl (IoErr member_path (Msg e []))) (\<lambda>s.
     and_then (parse_toml from_str s member_path) (\<lambda>table.
     and_then (ensure (\<not> has_key table ''workspace'') (mf_err ''has a [workspace] of its own'' [member_path])) (\<lambda>_.
     and_then (from_table rg (inherit_tables table shared) member_path member_root) (\<lambda>m.
     Inr (members @ [new_member dir m])))))))))"

definition shared_of :: "toml_table \<Rightarrow> toml_table" where
  "shared_of table = filter (\<lambda>(k, v). k \<in> set shared_tables \<or> k \<in> set shared_languages) table"

definition root_warnings :: "toml_table \<Rightarrow> message list" where
  "root_warnings table =
     map (\<lambda>k. Msg ''in a workspace root without [project] applies to nothing'' (k # shared_list))
       (filter (\<lambda>k. \<not> (k = ''workspace'' \<or> k \<in> set shared_tables \<or> k \<in> set shared_languages)) (keys_of table))"

definition root_member :: "reading \<Rightarrow> toml_table \<Rightarrow> str \<Rightarrow> str \<Rightarrow> member list result" where
  "root_member rg table p root =
     (if has_key table ''project'' then and_then (from_table rg table p root) (\<lambda>m. Inr [new_member ''.'' m]) else Inr [])"

definition workspace_load :: "reading \<Rightarrow> toml_reader \<Rightarrow> (str \<Rightarrow> file_read) \<Rightarrow> str \<Rightarrow> toml_table \<Rightarrow> workspace result" where
  "workspace_load rg from_str read p0 table =
     and_then (path_absolute (rg_cwd rg) p0) (\<lambda>p.
     let root = value_or ''.'' (path_parent p) in
     and_then (ok_or (mf_err ''workspace must be a table'' [])
       (case map_of table ''workspace'' of Some v \<Rightarrow> tv_table v | None \<Rightarrow> None)) (\<lambda>section'.
     and_then (ok_or (mf_err ''[workspace] needs members'' [p]) (map_of section' ''members'')) (\<lambda>listed.
     and_then (ok_or (mf_err ''workspace.members must be an array'' []) (tv_array listed)) (\<lambda>listed.
     and_then (case map_of section' ''parallel-tests'' of
         None \<Rightarrow> Inr False
       | Some v \<Rightarrow> ok_or (mf_err ''workspace.parallel-tests must be true or false'' []) (tv_bool v)) (\<lambda>parallel_tests.
     and_then (root_member rg table p root) (\<lambda>first.
     and_then (fold_each (load_member rg from_str read (shared_of table) root) listed first) (\<lambda>members.
     and_then (ensure (members \<noteq> []) (mf_err ''the workspace has no members'' [p])) (\<lambda>_.
     and_then (check_member_names members) (\<lambda>_.
     and_then (declared_group section') (\<lambda>declared.
     and_then (load_members declared members) (\<lambda>(ms, order).
     Inr \<lparr>ws_root = root, ws_path = p,
       ws_name = (case find (\<lambda>b. mb_dir b = ''.'') ms of Some b \<Rightarrow> mb_name b | None \<Rightarrow> value_or ''workspace'' (path_file_name root)),
       ws_members = ms, ws_order = order,
       ws_warnings = map (\<lambda>k. Msg ''unknown key in [workspace] (ignored)'' [k]) (filter (\<lambda>k. k \<notin> set workspace_keys) (keys_of section')) @
         (if has_key table ''project'' then [] else root_warnings table),
       ws_parallel_tests = parallel_tests\<rparr>)))))))))))"

section \<open>Finding it\<close>

definition listed_members :: "toml_table \<Rightarrow> toml option" where
  "listed_members table = (case map_of table ''workspace'' of Some (TomlTable t) \<Rightarrow> map_of t ''members'' | _ \<Rightarrow> None)"

definition lists_dir :: "toml \<Rightarrow> str option \<Rightarrow> bool" where
  "lists_dir members wanted = list_ex (\<lambda>m. case tv_str m of
       Some s \<Rightarrow> (case ws_normalize s of Inr dir \<Rightarrow> Some dir = wanted | Inl _ \<Rightarrow> False) | None \<Rightarrow> False) (value_or [] (tv_array members))"

function find_above :: "reading \<Rightarrow> toml_reader \<Rightarrow> (str \<Rightarrow> file_read) \<Rightarrow> str \<Rightarrow> str \<Rightarrow> (workspace \<times> nat option) option result" where
  "find_above rg from_str read dir candidate =
     (let root_manifest = path_join candidate manifest_file;
          up = (case path_parent candidate of Some parent \<Rightarrow> find_above rg from_str read dir parent | None \<Rightarrow> Inr None) in
      case read_table from_str read root_manifest of
        Inr (Some table) \<Rightarrow>
          (case listed_members table of
             Some members \<Rightarrow>
               (let wanted = relative_dir candidate dir in
                if \<not> lists_dir members wanted then Inr None
                else and_then (workspace_load rg from_str read root_manifest table) (\<lambda>ws.
                  Inr (Some (ws, position (\<lambda>b. Some (mb_dir b) = wanted) (ws_members ws)))))
           | None \<Rightarrow> up)
      | _ \<Rightarrow> up)"
  by pat_completeness auto
termination
  by (relation "measure (\<lambda>(rg, from_str, read, dir, candidate). length candidate)") (auto dest: path_parent_shorter)

declare find_above.simps [simp del]

definition workspace_find :: "reading \<Rightarrow> toml_reader \<Rightarrow> (str \<Rightarrow> file_read) \<Rightarrow> str \<Rightarrow> (workspace \<times> nat option) option result" where
  "workspace_find rg from_str read p0 =
     and_then (path_absolute (rg_cwd rg) p0) (\<lambda>p.
     and_then (read_table from_str read p) (\<lambda>t.
     case (case t of Some table \<Rightarrow> if has_key table ''workspace'' then Some table else None | None \<Rightarrow> None) of
       Some table \<Rightarrow> and_then (workspace_load rg from_str read p table) (\<lambda>ws. Inr (Some (ws, None)))
     | None \<Rightarrow> (case path_parent p of
         None \<Rightarrow> Inr None
       | Some dir \<Rightarrow> (case path_parent dir of None \<Rightarrow> Inr None | Some candidate \<Rightarrow> find_above rg from_str read dir candidate))))"

section \<open>What a member inherits\<close>

text \<open>\<open>own\<close> with what it lacks of \<open>root\<close>, and nothing of its own changed or moved.\<close>

definition fills_gaps :: "toml_table \<Rightarrow> toml_table \<Rightarrow> toml_table \<Rightarrow> bool" where
  "fills_gaps root own o' \<longleftrightarrow> map_of o' = map_of root ++ map_of own \<and> take (length own) o' = own"

lemma inherit_missing_fills: "fills_gaps root own (inherit_missing root own)"
  unfolding inherit_missing_def
proof (induction root arbitrary: own)
  case (Cons e root)
  obtain k v where e: "e = (k, v)" by (cases e)
  let ?own = "if has_key own k then own else own @ [(k, v)]"
  have "fills_gaps root ?own (fold (\<lambda>(k, v) o'. if has_key o' k then o' else o' @ [(k, v)]) root ?own)" by (rule Cons.IH)
  then have o': "fills_gaps root ?own (fold (\<lambda>(k, v) o'. if has_key o' k then o' else o' @ [(k, v)]) (e # root) own)" (is "fills_gaps _ _ ?o") using e by simp
  have "map_of root ++ map_of ?own = map_of (e # root) ++ map_of own"
    using e by (auto simp: fun_eq_iff map_add_def has_key_def split: option.splits)
  with o' [unfolded fills_gaps_def, THEN conjunct1] have m: "map_of ?o = map_of (e # root) ++ map_of own" by (rule trans)
  have "take (length ?own) ?o = ?own" using o' unfolding fills_gaps_def by (rule conjunct2)
  then have "take (length own) (take (length ?own) ?o) = take (length own) ?own" by (rule arg_cong)
  then have "take (length own) ?o = own" by (simp add: min_def del: fold_simps split: if_splits)
  with m show ?case unfolding fills_gaps_def by (rule conjI)
qed (simp add: fills_gaps_def)

text \<open>What a member's table has at \<open>k\<close>, given what the root shares and what the member has there.\<close>

definition inherits :: "str \<Rightarrow> toml option \<Rightarrow> toml option \<Rightarrow> toml option \<Rightarrow> bool" where
  "inherits k root own got \<longleftrightarrow>
     (case (root, own) of
        (Some (TomlTable r), Some (TomlTable t)) \<Rightarrow> \<exists>t'. got = Some (TomlTable t') \<and> fills_gaps r t t'
      | (Some (TomlTable r), None) \<Rightarrow>
          if k \<in> set shared_languages then got = None else \<exists>t'. got = Some (TomlTable t') \<and> fills_gaps r [] t'
      | _ \<Rightarrow> got = own)"

lemma inherit_table_other:
  assumes "k \<noteq> key"
  shows "map_of (inherit_table (key, v) member) k = map_of member k"
proof (cases v)
  case (TomlTable root)
  show ?thesis
  proof (cases "map_of member key")
    case None
    then show ?thesis using assms by (simp add: TomlTable inherit_table_def map_add_def split: option.split)
  next
    case (Some own)
    show ?thesis using assms by (cases own) (simp_all add: TomlTable Some inherit_table_def map_of_hm_put)
  qed
qed (simp_all add: inherit_table_def)

lemma inherit_table_same: "inherits k (Some v) (map_of member k) (map_of (inherit_table (k, v) member) k)"
proof (cases v)
  case (TomlTable root)
  show ?thesis
  proof (cases "map_of member k")
    case None
    then show ?thesis using inherit_missing_fills [of root "[]"]
      by (simp add: TomlTable inherits_def inherit_table_def has_key_def map_add_def)
  next
    case (Some own)
    have there: "has_key member k" using Some by (simp add: has_key_def)
    show ?thesis using inherit_missing_fills [of root]
      by (cases own) (simp_all add: TomlTable Some there inherits_def inherit_table_def map_of_hm_put)
  qed
qed (simp_all add: inherits_def inherit_table_def)

lemma inherit_tables_other: "k \<notin> fst ` set shared \<Longrightarrow> map_of (inherit_tables member shared) k = map_of member k"
  unfolding inherit_tables_def
  by (induction shared arbitrary: member) (auto simp: inherit_table_other)

text \<open>
  Property C0. A member inherits the root's shared tables key by key: what it states itself stays, in its place and as it
  is written; a key of the root's table it does not state is the root's; a table it does not have is the root's, but for a
  language, which a member turns on itself; and what is no table, or not shared, is left alone.
\<close>

theorem member_inherits:
  assumes "distinct (map fst shared)"
  shows "inherits k (map_of shared k) (map_of member k) (map_of (inherit_tables member shared) k)"
  using assms
proof (induction shared arbitrary: member)
  case Nil
  then show ?case by (simp add: inherits_def inherit_tables_def)
next
  case (Cons e shared)
  obtain key v where e: "e = (key, v)" by (cases e)
  have step: "inherit_tables member (e # shared) = inherit_tables (inherit_table e member) shared" by (simp add: inherit_tables_def)
  show ?case
  proof (cases "k = key")
    case True
    then have "k \<notin> fst ` set shared" using Cons.prems e by auto
    then show ?thesis unfolding step
      using inherit_table_same [of k v member] True e by (simp add: inherit_tables_other)
  next
    case False
    then have "map_of (e # shared) k = map_of shared k" "map_of (inherit_table e member) k = map_of member k"
      using e by (simp_all add: inherit_table_other)
    then show ?thesis using Cons.IH [of "inherit_table e member"] Cons.prems unfolding step by simp
  qed
qed

theorem member_inherits_witness:
  "\<exists>t. map_of (inherit_tables [(''java'', TomlTable [(''release'', TomlInteger 17)])]
      [(''java'', TomlTable [(''release'', TomlInteger 21), (''preview'', TomlBoolean True)])]) ''java'' = Some (TomlTable t) \<and>
    map_of t ''release'' = Some (TomlInteger 17) \<and> map_of t ''preview'' = Some (TomlBoolean True)"
  using member_inherits [of "[(''java'', TomlTable [(''release'', TomlInteger 21), (''preview'', TomlBoolean True)])]" "''java''"
      "[(''java'', TomlTable [(''release'', TomlInteger 17)])]"]
  by (auto simp: inherits_def fills_gaps_def)

section \<open>What loads\<close>

lemma names_checked:
  assumes "check_member_names ms = Inr u"
  shows "distinct (map mb_name ms)"
proof (rule ccontr)
  assume "\<not> distinct (map mb_name ms)"
  then obtain i j where ij: "i < length ms" "j < i" "mb_name (ms ! j) = mb_name (ms ! i)"
    by (fastforce simp: distinct_conv_nth neq_iff)
  have "(i, ms ! i) \<in> set (zip [0..<length ms] ms)" using ij(1) by (force simp: in_set_zip)
  then have "find (\<lambda>x. mb_name x = mb_name (ms ! i)) (take i ms) = None"
    using assms by (force simp: check_member_names_def for_each_Inr split: option.splits)
  then have "ms ! j \<notin> set (take i ms)" using ij(3) by (auto simp: find_None_iff)
  then show False using ij(1,2) by (auto simp: in_set_conv_nth)
qed

text \<open>The manifest a listed directory gives.\<close>

definition member_read :: "reading \<Rightarrow> toml_reader \<Rightarrow> (str \<Rightarrow> file_read) \<Rightarrow> toml_table \<Rightarrow> str \<Rightarrow> str \<Rightarrow> manifest \<Rightarrow> bool" where
  "member_read rg from_str read shared root dir m \<longleftrightarrow>
     (let member_root = path_join root dir; p = path_join member_root manifest_file in
      \<exists>s t. read p = FileText s \<and> parse_toml from_str s p = Inr t \<and> \<not> has_key t ''workspace'' \<and>
        from_table rg (inherit_tables t shared) p member_root = Inr m)"

definition names_dir :: "toml \<Rightarrow> str \<Rightarrow> bool" where
  "names_dir v dir \<longleftrightarrow> dir \<noteq> ''.'' \<and> (\<exists>raw. tv_str v = Some raw \<and> ws_normalize raw = Inr dir)"

lemma load_member_adds:
  assumes "load_member rg from_str read shared root v bs = Inr bs'"
  shows "\<exists>b. bs' = bs @ [b] \<and> mb_dir b \<notin> mb_dir ` set bs \<and> names_dir v (mb_dir b) \<and>
    member_read rg from_str read shared root (mb_dir b) (mb_manifest b)"
proof -
  let ?p = "\<lambda>dir. path_join (path_join root dir) manifest_file"
  from assms obtain raw dir s t m where 1: "tv_str v = Some raw" and 2: "ws_normalize raw = Inr dir" and 3: "dir \<noteq> ''.''"
    and 4: "\<not> list_ex (\<lambda>b. mb_dir b = dir) bs" and 5: "read (?p dir) = FileText s" and 6: "parse_toml from_str s (?p dir) = Inr t"
    and 7: "\<not> has_key t ''workspace''" and 8: "from_table rg (inherit_tables t shared) (?p dir) (path_join root dir) = Inr m"
    and 9: "bs' = bs @ [new_member dir m]"
    unfolding load_member_def Let_def
    by (auto simp: and_then_Inr ok_or_def split: option.splits sum.splits file_read.splits)
  have b: "mb_dir (new_member dir m) = dir" "mb_manifest (new_member dir m) = m" by (simp_all add: new_member_def)
  have "member_read rg from_str read shared root dir m" unfolding member_read_def Let_def using 5 6 7 8 by blast
  moreover have "names_dir v dir" unfolding names_dir_def using 1 2 3 by blast
  moreover have "dir \<notin> mb_dir ` set bs" using 4 by (auto simp: list_ex_iff)
  ultimately show ?thesis using 9 b by metis
qed

lemma load_members_add:
  assumes "fold_each (load_member rg from_str read shared root) listed bs = Inr bs'" "distinct (map mb_dir bs)"
  shows "\<exists>cs. bs' = bs @ cs \<and> distinct (map mb_dir bs') \<and> list_all2 names_dir listed (map mb_dir cs) \<and>
    (\<forall>c \<in> set cs. member_read rg from_str read shared root (mb_dir c) (mb_manifest c))"
  using assms
proof (induction listed arbitrary: bs)
  case (Cons v listed)
  from Cons.prems(1) obtain bs1 where one: "load_member rg from_str read shared root v bs = Inr bs1"
    and rest: "fold_each (load_member rg from_str read shared root) listed bs1 = Inr bs'" by (auto simp: and_then_Inr)
  from load_member_adds [OF one] obtain b where b: "bs1 = bs @ [b]" "mb_dir b \<notin> mb_dir ` set bs" "names_dir v (mb_dir b)"
    "member_read rg from_str read shared root (mb_dir b) (mb_manifest b)" by blast
  have "distinct (map mb_dir bs1)" using b(1,2) Cons.prems(2) by auto
  from Cons.IH [OF rest this] obtain cs where cs: "bs' = bs1 @ cs" "distinct (map mb_dir bs')"
    "list_all2 names_dir listed (map mb_dir cs)" "\<forall>c \<in> set cs. member_read rg from_str read shared root (mb_dir c) (mb_manifest c)" by blast
  have "bs' = bs @ (b # cs)" using cs(1) b(1) by simp
  moreover have "list_all2 names_dir (v # listed) (map mb_dir (b # cs))" using cs(3) b(3) by simp
  ultimately show ?case using cs(2,4) b(4) by (intro exI [of _ "b # cs"] conjI) auto
qed simp

lemma load_members_keeps:
  assumes "load_members declared ms0 = Inr (ms, order)"
  shows "map mb_dir ms = map mb_dir ms0 \<and> map mb_name ms = map mb_name ms0 \<and>
    map mb_manifest ms = map mb_manifest (inherit_group declared ms0)"
proof -
  obtain edges where e: "module_edges (inherit_group declared ms0) = Inr edges"
      "ms = map (\<lambda>(b, es). b\<lparr>mb_modules := es\<rparr>) (zip (inherit_group declared ms0) edges)"
    using load_members_parts [OF assms] .
  have len: "length edges = length ms0" using module_edges_range [OF e(1)] by (simp add: inherit_group_def)
  have "map mb_dir ms = map mb_dir (inherit_group declared ms0)" "map mb_manifest ms = map mb_manifest (inherit_group declared ms0)"
    unfolding e(2) using len by (auto intro!: nth_equalityI simp: inherit_group_def)
  moreover have "map mb_dir (inherit_group declared ms0) = map mb_dir ms0" "map mb_name (inherit_group declared ms0) = map mb_name ms0"
    by (simp_all add: inherit_group_def)
  moreover have "map mb_name ms = map mf_name (map mb_manifest ms)" "map mb_name (inherit_group declared ms0) = map mf_name (map mb_manifest (inherit_group declared ms0))"
    by simp_all
  ultimately show ?thesis by metis
qed

lemma tv_table_Some: "tv_table v = Some t \<longleftrightarrow> v = TomlTable t" by (cases v) auto

lemma workspace_load_parts:
  assumes "workspace_load rg from_str read p0 table = Inr ws"
  obtains section' v listed own members declared where
    "map_of table ''workspace'' = Some (TomlTable section')" "map_of section' ''members'' = Some v" "tv_array v = Some listed"
    "root_member rg table (ws_path ws) (ws_root ws) = Inr own"
    "fold_each (load_member rg from_str read (shared_of table) (ws_root ws)) listed own = Inr members"
    "members \<noteq> []" "check_member_names members = Inr ()" "declared_group section' = Inr declared"
    "load_members declared members = Inr (ws_members ws, ws_order ws)"
    "path_absolute (rg_cwd rg) p0 = Inr (ws_path ws)" "ws_root ws = value_or ''.'' (path_parent (ws_path ws))"
proof -
  let ?root = "\<lambda>p. value_or ''.'' (path_parent p)"
  from assms obtain p section' v listed own members declared where
    1: "map_of table ''workspace'' = Some (TomlTable section')" and 2: "map_of section' ''members'' = Some v" and 3: "tv_array v = Some listed"
    and 4: "root_member rg table p (?root p) = Inr own"
    and 5: "fold_each (load_member rg from_str read (shared_of table) (?root p)) listed own = Inr members"
    and 6: "members \<noteq> []" and 7: "check_member_names members = Inr ()" and 8: "declared_group section' = Inr declared"
    and 9: "load_members declared members = Inr (ws_members ws, ws_order ws)"
    and 10: "path_absolute (rg_cwd rg) p0 = Inr p" and 11: "ws_path ws = p" and 12: "ws_root ws = ?root p"
    unfolding workspace_load_def Let_def by (auto simp: and_then_Inr tv_table_Some split: option.splits)
  show ?thesis by (rule that [of section' v listed own members declared]) (use 1 2 3 4 5 6 7 8 9 10 11 12 in simp_all)
qed

text \<open>What the manifest of a member is read as, before it has a group.\<close>

definition loaded_from :: "reading \<Rightarrow> toml_reader \<Rightarrow> (str \<Rightarrow> file_read) \<Rightarrow> toml_table \<Rightarrow> str \<Rightarrow> str \<Rightarrow> str \<Rightarrow> manifest \<Rightarrow> bool" where
  "loaded_from rg from_str read table p root dir m \<longleftrightarrow>
     (if dir = ''.'' then from_table rg table p root = Inr m else member_read rg from_str read (shared_of table) root dir m)"

lemma loaded_from_ok: "loaded_from rg from_str read table p root dir m \<Longrightarrow> project_ok m \<and> settings_ok m \<and> graph_ok m"
  unfolding loaded_from_def member_read_def Let_def by (auto dest: from_table_ok split: if_splits)

lemma root_member_dirs:
  assumes "root_member rg table p root = Inr own"
  shows "map mb_dir own = (if has_key table ''project'' then [''.''] else []) \<and>
    (\<forall>b \<in> set own. from_table rg table p root = Inr (mb_manifest b))"
  using assms by (auto simp: root_member_def new_member_def and_then_Inr split: if_splits)

lemma members_read:
  assumes own: "root_member rg table p root = Inr own"
    and rest: "fold_each (load_member rg from_str read (shared_of table) root) listed own = Inr members"
  shows "\<exists>dirs. list_all2 names_dir listed dirs \<and> distinct (map mb_dir members) \<and>
    map mb_dir members = (if has_key table ''project'' then [''.''] else []) @ dirs \<and>
    (\<forall>b \<in> set members. loaded_from rg from_str read table p root (mb_dir b) (mb_manifest b))"
proof -
  note first = root_member_dirs [OF own]
  have "distinct (map mb_dir own)" using first by simp
  from load_members_add [OF rest this] obtain cs where cs: "members = own @ cs" "distinct (map mb_dir members)"
    "list_all2 names_dir listed (map mb_dir cs)" and read: "\<forall>c \<in> set cs. member_read rg from_str read (shared_of table) root (mb_dir c) (mb_manifest c)" by blast
  have dir: "mb_dir c \<noteq> ''.''" if "c \<in> set cs" for c
    using cs(3) that by (fastforce simp: list_all2_conv_all_nth in_set_conv_nth names_dir_def)
  have "loaded_from rg from_str read table p root (mb_dir b) (mb_manifest b)" if b: "b \<in> set members" for b
  proof (cases "b \<in> set own")
    case True
    then have "mb_dir b \<in> set (map mb_dir own)" by simp
    then have "mb_dir b = ''.''" using first by (simp split: if_splits)
    then show ?thesis using first True by (simp add: loaded_from_def)
  next
    case False
    then have "b \<in> set cs" using b cs(1) by simp
    then show ?thesis using read dir by (simp add: loaded_from_def)
  qed
  then show ?thesis using cs first by (intro exI [of _ "map mb_dir cs"]) simp
qed

lemma inherited_group_valid:
  assumes "declared_group section' = Inr declared" and "\<forall>b \<in> set members. project_ok (mb_manifest b)"
    and "inherited_group declared members = Some g"
  shows "valid_group_pattern g \<and> \<not> ends_with ''.*'' g"
proof (cases declared)
  case None
  with assms(3) obtain b where b: "find (\<lambda>b. mb_dir b = ''.'') members = Some b" "mf_group (mb_manifest b) = Some g"
    by (auto simp: inherited_group_def split: option.splits)
  then have "b \<in> set members" by (auto simp: find_Some_iff)
  then show ?thesis using assms(2) b(2) by (auto simp: project_ok_def)
next
  case (Some g')
  then have "check_project_group g' ''workspace.group'' = Inr ()" using assms(1)
    by (auto simp: declared_group_def and_then_Inr split: option.splits)
  moreover have "g = g'" using assms(3) Some by (simp add: inherited_group_def)
  ultimately show ?thesis using group_checked by blast
qed

lemma with_group_ok:
  assumes "project_ok m" "settings_ok m" "graph_ok m" "\<forall>g. grp = Some g \<longrightarrow> valid_group_pattern g \<and> \<not> ends_with ''.*'' g"
  shows "project_ok (m\<lparr>mf_group := grp\<rparr>)" "settings_ok (m\<lparr>mf_group := grp\<rparr>)" "graph_ok (m\<lparr>mf_group := grp\<rparr>)"
  using assms by (simp_all add: project_ok_def settings_ok_def graph_ok_def)

text \<open>
  Property C0. A workspace that loads is what its root lists: the root itself first, where it is a project, then the
  directories listed, in order, no two the same or with one name; every member's manifest is its file's, with the
  shared tables and the shared group filled in, and is well formed as such; and every member has its place in an order in
  which each comes after those it depends on.
\<close>

theorem workspace_loads:
  assumes "workspace_load rg from_str read p0 table = Inr ws"
  shows "ws_members ws \<noteq> [] \<and> distinct (map mb_name (ws_members ws)) \<and> distinct (map mb_dir (ws_members ws)) \<and>
    (\<exists>v listed dirs. listed_members table = Some v \<and> tv_array v = Some listed \<and> list_all2 names_dir listed dirs \<and>
      map mb_dir (ws_members ws) = (if has_key table ''project'' then [''.''] else []) @ dirs) \<and>
    (\<exists>grp. \<forall>b \<in> set (ws_members ws). \<exists>m. loaded_from rg from_str read table (ws_path ws) (ws_root ws) (mb_dir b) m \<and>
      mb_manifest b = m\<lparr>mf_group := (if mf_group m = None then grp else mf_group m)\<rparr>) \<and>
    (\<forall>b \<in> set (ws_members ws). project_ok (mb_manifest b) \<and> settings_ok (mb_manifest b) \<and> graph_ok (mb_manifest b)) \<and>
    builds (ws_members ws) (ws_order ws) \<and> set (ws_order ws) = {0..<length (ws_members ws)}"
proof -
  from workspace_load_parts [OF assms] obtain section' v listed own members declared where
    table: "map_of table ''workspace'' = Some (TomlTable section')" "map_of section' ''members'' = Some v" "tv_array v = Some listed"
    and own: "root_member rg table (ws_path ws) (ws_root ws) = Inr own"
    and rest: "fold_each (load_member rg from_str read (shared_of table) (ws_root ws)) listed own = Inr members"
    and some: "members \<noteq> []" and names: "check_member_names members = Inr ()" and declared: "declared_group section' = Inr declared"
    and loads: "load_members declared members = Inr (ws_members ws, ws_order ws)" by metis
  let ?ms = "ws_members ws"
  note keeps = load_members_keeps [OF loads]
  from members_read [OF own rest] obtain dirs where dirs: "list_all2 names_dir listed dirs" "distinct (map mb_dir members)"
    "map mb_dir members = (if has_key table ''project'' then [''.''] else []) @ dirs"
    and read: "\<forall>b \<in> set members. loaded_from rg from_str read table (ws_path ws) (ws_root ws) (mb_dir b) (mb_manifest b)" by blast
  have ok: "project_ok (mb_manifest b) \<and> settings_ok (mb_manifest b) \<and> graph_ok (mb_manifest b)" if "b \<in> set members" for b
    using loaded_from_ok [OF read [THEN bspec, OF that]] .
  let ?grp = "inherited_group declared members"
  have member: "\<exists>m. loaded_from rg from_str read table (ws_path ws) (ws_root ws) (mb_dir b) m \<and>
      mb_manifest b = m\<lparr>mf_group := (if mf_group m = None then ?grp else mf_group m)\<rparr> \<and>
      project_ok (mb_manifest b) \<and> settings_ok (mb_manifest b) \<and> graph_ok (mb_manifest b)" if b: "b \<in> set ?ms" for b
  proof -
    from b obtain i where i: "i < length ?ms" "b = ?ms ! i" by (auto simp: in_set_conv_nth)
    have len: "length ?ms = length members" using keeps by (metis length_map)
    let ?b = "members ! i" and ?m = "mb_manifest (members ! i)"
    have in0: "?b \<in> set members" using i(1) len by simp
    let ?g = "if mf_group ?m = None then ?grp else mf_group ?m"
    have dir: "mb_dir b = mb_dir ?b" using keeps i len by (metis nth_map)
    have "mb_manifest b = map mb_manifest (inherit_group declared members) ! i" using keeps i by (metis nth_map)
    then have m: "mb_manifest b = ?m\<lparr>mf_group := ?g\<rparr>" using i(1) len by (simp add: inherit_group_def)
    have valid: "\<forall>g. ?g = Some g \<longrightarrow> valid_group_pattern g \<and> \<not> ends_with ''.*'' g"
      using inherited_group_valid [OF declared] ok in0 by (auto simp: project_ok_def)
    have from_file: "loaded_from rg from_str read table (ws_path ws) (ws_root ws) (mb_dir b) ?m" unfolding dir using read in0 by (rule bspec)
    from ok [OF in0] have "project_ok ?m" "settings_ok ?m" "graph_ok ?m" by blast+
    note with_group_ok [OF this valid, folded m]
    with from_file m show ?thesis by blast
  qed
  have order: "set (ws_order ws) = {0..<length ?ms} \<and> builds ?ms (ws_order ws)"
  proof (rule load_members_parts [OF loads])
    assume "build_order ?ms = Inr (ws_order ws)"
    then show ?thesis using build_order_topological [of ?ms] load_members_range [OF loads] by fastforce
  qed
  have "listed_members table = Some v" using table by (simp add: listed_members_def)
  moreover have "?ms \<noteq> []" using keeps some by (metis map_is_Nil_conv)
  moreover have "distinct (map mb_name ?ms)" using keeps names_checked [OF names] by metis
  ultimately show ?thesis using table(3) dirs keeps member order by metis
qed

end
